(* ===== verification/UkPrelude.thy ===== *)
theory UkPrelude
  imports Main "HOL-Library.Word" "HOL-Library.Monad_Syntax"
begin

text \<open>
  Shared ground of the development: the machine integer types of the x86_64 build, the
  error numbers the Unikraft libraries return, the alignment macros of
  \<^verbatim>\<open>include/uk/essentials.h\<close> and \<^verbatim>\<open>include/uk/page.h\<close>, and the lemmas on words, powers of two
  and aligned blocks that several components use.

  A failing \<^verbatim>\<open>UK_ASSERT\<close> stops the system, so an operation that contains one has an
  \<open>option\<close> result, with \<open>None\<close> for the crash.
\<close>

unbundle bit_operations_syntax

named_theorems word_arith \<comment> \<open>readings of word operations as operations on \<open>nat\<close>\<close>

section \<open>Machine integers, error numbers, assertions\<close>

type_synonym u8 = "8 word"
type_synonym u16 = "16 word"
type_synonym u32 = "32 word"
type_synonym u64 = "64 word"

datatype errno =
    EPERM | ENOENT | EIO | ENXIO | EBADF | EAGAIN | ENOMEM | EBUSY | EEXIST | ENODEV | ENOTDIR
  | EISDIR | EINVAL | ENFILE | EMFILE | EFBIG | ENOSPC | ESPIPE | EPIPE | ERANGE | ENAMETOOLONG
  | ENOTEMPTY | ENOBUFS | ENOTSUP | EOVERFLOW | ENOSYS | EDOOFUS | ENOMSG

definition uk_assert :: "bool \<Rightarrow> unit option" where
  "uk_assert b = (if b then Some () else None)"

lemma uk_assert_True [simp]: "uk_assert True = Some ()"
  and uk_assert_False [simp]: "uk_assert False = None"
  by (simp_all add: uk_assert_def)

lemma uk_assert_eq_Some [simp]: "uk_assert b = Some u \<longleftrightarrow> b"
  by (simp add: uk_assert_def)

lemma uk_assert_bind_Some:
  "Option.bind (uk_assert b) f = Some r \<longleftrightarrow> b \<and> f () = Some r"
  by (simp add: uk_assert_def)

lemma nth_list_update_in: "j < length xs \<Longrightarrow> xs[i := v] ! j = (if i = j then v else xs ! j)"
  by (cases "i = j") auto

text \<open>A value stored in an \<^verbatim>\<open>int\<close>, cut to 32 bits.\<close>

definition wrap32 :: "int \<Rightarrow> int" where
  "wrap32 x = (x + 2 ^ 31) mod 2 ^ 32 - 2 ^ 31"

lemma wrap32_id: "- (2 ^ 31) \<le> x \<Longrightarrow> x < 2 ^ 31 \<Longrightarrow> wrap32 x = x"
  by (simp add: wrap32_def)

section \<open>Alignment\<close>

abbreviation PAGE_SHIFT :: nat where "PAGE_SHIFT \<equiv> 12"

abbreviation PAGE_SIZE :: u64 where "PAGE_SIZE \<equiv> 4096"

definition ALIGN_UP :: "u64 \<Rightarrow> u64 \<Rightarrow> u64" where
  "ALIGN_UP v a = (v + a - 1) AND NOT (a - 1)"

definition ALIGN_DOWN :: "u64 \<Rightarrow> u64 \<Rightarrow> u64" where
  "ALIGN_DOWN v a = v AND NOT (a - 1)"

definition DIV_ROUND_UP :: "u64 \<Rightarrow> u64 \<Rightarrow> u64" where
  "DIV_ROUND_UP v d = (v + d - 1) div d"

definition round_pgup :: "u64 \<Rightarrow> u64" where
  "round_pgup a = ALIGN_UP a PAGE_SIZE"

definition round_pgdown :: "u64 \<Rightarrow> u64" where
  "round_pgdown a = ALIGN_DOWN a PAGE_SIZE"

definition POWER_OF_2 :: "'a::len word \<Rightarrow> bool" where
  "POWER_OF_2 v \<longleftrightarrow> 0 \<noteq> v \<and> 0 = v AND (v - 1)"

text \<open>The number of the page an address lies in.\<close>

definition pfn :: "u64 \<Rightarrow> nat" where
  "pfn a = unat a div 4096"

subsection \<open>Words as natural numbers\<close>

lemma and_not_mask_word: "(x :: 'a::len word) AND NOT (mask n) = push_bit n (drop_bit n x)"
  by (rule bit_word_eqI) (auto simp: bit_simps)

lemma unat_and_not_mask: "unat ((x :: 'a::len word) AND NOT (mask n)) = unat x div 2 ^ n * 2 ^ n"
proof -
  have "unat (push_bit n (drop_bit n x)) = take_bit LENGTH('a) (push_bit n (drop_bit n (unat x)))"
    by (simp add: unsigned_push_bit_eq unat_drop_bit_eq)
  also have "\<dots> = push_bit n (drop_bit n (unat x))"
    by (rule take_bit_nat_eq_self)
      (metis div_times_less_eq_dividend drop_bit_eq_div le_less_trans push_bit_eq_mult unsigned_less)
  finally show ?thesis by (simp add: and_not_mask_word push_bit_eq_mult drop_bit_eq_div)
qed

lemma pow2_minus_1_mask: "(2 ^ n - 1 :: 'a::len word) = mask n"
  by (simp add: mask_eq_exp_minus_1)

lemma unat_pow2 [word_arith]: "n < LENGTH('a) \<Longrightarrow> unat (2 ^ n :: 'a::len word) = 2 ^ n"
  by (subst of_nat_numeral [of "num.Bit0 num.One", symmetric], subst of_nat_power [symmetric],
      subst unat_of_nat) simp

lemma unat_pow2_64 [word_arith]: "n < 64 \<Longrightarrow> unat (2 ^ n :: u64) = 2 ^ n"
  by (simp add: unat_pow2)

lemma unat_add_no_ovf [word_arith]:
  "unat (a::'a::len word) + unat b < 2 ^ LENGTH('a) \<Longrightarrow> unat (a + b) = unat a + unat b"
  by (simp add: unat_word_ariths)

lemma unat_sub_no_ovf [word_arith]: "unat (b::'a::len word) \<le> unat a \<Longrightarrow> unat (a - b) = unat a - unat b"
  by (rule unat_sub) (simp add: word_le_nat_alt)

lemma unat_add_64: "unat (a::u64) + unat b < 2 ^ 64 \<Longrightarrow> unat (a + b) = unat a + unat b"
  by (rule unat_add_no_ovf) simp

lemma unat_lt_64: "unat (a::u64) < 2 ^ 64"
  using unsigned_less [of a] by simp

lemma unat_lt_8: "unat (b::u8) < 256"
  using unsigned_less [of b] by simp

lemma unat_Suc_less: "(c::'a::len word) < e \<Longrightarrow> unat (c + 1) = Suc (unat c)"
proof -
  assume "c < e"
  then have "unat c < unat e" by (simp add: word_less_nat_alt)
  moreover have "unat e < 2 ^ LENGTH('a)" by (rule unsigned_less)
  moreover have "unat (1::'a word) = 1" by simp
  ultimately have "unat c + unat (1::'a word) < 2 ^ LENGTH('a)" by linarith
  then have "unat (c + 1) = unat c + unat (1::'a word)" by (rule unat_add_no_ovf)
  then show ?thesis by simp
qed

lemma unat_diff_step: "(c::'a::len word) \<noteq> e \<Longrightarrow> unat (e - (c + 1)) < unat (e - c)"
proof -
  assume "c \<noteq> e"
  then have "e - c \<noteq> 0" by simp
  then have "unat (e - c - 1) < unat (e - c)"
    by (metis unat_minus_one diff_less unat_gt_0 zero_less_one)
  then show ?thesis by (simp add: diff_diff_add)
qed

lemma unat_ALIGN_DOWN: "unat (ALIGN_DOWN v (2 ^ n)) = unat v div 2 ^ n * 2 ^ n"
  by (simp add: ALIGN_DOWN_def pow2_minus_1_mask unat_and_not_mask)

lemma unat_ALIGN_UP:
  assumes "n < 64" "unat v + 2 ^ n \<le> 2 ^ 64"
  shows "unat (ALIGN_UP v (2 ^ n)) = (unat v + 2 ^ n - 1) div 2 ^ n * 2 ^ n"
proof -
  have p: "unat (2 ^ n :: u64) = 2 ^ n" using assms(1) by (rule unat_pow2_64)
  have m: "unat (2 ^ n - 1 :: u64) = 2 ^ n - 1"
    using p by (subst unat_sub) (auto simp: word_le_nat_alt)
  have "unat (v + (2 ^ n - 1)) = unat v + (2 ^ n - 1)"
    using assms m by (subst unat_add_no_ovf) auto
  then have "unat (v + 2 ^ n - 1) = unat v + 2 ^ n - 1"
    by (simp add: add_diff_eq)
  then show ?thesis by (simp add: ALIGN_UP_def pow2_minus_1_mask unat_and_not_mask)
qed

lemma unat_round_pgdown: "unat (round_pgdown v) = unat v div 4096 * 4096"
  using unat_ALIGN_DOWN [of v 12] by (simp add: round_pgdown_def)

lemma unat_round_pgup:
  "unat v + 4096 \<le> 2 ^ 64 \<Longrightarrow> unat (round_pgup v) = (unat v + 4095) div 4096 * 4096"
  using unat_ALIGN_UP [of 12 v] by (simp add: round_pgup_def)

lemma unat_max_64: "unat (- 1 :: u64) = 2 ^ 64 - 1"
  by (simp add: unsigned_minus_1_eq_mask mask_eq_exp_minus_1)

lemma ceil_mult_bounds:
  fixes x n :: nat
  assumes "0 < n"
  shows "x \<le> (x + n - 1) div n * n" "(x + n - 1) div n * n < x + n"
proof -
  have "(x + n - 1) div n * n + (x + n - 1) mod n = x + n - 1" by (rule div_mult_mod_eq)
  moreover have "(x + n - 1) mod n < n" using assms by simp
  ultimately show "x \<le> (x + n - 1) div n * n" "(x + n - 1) div n * n < x + n" using assms by linarith+
qed

lemma pow2_test_nat: "(n::nat) AND (n - 1) = 0 \<Longrightarrow> 0 < n \<Longrightarrow> \<exists>k. n = 2 ^ k"
proof (induction n rule: less_induct)
  case (less n)
  show ?case
  proof (cases "even n")
    case True
    then obtain m where m: "n = 2 * m" by (elim evenE)
    then have "0 < m" using less.prems by simp
    then have "n - 1 = 2 * (m - 1) + 1" using m by simp
    then have "n AND (n - 1) = 2 * (m AND (m - 1))"
      unfolding m by (subst and_rec) simp
    then have "m AND (m - 1) = 0" using less.prems by simp
    then obtain k where "m = 2 ^ k" using less.IH [of m] m \<open>0 < m\<close> by auto
    then show ?thesis using m by (intro exI [of _ "Suc k"]) simp
  next
    case False
    then obtain m where m: "n = 2 * m + 1" by (elim oddE)
    then have "n AND (n - 1) = 2 * m" by (subst and_rec) simp
    then show ?thesis using less.prems m by (intro exI [of _ 0]) simp
  qed
qed

end
