(* ===== verification/UkAlloc.thy ===== *)
theory UkAlloc
  imports UkPrelude
begin

text \<open>
  The allocator interface: \<^verbatim>\<open>struct uk_alloc\<close> with its wrappers (\<^verbatim>\<open>lib/ukalloc/include/uk/alloc.h\<close>),
  the registration macros (\<^verbatim>\<open>alloc_impl.h\<close>) and the compatibility layers of \<^verbatim>\<open>lib/ukalloc/alloc.c\<close>:
  malloc on top of a page allocator (\<^verbatim>\<open>_ifpages\<close>), aligned allocation on top of a plain malloc
  (\<^verbatim>\<open>_ifmalloc\<close>), and the functions derived from malloc (\<^verbatim>\<open>_compat\<close>).

  The heap is split by type: the metadata records at their addresses, and the bytes of the objects.
  A pointer is a \<^typ>\<open>u64\<close>, 0 is \<^verbatim>\<open>NULL\<close>; \<open>None\<close> is a failed assertion. An allocator is
  itself passed as an \<open>option\<close>, \<open>None\<close> for the \<^verbatim>\<open>NULL\<close> allocator.
\<close>

section \<open>State\<close>

record metadata_ifpages =
  num_pages :: u64
  base :: u64

record metadata_ifmalloc =
  msize :: u64
  mbase :: u64

record 'p heap =
  priv :: 'p
  md :: "u64 \<Rightarrow> metadata_ifpages"
  mdm :: "u64 \<Rightarrow> metadata_ifmalloc"
  bytes :: "u64 \<Rightarrow> u8"
  errno_v :: "errno option"

record 'p uk_alloc =
  malloc_f :: "'p heap \<Rightarrow> u64 \<Rightarrow> ('p heap \<times> u64) option"
  calloc_f :: "'p heap \<Rightarrow> u64 \<Rightarrow> u64 \<Rightarrow> ('p heap \<times> u64) option"
  realloc_f :: "'p heap \<Rightarrow> u64 \<Rightarrow> u64 \<Rightarrow> ('p heap \<times> u64) option"
  posix_memalign_f :: "'p heap \<Rightarrow> u64 \<Rightarrow> u64 \<Rightarrow> ('p heap \<times> (errno + u64)) option"
  memalign_f :: "'p heap \<Rightarrow> u64 \<Rightarrow> u64 \<Rightarrow> ('p heap \<times> u64) option"
  free_f :: "'p heap \<Rightarrow> u64 \<Rightarrow> 'p heap option"
  free_backend_f :: "('p heap \<Rightarrow> u64 \<Rightarrow> 'p heap option) option"
  malloc_backend_f :: "('p heap \<Rightarrow> u64 \<Rightarrow> ('p heap \<times> u64) option) option"
  palloc_f :: "('p heap \<Rightarrow> u64 \<Rightarrow> ('p heap \<times> u64) option) option"
  pfree_f :: "('p heap \<Rightarrow> u64 \<Rightarrow> u64 \<Rightarrow> 'p heap option) option"
  availmem_f :: "('p heap \<Rightarrow> u64) option"
  addmem_f :: "('p heap \<Rightarrow> u64 \<Rightarrow> u64 \<Rightarrow> ('p heap \<times> (errno + unit)) option) option"

text \<open>The two library calls on object bytes.\<close>

definition memcpy_bytes :: "u64 \<Rightarrow> u64 \<Rightarrow> u64 \<Rightarrow> 'p heap \<Rightarrow> 'p heap" where
  "memcpy_bytes dst src n h =
     h\<lparr>bytes := (\<lambda>x. if x - dst < n then bytes h (src + (x - dst)) else bytes h x)\<rparr>"

definition memset_bytes :: "u64 \<Rightarrow> u8 \<Rightarrow> u64 \<Rightarrow> 'p heap \<Rightarrow> 'p heap" where
  "memset_bytes dst c n h = h\<lparr>bytes := (\<lambda>x. if x - dst < n then c else bytes h x)\<rparr>"

section \<open>Wrappers\<close>

definition uk_do_malloc :: "'p uk_alloc option \<Rightarrow> 'p heap \<Rightarrow> u64 \<Rightarrow> ('p heap \<times> u64) option" where
  "uk_do_malloc a h sz = do { al \<leftarrow> a; malloc_f al h sz }"

definition uk_malloc :: "'p uk_alloc option \<Rightarrow> 'p heap \<Rightarrow> u64 \<Rightarrow> ('p heap \<times> u64) option" where
  "uk_malloc a h sz =
     (if a = None then Some (h\<lparr>errno_v := Some ENOMEM\<rparr>, 0) else uk_do_malloc a h sz)"

definition uk_do_calloc :: "'p uk_alloc option \<Rightarrow> 'p heap \<Rightarrow> u64 \<Rightarrow> u64 \<Rightarrow> ('p heap \<times> u64) option" where
  "uk_do_calloc a h nmemb sz = do { al \<leftarrow> a; calloc_f al h nmemb sz }"

definition uk_calloc :: "'p uk_alloc option \<Rightarrow> 'p heap \<Rightarrow> u64 \<Rightarrow> u64 \<Rightarrow> ('p heap \<times> u64) option" where
  "uk_calloc a h nmemb sz =
     (if a = None then Some (h\<lparr>errno_v := Some ENOMEM\<rparr>, 0) else uk_do_calloc a h nmemb sz)"

definition uk_zalloc :: "'p uk_alloc option \<Rightarrow> 'p heap \<Rightarrow> u64 \<Rightarrow> ('p heap \<times> u64) option" where
  "uk_zalloc a h sz = uk_calloc a h 1 sz"

definition uk_do_realloc :: "'p uk_alloc option \<Rightarrow> 'p heap \<Rightarrow> u64 \<Rightarrow> u64 \<Rightarrow> ('p heap \<times> u64) option" where
  "uk_do_realloc a h ptr sz = do { al \<leftarrow> a; realloc_f al h ptr sz }"

definition uk_realloc :: "'p uk_alloc option \<Rightarrow> 'p heap \<Rightarrow> u64 \<Rightarrow> u64 \<Rightarrow> ('p heap \<times> u64) option" where
  "uk_realloc a h ptr sz =
     (if a = None then Some (h\<lparr>errno_v := Some ENOMEM\<rparr>, 0) else uk_do_realloc a h ptr sz)"

definition uk_do_posix_memalign ::
  "'p uk_alloc option \<Rightarrow> 'p heap \<Rightarrow> u64 \<Rightarrow> u64 \<Rightarrow> ('p heap \<times> (errno + u64)) option" where
  "uk_do_posix_memalign a h align sz = do { al \<leftarrow> a; posix_memalign_f al h align sz }"

text \<open>An error result leaves \<^verbatim>\<open>*memptr\<close> untouched, except with a \<^verbatim>\<open>NULL\<close> allocator, where it is set
  to \<^verbatim>\<open>NULL\<close>.\<close>

definition uk_posix_memalign ::
  "'p uk_alloc option \<Rightarrow> 'p heap \<Rightarrow> u64 \<Rightarrow> u64 \<Rightarrow> ('p heap \<times> (errno + u64)) option" where
  "uk_posix_memalign a h align sz =
     (if a = None then Some (h, Inl ENOMEM) else uk_do_posix_memalign a h align sz)"

definition uk_do_memalign :: "'p uk_alloc option \<Rightarrow> 'p heap \<Rightarrow> u64 \<Rightarrow> u64 \<Rightarrow> ('p heap \<times> u64) option" where
  "uk_do_memalign a h align sz = do { al \<leftarrow> a; memalign_f al h align sz }"

definition uk_memalign :: "'p uk_alloc option \<Rightarrow> 'p heap \<Rightarrow> u64 \<Rightarrow> u64 \<Rightarrow> ('p heap \<times> u64) option" where
  "uk_memalign a h align sz = (if a = None then Some (h, 0) else uk_do_memalign a h align sz)"

definition uk_do_free :: "'p uk_alloc option \<Rightarrow> 'p heap \<Rightarrow> u64 \<Rightarrow> 'p heap option" where
  "uk_do_free a h ptr = do { al \<leftarrow> a; free_f al h ptr }"

definition uk_free :: "'p uk_alloc option \<Rightarrow> 'p heap \<Rightarrow> u64 \<Rightarrow> 'p heap option" where
  "uk_free a h ptr = uk_do_free a h ptr"

definition uk_do_palloc :: "'p uk_alloc option \<Rightarrow> 'p heap \<Rightarrow> u64 \<Rightarrow> ('p heap \<times> u64) option" where
  "uk_do_palloc a h n = do { al \<leftarrow> a; f \<leftarrow> palloc_f al; f h n }"

definition uk_palloc :: "'p uk_alloc option \<Rightarrow> 'p heap \<Rightarrow> u64 \<Rightarrow> ('p heap \<times> u64) option" where
  "uk_palloc a h n =
     (case a of None \<Rightarrow> Some (h, 0)
      | Some al \<Rightarrow> if palloc_f al = None then Some (h, 0) else uk_do_palloc a h n)"

definition uk_do_pfree :: "'p uk_alloc option \<Rightarrow> 'p heap \<Rightarrow> u64 \<Rightarrow> u64 \<Rightarrow> 'p heap option" where
  "uk_do_pfree a h ptr n = do { al \<leftarrow> a; f \<leftarrow> pfree_f al; f h ptr n }"

definition uk_pfree :: "'p uk_alloc option \<Rightarrow> 'p heap \<Rightarrow> u64 \<Rightarrow> u64 \<Rightarrow> 'p heap option" where
  "uk_pfree a h ptr n = uk_do_pfree a h ptr n"

definition uk_alloc_addmem ::
  "'p uk_alloc option \<Rightarrow> 'p heap \<Rightarrow> u64 \<Rightarrow> u64 \<Rightarrow> ('p heap \<times> (errno + unit)) option" where
  "uk_alloc_addmem a h b sz =
     do { al \<leftarrow> a; case addmem_f al of Some f \<Rightarrow> f h b sz | None \<Rightarrow> Some (h, Inl ENOTSUP) }"

definition uk_alloc_availmem :: "'p uk_alloc option \<Rightarrow> 'p heap \<Rightarrow> (errno + u64) option" where
  "uk_alloc_availmem a h =
     do { al \<leftarrow> a; case availmem_f al of None \<Rightarrow> Some (Inl ENOTSUP) | Some f \<Rightarrow> Some (Inr (f h)) }"

text \<open>The list of allocators: registration walks to the end, the default is the first one.\<close>

fun uk_alloc_register :: "'a list \<Rightarrow> 'a \<Rightarrow> 'a list" where
  "uk_alloc_register [] a = [a]"
| "uk_alloc_register (this # rest) a = this # uk_alloc_register rest a"

definition uk_alloc_get_default :: "'a list \<Rightarrow> 'a option" where
  "uk_alloc_get_default as = (case as of [] \<Rightarrow> None | a # _ \<Rightarrow> Some a)"

section \<open>Malloc on top of pages\<close>

definition size_to_num_pages :: "u64 \<Rightarrow> u64" where
  "size_to_num_pages sz = ALIGN_UP sz PAGE_SIZE div PAGE_SIZE"

definition page_off :: "u64 \<Rightarrow> u64" where
  "page_off x = x AND (PAGE_SIZE - 1)"

abbreviation METADATA_IFPAGES_SIZE_POW2 :: u64 where "METADATA_IFPAGES_SIZE_POW2 \<equiv> 16"

definition uk_get_metadata :: "u64 \<Rightarrow> u64 option" where
  "uk_get_metadata ptr =
     do {
       uk_assert (PAGE_SIZE + 16 \<le> ptr);
       let metadata = ALIGN_DOWN ptr PAGE_SIZE;
       Some (if metadata = ptr then metadata - PAGE_SIZE else metadata)
     }"

definition uk_getmallocsize :: "'p heap \<Rightarrow> u64 \<Rightarrow> u64 option" where
  "uk_getmallocsize h ptr =
     do {
       metadata \<leftarrow> uk_get_metadata ptr;
       Some (base (md h metadata) + num_pages (md h metadata) * PAGE_SIZE - ptr)
     }"

definition uk_malloc_ifpages :: "'p uk_alloc option \<Rightarrow> 'p heap \<Rightarrow> u64 \<Rightarrow> ('p heap \<times> u64) option" where
  "uk_malloc_ifpages a h sz =
     do {
       let realsize = 16 + sz;
       uk_assert (a \<noteq> None);
       if sz = 0 \<or> realsize < sz then Some (h, 0)
       else do {
         let n = size_to_num_pages realsize;
         (h1, intptr) \<leftarrow> uk_palloc a h n;
         if intptr = 0 then Some (h1, 0)
         else Some (h1\<lparr>md := (md h1)(intptr := \<lparr>num_pages = n, base = intptr\<rparr>)\<rparr>, intptr + 16)
       }
     }"

definition uk_free_ifpages :: "'p uk_alloc option \<Rightarrow> 'p heap \<Rightarrow> u64 \<Rightarrow> 'p heap option" where
  "uk_free_ifpages a h ptr =
     do {
       uk_assert (a \<noteq> None);
       if ptr = 0 then Some h
       else do {
         metadata \<leftarrow> uk_get_metadata ptr;
         uk_assert (base (md h metadata) \<noteq> 0);
         uk_assert (num_pages (md h metadata) \<noteq> 0);
         uk_pfree a h (base (md h metadata)) (num_pages (md h metadata))
       }
     }"

definition uk_realloc_ifpages ::
  "'p uk_alloc option \<Rightarrow> 'p heap \<Rightarrow> u64 \<Rightarrow> u64 \<Rightarrow> ('p heap \<times> u64) option" where
  "uk_realloc_ifpages a h ptr sz =
     do {
       uk_assert (a \<noteq> None);
       if ptr = 0 then uk_malloc_ifpages a h sz
       else if sz = 0 then do { h1 \<leftarrow> uk_free_ifpages a h ptr; Some (h1, 0) }
       else do {
         (h1, retptr) \<leftarrow> uk_malloc_ifpages a h sz;
         if retptr = 0 then Some (h1, 0)
         else do {
           mallocsize \<leftarrow> uk_getmallocsize h1 ptr;
           let h2 = (if sz < mallocsize then memcpy_bytes retptr ptr sz h1
                     else memcpy_bytes retptr ptr mallocsize h1);
           h3 \<leftarrow> uk_free_ifpages a h2 ptr;
           Some (h3, retptr)
         }
       }
     }"

text \<open>The padding, and the alignment as it is raised to hold the metadata.\<close>

definition memalign_padding :: "u64 \<Rightarrow> u64 \<times> u64" where
  "memalign_padding align =
     (if align > PAGE_SIZE then (align, PAGE_SIZE)
      else if align = PAGE_SIZE then (align, 0)
      else if align < METADATA_IFPAGES_SIZE_POW2 then (METADATA_IFPAGES_SIZE_POW2, 0)
      else (align, 16))"

definition uk_posix_memalign_ifpages ::
  "'p uk_alloc option \<Rightarrow> 'p heap \<Rightarrow> u64 \<Rightarrow> u64 \<Rightarrow> ('p heap \<times> (errno + u64)) option" where
  "uk_posix_memalign_ifpages a h align0 sz =
     do {
       uk_assert (a \<noteq> None);
       if (align0 - 1) AND align0 \<noteq> 0 \<or> align0 mod 8 \<noteq> 0 then Some (h, Inl EINVAL)
       else if sz = 0 then Some (h, Inl EINVAL)
       else
         let (align, padding) = memalign_padding align0;
             realsize = sz + padding + align
         in if realsize < sz then Some (h, Inl EINVAL)
            else do {
              let n = size_to_num_pages realsize;
              (h1, intptr) \<leftarrow> uk_palloc a h n;
              if intptr = 0 then Some (h1, Inl ENOMEM)
              else do {
                let memptr = ALIGN_UP (intptr + 16) align;
                metadata \<leftarrow> uk_get_metadata memptr;
                uk_assert (intptr \<le> metadata);
                Some (h1\<lparr>md := (md h1)(metadata := \<lparr>num_pages = n, base = intptr\<rparr>)\<rparr>, Inr memptr)
              }
            }
     }"

section \<open>Aligned allocation on top of a plain malloc\<close>

abbreviation METADATA_IFMALLOC_SIZE_POW2 :: u64 where "METADATA_IFMALLOC_SIZE_POW2 \<equiv> 16"

definition uk_get_metadata_ifmalloc :: "u64 \<Rightarrow> u64" where
  "uk_get_metadata_ifmalloc ptr = ptr - METADATA_IFMALLOC_SIZE_POW2"

definition uk_getmallocsize_ifmalloc :: "'p heap \<Rightarrow> u64 \<Rightarrow> u64" where
  "uk_getmallocsize_ifmalloc h ptr =
     (let metadata = mdm h (uk_get_metadata_ifmalloc ptr) in mbase metadata + msize metadata - ptr)"

definition uk_free_ifmalloc :: "'p uk_alloc option \<Rightarrow> 'p heap \<Rightarrow> u64 \<Rightarrow> 'p heap option" where
  "uk_free_ifmalloc a h ptr =
     do {
       al \<leftarrow> a;
       free_backend \<leftarrow> free_backend_f al;
       if ptr = 0 then Some h
       else free_backend h (mbase (mdm h (uk_get_metadata_ifmalloc ptr)))
     }"

definition uk_malloc_ifmalloc :: "'p uk_alloc option \<Rightarrow> 'p heap \<Rightarrow> u64 \<Rightarrow> ('p heap \<times> u64) option" where
  "uk_malloc_ifmalloc a h sz =
     do {
       let realsize = sz + METADATA_IFMALLOC_SIZE_POW2;
       al \<leftarrow> a;
       malloc_backend \<leftarrow> malloc_backend_f al;
       if realsize < sz then Some (h, 0)
       else do {
         (h1, ptr) \<leftarrow> malloc_backend h realsize;
         if ptr = 0 then Some (h1, 0)
         else Some (h1\<lparr>mdm := (mdm h1)(ptr := \<lparr>msize = realsize, mbase = ptr\<rparr>)\<rparr>,
                    ptr + METADATA_IFMALLOC_SIZE_POW2)
       }
     }"

definition uk_realloc_ifmalloc ::
  "'p uk_alloc option \<Rightarrow> 'p heap \<Rightarrow> u64 \<Rightarrow> u64 \<Rightarrow> ('p heap \<times> u64) option" where
  "uk_realloc_ifmalloc a h ptr sz =
     do {
       uk_assert (a \<noteq> None);
       if ptr = 0 then uk_malloc_ifmalloc a h sz
       else if sz = 0 then do { h1 \<leftarrow> uk_free_ifmalloc a h ptr; Some (h1, 0) }
       else do {
         (h1, retptr) \<leftarrow> uk_malloc_ifmalloc a h sz;
         if retptr = 0 then Some (h1, 0)
         else do {
           let mallocsize = uk_getmallocsize_ifmalloc h1 ptr;
           let h2 = memcpy_bytes retptr ptr (if sz < mallocsize then sz else mallocsize) h1;
           h3 \<leftarrow> uk_free_ifmalloc a h2 ptr;
           Some (h3, retptr)
         }
       }
     }"

definition memalign_padding_ifmalloc :: "u64 \<Rightarrow> u64 \<times> u64" where
  "memalign_padding_ifmalloc align =
     (if align < METADATA_IFMALLOC_SIZE_POW2 then (METADATA_IFMALLOC_SIZE_POW2, 0)
      else (align, METADATA_IFMALLOC_SIZE_POW2))"

definition uk_posix_memalign_ifmalloc ::
  "'p uk_alloc option \<Rightarrow> 'p heap \<Rightarrow> u64 \<Rightarrow> u64 \<Rightarrow> ('p heap \<times> (errno + u64)) option" where
  "uk_posix_memalign_ifmalloc a h align0 sz =
     do {
       al \<leftarrow> a;
       if (align0 - 1) AND align0 \<noteq> 0 \<or> align0 < 8 then Some (h, Inl EINVAL)
       else if sz = 0 then Some (h, Inl EINVAL)
       else
         let (align, padding) = memalign_padding_ifmalloc align0;
             realsize = sz + padding + align
         in if realsize < sz then Some (h, Inl ENOMEM)
            else do {
              malloc_backend \<leftarrow> malloc_backend_f al;
              (h1, intptr) \<leftarrow> malloc_backend h realsize;
              if intptr = 0 then Some (h1, Inl ENOMEM)
              else do {
                let memptr = ALIGN_UP (intptr + METADATA_IFMALLOC_SIZE_POW2) align;
                let metadata = uk_get_metadata_ifmalloc memptr;
                uk_assert (intptr \<le> metadata);
                Some (h1\<lparr>mdm := (mdm h1)(metadata := \<lparr>msize = realsize, mbase = intptr\<rparr>)\<rparr>, Inr memptr)
              }
            }
     }"

section \<open>Functions derived from malloc\<close>

definition uk_pfree_compat :: "'p uk_alloc option \<Rightarrow> 'p heap \<Rightarrow> u64 \<Rightarrow> u64 \<Rightarrow> 'p heap option" where
  "uk_pfree_compat a h ptr n =
     do { uk_assert (a \<noteq> None); uk_assert (page_off ptr = 0); uk_free a h ptr }"

definition uk_palloc_compat :: "'p uk_alloc option \<Rightarrow> 'p heap \<Rightarrow> u64 \<Rightarrow> ('p heap \<times> u64) option" where
  "uk_palloc_compat a h n =
     do {
       uk_assert (a \<noteq> None);
       if n > - 1 div PAGE_SIZE then Some (h, 0)
       else do {
         (h1, r) \<leftarrow> uk_posix_memalign a h PAGE_SIZE (n * PAGE_SIZE);
         Some (h1, case r of Inl _ \<Rightarrow> 0 | Inr ptr \<Rightarrow> ptr)
       }
     }"

definition uk_realloc_compat ::
  "'p uk_alloc option \<Rightarrow> 'p heap \<Rightarrow> u64 \<Rightarrow> u64 \<Rightarrow> ('p heap \<times> u64) option" where
  "uk_realloc_compat a h ptr sz =
     do {
       uk_assert (a \<noteq> None);
       if ptr = 0 then uk_malloc a h sz
       else if sz = 0 then do { h1 \<leftarrow> uk_free a h ptr; Some (h1, 0) }
       else do {
         (h1, retptr) \<leftarrow> uk_malloc a h sz;
         if retptr = 0 then Some (h1, 0)
         else do {
           let h2 = memcpy_bytes retptr ptr sz h1;
           h3 \<leftarrow> uk_free a h2 ptr;
           Some (h3, retptr)
         }
       }
     }"

text \<open>The overflow test divides by the size: with size 0 that traps.\<close>

definition uk_calloc_compat ::
  "'p uk_alloc option \<Rightarrow> 'p heap \<Rightarrow> u64 \<Rightarrow> u64 \<Rightarrow> ('p heap \<times> u64) option" where
  "uk_calloc_compat a h nmemb sz =
     (let tlen = nmemb * sz in
      if sz = 0 then None
      else if nmemb > - 1 div sz then Some (h, 0)
      else do {
        uk_assert (a \<noteq> None);
        (h1, ptr) \<leftarrow> uk_malloc a h tlen;
        if ptr = 0 then Some (h1, 0) else Some (memset_bytes ptr 0 tlen h1, ptr)
      })"

definition uk_memalign_compat ::
  "'p uk_alloc option \<Rightarrow> 'p heap \<Rightarrow> u64 \<Rightarrow> u64 \<Rightarrow> ('p heap \<times> u64) option" where
  "uk_memalign_compat a h align sz =
     do {
       uk_assert (a \<noteq> None);
       (h1, r) \<leftarrow> uk_posix_memalign a h align sz;
       Some (h1, case r of Inl _ \<Rightarrow> 0 | Inr ptr \<Rightarrow> ptr)
     }"

section \<open>Registration of allocators\<close>

text \<open>
  The callbacks of the source receive the allocator itself; here they are closed over the part of
  the structure they use, which is filled first.
\<close>

definition no_alloc :: "'p uk_alloc" where
  "no_alloc =
     \<lparr>malloc_f = (\<lambda>_ _. None), calloc_f = (\<lambda>_ _ _. None), realloc_f = (\<lambda>_ _ _. None),
      posix_memalign_f = (\<lambda>_ _ _. None), memalign_f = (\<lambda>_ _ _. None), free_f = (\<lambda>_ _. None),
      free_backend_f = None, malloc_backend_f = None, palloc_f = None, pfree_f = None,
      availmem_f = None, addmem_f = None\<rparr>"

definition lift_palloc ::
  "('p \<Rightarrow> u64 \<Rightarrow> ('p \<times> u64) option) \<Rightarrow> 'p heap \<Rightarrow> u64 \<Rightarrow> ('p heap \<times> u64) option" where
  "lift_palloc f h n = do { (s, p) \<leftarrow> f (priv h) n; Some (h\<lparr>priv := s\<rparr>, p) }"

definition lift_pfree :: "('p \<Rightarrow> u64 \<Rightarrow> u64 \<Rightarrow> 'p option) \<Rightarrow> 'p heap \<Rightarrow> u64 \<Rightarrow> u64 \<Rightarrow> 'p heap option" where
  "lift_pfree f h p n = do { s \<leftarrow> f (priv h) p n; Some (h\<lparr>priv := s\<rparr>) }"

definition lift_addmem ::
  "('p \<Rightarrow> u64 \<Rightarrow> u64 \<Rightarrow> ('p \<times> (errno + unit)) option) \<Rightarrow>
   'p heap \<Rightarrow> u64 \<Rightarrow> u64 \<Rightarrow> ('p heap \<times> (errno + unit)) option" where
  "lift_addmem f h b len = do { (s, r) \<leftarrow> f (priv h) b len; Some (h\<lparr>priv := s\<rparr>, r) }"

definition uk_alloc_init_palloc ::
  "('p \<Rightarrow> u64 \<Rightarrow> ('p \<times> u64) option) \<Rightarrow> ('p \<Rightarrow> u64 \<Rightarrow> u64 \<Rightarrow> 'p option) \<Rightarrow>
   ('p \<Rightarrow> u64 \<Rightarrow> u64 \<Rightarrow> ('p \<times> (errno + unit)) option) \<Rightarrow> 'p uk_alloc" where
  "uk_alloc_init_palloc palloc_func pfree_func addmem_func =
     (let a0 = no_alloc\<lparr>palloc_f := Some (lift_palloc palloc_func), pfree_f := Some (lift_pfree pfree_func),
                 addmem_f := Some (lift_addmem addmem_func)\<rparr>;
          a1 = a0\<lparr>malloc_f := uk_malloc_ifpages (Some a0), realloc_f := uk_realloc_ifpages (Some a0),
                 posix_memalign_f := uk_posix_memalign_ifpages (Some a0), free_f := uk_free_ifpages (Some a0)\<rparr>
      in a1\<lparr>calloc_f := uk_calloc_compat (Some a1), memalign_f := uk_memalign_compat (Some a1)\<rparr>)"

definition uk_alloc_init_malloc_ifmalloc ::
  "('p heap \<Rightarrow> u64 \<Rightarrow> ('p heap \<times> u64) option) \<Rightarrow> ('p heap \<Rightarrow> u64 \<Rightarrow> 'p heap option) \<Rightarrow>
   ('p heap \<Rightarrow> u64 \<Rightarrow> u64 \<Rightarrow> ('p heap \<times> (errno + unit)) option) option \<Rightarrow> 'p uk_alloc" where
  "uk_alloc_init_malloc_ifmalloc malloc_func free_func addmem_func =
     (let a0 = no_alloc\<lparr>addmem_f := addmem_func, malloc_backend_f := Some malloc_func, free_backend_f := Some free_func\<rparr>;
          a1 = a0\<lparr>malloc_f := uk_malloc_ifmalloc (Some a0), realloc_f := uk_realloc_ifmalloc (Some a0),
                 posix_memalign_f := uk_posix_memalign_ifmalloc (Some a0), free_f := uk_free_ifmalloc (Some a0)\<rparr>
      in a1\<lparr>calloc_f := uk_calloc_compat (Some a1), memalign_f := uk_memalign_compat (Some a1),
            palloc_f := Some (uk_palloc_compat (Some a1)), pfree_f := Some (uk_pfree_compat (Some a1))\<rparr>)"

definition uk_alloc_init_malloc ::
  "('p heap \<Rightarrow> u64 \<Rightarrow> ('p heap \<times> u64) option) \<Rightarrow> ('p heap \<Rightarrow> u64 \<Rightarrow> u64 \<Rightarrow> ('p heap \<times> u64) option) \<Rightarrow>
   ('p heap \<Rightarrow> u64 \<Rightarrow> u64 \<Rightarrow> ('p heap \<times> u64) option) \<Rightarrow> ('p heap \<Rightarrow> u64 \<Rightarrow> 'p heap option) \<Rightarrow>
   ('p heap \<Rightarrow> u64 \<Rightarrow> u64 \<Rightarrow> ('p heap \<times> (errno + u64)) option) \<Rightarrow>
   ('p heap \<Rightarrow> u64 \<Rightarrow> u64 \<Rightarrow> ('p heap \<times> u64) option) \<Rightarrow>
   ('p heap \<Rightarrow> u64 \<Rightarrow> u64 \<Rightarrow> ('p heap \<times> (errno + unit)) option) option \<Rightarrow> 'p uk_alloc" where
  "uk_alloc_init_malloc malloc_func calloc_func realloc_func free_func posix_memalign_func memalign_func addmem_func =
     (let a0 = no_alloc\<lparr>addmem_f := addmem_func, malloc_f := malloc_func, calloc_f := calloc_func, realloc_f := realloc_func,
                 posix_memalign_f := posix_memalign_func, memalign_f := memalign_func, free_f := free_func\<rparr>
      in a0\<lparr>palloc_f := Some (uk_palloc_compat (Some a0)), pfree_f := Some (uk_pfree_compat (Some a0))\<rparr>)"

end
