(* ===== verification/PageAlloc.thy ===== *)
theory PageAlloc
  imports UkPrelude
begin

text \<open>
  The contract of a page allocator, the \<^verbatim>\<open>palloc\<close>/\<^verbatim>\<open>pfree\<close> pair of \<^verbatim>\<open>struct uk_alloc\<close>: what
  \<^verbatim>\<open>lib/ukalloc/alloc.c\<close> relies on when it builds \<^verbatim>\<open>malloc\<close> on top of it. \<open>span a n\<close> is the set of
  pages the allocator reserves for a request of \<open>n\<close> pages answered with address \<open>a\<close>; \<open>legal s a n\<close>
  says that such a block may be given back.
\<close>

locale page_allocator =
  fixes inv :: "'p \<Rightarrow> bool"
    and free :: "'p \<Rightarrow> nat set"
    and span :: "u64 \<Rightarrow> u64 \<Rightarrow> nat set"
    and legal :: "'p \<Rightarrow> u64 \<Rightarrow> u64 \<Rightarrow> bool"
    and palloc :: "'p \<Rightarrow> u64 \<Rightarrow> ('p \<times> u64) option"
    and pfree :: "'p \<Rightarrow> u64 \<Rightarrow> u64 \<Rightarrow> 'p option"
  assumes palloc_law: "inv s \<Longrightarrow> 0 < unat n \<Longrightarrow> unat n \<le> 2 ^ 52 \<Longrightarrow>
      palloc s n = Some (s, 0) \<or>
      (\<exists>s' a. palloc s n = Some (s', a) \<and> a \<noteq> 0 \<and> inv s' \<and> span a n \<subseteq> free s \<and>
         free s' = free s - span a n \<and> legal s' = legal s \<and> legal s a n)"
    and pfree_law: "inv s \<Longrightarrow> legal s a n \<Longrightarrow> span a n \<inter> free s = {} \<Longrightarrow>
      \<exists>s'. pfree s a n = Some s' \<and> inv s' \<and> free s' = free s \<union> span a n \<and> legal s' = legal s"
    and legal_law: "inv s \<Longrightarrow> legal s a n \<Longrightarrow>
      4096 dvd unat a \<and> 0 < unat a \<and> 0 < unat n \<and> {pfn a ..< pfn a + unat n} \<subseteq> span a n \<and>
      4096 * (pfn a + unat n) < 2 ^ 64"
begin

text \<open>
  A client holds the blocks of \<open>L\<close>. It holds them properly if they may be given back, share no
  page with each other and none of their pages is free.
\<close>

definition holds :: "'p \<Rightarrow> (u64 \<times> u64) set \<Rightarrow> bool" where
  "holds s L \<longleftrightarrow>
     inv s \<and> (\<forall>c \<in> L. legal s (fst c) (snd c) \<and> span (fst c) (snd c) \<inter> free s = {}) \<and>
     pairwise (\<lambda>c d. span (fst c) (snd c) \<inter> span (fst d) (snd d) = {}) L"

definition pages :: "'p \<Rightarrow> (u64 \<times> u64) set \<Rightarrow> nat set" where
  "pages s L = free s \<union> (\<Union>c \<in> L. span (fst c) (snd c))"

lemma holds_empty [simp]: "holds s {} \<longleftrightarrow> inv s"
  by (simp add: holds_def)

lemma holdsD:
  assumes "holds s L" "(a, n) \<in> L"
  shows "inv s" "legal s a n" "span a n \<inter> free s = {}"
  using assms unfolding holds_def by force+

lemma span_nonempty: "inv s \<Longrightarrow> legal s a n \<Longrightarrow> span a n \<noteq> {}"
  using legal_law [of s a n] by fastforce

lemma palloc_total:
  assumes "inv s" "0 < unat n" "unat n \<le> 2 ^ 52"
  shows "\<exists>s' a. palloc s n = Some (s', a)"
  using palloc_law [OF assms] by blast

lemma palloc_cases:
  assumes "inv s" "0 < unat n" "unat n \<le> 2 ^ 52" "palloc s n = Some (s', a)"
  obtains "a = 0" "s' = s"
  | "a \<noteq> 0" "inv s'" "span a n \<subseteq> free s" "free s' = free s - span a n" "legal s' = legal s" "legal s a n"
  using palloc_law [OF assms(1-3)] assms(4) by force

lemma palloc_fresh:
  assumes h: "holds s L" and n: "0 < unat n" "unat n \<le> 2 ^ 52" "palloc s n = Some (s', a)" "a \<noteq> 0"
  shows "holds s' (insert (a, n) L)" "(a, n) \<notin> L" "pages s' (insert (a, n) L) = pages s L"
    "legal s' = legal s" "legal s a n" "\<And>c. c \<in> L \<Longrightarrow> span a n \<inter> span (fst c) (snd c) = {}"
proof -
  have i: "inv s" using h by (simp add: holds_def)
  obtain p: "inv s'" "span a n \<subseteq> free s" "free s' = free s - span a n" "legal s' = legal s" "legal s a n"
    using palloc_cases [OF i n(1-3)] n(4) by metis
  have d: "span a n \<inter> span (fst c) (snd c) = {}" if "c \<in> L" for c
    using h that p(2) by (fastforce simp: holds_def)
  then show nl: "(a, n) \<notin> L" using span_nonempty [OF i p(5)] by fastforce
  have "pairwise (\<lambda>c d. span (fst c) (snd c) \<inter> span (fst d) (snd d) = {}) (insert (a, n) L)"
    using h d unfolding holds_def pairwise_insert by (simp add: Int_commute)
  moreover have "span (fst c) (snd c) \<inter> free s' = {}" if "c \<in> L" for c
    using h that p(3) by (fastforce simp: holds_def)
  ultimately show "holds s' (insert (a, n) L)" using h p by (auto simp: holds_def)
  show "pages s' (insert (a, n) L) = pages s L" using p(2,3) by (auto simp: pages_def)
  show "legal s' = legal s" "legal s a n" by (rule p)+
  show "\<And>c. c \<in> L \<Longrightarrow> span a n \<inter> span (fst c) (snd c) = {}" by (rule d)
qed

lemma palloc_null:
  assumes "holds s L" "0 < unat n" "unat n \<le> 2 ^ 52" "palloc s n = Some (s', 0)"
  shows "s' = s"
  using palloc_cases [OF _ assms(2-4)] assms(1) by (auto simp: holds_def)

lemma pfree_held:
  assumes h: "holds s L" and c: "(a, n) \<in> L"
  shows "\<exists>s'. pfree s a n = Some s' \<and> holds s' (L - {(a, n)}) \<and> pages s' (L - {(a, n)}) = pages s L \<and>
    legal s' = legal s"
proof -
  note i = holdsD [OF h c]
  obtain s' where s': "pfree s a n = Some s'" "inv s'" "free s' = free s \<union> span a n" "legal s' = legal s"
    using pfree_law [OF i] by blast
  have d: "span a n \<inter> span (fst e) (snd e) = {}" if "e \<in> L - {(a, n)}" for e
    using h c that unfolding holds_def pairwise_def by force
  have "holds s' (L - {(a, n)})"
    unfolding holds_def
  proof (intro conjI ballI)
    show "pairwise (\<lambda>c d. span (fst c) (snd c) \<inter> span (fst d) (snd d) = {}) (L - {(a, n)})"
      using h by (auto simp: holds_def intro: pairwise_subset)
    show "span (fst e) (snd e) \<inter> free s' = {}" if "e \<in> L - {(a, n)}" for e
      using h d [OF that] that unfolding s'(3) holds_def by blast
    show "legal s' (fst e) (snd e)" if "e \<in> L - {(a, n)}" for e
      using h that unfolding s'(4) holds_def by blast
  qed (rule s'(2))
  moreover have "pages s' (L - {(a, n)}) = pages s L" using s'(3) c by (auto simp: pages_def)
  ultimately show ?thesis using s' by blast
qed

text \<open>The pages of a request, as addresses.\<close>

lemma held_bytes_disjoint:
  assumes h: "holds s L" and c: "(a, n) \<in> L" "(a', n') \<in> L" "(a, n) \<noteq> (a', n')"
  shows "unat a + 4096 * unat n \<le> unat a' \<or> unat a' + 4096 * unat n' \<le> unat a"
proof -
  note la = legal_law [OF holdsD(1,2) [OF h c(1)]] and lb = legal_law [OF holdsD(1,2) [OF h c(2)]]
  have "span a n \<inter> span a' n' = {}" using h c unfolding holds_def pairwise_def by force
  then have "{pfn a ..< pfn a + unat n} \<inter> {pfn a' ..< pfn a' + unat n'} = {}" using la lb by blast
  then have "pfn a + unat n \<le> pfn a' \<or> pfn a' + unat n' \<le> pfn a" using la lb
    by (metis atLeastLessThan_iff disjoint_iff le_add1 less_add_same_cancel1 linorder_not_less nle_le)
  moreover have "unat a = 4096 * pfn a" "unat a' = 4096 * pfn a'" using la lb by (auto simp: pfn_def)
  ultimately show ?thesis by auto
qed

end

end
