(* ===== verification/UkAllocPages.thy ===== *)
theory UkAllocPages
  imports UkAlloc PageAlloc
begin

text \<open>
  Malloc on top of any page allocator that keeps the contract: where the metadata of an object
  lies, the invariant of a heap with live objects, and what each operation of
  \<^verbatim>\<open>uk_alloc_init_palloc\<close> does to it.
\<close>

section \<open>Sizes and alignment\<close>

lemma unat_size_to_num_pages:
  assumes "unat r + 4096 \<le> 2 ^ 64"
  shows "unat (size_to_num_pages r) = (unat r + 4095) div 4096"
  using unat_ALIGN_UP [of 12 r] assms by (simp add: size_to_num_pages_def unat_div)

lemma size_to_num_pages_bounds:
  assumes "unat r + 4096 \<le> 2 ^ 64" "0 < unat r"
  shows "0 < unat (size_to_num_pages r)" "unat (size_to_num_pages r) \<le> 2 ^ 52"
    "unat r \<le> 4096 * unat (size_to_num_pages r)"
proof -
  note c = ceil_mult_bounds [of 4096 "unat r"]
  show "0 < unat (size_to_num_pages r)" "unat r \<le> 4096 * unat (size_to_num_pages r)"
    using c assms(2) unfolding unat_size_to_num_pages [OF assms(1)] by auto
  have "(unat r + 4095) div 4096 \<le> 2 ^ 64 div 4096" using assms(1) by (intro div_le_mono) simp
  then show "unat (size_to_num_pages r) \<le> 2 ^ 52" unfolding unat_size_to_num_pages [OF assms(1)] by simp
qed

lemma pow2_test:
  assumes "(w - 1) AND w = (0::u64)" "w \<noteq> 0"
  shows "\<exists>k < 64. w = 2 ^ k"
proof -
  have "unat (w - 1) = unat w - 1" using assms(2) by (metis unat_minus_one)
  then have "unat w AND (unat w - 1) = 0"
    using assms(1) by (metis and.commute unat_0 unsigned_and_eq)
  moreover have w: "0 < unat w" using assms(2) by (simp add: unat_gt_0)
  ultimately obtain k where k: "unat w = 2 ^ k" using pow2_test_nat by blast
  then have "(2::nat) ^ k < 2 ^ 64" using unat_lt_64 [of w] by simp
  then have k64: "k < 64" using power_less_imp_less_exp [of 2 k 64] by simp
  then have "w = 2 ^ k" using k by (metis unat_pow2_64 word_unat_eq_iff)
  then show ?thesis using k64 by blast
qed

lemma pow2_align_tests:
  assumes "align = 2 ^ j" "3 \<le> j" "j < 64"
  shows "(align - 1) AND align = (0::u64)" "align mod 8 = 0"
proof -
  have "(align - 1) AND align = mask j AND push_bit j 1" by (simp add: assms(1) mask_eq_exp_minus_1)
  also have "\<dots> = 0" by (rule bit_word_eqI) (auto simp: bit_simps)
  finally show "(align - 1) AND align = 0" .
  have "unat (align mod 8) = 2 ^ j mod 8" using assms by (simp add: unat_mod unat_pow2_64)
  also have "\<dots> = 0" using le_imp_power_dvd [OF assms(2), of "2::nat"] by simp
  finally show "align mod 8 = 0" by (simp add: unat_eq_zero)
qed

lemma align_place:
  fixes q k :: nat
  assumes "4 \<le> k"
  defines "b \<equiv> 4096 * q"
  defines "P \<equiv> (b + 16 + 2 ^ k - 1) div 2 ^ k * 2 ^ k"
  shows "2 ^ k dvd P" "k \<le> 12 \<Longrightarrow> P = b + 2 ^ k" "12 < k \<Longrightarrow> b + 4096 \<le> P" "P \<le> b + 2 ^ k" "12 < k \<Longrightarrow> 4096 dvd P"
proof -
  have k16: "(16::nat) \<le> 2 ^ k" using power_increasing [OF assms(1), of "2::nat"] by simp
  show d: "2 ^ k dvd P" by (simp add: P_def)
  have small: "P = b + 2 ^ k" if "k \<le> 12"
  proof -
    have "(2::nat) ^ k dvd b" using le_imp_power_dvd [OF that, of "2::nat"] by (simp add: b_def)
    then obtain c where c: "b = 2 ^ k * c" by blast
    have "(b + 16 + 2 ^ k - 1) div 2 ^ k = c + 1"
      using k16 by (intro div_nat_eqI) (simp_all add: c algebra_simps)
    then show ?thesis by (simp add: P_def c algebra_simps)
  qed
  then show "k \<le> 12 \<Longrightarrow> P = b + 2 ^ k" .
  have big: "b + 4096 \<le> P \<and> P \<le> b + 2 ^ k \<and> 4096 dvd P" if k: "12 < k"
  proof -
    obtain j where j: "k = 12 + j" "0 < j" using k less_imp_add_positive by blast
    have two: "(2::nat) ^ k = 4096 * 2 ^ j" by (simp add: j power_add)
    have pd: "4096 dvd P" using d unfolding two by (meson dvd_mult_left)
    note c = ceil_mult_bounds [of "2 ^ k" "b + 16", folded P_def]
    have "b < P" using c(1) by simp
    then have "b + 4096 \<le> P" using pd by (auto simp: b_def elim!: dvdE)
    moreover have "P \<le> b + 2 ^ k"
    proof -
      obtain d where d: "P = 4096 * d" using pd by blast
      have "4096 * d < 4096 * (q + 2 ^ j + 1)" using c(2) by (simp add: b_def two d)
      then have "d \<le> q + 2 ^ j" by simp
      then show ?thesis by (simp add: b_def two d)
    qed
    ultimately show ?thesis using pd by simp
  qed
  then show "12 < k \<Longrightarrow> b + 4096 \<le> P" "12 < k \<Longrightarrow> 4096 dvd P" by auto
  show "P \<le> b + 2 ^ k" using small big by (cases "k \<le> 12") auto
qed

section \<open>Metadata\<close>

text \<open>Where \<^verbatim>\<open>uk_get_metadata\<close> looks for the metadata of an object.\<close>

definition meta_addr :: "u64 \<Rightarrow> u64" where
  "meta_addr ptr = (if ALIGN_DOWN ptr PAGE_SIZE = ptr then ptr - PAGE_SIZE else ALIGN_DOWN ptr PAGE_SIZE)"

lemma uk_get_metadata_eq:
  "uk_get_metadata ptr = (if PAGE_SIZE + 16 \<le> ptr then Some (meta_addr ptr) else None)"
  by (simp add: uk_get_metadata_def meta_addr_def Let_def)

lemma unat_meta_addr:
  assumes "4096 \<le> unat p"
  shows "unat (meta_addr p) = (if 4096 dvd unat p then unat p - 4096 else 4096 * (unat p div 4096))"
proof -
  have a: "unat (ALIGN_DOWN p PAGE_SIZE) = unat p div 4096 * 4096" using unat_ALIGN_DOWN [of p 12] by simp
  then have "ALIGN_DOWN p PAGE_SIZE = p \<longleftrightarrow> 4096 dvd unat p"
    by (metis dvd_div_mult_self dvd_triv_right word_unat_eq_iff)
  moreover have "unat (p - PAGE_SIZE) = unat p - 4096" using assms by (subst unat_sub_no_ovf) simp_all
  ultimately show ?thesis using a by (simp add: meta_addr_def)
qed

lemma meta_addr_in_page:
  assumes "4096 dvd unat b" "unat b < unat p" "unat p < unat b + 4096 \<or> (4096 dvd unat p \<and> unat p = unat b + 4096)"
    "4096 \<le> unat p"
  shows "meta_addr p = b"
proof -
  obtain q where q: "unat b = 4096 * q" using assms(1) by blast
  have "unat (meta_addr p) = unat b"
  proof (cases "4096 dvd unat p")
    case True
    then obtain r where r: "unat p = 4096 * r" by blast
    then have "r = Suc q" using assms(2,3) q by auto
    then show ?thesis using unat_meta_addr [OF assms(4)] True q r by simp
  next
    case False
    then have "unat p div 4096 = q" using assms(2,3) q by (intro div_nat_eqI) auto
    then show ?thesis using unat_meta_addr [OF assms(4)] False q by simp
  qed
  then show ?thesis by (simp add: word_unat_eq_iff)
qed

section \<open>The heap with its live objects\<close>

text \<open>The pages recorded in the metadata of the object at \<open>p\<close>: address and number.\<close>

definition blkof :: "'p heap \<Rightarrow> u64 \<Rightarrow> u64 \<times> u64" where
  "blkof h p = (base (md h (meta_addr p)), num_pages (md h (meta_addr p)))"

text \<open>Object and metadata lie in the block, the metadata in front of the object.\<close>

definition fits :: "u64 \<Rightarrow> u64 \<Rightarrow> u64 \<times> u64 \<Rightarrow> bool" where
  "fits p z c \<longleftrightarrow>
     4112 \<le> unat p \<and> 0 < unat z \<and> unat (fst c) \<le> unat (meta_addr p) \<and>
     unat (meta_addr p) + 16 \<le> unat p \<and> unat p + unat z \<le> unat (fst c) + 4096 * unat (snd c)"

text \<open>The live objects are pairs of address and requested size. \<open>holds\<close> is the notion of properly
  held blocks of the page allocator.\<close>

definition hp_ok :: "('p \<Rightarrow> (u64 \<times> u64) set \<Rightarrow> bool) \<Rightarrow> 'p heap \<Rightarrow> (u64 \<times> u64) set \<Rightarrow> bool" where
  "hp_ok holds h Os \<longleftrightarrow>
     holds (priv h) ((\<lambda>ob. blkof h (fst ob)) ` Os) \<and> inj_on (\<lambda>ob. blkof h (fst ob)) Os \<and>
     (\<forall>ob \<in> Os. fits (fst ob) (snd ob) (blkof h (fst ob)))"

lemma hp_ok_bytes: "hp_ok holds (h\<lparr>bytes := f\<rparr>) Os \<longleftrightarrow> hp_ok holds h Os"
  by (simp add: hp_ok_def blkof_def)

lemma hp_ok_copy [simp]:
  "hp_ok holds (memcpy_bytes d s n h) Os \<longleftrightarrow> hp_ok holds h Os"
  "hp_ok holds (memset_bytes d c n h) Os \<longleftrightarrow> hp_ok holds h Os"
  by (simp_all add: memcpy_bytes_def memset_bytes_def hp_ok_bytes)

lemma hp_okD:
  assumes "hp_ok holds h Os" "(p, z) \<in> Os"
  shows "holds (priv h) ((\<lambda>ob. blkof h (fst ob)) ` Os)" "fits p z (blkof h p)"
    "blkof h p \<in> (\<lambda>ob. blkof h (fst ob)) ` Os"
  using assms by (force simp: hp_ok_def)+

text \<open>An allocator record whose page operations are those of the page allocator.\<close>

definition on_pages ::
  "('p \<Rightarrow> u64 \<Rightarrow> ('p \<times> u64) option) \<Rightarrow> ('p \<Rightarrow> u64 \<Rightarrow> u64 \<Rightarrow> 'p option) \<Rightarrow> 'p uk_alloc \<Rightarrow> bool" where
  "on_pages pa pf a \<longleftrightarrow> palloc_f a = Some (lift_palloc pa) \<and> pfree_f a = Some (lift_pfree pf)"

lemma uk_palloc_on: "on_pages pa pf a \<Longrightarrow> uk_palloc (Some a) h n = lift_palloc pa h n"
  by (simp add: on_pages_def uk_palloc_def uk_do_palloc_def)

lemma uk_pfree_on: "on_pages pa pf a \<Longrightarrow> uk_pfree (Some a) h p n = lift_pfree pf h p n"
  by (simp add: on_pages_def uk_pfree_def uk_do_pfree_def)

lemma memcpy_inside:
  assumes "unat i < unat n"
  shows "bytes (memcpy_bytes d s n h) (d + i) = bytes h (s + i)"
  using assms by (simp add: memcpy_bytes_def word_less_nat_alt)

lemma not_in_range:
  fixes x d n :: u64
  assumes "unat x < unat d \<or> unat d + unat n \<le> unat x" "unat d + unat n \<le> 2 ^ 64"
  shows "\<not> x - d < n"
proof (cases "unat d \<le> unat x")
  case True
  then have "unat (x - d) = unat x - unat d" by (rule unat_sub_no_ovf)
  then show ?thesis using assms True by (auto simp: word_less_nat_alt)
next
  case False
  then have "unat (x - d) = unat x + 2 ^ 64 - unat d"
    using unat_lt_64 [of x] unat_lt_64 [of d] unat_sub_if' [of x d] by (simp add: not_le)
  then show ?thesis using assms(2) by (simp add: word_less_nat_alt)
qed

lemma memcpy_outside:
  assumes "unat x < unat d \<or> unat d + unat n \<le> unat x" "unat d + unat n \<le> 2 ^ 64"
  shows "bytes (memcpy_bytes d s n h) x = bytes h x"
  using not_in_range [OF assms] by (simp add: memcpy_bytes_def)

lemma memset_outside:
  assumes "unat x < unat d \<or> unat d + unat n \<le> unat x" "unat d + unat n \<le> 2 ^ 64"
  shows "bytes (memset_bytes d c n h) x = bytes h x"
  using not_in_range [OF assms] by (simp add: memset_bytes_def)

text \<open>What a heap on a page allocator needs of it is the contract of the page allocator.\<close>

locale page_heap = page_allocator inv free span legal palloc pfree
  for inv :: "'p \<Rightarrow> bool"
    and free :: "'p \<Rightarrow> nat set"
    and span :: "u64 \<Rightarrow> u64 \<Rightarrow> nat set"
    and legal :: "'p \<Rightarrow> u64 \<Rightarrow> u64 \<Rightarrow> bool"
    and palloc :: "'p \<Rightarrow> u64 \<Rightarrow> ('p \<times> u64) option"
    and pfree :: "'p \<Rightarrow> u64 \<Rightarrow> u64 \<Rightarrow> 'p option"
begin

text \<open>The pages of the allocator and of the live objects.\<close>

definition hpages :: "'p heap \<Rightarrow> (u64 \<times> u64) set \<Rightarrow> nat set" where
  "hpages h Os = pages (priv h) ((\<lambda>ob. blkof h (fst ob)) ` Os)"

lemma hpages_copy [simp]: "hpages (memcpy_bytes d s n h) Os = hpages h Os" "hpages (memset_bytes d c n h) Os = hpages h Os"
  by (simp_all add: hpages_def memcpy_bytes_def memset_bytes_def blkof_def)

lemma blocks_apart:
  assumes h: "hp_ok holds h Os" and o: "(p, z) \<in> Os" "(p', z') \<in> Os" "(p, z) \<noteq> (p', z')"
  shows "unat (fst (blkof h p)) + 4096 * unat (snd (blkof h p)) \<le> unat (fst (blkof h p')) \<or>
      unat (fst (blkof h p')) + 4096 * unat (snd (blkof h p')) \<le> unat (fst (blkof h p))"
proof -
  have "blkof h p \<noteq> blkof h p'" using h o unfolding hp_ok_def inj_on_def by force
  then show ?thesis
    using held_bytes_disjoint [OF hp_okD(1) [OF h o(1)], of "fst (blkof h p)" "snd (blkof h p)"
        "fst (blkof h p')" "snd (blkof h p')"] hp_okD(3) [OF h o(1)] hp_okD(3) [OF h o(2)] by simp
qed

lemma objects_disjoint:
  assumes h: "hp_ok holds h Os" and o: "(p, z) \<in> Os" "(p', z') \<in> Os" "(p, z) \<noteq> (p', z')"
  shows "unat p + unat z \<le> unat p' \<or> unat p' + unat z' \<le> unat p"
  using blocks_apart [OF assms] hp_okD(2) [OF h o(1)] hp_okD(2) [OF h o(2)] by (auto simp: fits_def)

text \<open>No metadata lies in an object.\<close>

lemma metadata_apart:
  assumes h: "hp_ok holds h Os" and o: "(p, z) \<in> Os" "(p', z') \<in> Os"
  shows "unat (meta_addr p) + 16 \<le> unat p' \<or> unat p' + unat z' \<le> unat (meta_addr p)"
proof (cases "(p, z) = (p', z')")
  case False
  then show ?thesis
    using blocks_apart [OF h o] hp_okD(2) [OF h o(1)] hp_okD(2) [OF h o(2)] by (auto simp: fits_def)
qed (use hp_okD(2) [OF h o(1)] in \<open>simp add: fits_def\<close>)

text \<open>A fresh block of pages with an object placed in it.\<close>

lemma hp_ok_place:
  assumes h: "hp_ok holds h Os" and n: "0 < unat n" "unat n \<le> 2 ^ 52"
    and pa: "palloc (priv h) n = Some (s', b)" "b \<noteq> 0" and f: "fits p z (b, n)"
  defines "h' \<equiv> h\<lparr>priv := s', md := (md h)(meta_addr p := \<lparr>num_pages = n, base = b\<rparr>)\<rparr>"
  shows "hp_ok holds h' (insert (p, z) Os)" "(p, z) \<notin> Os" "hpages h' (insert (p, z) Os) = hpages h Os"
proof -
  let ?B = "\<lambda>h. (\<lambda>ob. blkof h (fst ob))"
  have ho: "holds (priv h) (?B h ` Os)" using h by (simp add: hp_ok_def)
  note fr = palloc_fresh [OF ho n pa]
  have bb: "unat b + 4096 * unat n \<le> unat b' \<or> unat b' + 4096 * unat n' \<le> unat b"
    if "(b', n') \<in> ?B h ` Os" for b' n'
  proof -
    have "(b, n) \<noteq> (b', n')" using fr(2) that by metis
    then show ?thesis using held_bytes_disjoint [OF fr(1), of b n b' n'] that by simp
  qed
  have other: "meta_addr q \<noteq> meta_addr p" if "(q, y) \<in> Os" for q y
  proof
    assume e: "meta_addr q = meta_addr p"
    have "fits q y (blkof h q)" "blkof h q \<in> ?B h ` Os" using hp_okD [OF h that] by auto
    then show False using f e bb [of "fst (blkof h q)" "snd (blkof h q)"] by (auto simp: fits_def)
  qed
  have same: "blkof h' q = blkof h q" if "(q, y) \<in> Os" for q y
    using other [OF that] by (simp add: blkof_def h'_def)
  have new: "blkof h' p = (b, n)" by (simp add: blkof_def h'_def)
  have im: "?B h' ` Os = ?B h ` Os" using same by (intro image_cong) auto
  show np: "(p, z) \<notin> Os" using other by blast
  show "hpages h' (insert (p, z) Os) = hpages h Os" using fr(3) im new by (simp add: hpages_def h'_def)
  have "inj_on (?B h') (insert (p, z) Os)"
  proof -
    have "inj_on (?B h') Os = inj_on (?B h) Os" by (rule inj_on_cong) (use same in auto)
    then have "inj_on (?B h') Os" using h by (simp add: hp_ok_def)
    moreover have "?B h' (p, z) \<notin> ?B h' ` Os" using fr(2) im new by simp
    ultimately show ?thesis using np by simp
  qed
  moreover have "holds (priv h') (?B h' ` insert (p, z) Os)" using fr(1) im new by (simp add: h'_def)
  moreover have "fits (fst ob) (snd ob) (blkof h' (fst ob))" if "ob \<in> insert (p, z) Os" for ob
    using that f new same hp_okD(2) [OF h] by (cases ob) auto
  ultimately show "hp_ok holds h' (insert (p, z) Os)" unfolding hp_ok_def by blast
qed

lemma block_bounds:
  assumes h: "hp_ok holds h Os" and n: "0 < unat n" "unat n \<le> 2 ^ 52"
    and pa: "palloc (priv h) n = Some (s', b)" "b \<noteq> 0"
  shows "4096 dvd unat b" "4096 \<le> unat b" "unat b + 4096 * unat n < 2 ^ 64"
proof -
  have ho: "holds (priv h) ((\<lambda>ob. blkof h (fst ob)) ` Os)" using h by (simp add: hp_ok_def)
  note fr = palloc_fresh [OF ho n pa]
  have "inv (priv h)" using ho by (simp add: holds_def)
  note l = legal_law [OF this fr(5)]
  then show "4096 dvd unat b" by simp
  then obtain q where q: "unat b = 4096 * q" by blast
  have "0 < unat b" using l by simp
  then show "4096 \<le> unat b" using q by simp
  have "4096 * (q + unat n) < 2 ^ 64" using l q by (simp add: pfn_def)
  then show "unat b + 4096 * unat n < 2 ^ 64" using q by simp
qed

text \<open>\<^verbatim>\<open>uk_malloc_ifpages\<close>\<close>

lemma malloc_ifpages_ok:
  assumes a: "on_pages palloc pfree a" and h: "hp_ok holds h Os"
    and z: "0 < unat z" "unat z + 16 + 4096 \<le> 2 ^ 64"
  shows "\<exists>h' p. uk_malloc_ifpages (Some a) h z = Some (h', p) \<and> bytes h' = bytes h \<and> errno_v h' = errno_v h \<and>
    (if p = 0 then h' = h
     else hp_ok holds h' (insert (p, z) Os) \<and> (p, z) \<notin> Os \<and> 16 dvd unat p \<and> hpages h' (insert (p, z) Os) = hpages h Os)"
proof -
  have r: "unat (16 + z) = 16 + unat z" using z(2) by (subst unat_add_64) simp_all
  define n where "n = size_to_num_pages (16 + z)"
  have nb: "0 < unat n" "unat n \<le> 2 ^ 52" "unat (16 + z) \<le> 4096 * unat n"
    unfolding n_def by (rule size_to_num_pages_bounds; use z r in simp)+
  have ho: "holds (priv h) ((\<lambda>ob. blkof h (fst ob)) ` Os)" using h by (simp add: hp_ok_def)
  then have "inv (priv h)" by (simp add: holds_def)
  then obtain s' b where pa: "palloc (priv h) n = Some (s', b)" using palloc_total nb by blast
  have guard: "\<not> (z = 0 \<or> 16 + z < z)" using z(1) r by (auto simp: word_less_nat_alt)
  have eq: "uk_malloc_ifpages (Some a) h z =
      (if b = 0 then Some (h\<lparr>priv := s'\<rparr>, 0)
       else Some (h\<lparr>priv := s', md := (md h)(b := \<lparr>num_pages = n, base = b\<rparr>)\<rparr>, b + 16))"
    using guard by (simp add: uk_malloc_ifpages_def Let_def n_def [symmetric] uk_palloc_on [OF a] lift_palloc_def pa)
  show ?thesis
  proof (cases "b = 0")
    case True
    then have "s' = priv h" using palloc_null [OF ho nb(1,2)] pa by simp
    then show ?thesis using eq True by simp
  next
    case False
    note bb = block_bounds [OF h nb(1,2) pa False]
    have p: "unat (b + 16) = unat b + 16" using bb nb(1) by (subst unat_add_64) simp_all
    have m: "meta_addr (b + 16) = b" using bb p by (intro meta_addr_in_page) simp_all
    have f: "fits (b + 16) z (b, n)" using bb p m nb(3) z(1) r by (simp add: fits_def)
    note pl = hp_ok_place [OF h nb(1,2) pa False f, unfolded m]
    have "16 dvd unat b" using bb(1) by (auto elim!: dvdE)
    then have "16 dvd unat (b + 16)" by (simp add: p)
    moreover have "b + 16 \<noteq> 0" using p by (metis add_is_0 unat_0 zero_neq_numeral)
    ultimately show ?thesis using eq False pl by simp
  qed
qed

text \<open>\<^verbatim>\<open>uk_free_ifpages\<close>\<close>

lemma free_ifpages_ok:
  assumes a: "on_pages palloc pfree a" and h: "hp_ok holds h Os" and o: "(p, z) \<in> Os"
  shows "\<exists>h'. uk_free_ifpages (Some a) h p = Some h' \<and> hp_ok holds h' (Os - {(p, z)}) \<and>
    hpages h' (Os - {(p, z)}) = hpages h Os \<and> bytes h' = bytes h \<and> errno_v h' = errno_v h"
proof -
  let ?B = "\<lambda>h. (\<lambda>ob. blkof h (fst ob))"
  obtain b n where c: "blkof h p = (b, n)" by (cases "blkof h p")
  note d = hp_okD [OF h o, unfolded c]
  obtain s' where s': "pfree (priv h) b n = Some s'" "holds s' (?B h ` Os - {(b, n)})"
    "pages s' (?B h ` Os - {(b, n)}) = pages (priv h) (?B h ` Os)"
    using pfree_held [OF d(1,3)] by blast
  have "0 < unat b" "0 < unat n" using legal_law [OF holdsD(1,2) [OF d(1,3)]] by auto
  then have l: "b \<noteq> 0" "n \<noteq> 0" by auto
  have g: "uk_get_metadata p = Some (meta_addr p)" "p \<noteq> 0"
    using d(2) by (auto simp: uk_get_metadata_eq fits_def word_le_nat_alt)
  have m: "base (md h (meta_addr p)) = b" "num_pages (md h (meta_addr p)) = n"
    using c by (auto simp: blkof_def)
  have eq: "uk_free_ifpages (Some a) h p = Some (h\<lparr>priv := s'\<rparr>)"
    using g l by (auto simp: uk_free_ifpages_def m uk_pfree_on [OF a] lift_pfree_def s'(1))
  have b': "blkof (h\<lparr>priv := s'\<rparr>) = blkof h" by (auto simp: blkof_def)
  have inj: "inj_on (?B h) Os" using h by (simp add: hp_ok_def)
  have "?B h ` (Os - {(p, z)}) = ?B h ` Os - ?B h ` {(p, z)}"
    using inj o by (intro inj_on_image_set_diff [of _ Os]) auto
  then have im: "?B h ` (Os - {(p, z)}) = ?B h ` Os - {(b, n)}" by (simp add: c)
  have "hp_ok holds (h\<lparr>priv := s'\<rparr>) (Os - {(p, z)})"
    using h s'(2) inj by (auto simp: hp_ok_def b' im inj_on_diff)
  moreover have "hpages (h\<lparr>priv := s'\<rparr>) (Os - {(p, z)}) = hpages h Os"
    using s'(3) by (simp add: hpages_def b' im)
  ultimately show ?thesis using eq by simp
qed

text \<open>\<^verbatim>\<open>uk_realloc_ifpages\<close>: the usable size of an object is at least the size it was requested with.\<close>

lemma getmallocsize_ok:
  assumes h: "hp_ok holds h Os" and o: "(p, z) \<in> Os"
  shows "\<exists>y. uk_getmallocsize h p = Some y \<and> unat z \<le> unat y \<and>
    unat p + unat y = unat (fst (blkof h p)) + 4096 * unat (snd (blkof h p))"
proof -
  obtain b n where c: "blkof h p = (b, n)" by (cases "blkof h p")
  note d = hp_okD [OF h o, unfolded c]
  have l: "4096 * (pfn b + unat n) < 2 ^ 64" "4096 dvd unat b"
    using legal_law [OF holdsD(1,2) [OF d(1,3)]] by auto
  then have e: "unat b + 4096 * unat n < 2 ^ 64" by (auto simp: pfn_def)
  have m: "unat (n * PAGE_SIZE) = 4096 * unat n" using e by (simp add: unat_word_ariths)
  then have s: "unat (b + n * PAGE_SIZE) = unat b + 4096 * unat n" using e by (subst unat_add_64) simp_all
  have f: "fits p z (b, n)" using d(2) .
  have "unat (b + n * PAGE_SIZE - p) = unat b + 4096 * unat n - unat p"
    using f s by (subst unat_sub_no_ovf) (auto simp: fits_def)
  moreover have "uk_getmallocsize h p = Some (b + n * PAGE_SIZE - p)"
    using c f by (auto simp: uk_getmallocsize_def uk_get_metadata_eq blkof_def fits_def word_le_nat_alt)
  ultimately show ?thesis using f by (auto simp: fits_def c)
qed

text \<open>The bytes of the object \<open>(p, z)\<close> are the same in both heaps.\<close>

definition same_obj :: "'p heap \<Rightarrow> 'p heap \<Rightarrow> u64 \<times> u64 \<Rightarrow> bool" where
  "same_obj h h' ob \<longleftrightarrow> (\<forall>i. unat i < unat (snd ob) \<longrightarrow> bytes h' (fst ob + i) = bytes h (fst ob + i))"

lemma fits_obj:
  assumes "hp_ok holds h Os" "(p, z) \<in> Os"
  shows "unat p + unat z < 2 ^ 64" "4112 \<le> unat p" "0 < unat z"
proof -
  obtain b n where c: "blkof h p = (b, n)" by (cases "blkof h p")
  note d = hp_okD [OF assms, unfolded c]
  have "4096 * (pfn b + unat n) < 2 ^ 64" "4096 dvd unat b"
    using legal_law [OF holdsD(1,2) [OF d(1,3)]] by auto
  then have "unat b + 4096 * unat n < 2 ^ 64" by (auto simp: pfn_def)
  then show "unat p + unat z < 2 ^ 64" "4112 \<le> unat p" "0 < unat z" using d(2) by (auto simp: fits_def)
qed

lemma realloc_ifpages_ok:
  assumes a: "on_pages palloc pfree a" and h: "hp_ok holds h Os" and o: "(p, y) \<in> Os"
    and z: "0 < unat z" "unat z + 16 + 4096 \<le> 2 ^ 64"
  shows "\<exists>h' q. uk_realloc_ifpages (Some a) h p z = Some (h', q) \<and> errno_v h' = errno_v h \<and>
    (if q = 0 then h' = h
     else hp_ok holds h' (insert (q, z) (Os - {(p, y)})) \<and> hpages h' (insert (q, z) (Os - {(p, y)})) = hpages h Os \<and>
       (\<forall>i. unat i < unat y \<longrightarrow> unat i < unat z \<longrightarrow> bytes h' (q + i) = bytes h (p + i)) \<and>
       (\<forall>ob \<in> Os - {(p, y)}. same_obj h h' ob))"
proof -
  have p0: "p \<noteq> 0" and z0: "z \<noteq> 0" using fits_obj(2) [OF h o] z(1) by auto
  obtain h1 q where m: "uk_malloc_ifpages (Some a) h z = Some (h1, q)" "bytes h1 = bytes h" "errno_v h1 = errno_v h"
    "if q = 0 then h1 = h else hp_ok holds h1 (insert (q, z) Os) \<and> (q, z) \<notin> Os \<and> 16 dvd unat q \<and> hpages h1 (insert (q, z) Os) = hpages h Os"
    using malloc_ifpages_ok [OF a h z] by blast
  show ?thesis
  proof (cases "q = 0")
    case True
    then show ?thesis using m p0 z0 by (simp add: uk_realloc_ifpages_def)
  next
    case False
    then have h1: "hp_ok holds h1 (insert (q, z) Os)" "(q, z) \<notin> Os" "hpages h1 (insert (q, z) Os) = hpages h Os" using m(4) by auto
    have o1: "(p, y) \<in> insert (q, z) Os" "(q, z) \<noteq> (p, y)" using o h1(2) by auto
    obtain w where w: "uk_getmallocsize h1 p = Some w" "unat y \<le> unat w" using getmallocsize_ok [OF h1(1) o1(1)] by blast
    define l where "l = (if z < w then z else w)"
    define h2 where "h2 = memcpy_bytes q p l h1"
    have lz: "unat l \<le> unat z" "unat i < unat y \<Longrightarrow> unat i < unat z \<Longrightarrow> unat i < unat l" for i
      using w(2) by (auto simp: l_def word_less_nat_alt)
    have h2: "hp_ok holds h2 (insert (q, z) Os)" using h1(1) by (simp add: h2_def)
    obtain h3 where h3: "uk_free_ifpages (Some a) h2 p = Some h3" "hp_ok holds h3 (insert (q, z) Os - {(p, y)})"
      "hpages h3 (insert (q, z) Os - {(p, y)}) = hpages h2 (insert (q, z) Os)"
      "bytes h3 = bytes h2" "errno_v h3 = errno_v h2" using free_ifpages_ok [OF a h2 o1(1)] by blast
    have h2e: "(if z < w then memcpy_bytes q p z h1 else memcpy_bytes q p w h1) = h2"
      by (simp add: h2_def l_def)
    have eq: "uk_realloc_ifpages (Some a) h p z = Some (h3, q)"
      using p0 z0 False h3(1) by (simp add: uk_realloc_ifpages_def m(1) w(1) Let_def h2e)
    have qz: "unat q + unat z < 2 ^ 64" using fits_obj(1) [OF h1(1), of q z] by simp
    have "same_obj h h3 (r, x)" if "(r, x) \<in> Os - {(p, y)}" for r x
      unfolding same_obj_def
    proof (intro allI impI)
      fix i assume i: "unat (i::u64) < unat (snd (r, x))"
      have rx: "unat r + unat x < 2 ^ 64" using fits_obj(1) [OF h, of r x] that by simp
      then have u: "unat (r + i) = unat r + unat i" using i by (subst unat_add_64) simp_all
      have "unat r + unat x \<le> unat q \<or> unat q + unat z \<le> unat r"
        using objects_disjoint [OF h1(1), of r x q z] that h1(2) by auto
      then have "bytes h2 (r + i) = bytes h1 (r + i)" unfolding h2_def
        using u i qz lz(1) by (intro memcpy_outside) auto
      then show "bytes h3 (fst (r, x) + i) = bytes h (fst (r, x) + i)" by (simp add: h3(4) m(2))
    qed
    then have "\<forall>ob \<in> Os - {(p, y)}. same_obj h h3 ob" by auto
    moreover have "bytes h3 (q + i) = bytes h (p + i)" if "unat i < unat y" "unat i < unat z" for i
      using lz(2) [OF that] by (simp add: h3(4) h2_def memcpy_inside m(2))
    moreover have "insert (q, z) Os - {(p, y)} = insert (q, z) (Os - {(p, y)})" using o1(2) by auto
    moreover have "hpages h2 (insert (q, z) Os) = hpages h Os" using h1(3) by (simp add: h2_def)
    moreover have "errno_v h2 = errno_v h" using m(3) by (simp add: h2_def memcpy_bytes_def)
    ultimately show ?thesis using eq h3 False by simp
  qed
qed

text \<open>\<^verbatim>\<open>uk_posix_memalign_ifpages\<close>: the place of the object in its block for every alignment.\<close>

lemma memalign_fits:
  assumes b: "4096 dvd unat b" "4096 \<le> unat b" "unat b + 4096 * unat n < 2 ^ 64"
    and al: "align = 2 ^ k" "4 \<le> k" "k < 64" and z: "0 < unat z"
    and r: "unat z + (if 12 < k then 4096 else 0) + 2 ^ k \<le> 4096 * unat n"
  defines "p \<equiv> ALIGN_UP (b + 16) align"
  shows "fits p z (b, n)" "2 ^ k dvd unat p" "unat b \<le> unat (meta_addr p)"
proof -
  obtain q where q: "unat b = 4096 * q" using b(1) by blast
  note ap = align_place [OF al(2), of q]
  have n0: "0 < unat n" using r by (cases "unat n") auto
  have room: "16 + 2 ^ k \<le> 4096 * unat n"
  proof (cases "12 < k")
    case True
    then show ?thesis using r by simp
  next
    case False
    have "(2::nat) ^ k dvd 4096" using le_imp_power_dvd [of k 12 "2::nat"] False by simp
    then obtain c where c: "4096 = 2 ^ k * (c::nat)" by blast
    have k16: "(16::nat) \<le> 2 ^ k" using power_increasing [OF al(2), of "2::nat"] by simp
    have "2 ^ k < 4096 * unat n" using r z False by simp
    then have "2 ^ k * 1 < 2 ^ k * (c * unat n)" unfolding c by (simp add: mult.assoc)
    then have "1 < c * unat n" by simp
    then have "2 ^ k * 2 \<le> 2 ^ k * (c * unat n)" by (intro mult_le_mono2) simp
    then have "2 ^ k * 2 \<le> 4096 * unat n" unfolding c by (simp only: mult.assoc)
    then show ?thesis using k16 by linarith
  qed
  have b16: "unat (b + 16) = unat b + 16" using b n0 by (subst unat_add_64) simp_all
  have "unat (b + 16) + 2 ^ k \<le> 2 ^ 64" using room b(3) by (simp add: b16)
  then have P: "unat p = (4096 * q + 16 + 2 ^ k - 1) div 2 ^ k * 2 ^ k"
    unfolding p_def al(1) by (subst unat_ALIGN_UP [OF al(3)]) (simp_all add: b16 q)
  show "2 ^ k dvd unat p" by (simp add: P)
  have k16: "(16::nat) \<le> 2 ^ k" using power_increasing [OF al(2), of "2::nat"] by simp
  have up: "unat p \<le> unat b + 2 ^ k" using ap(4) by (simp add: P q)
  have meta: "unat b \<le> unat (meta_addr p) \<and> unat (meta_addr p) + 16 \<le> unat p \<and> 4112 \<le> unat p"
  proof (cases "12 < k")
    case True
    then have d: "4096 dvd unat p" "unat b + 4096 \<le> unat p" using ap(3,5) by (simp_all add: P q)
    then show ?thesis using b(2) unat_meta_addr [of p] by simp
  next
    case False
    then have e: "unat p = unat b + 2 ^ k" using ap(2) by (simp add: P q)
    have "(2::nat) ^ k \<le> 2 ^ 12" using False by (intro power_increasing) simp_all
    moreover have "4096 dvd unat p" if "2 ^ k = (4096::nat)" using e that b(1) by simp
    ultimately have "meta_addr p = b" using e b k16
      by (intro meta_addr_in_page) (auto simp: le_less)
    then show ?thesis using e k16 b(2) by simp
  qed
  then show "unat b \<le> unat (meta_addr p)" by simp
  show "fits p z (b, n)" using meta up r z by (simp add: fits_def)
qed

lemma memalign_padding_pow2:
  assumes "align0 = 2 ^ j" "j < 64" "memalign_padding align0 = (align, padding)"
  shows "\<exists>k. align = 2 ^ k \<and> 4 \<le> k \<and> k < 64 \<and> j \<le> k \<and> k \<le> max 4 j \<and>
    (if 12 < k then 4096 else 0) \<le> unat padding \<and> unat padding \<le> 4096"
proof -
  have u: "unat align0 = 2 ^ j" using assms(1,2) by (simp add: unat_pow2_64)
  have lt: "PAGE_SIZE < align0 \<longleftrightarrow> 12 < j"
    using power_strict_increasing_iff [of "2::nat" 12 j] by (simp add: word_less_nat_alt u)
  have eq: "align0 = PAGE_SIZE \<longleftrightarrow> j = 12"
    using power_inject_exp [of "2::nat" j 12] u by (auto simp: word_unat_eq_iff)
  have small: "align0 < 16 \<longleftrightarrow> j < 4"
    using power_strict_increasing_iff [of "2::nat" j 4] by (simp add: word_less_nat_alt u)
  have s: "(16::u64) = 2 ^ 4" by simp
  show ?thesis
  proof (cases "j < 4")
    case True
    then have "align = 2 ^ 4" "padding = 0" using assms(3) lt eq small by (auto simp: memalign_padding_def)
    then show ?thesis using True by (intro exI [of _ 4]) simp
  next
    case False
    then have "align = 2 ^ j" "12 < j \<longrightarrow> padding = 4096" "padding = 4096 \<or> padding = 0 \<or> padding = 16"
      using assms lt eq small by (auto simp: memalign_padding_def split: if_splits)
    then show ?thesis using False assms(2) by (intro exI [of _ j]) auto
  qed
qed

lemma memalign_ifpages_ok:
  assumes a: "on_pages palloc pfree a" and h: "hp_ok holds h Os"
    and al: "align = 2 ^ j" "3 \<le> j" "j < 64" and z: "0 < unat z" "unat z + 2 ^ j + 16384 \<le> 2 ^ 64"
  shows "\<exists>h' r. uk_posix_memalign_ifpages (Some a) h align z = Some (h', r) \<and> bytes h' = bytes h \<and>
    errno_v h' = errno_v h \<and>
    (case r of Inl e \<Rightarrow> e = ENOMEM \<and> h' = h
     | Inr p \<Rightarrow> hp_ok holds h' (insert (p, z) Os) \<and> (p, z) \<notin> Os \<and> 2 ^ j dvd unat p \<and>
         hpages h' (insert (p, z) Os) = hpages h Os)"
proof -
  obtain al' pad where ap: "memalign_padding align = (al', pad)" by (cases "memalign_padding align")
  obtain k where k: "al' = 2 ^ k" "4 \<le> k" "k < 64" "j \<le> k" "k \<le> max 4 j"
    "(if 12 < k then 4096 else 0) \<le> unat pad" "unat pad \<le> 4096"
    using memalign_padding_pow2 [OF al(1,3) ap] by blast
  have k2: "(2::nat) ^ k \<le> 16 + 2 ^ j"
  proof (cases "j \<le> 4")
    case True
    then have "k = 4" using k by simp
    then show ?thesis by simp
  next
    case False
    then have "k = j" using k by simp
    then show ?thesis by simp
  qed
  have u: "unat al' = 2 ^ k" using k by (simp add: unat_pow2_64)
  have zp: "unat (z + pad) = unat z + unat pad" using z k(7) by (subst unat_add_64) simp_all
  have rs: "unat (z + pad + al') = unat z + unat pad + 2 ^ k"
    using z k(7) k2 u zp by (subst unat_add_64) simp_all
  define n where "n = size_to_num_pages (z + pad + al')"
  have nb: "0 < unat n" "unat n \<le> 2 ^ 52" "unat (z + pad + al') \<le> 4096 * unat n"
    unfolding n_def by (rule size_to_num_pages_bounds; use z k k2 rs in simp)+
  have ho: "holds (priv h) ((\<lambda>ob. blkof h (fst ob)) ` Os)" using h by (simp add: hp_ok_def)
  then have "inv (priv h)" by (simp add: holds_def)
  then obtain s' b where pa: "palloc (priv h) n = Some (s', b)" using palloc_total nb by blast
  have t: "(align - 1) AND align = 0" "align mod 8 = 0" by (rule pow2_align_tests [OF al])+
  have "\<not> z + pad + al' < z" "z \<noteq> 0" using rs z(1) by (auto simp: word_less_nat_alt)
  then have eq: "uk_posix_memalign_ifpages (Some a) h align z =
      (if b = 0 then Some (h\<lparr>priv := s'\<rparr>, Inl ENOMEM)
       else do {
         metadata \<leftarrow> uk_get_metadata (ALIGN_UP (b + 16) al');
         uk_assert (b \<le> metadata);
         Some (h\<lparr>priv := s', md := (md h)(metadata := \<lparr>num_pages = n, base = b\<rparr>)\<rparr>, Inr (ALIGN_UP (b + 16) al'))
       })"
    using t by (simp add: uk_posix_memalign_ifpages_def ap Let_def n_def [symmetric] uk_palloc_on [OF a] lift_palloc_def pa)
  show ?thesis
  proof (cases "b = 0")
    case True
    then have "s' = priv h" using palloc_null [OF ho nb(1,2)] pa by simp
    then show ?thesis using eq True by simp
  next
    case False
    note bb = block_bounds [OF h nb(1,2) pa False]
    define p where "p = ALIGN_UP (b + 16) al'"
    have "unat z + (if 12 < k then 4096 else 0) + 2 ^ k \<le> 4096 * unat n" using nb(3) rs k(6) by linarith
    note mf = memalign_fits [OF bb k(1-3) z(1) this, folded p_def]
    note pl = hp_ok_place [OF h nb(1,2) pa False mf(1)]
    have "uk_get_metadata p = Some (meta_addr p)"
      using mf(1) by (simp add: uk_get_metadata_eq fits_def word_le_nat_alt)
    moreover have "b \<le> meta_addr p" using mf(3) by (simp add: word_le_nat_alt)
    moreover have "(2::nat) ^ j dvd unat p" using mf(2) k(4) by (meson dvd_trans le_imp_power_dvd)
    ultimately show ?thesis using eq False pl unfolding p_def [symmetric] by simp
  qed
qed

end

end
