(* ===== verification/BuddyBlocks.thy ===== *)
theory BuddyBlocks
  imports Main
begin

text \<open>
  Aligned blocks of page frames: a block of order \<open>k\<close> is \<open>2 ^ k\<close> frames from a multiple of its size on, two
  blocks are nested or disjoint, and the buddy of a block is the other half of the block of the next order.
\<close>

definition blk :: "nat \<times> nat \<Rightarrow> nat set" where
  "blk c = {fst c ..< fst c + 2 ^ snd c}"

definition aligned :: "nat \<times> nat \<Rightarrow> bool" where
  "aligned c \<longleftrightarrow> 2 ^ snd c dvd fst c"

definition buddy :: "nat \<Rightarrow> nat \<Rightarrow> nat" where
  "buddy p i = (if odd (p div 2 ^ i) then p - 2 ^ i else p + 2 ^ i)"

definition chunks_ok :: "(nat \<times> nat) set \<Rightarrow> bool" where
  "chunks_ok C \<longleftrightarrow> (\<forall>c\<in>C. aligned c) \<and> pairwise (\<lambda>c d. blk c \<inter> blk d = {}) C"

definition no_buddies :: "(nat \<times> nat) set \<Rightarrow> bool" where
  "no_buddies C \<longleftrightarrow> (\<forall>p i. (p, i) \<in> C \<longrightarrow> (buddy p i, i) \<notin> C)"

lemma blk_iff: "x \<in> blk (p, i) \<longleftrightarrow> p \<le> x \<and> x < p + 2 ^ i"
  by (simp add: blk_def)

lemma blk_self [simp]: "p \<in> blk (p, i)"
  by (simp add: blk_iff)

lemma blk_0 [simp]: "blk (p, 0) = {p}"
  by (auto simp: blk_def)

lemma blk_nonempty [simp]: "blk c \<noteq> {}"
  by (simp add: blk_def)

lemma blk_aligned_iff: "aligned (p, i) \<Longrightarrow> x \<in> blk (p, i) \<longleftrightarrow> x div 2 ^ i = p div 2 ^ i"
proof -
  assume "aligned (p, i)"
  then obtain k where k: "p = 2 ^ i * k" by (auto simp: aligned_def)
  have "x div 2 ^ i = k \<longleftrightarrow> 2 ^ i * k \<le> x \<and> x < 2 ^ i * Suc k"
  proof
    assume "x div 2 ^ i = k"
    then show "2 ^ i * k \<le> x \<and> x < 2 ^ i * Suc k"
      using dividend_less_times_div [of "2^i" x] times_div_less_eq_dividend [of "2^i" x] by auto
  next
    assume "2 ^ i * k \<le> x \<and> x < 2 ^ i * Suc k"
    then show "x div 2 ^ i = k" by (intro div_nat_eqI) auto
  qed
  then show ?thesis using k by (simp add: blk_iff algebra_simps)
qed

lemma div_pow2_mono: "i \<le> j \<Longrightarrow> (x::nat) div 2 ^ i = y div 2 ^ i \<Longrightarrow> x div 2 ^ j = y div 2 ^ j"
proof -
  assume le: "i \<le> j" and e: "x div 2 ^ i = y div 2 ^ i"
  have "z div 2 ^ j = z div 2 ^ i div 2 ^ (j - i)" for z :: nat
    using le by (simp add: div_mult2_eq [symmetric] power_add [symmetric])
  then show ?thesis using e by simp
qed

lemma blk_nested:
  assumes "aligned (p, i)" "aligned (q, j)" "i \<le> j" "blk (p, i) \<inter> blk (q, j) \<noteq> {}"
  shows "blk (p, i) \<subseteq> blk (q, j)"
proof -
  obtain x where x: "x div 2 ^ i = p div 2 ^ i" "x div 2 ^ j = q div 2 ^ j"
    using assms by (auto simp: blk_aligned_iff)
  show ?thesis
  proof
    fix y assume "y \<in> blk (p, i)"
    then have "y div 2 ^ i = x div 2 ^ i" using assms x by (simp add: blk_aligned_iff)
    then have "y div 2 ^ j = x div 2 ^ j" using assms(3) by (rule div_pow2_mono [rotated])
    then show "y \<in> blk (q, j)" using assms x by (simp add: blk_aligned_iff)
  qed
qed

lemma aligned_eq_start:
  assumes "aligned (p, i)" "aligned (q, j)" "j \<le> i" "p \<in> blk (q, j)"
  shows "q = p"
proof -
  have "2 ^ j dvd p" using assms(1,3) by (metis aligned_def dvd_trans fst_conv le_imp_power_dvd snd_conv)
  moreover have "2 ^ j dvd q" using assms(2) by (simp add: aligned_def)
  moreover have "p div 2 ^ j = q div 2 ^ j" using assms by (simp add: blk_aligned_iff)
  ultimately show ?thesis by (metis dvd_div_mult_self)
qed

lemma split_blk: "blk (p, Suc i) = blk (p, i) \<union> blk (p + 2 ^ i, i)"
  by (auto simp: blk_iff)

lemma split_disj: "blk (p, i) \<inter> blk (p + 2 ^ i, i) = {}"
  by (auto simp: blk_iff)

lemma aligned_split: "aligned (p, Suc i) \<Longrightarrow> aligned (p, i) \<and> aligned (p + 2 ^ i, i)"
  by (auto simp: aligned_def intro: dvd_mult_right)

lemma buddy_aligned: "aligned (p, i) \<Longrightarrow> aligned (buddy p i, i)"
  by (auto simp: aligned_def buddy_def intro: dvd_diff_nat)

lemma odd_div_ge: "odd ((p::nat) div 2 ^ i) \<Longrightarrow> 2 ^ i \<le> p"
  by (metis div_less even_zero not_le)

lemma buddy_merge:
  assumes "aligned (p, i)"
  shows "aligned (min p (buddy p i), Suc i)"
    and "blk (min p (buddy p i), Suc i) = blk (p, i) \<union> blk (buddy p i, i)"
proof -
  obtain k where k: "p = 2 ^ i * k" using assms by (auto simp: aligned_def)
  have d: "p div 2 ^ i = k" using k by simp
  have "aligned (min p (buddy p i), Suc i) \<and>
    blk (min p (buddy p i), Suc i) = blk (p, i) \<union> blk (buddy p i, i)"
  proof (cases "odd k")
    case True
    then obtain m where m: "k = 2 * m + 1" by (elim oddE)
    have b: "buddy p i = p - 2 ^ i" using True d by (simp add: buddy_def)
    have le: "2 ^ i \<le> p" using True d odd_div_ge [of p i] by simp
    have q: "p - 2 ^ i = 2 ^ Suc i * m" unfolding k m by (simp add: algebra_simps)
    have mn: "min p (p - 2 ^ i) = p - 2 ^ i" by simp
    have bl: "blk (p - 2 ^ i, Suc i) = blk (p - 2 ^ i, i) \<union> blk (p, i)"
      using split_blk [of "p - 2 ^ i" i] le by simp
    show ?thesis unfolding b mn bl by (simp add: Un_commute aligned_def q)
  next
    case False
    then obtain m where m: "k = 2 * m" by auto
    have b: "buddy p i = p + 2 ^ i" using False d by (simp add: buddy_def)
    have q: "p = 2 ^ Suc i * m" unfolding k m by simp
    have mn: "min p (p + 2 ^ i) = p" by simp
    have "aligned (p, Suc i)" unfolding aligned_def q by simp
    then show ?thesis unfolding b mn split_blk by simp
  qed
  then show "aligned (min p (buddy p i), Suc i)"
    and "blk (min p (buddy p i), Suc i) = blk (p, i) \<union> blk (buddy p i, i)" by blast+
qed

lemma chunks_okD: "chunks_ok C \<Longrightarrow> c \<in> C \<Longrightarrow> aligned c"
  by (simp add: chunks_ok_def)

lemma chunks_ok_disj: "chunks_ok C \<Longrightarrow> c \<in> C \<Longrightarrow> d \<in> C \<Longrightarrow> c \<noteq> d \<Longrightarrow> blk c \<inter> blk d = {}"
  unfolding chunks_ok_def by (blast dest: pairwiseD)

lemma chunks_ok_insert:
  "chunks_ok (insert c C) \<longleftrightarrow> aligned c \<and> chunks_ok C \<and> (\<forall>d\<in>C. c \<noteq> d \<longrightarrow> blk c \<inter> blk d = {})"
  unfolding chunks_ok_def pairwise_insert ball_simps(7) by (metis Int_commute)

lemma chunks_ok_subset: "chunks_ok C \<Longrightarrow> D \<subseteq> C \<Longrightarrow> chunks_ok D"
  unfolding chunks_ok_def by (blast intro: pairwise_subset)

text \<open>Splitting the held chunk.\<close>

lemma chunks_ok_split:
  assumes "chunks_ok (insert (p, Suc i) C)" "(p, Suc i) \<notin> C"
  shows "chunks_ok (insert (p, i) (insert (p + 2 ^ i, i) C))" (is ?A)
    and "(p, i) \<notin> insert (p + 2 ^ i, i) C" "(p + 2 ^ i, i) \<notin> C"
proof -
  have C: "chunks_ok C" and al: "aligned (p, i)" "aligned (p + 2 ^ i, i)"
    using assms(1) aligned_split [of p i] by (simp_all add: chunks_ok_insert)
  have d: "blk (p, i) \<inter> blk c = {} \<and> blk (p + 2 ^ i, i) \<inter> blk c = {}" if "c \<in> C" for c
  proof -
    have "(p, Suc i) \<noteq> c" using assms(2) that by metis
    then have "blk (p, Suc i) \<inter> blk c = {}" using assms(1) that by (simp add: chunks_ok_insert)
    then show ?thesis by (simp add: split_blk Int_Un_distrib2)
  qed
  have "chunks_ok (insert (p + 2 ^ i, i) C)" using al C d by (simp add: chunks_ok_insert)
  then show ?A using al d split_disj [of p i] by (simp add: chunks_ok_insert [of "(p, i)"])
  show n: "(p + 2 ^ i, i) \<notin> C" using d [of "(p + 2 ^ i, i)"] by (metis Int_absorb blk_nonempty)
  show "(p, i) \<notin> insert (p + 2 ^ i, i) C" using d [of "(p, i)"] by (auto simp: blk_nonempty)
qed

text \<open>Merging the held chunk with its free buddy.\<close>

lemma chunks_ok_merge:
  assumes "chunks_ok (insert (p, i) C)" "(p, i) \<notin> C" "(buddy p i, i) \<in> C"
  defines "m \<equiv> (min p (buddy p i), Suc i)" and "C' \<equiv> C - {(buddy p i, i)}"
  shows "chunks_ok (insert m C')" "m \<notin> C'"
proof -
  have al: "aligned (p, i)" using assms(1) unfolding chunks_ok_insert by blast
  have mb: "aligned m" "blk m = blk (p, i) \<union> blk (buddy p i, i)"
    using buddy_merge [OF al] by (auto simp: m_def)
  have dj: "blk m \<inter> blk d = {}" if "d \<in> C'" for d
  proof -
    have "(p, i) \<noteq> d" using assms(2) that by (auto simp: C'_def)
    then have "blk (p, i) \<inter> blk d = {}" using assms(1) that by (simp add: chunks_ok_insert C'_def)
    moreover have "blk (buddy p i, i) \<inter> blk d = {}"
      using assms(1,3) that by (intro chunks_ok_disj [of C]) (auto simp: chunks_ok_insert C'_def)
    ultimately show ?thesis using mb by blast
  qed
  have "chunks_ok C'" using assms(1) unfolding chunks_ok_insert C'_def by (blast intro: chunks_ok_subset)
  then show "chunks_ok (insert m C')" using mb dj unfolding chunks_ok_insert by blast
  show "m \<notin> C'" using dj [of m] by auto
qed

lemma buddy_neq: "buddy p i \<noteq> p"
proof (cases "odd (p div 2 ^ i)")
  case True
  then have "2 ^ i \<le> p" "(0::nat) < 2 ^ i" using odd_div_ge by auto
  then have "p - 2 ^ i < p" by linarith
  then show ?thesis using True by (simp add: buddy_def)
qed (simp add: buddy_def)

lemma buddy_buddy: "aligned (p, i) \<Longrightarrow> buddy (buddy p i) i = p"
proof -
  assume "aligned (p, i)"
  then obtain k where k: "p = 2 ^ i * k" by (auto simp: aligned_def)
  then have d: "p div 2 ^ i = k" by simp
  show ?thesis
  proof (cases "odd k")
    case True
    then obtain m where m: "k = 2 * m + 1" by (elim oddE)
    have b: "buddy p i = 2 ^ i * (2 * m)" using True d m by (simp add: buddy_def k algebra_simps)
    then show ?thesis unfolding b using m by (simp add: buddy_def k algebra_simps)
  next
    case False
    have b: "buddy p i = 2 ^ i * (k + 1)" using False d by (simp add: buddy_def k algebra_simps)
    then show ?thesis unfolding b using False by (simp add: buddy_def k algebra_simps)
  qed
qed

lemma no_buddies_insert:
  assumes "no_buddies C" "(buddy p i, i) \<notin> C" "chunks_ok C"
  shows "no_buddies (insert (p, i) C)"
proof -
  have "(buddy q j, j) \<noteq> (p, i)" if "(q, j) \<in> C" for q j
    using assms(2) that buddy_buddy [of q j] chunks_okD [OF assms(3) that] by auto
  then show ?thesis using assms(1,2) buddy_neq by (auto simp: no_buddies_def)
qed

lemma no_buddies_subset: "no_buddies C \<Longrightarrow> D \<subseteq> C \<Longrightarrow> no_buddies D"
  unfolding no_buddies_def by blast

lemma above_contains_buddy:
  assumes "aligned (p, i)" "aligned (r, j)" "i < j" "buddy p i \<in> blk (r, j)"
  shows "p \<in> blk (r, j)"
proof -
  have "blk (min p (buddy p i), Suc i) \<subseteq> blk (r, j)"
  proof (rule blk_nested)
    show "aligned (min p (buddy p i), Suc i)" by (rule buddy_merge [OF assms(1)])
    have "buddy p i \<in> blk (min p (buddy p i), Suc i)" by (simp add: buddy_merge(2) [OF assms(1)])
    then show "blk (min p (buddy p i), Suc i) \<inter> blk (r, j) \<noteq> {}" using assms(4) by blast
  qed (use assms in auto)
  then show ?thesis by (simp add: buddy_merge(2) [OF assms(1)] subset_iff)
qed

text \<open>A covered buddy of a held chunk is the start of a chunk that is not larger.\<close>

lemma covered_buddy:
  assumes "chunks_ok (insert (p, i) C)" "(p, i) \<notin> C" "c \<in> C" "buddy p i \<in> blk c"
  shows "fst c = buddy p i \<and> snd c \<le> i"
proof -
  obtain r j where c: "c = (r, j)" by (cases c)
  have al: "aligned (p, i)" "aligned (r, j)" using assms(1,3) c by (auto simp: chunks_ok_insert dest: chunks_okD)
  have "(p, i) \<noteq> c" using assms(2,3) by metis
  then have "blk (p, i) \<inter> blk c = {}" using assms(1,3) by (simp add: chunks_ok_insert)
  then have "p \<notin> blk (r, j)" using blk_self c by blast
  then have "j \<le> i" using above_contains_buddy [OF al] assms(4) c by (meson not_le)
  moreover have "r = buddy p i"
    by (rule aligned_eq_start [of _ i _ j]) (use al assms(4) c \<open>j \<le> i\<close> in \<open>auto intro: buddy_aligned\<close>)
  ultimately show ?thesis using c by simp
qed

text \<open>Without free buddies, an aligned free block lies in one chunk.\<close>

lemma coalesced_covers:
  assumes ok: "chunks_ok C" and nb: "no_buddies C"
    and al: "aligned (p, n)" and cov: "blk (p, n) \<subseteq> \<Union> (blk ` C)"
  shows "\<exists>c\<in>C. n \<le> snd c \<and> blk (p, n) \<subseteq> blk c"
proof (rule ccontr)
  assume no: "\<not> ?thesis"
  have small: "snd c < n \<and> blk c \<subseteq> blk (p, n)" if "c \<in> C" "blk c \<inter> blk (p, n) \<noteq> {}" for c
  proof -
    obtain r j where c: "c = (r, j)" by (cases c)
    have a: "aligned (r, j)" using ok that(1) c by (auto dest: chunks_okD)
    have "j < n"
    proof (rule ccontr)
      assume "\<not> j < n"
      then have "blk (p, n) \<subseteq> blk (r, j)" using al a that(2) c by (intro blk_nested) auto
      then have "n \<le> snd c \<and> blk (p, n) \<subseteq> blk c" using c \<open>\<not> j < n\<close> by simp
      then show False using no that(1) by blast
    qed
    moreover have "blk (r, j) \<subseteq> blk (p, n)"
      using al a that(2) c \<open>j < n\<close> by (intro blk_nested) auto
    ultimately show ?thesis using c by simp
  qed
  let ?meet = "\<lambda>l. \<exists>c\<in>C. snd c = l \<and> blk c \<inter> blk (p, n) \<noteq> {}"
  obtain c0 where "c0 \<in> C" "p \<in> blk c0" using cov blk_self [of p n] by blast
  then have "?meet (snd c0)" using blk_self [of p n] by blast
  then have l0: "?meet (LEAST l. ?meet l)" by (rule LeastI)
  define l where "l = (LEAST l. ?meet l)"
  have l: "?meet l" using l0 unfolding l_def .
  have least: "l \<le> k" if "?meet k" for k unfolding l_def using that by (rule Least_le)
  from l obtain q where q: "(q, l) \<in> C" "blk (q, l) \<inter> blk (p, n) \<noteq> {}" by (metis prod.collapse)
  have qn: "l < n" "blk (q, l) \<subseteq> blk (p, n)" using small [OF q] by auto
  have aq: "aligned (q, l)" using ok q(1) by (rule chunks_okD)
  have "blk (min q (buddy q l), Suc l) \<subseteq> blk (p, n)"
  proof (rule blk_nested)
    show "aligned (min q (buddy q l), Suc l)" by (rule buddy_merge [OF aq])
    have "q \<in> blk (p, n)" using qn(2) blk_self by blast
    then show "blk (min q (buddy q l), Suc l) \<inter> blk (p, n) \<noteq> {}"
      by (simp add: buddy_merge(2) [OF aq]) (use blk_self in blast)
  qed (use al qn in auto)
  then have bn: "buddy q l \<in> blk (p, n)" unfolding buddy_merge(2) [OF aq] using blk_self by blast
  then obtain c where c: "c \<in> C" "buddy q l \<in> blk c" using cov by blast
  then have "l \<le> snd c" using least [of "snd c"] bn by blast
  moreover have "c \<noteq> (q, l)"
    using c(2) aq buddy_neq [of q l] buddy_aligned [OF aq] aligned_eq_start [of "buddy q l" l q l] by auto
  moreover have "fst c = buddy q l \<and> snd c \<le> l"
  proof (rule covered_buddy [of _ _ "C - {(q, l)}"])
    show "chunks_ok (insert (q, l) (C - {(q, l)}))" using ok q(1) by (simp add: insert_absorb)
    show "c \<in> C - {(q, l)}" using c(1) \<open>c \<noteq> (q, l)\<close> by blast
    show "buddy q l \<in> blk c" by (rule c(2))
  qed simp
  ultimately have "c = (buddy q l, l)" by (simp add: prod_eq_iff)
  then show False using nb q(1) c(1) unfolding no_buddies_def by blast
qed

end
