(* ===== verification/Bbuddy.thy ===== *)
theory Bbuddy
  imports UkPrelude
begin

text \<open>
  The binary buddy page allocator, \<^verbatim>\<open>lib/ukallocbbuddy/bbuddy.c\<close>: the allocation bitmap of each
  memory region, the doubly linked free lists (one per power of two) whose nodes live in the
  free pages themselves, and the operations \<open>palloc\<close>, \<open>pfree\<close> and \<open>addmem\<close>.

  The chunk headers are modelled by an explicit store: one function per field of
  \<^verbatim>\<open>chunk_head_t\<close>, indexed by the pointer, so that the unlinking through \<open>pprev\<close> and the aliasing
  between the lists and their sentinels are those of the code. A region list is a list of
  regions in link order; a pointer to a region is its position. \<open>None\<close> is a failed
  \<^verbatim>\<open>UK_ASSERT\<close> or an access outside an array.
\<close>

section \<open>State\<close>

text \<open>\<^verbatim>\<open>FREELIST_SIZE\<close> is \<open>(sizeof(void *) << 3) - __PAGE_SHIFT\<close>.\<close>

abbreviation FREELIST_SIZE :: nat where "FREELIST_SIZE \<equiv> 52"

abbreviation PAGES_PER_MAPWORD :: u64 where "PAGES_PER_MAPWORD \<equiv> 64"

text \<open>
  A \<^verbatim>\<open>chunk_head_t *\<close> is null, the address of a free chunk, or one of the sentinels
  \<^verbatim>\<open>&b->free_tail[i]\<close>; a \<^verbatim>\<open>chunk_head_t **\<close> is \<^verbatim>\<open>&b->free_head[i]\<close> or the \<open>next\<close> field of a head.
\<close>

datatype hptr = HNull | Chunk u64 | Tail nat

datatype pptr = FreeHead nat | NextOf hptr

record bbpalloc_memr =
  first_page :: u64
  nr_pages :: u64
  mm_alloc_bitmap_size :: u64
  mm_alloc_bitmap :: "u64 list"

record bbpalloc =
  nr_free_pages :: u64
  free_head :: "nat \<Rightarrow> hptr"
  ch_next :: "hptr \<Rightarrow> hptr"
  ch_pprev :: "hptr \<Rightarrow> pptr"
  ch_level :: "hptr \<Rightarrow> nat"
  ct_level :: "u64 \<Rightarrow> nat"
  memr_head :: "bbpalloc_memr list"

definition FREELIST_EMPTY :: "bbpalloc \<Rightarrow> hptr \<Rightarrow> bool" where
  "FREELIST_EMPTY b l \<longleftrightarrow> ch_next b l = HNull"

section \<open>Allocation bitmap\<close>

definition memr_contains :: "bbpalloc_memr \<Rightarrow> u64 \<Rightarrow> bool" where
  "memr_contains memr page_va \<longleftrightarrow>
     page_va \<ge> first_page memr \<and>
     page_va < first_page memr + push_bit PAGE_SHIFT (nr_pages memr)"

fun map_get_memr :: "bbpalloc_memr list \<Rightarrow> u64 \<Rightarrow> nat option" where
  "map_get_memr [] page_va = None"
| "map_get_memr (memr # next) page_va =
     (if memr_contains memr page_va then Some 0
      else map_option Suc (map_get_memr next page_va))"

definition allocated_in_map :: "bbpalloc \<Rightarrow> u64 \<Rightarrow> bool" where
  "allocated_in_map b page_va =
     (case map_get_memr (memr_head b) page_va of
        None \<Rightarrow> True
      | Some k \<Rightarrow>
          let memr = memr_head b ! k;
              page_idx = drop_bit PAGE_SHIFT (page_va - first_page memr);
              bm_idx = page_idx div PAGES_PER_MAPWORD;
              bm_off = page_idx AND (PAGES_PER_MAPWORD - 1)
          in (mm_alloc_bitmap memr ! unat bm_idx) AND push_bit (unat bm_off) 1 \<noteq> 0)"

text \<open>The loops \<open>while (++curr_idx < end_idx)\<close> and \<open>while (++curr_idx != end_idx)\<close>; the
  argument is the incremented index, the result carries its last value.\<close>

function map_fill_alloc :: "u64 \<Rightarrow> u64 \<Rightarrow> u64 list \<Rightarrow> u64 \<times> u64 list" where
  "map_fill_alloc curr_idx end_idx bm =
     (if curr_idx < end_idx
      then map_fill_alloc (curr_idx + 1) end_idx (bm[unat curr_idx := - 1])
      else (curr_idx, bm))"
  by pat_completeness auto
termination
  by (relation "measure (\<lambda>(c, e, bm). unat (e - c))") (auto intro: unat_diff_step)

function map_fill_free :: "u64 \<Rightarrow> u64 \<Rightarrow> u64 list \<Rightarrow> u64 \<times> u64 list" where
  "map_fill_free curr_idx end_idx bm =
     (if curr_idx \<noteq> end_idx
      then map_fill_free (curr_idx + 1) end_idx (bm[unat curr_idx := 0])
      else (curr_idx, bm))"
  by pat_completeness auto
termination
  by (relation "measure (\<lambda>(c, e, bm). unat (e - c))") (auto intro: unat_diff_step)

declare map_fill_alloc.simps [simp del] map_fill_free.simps [simp del]

definition map_alloc_bits :: "u64 list \<Rightarrow> u64 \<Rightarrow> u64 \<Rightarrow> u64 list" where
  "map_alloc_bits bm first_page_idx nr_pages' =
     (let curr_idx = first_page_idx div PAGES_PER_MAPWORD;
          start_off = unat (first_page_idx AND (PAGES_PER_MAPWORD - 1));
          end_page_idx = first_page_idx + nr_pages';
          end_idx = end_page_idx div PAGES_PER_MAPWORD;
          end_off = unat (end_page_idx AND (PAGES_PER_MAPWORD - 1))
      in if curr_idx = end_idx
         then bm[unat curr_idx := bm ! unat curr_idx OR
                   ((push_bit end_off 1 - 1) AND - push_bit start_off 1)]
         else
           let bm1 = bm[unat curr_idx := bm ! unat curr_idx OR - push_bit start_off 1];
               (c, bm2) = map_fill_alloc (curr_idx + 1) end_idx bm1
           in bm2[unat c := bm2 ! unat c OR (push_bit end_off 1 - 1)])"

definition map_alloc :: "bbpalloc \<Rightarrow> u64 \<Rightarrow> u64 \<Rightarrow> bbpalloc option" where
  "map_alloc b first_page' nr_pages' =
     (case map_get_memr (memr_head b) first_page' of
        None \<Rightarrow> None
      | Some k \<Rightarrow>
          let memr = memr_head b ! k in
          if \<not> (first_page' + push_bit PAGE_SHIFT nr_pages'
                 \<le> first_page memr + push_bit PAGE_SHIFT (nr_pages memr)) then None
          else
            let first_page_idx = drop_bit PAGE_SHIFT (first_page' - first_page memr);
                bm = map_alloc_bits (mm_alloc_bitmap memr) first_page_idx nr_pages'
            in Some (b\<lparr>memr_head := (memr_head b)[k := memr\<lparr>mm_alloc_bitmap := bm\<rparr>],
                       nr_free_pages := nr_free_pages b - nr_pages'\<rparr>))"

definition map_free_bits :: "u64 list \<Rightarrow> u64 \<Rightarrow> u64 \<Rightarrow> u64 list" where
  "map_free_bits bm first_page_idx nr_pages' =
     (let curr_idx = first_page_idx div PAGES_PER_MAPWORD;
          start_off = unat (first_page_idx AND (PAGES_PER_MAPWORD - 1));
          end_page_idx = first_page_idx + nr_pages';
          end_idx = end_page_idx div PAGES_PER_MAPWORD;
          end_off = unat (end_page_idx AND (PAGES_PER_MAPWORD - 1))
      in if curr_idx = end_idx
         then bm[unat curr_idx := bm ! unat curr_idx AND
                   (- push_bit end_off 1 OR (push_bit start_off 1 - 1))]
         else
           let bm1 = bm[unat curr_idx := bm ! unat curr_idx AND (push_bit start_off 1 - 1)];
               (c, bm2) = map_fill_free (curr_idx + 1) end_idx bm1
           in bm2[unat c := bm2 ! unat c AND - push_bit end_off 1])"

definition map_free :: "bbpalloc \<Rightarrow> u64 \<Rightarrow> u64 \<Rightarrow> bbpalloc option" where
  "map_free b first_page' nr_pages' =
     (case map_get_memr (memr_head b) first_page' of
        None \<Rightarrow> None
      | Some k \<Rightarrow>
          let memr = memr_head b ! k in
          if \<not> (first_page' + push_bit PAGE_SHIFT nr_pages'
                 \<le> first_page memr + push_bit PAGE_SHIFT (nr_pages memr)) then None
          else
            let first_page_idx = drop_bit PAGE_SHIFT (first_page' - first_page memr);
                bm = map_free_bits (mm_alloc_bitmap memr) first_page_idx nr_pages'
            in Some (b\<lparr>memr_head := (memr_head b)[k := memr\<lparr>mm_alloc_bitmap := bm\<rparr>],
                       nr_free_pages := nr_free_pages b + nr_pages'\<rparr>))"

definition bbuddy_availmem :: "bbpalloc \<Rightarrow> u64" where
  "bbuddy_availmem b = push_bit PAGE_SHIFT (nr_free_pages b)"

section \<open>Orders\<close>

text \<open>\<^verbatim>\<open>ukarch_flsl\<close>: the position of the highest set bit of a non-zero word.\<close>

fun flsl :: "nat \<Rightarrow> nat" where
  "flsl n = (if n \<le> 1 then 0 else Suc (flsl (n div 2)))"

declare flsl.simps [simp del]

definition num_pages_to_order :: "u64 \<Rightarrow> nat option" where
  "num_pages_to_order num_pages =
     (if num_pages = 0 then None
      else if num_pages = 1 then Some 0
      else Some (flsl (unat (num_pages - 1)) + 1))"

section \<open>Free lists\<close>

definition poke :: "bbpalloc \<Rightarrow> pptr \<Rightarrow> hptr \<Rightarrow> bbpalloc" where
  "poke b pp h =
     (case pp of
        FreeHead i \<Rightarrow> b\<lparr>free_head := (free_head b)(i := h)\<rparr>
      | NextOf p \<Rightarrow> b\<lparr>ch_next := (ch_next b)(p := h)\<rparr>)"

text \<open>Writing a fresh header (and tail) and linking it at the front of list \<open>i\<close>; the tail of a
  chunk of order \<open>i\<close> is the \<^verbatim>\<open>chunk_tail_t\<close> (4 bytes) just before the end of the chunk.\<close>

definition link_chunk :: "bbpalloc \<Rightarrow> u64 \<Rightarrow> u64 \<Rightarrow> nat \<Rightarrow> bbpalloc" where
  "link_chunk b ch ct i =
     (let b1 = b\<lparr>ch_level := (ch_level b)(Chunk ch := i)\<rparr>;
          b2 = b1\<lparr>ch_next := (ch_next b1)(Chunk ch := free_head b1 i)\<rparr>;
          b3 = b2\<lparr>ch_pprev := (ch_pprev b2)(Chunk ch := FreeHead i)\<rparr>;
          b4 = b3\<lparr>ct_level := (ct_level b3)(ct := i)\<rparr>;
          b5 = b4\<lparr>ch_pprev := (ch_pprev b4)(ch_next b4 (Chunk ch) := NextOf (Chunk ch))\<rparr>
      in b5\<lparr>free_head := (free_head b5)(i := Chunk ch)\<rparr>)"

definition unlink_chunk :: "bbpalloc \<Rightarrow> hptr \<Rightarrow> bbpalloc" where
  "unlink_chunk b h =
     (let b1 = poke b (ch_pprev b h) (ch_next b h)
      in b1\<lparr>ch_pprev := (ch_pprev b1)(ch_next b1 h := ch_pprev b1 h)\<rparr>)"

section \<open>Page allocation\<close>

function palloc_find :: "bbpalloc \<Rightarrow> nat \<Rightarrow> nat" where
  "palloc_find b i =
     (if i < FREELIST_SIZE
      then if \<not> FREELIST_EMPTY b (free_head b i) then i else palloc_find b (Suc i)
      else i)"
  by pat_completeness auto
termination
  by (relation "measure (\<lambda>(b, i). FREELIST_SIZE - i)") auto

declare palloc_find.simps [simp del]

function palloc_split :: "bbpalloc \<Rightarrow> u64 \<Rightarrow> nat \<Rightarrow> nat \<Rightarrow> bbpalloc" where
  "palloc_split b alloc_ch order i =
     (if order < i
      then let spare_ch = alloc_ch + push_bit (i - 1 + PAGE_SHIFT) 1;
               spare_ct = spare_ch + push_bit (i - 1 + PAGE_SHIFT) 1 - 4
           in palloc_split (link_chunk b spare_ch spare_ct (i - 1)) alloc_ch order (i - 1)
      else b)"
  by pat_completeness auto
termination
  by (relation "measure (\<lambda>(b, a, order, i). i)") auto

declare palloc_split.simps [simp del]

text \<open>
  The result is the pointer, 0 for \<^verbatim>\<open>NULL\<close>. Reading \<^verbatim>\<open>free_head[i]\<close> with \<open>i\<close> beyond
  \<^verbatim>\<open>FREELIST_SIZE\<close> is an access outside the array. The chunk at the front is unlinked by moving
  \<^verbatim>\<open>free_head[i]\<close> and the successor's \<open>pprev\<close>.
\<close>

definition bbuddy_palloc :: "bbpalloc \<Rightarrow> u64 \<Rightarrow> (bbpalloc \<times> u64) option" where
  "bbuddy_palloc b num_pages =
     do {
       order \<leftarrow> num_pages_to_order num_pages;
       let i = palloc_find b order;
       if i = FREELIST_SIZE then Some (b, 0)
       else if i > FREELIST_SIZE then None
       else case free_head b i of
              Chunk alloc_ch \<Rightarrow>
                let h = Chunk alloc_ch;
                    b1 = b\<lparr>free_head := (free_head b)(i := ch_next b h)\<rparr>;
                    b2 = b1\<lparr>ch_pprev := (ch_pprev b1)(ch_next b1 h := ch_pprev b1 h)\<rparr>;
                    b3 = palloc_split b2 alloc_ch order i
                in do {
                  b4 \<leftarrow> map_alloc b3 alloc_ch (push_bit order 1);
                  Some (b4, alloc_ch)
                }
            | _ \<Rightarrow> None
     }"

section \<open>Page release\<close>

function pfree_merge ::
  "bbpalloc \<Rightarrow> u64 \<Rightarrow> u64 \<Rightarrow> nat \<Rightarrow> bbpalloc \<times> u64 \<times> u64 \<times> nat" where
  "pfree_merge b freed_ch freed_ct order =
     (if order < FREELIST_SIZE
      then let mask = push_bit (order + PAGE_SHIFT) 1
           in if freed_ch AND mask \<noteq> 0
              then let to_merge_ch = freed_ch - mask
                   in if allocated_in_map b to_merge_ch \<or> ch_level b (Chunk to_merge_ch) \<noteq> order
                      then (b, freed_ch, freed_ct, order)
                      else pfree_merge (unlink_chunk b (Chunk to_merge_ch))
                             to_merge_ch freed_ct (Suc order)
              else let to_merge_ch = freed_ch + mask
                   in if allocated_in_map b to_merge_ch \<or> ch_level b (Chunk to_merge_ch) \<noteq> order
                      then (b, freed_ch, freed_ct, order)
                      else pfree_merge (unlink_chunk b (Chunk to_merge_ch))
                             freed_ch (to_merge_ch + mask - 4) (Suc order)
      else (b, freed_ch, freed_ct, order))"
  by pat_completeness auto
termination
  by (relation "measure (\<lambda>(b, ch, ct, order). FREELIST_SIZE - order)") auto

declare pfree_merge.simps [simp del]

definition bbuddy_pfree :: "bbpalloc \<Rightarrow> u64 \<Rightarrow> u64 \<Rightarrow> bbpalloc option" where
  "bbuddy_pfree b obj num_pages =
     do {
       order \<leftarrow> num_pages_to_order num_pages;
       uk_assert (obj AND (PAGE_SIZE - 1) = 0);
       b1 \<leftarrow> map_free b obj (push_bit order 1);
       let freed_ct = obj + push_bit (order + PAGE_SHIFT) 1 - 4;
       let (b2, freed_ch, freed_ct', order') = pfree_merge b1 obj freed_ct order;
       if order' < FREELIST_SIZE then Some (link_chunk b2 freed_ch freed_ct' order') else None
     }"

section \<open>Adding memory, initialisation\<close>

text \<open>\<^verbatim>\<open>sizeof(struct uk_bbpalloc_memr)\<close>, five 8-byte fields.\<close>

abbreviation SIZEOF_MEMR :: u64 where "SIZEOF_MEMR \<equiv> 40"

text \<open>The \<open>for\<close> loop that picks the size of the next chunk. Its test shifts by \<open>i + 1\<close>, which
  is defined in C up to 63.\<close>

function addmem_order :: "u64 \<Rightarrow> u64 \<Rightarrow> nat \<Rightarrow> nat" where
  "addmem_order lo rng i =
     (if i < 63 \<and> push_bit (i + 1) 1 \<le> rng
      then if lo AND push_bit i 1 \<noteq> 0 then i else addmem_order lo rng (Suc i)
      else i)"
  by pat_completeness auto
termination
  by (relation "measure (\<lambda>(m, r, i). 63 - i)") auto

declare addmem_order.simps [simp del]

text \<open>The loop \<open>while (range != 0)\<close>. A range that is not a multiple of the page size would not
  reach 0; that case is \<open>None\<close>.\<close>

function addmem_chunks :: "bbpalloc \<Rightarrow> u64 \<Rightarrow> u64 \<Rightarrow> bbpalloc option" where
  "addmem_chunks b lo rng =
     (if rng = 0 then Some b
      else let i = addmem_order lo rng PAGE_SHIFT;
               sz = push_bit i 1
           in if sz = 0 \<or> rng < sz then None
              else addmem_chunks
                     (link_chunk b lo (lo + sz - 4) (i - PAGE_SHIFT)) (lo + sz) (rng - sz))"
  by pat_completeness auto
termination
  by (relation "measure (\<lambda>(b, m, r). unat r)")
    (auto simp: word_less_nat_alt unat_sub word_le_nat_alt unat_gt_0)

declare addmem_chunks.simps [simp del]

definition bbuddy_addmem :: "bbpalloc \<Rightarrow> u64 \<Rightarrow> u64 \<Rightarrow> (bbpalloc \<times> (errno + unit)) option" where
  "bbuddy_addmem b base len =
     do {
       uk_assert (base \<noteq> 0);
       let lo = round_pgup base;
       let hi = round_pgdown (base + len);
       if hi < lo then Some (b, Inl EINVAL)
       else
         let rng = hi - lo in
         if rng < round_pgup (SIZEOF_MEMR + 8) + PAGE_SIZE then Some (b, Inl EINVAL)
         else
           let nr = 8 * (rng - SIZEOF_MEMR) div (8 * PAGE_SIZE + 1);
               memr_size = round_pgup (SIZEOF_MEMR + DIV_ROUND_UP nr 8);
               bm_size = memr_size - SIZEOF_MEMR;
               lo' = lo + memr_size;
               rng' = rng - memr_size;
               memr = \<lparr>first_page = lo', nr_pages = nr, mm_alloc_bitmap_size = bm_size,
                       mm_alloc_bitmap = replicate (unat bm_size div 8) (- 1)\<rparr>;
               b1 = b\<lparr>memr_head := memr # memr_head b\<rparr>
           in do {
             b2 \<leftarrow> map_free b1 lo' nr;
             b3 \<leftarrow> addmem_chunks b2 lo' rng';
             Some (b3, Inr ())
           }
     }"

text \<open>
  \<^verbatim>\<open>uk_allocbbuddy_init\<close> lays the descriptor at the start of the given memory; \<open>m0\<close> is what that
  memory holds before. \<^verbatim>\<open>sizeof(struct uk_alloc)\<close> is 80 (ten pointers) and
  \<^verbatim>\<open>sizeof(struct uk_bbpalloc)\<close> is 1680. The result is \<open>None\<close> inside for \<^verbatim>\<open>NULL\<close>.
\<close>

definition init_freelist :: "nat \<Rightarrow> bbpalloc \<Rightarrow> bbpalloc" where
  "init_freelist i b =
     b\<lparr>free_head := (free_head b)(i := Tail i),
       ch_pprev := (ch_pprev b)(Tail i := FreeHead i),
       ch_next := (ch_next b)(Tail i := HNull)\<rparr>"

definition uk_allocbbuddy_init :: "bbpalloc \<Rightarrow> u64 \<Rightarrow> u64 \<Rightarrow> bbpalloc option option" where
  "uk_allocbbuddy_init m0 base len =
     do {
       let lo = round_pgup base;
       let hi = round_pgdown (base + len);
       uk_assert (hi > lo);
       let metalen = round_pgup (80 + 1680);
       if lo + metalen > hi then Some None
       else
         let lo1 = lo + metalen;
             b0 = fold init_freelist [0..<FREELIST_SIZE] (m0\<lparr>nr_free_pages := 0\<rparr>);
             b1 = b0\<lparr>memr_head := []\<rparr>
         in if hi > lo1 + metalen
            then do {
              (b2, _) \<leftarrow> bbuddy_addmem b1 (lo1 + metalen) (hi - lo1 - metalen);
              Some (Some b2)
            }
            else Some (Some b1)
     }"

end
