(* ===== verification/BbuddyMap.thy ===== *)
theory BbuddyMap
  imports Bbuddy
begin

text \<open>
  The bitmaps of the buddy allocator: what \<^verbatim>\<open>map_alloc\<close>, \<^verbatim>\<open>map_free\<close> and \<^verbatim>\<open>allocated_in_map\<close>
  do to the set of page frames that the bitmaps call free.
\<close>

section \<open>Bit level\<close>

definition bmbit :: "u64 list \<Rightarrow> nat \<Rightarrow> bool" where
  "bmbit bm k = bit (bm ! (k div 64)) (k mod 64)"

lemma unat_div_64: "unat (x div 64 :: u64) = unat x div 64"
  by (simp add: unat_div)

lemma unat_and_63: "unat (x AND 63 :: u64) = unat x mod 64"
proof -
  have "x AND 63 = take_bit 6 x" by (simp add: take_bit_eq_mask mask_eq_exp_minus_1)
  then show ?thesis by (simp add: unat_mod take_bit_eq_mod)
qed

lemma and_bit_zero_iff: "(w::u64) AND push_bit n 1 \<noteq> 0 \<longleftrightarrow> bit w n"
  by (simp add: bit_iff_and_push_bit_not_eq_0)

lemma bit_low: "n < 64 \<Longrightarrow> bit (push_bit n 1 - 1 :: u64) k \<longleftrightarrow> k < n"
  by (simp add: pow2_minus_1_mask bit_mask_iff) auto

lemma bit_high: "bit (- push_bit n 1 :: u64) k \<longleftrightarrow> n \<le> k \<and> k < 64"
  by (auto simp: bit_minus_exp_iff)

lemma map_fill_alloc_result:
  assumes "c \<le> e"
  shows "\<exists>bm'. map_fill_alloc c e bm = (e, bm') \<and> length bm' = length bm \<and>
    (\<forall>j < length bm. bm' ! j = (if unat c \<le> j \<and> j < unat e then - 1 else bm ! j))"
  using assms
proof (induction c e bm rule: map_fill_alloc.induct)
  case (1 c e bm)
  show ?case
  proof (cases "c < e")
    case True
    then have s: "unat (c + 1) = Suc (unat c)" by (rule unat_Suc_less)
    then have le: "c + 1 \<le> e" using True by (simp add: word_le_nat_alt word_less_nat_alt)
    from "1.IH" [OF True le] obtain bm' where
      "map_fill_alloc (c + 1) e (bm[unat c := - 1]) = (e, bm')" "length bm' = length bm"
      "\<forall>j < length bm. bm' ! j = (if unat (c + 1) \<le> j \<and> j < unat e then - 1 else bm[unat c := - 1] ! j)"
      by auto
    moreover have "unat c < unat e" using True by (simp add: word_less_nat_alt)
    ultimately show ?thesis using True s
      by (subst map_fill_alloc.simps) (auto simp: nth_list_update)
  next
    case False
    then have "c = e" using "1.prems" by simp
    then show ?thesis by (subst map_fill_alloc.simps) auto
  qed
qed

lemma map_fill_free_result:
  assumes "c \<le> e"
  shows "\<exists>bm'. map_fill_free c e bm = (e, bm') \<and> length bm' = length bm \<and>
    (\<forall>j < length bm. bm' ! j = (if unat c \<le> j \<and> j < unat e then 0 else bm ! j))"
  using assms
proof (induction c e bm rule: map_fill_free.induct)
  case (1 c e bm)
  show ?case
  proof (cases "c = e")
    case False
    then have lt: "c < e" using "1.prems" by simp
    then have s: "unat (c + 1) = Suc (unat c)" by (rule unat_Suc_less)
    then have le: "c + 1 \<le> e" using lt by (simp add: word_le_nat_alt word_less_nat_alt)
    from "1.IH" [OF False le] obtain bm' where
      "map_fill_free (c + 1) e (bm[unat c := 0]) = (e, bm')" "length bm' = length bm"
      "\<forall>j < length bm. bm' ! j = (if unat (c + 1) \<le> j \<and> j < unat e then 0 else bm[unat c := 0] ! j)"
      by auto
    moreover have "unat c < unat e" using lt by (simp add: word_less_nat_alt)
    ultimately show ?thesis using False s
      by (subst map_fill_free.simps) (auto simp: nth_list_update)
  next
    case True
    then show ?thesis by (subst map_fill_free.simps) auto
  qed
qed

lemma mod_le_iff: "(a::nat) div d = b div d \<Longrightarrow> a mod d \<le> b mod d \<longleftrightarrow> a \<le> b"
  by (metis add_le_cancel_left div_mult_mod_eq)

lemma mod_less_iff: "(a::nat) div d = b div d \<Longrightarrow> a mod d < b mod d \<longleftrightarrow> a < b"
  by (metis add_less_cancel_left div_mult_mod_eq)

lemma div_less_imp: "(a::nat) div d < b div d \<Longrightarrow> a < b"
  by (meson div_le_mono not_le)

text \<open>Membership in a range of bit numbers, by the word the bit is in.\<close>

lemma range_one_word:
  "(s::nat) div d = e div d \<Longrightarrow>
   s \<le> k \<and> k < e \<longleftrightarrow> k div d = s div d \<and> s mod d \<le> k mod d \<and> k mod d < e mod d"
  using div_le_mono [of s k d] div_le_mono [of k e d] mod_le_iff [of s d k] mod_less_iff [of k d e]
  by auto

lemma range_many_words:
  "(s::nat) div d < e div d \<Longrightarrow>
   s \<le> k \<and> k < e \<longleftrightarrow>
     (if k div d = s div d then s mod d \<le> k mod d
      else if k div d = e div d then k mod d < e mod d
      else s div d < k div d \<and> k div d < e div d)"
  using div_le_mono [of s k d] div_le_mono [of k e d] mod_le_iff [of s d k] mod_less_iff [of k d e]
    div_less_imp [of k d e] div_less_imp [of s d k]
  by (auto simp: not_less)

text \<open>The index arithmetic of \<open>map_alloc\<close> and \<open>map_free\<close> on natural numbers.\<close>

lemma map_index:
  assumes "unat s + unat n \<le> 64 * length bm" "length bm < 2 ^ 57"
  shows "unat ((s::u64) div 64) = unat s div 64"
    and "unat ((s + n) div 64) = (unat s + unat n) div 64"
    and "unat (s AND 63) = unat s mod 64"
    and "unat ((s + n) AND 63) = (unat s + unat n) mod 64"
    and "s div 64 = (s + n) div 64 \<longleftrightarrow> unat s div 64 = (unat s + unat n) div 64"
proof -
  have ue: "unat (s + n) = unat s + unat n" using assms by (subst unat_add_64) auto
  show i1: "unat (s div 64) = unat s div 64" and i2: "unat ((s + n) div 64) = (unat s + unat n) div 64"
    and "unat (s AND 63) = unat s mod 64" "unat ((s + n) AND 63) = (unat s + unat n) mod 64"
    by (simp_all add: unat_div_64 unat_and_63 ue)
  show "s div 64 = (s + n) div 64 \<longleftrightarrow> unat s div 64 = (unat s + unat n) div 64"
    using i1 i2 by (metis word_unat_eq_iff)
qed

lemma map_next_index:
  assumes "unat s + unat n \<le> 64 * length bm" "length bm < 2 ^ 57"
    and "unat (s::u64) div 64 \<noteq> (unat s + unat n) div 64"
  shows "unat s div 64 < (unat s + unat n) div 64"
    and "s div 64 + 1 \<le> (s + n) div 64" and "unat (s div 64 + 1) = Suc (unat s div 64)"
proof -
  show lt: "unat s div 64 < (unat s + unat n) div 64"
    using assms(3) div_le_mono [of "unat s" "unat s + unat n" 64] by simp
  then have "s div 64 < (s + n) div 64"
    by (simp add: word_less_nat_alt map_index [OF assms(1,2)])
  then show "s div 64 + 1 \<le> (s + n) div 64" "unat (s div 64 + 1) = Suc (unat s div 64)"
    by (simp_all add: inc_le unat_Suc_less map_index(1) [OF assms(1,2)])
qed

lemma map_alloc_bits_spec:
  assumes e: "unat s + unat n \<le> 64 * length bm" "length bm < 2 ^ 57"
    and k: "k < 64 * length bm"
  shows "bmbit (map_alloc_bits bm s n) k \<longleftrightarrow> bmbit bm k \<or> (unat s \<le> k \<and> k < unat s + unat n)"
    and "length (map_alloc_bits bm s n) = length bm"
proof -
  let ?S = "unat s" and ?E = "unat s + unat n"
  note idx = map_index [OF e]
  have lk: "k div 64 < length bm" and m: "?S mod 64 < 64" "?E mod 64 < 64" "k mod 64 < 64"
    using k by auto
  have "length (map_alloc_bits bm s n) = length bm \<and>
    (bmbit (map_alloc_bits bm s n) k \<longleftrightarrow> bmbit bm k \<or> (?S \<le> k \<and> k < ?E))"
  proof (cases "?S div 64 = ?E div 64")
    case True
    then show ?thesis unfolding range_one_word [OF True] using lk m
      by (auto simp: map_alloc_bits_def idx bmbit_def nth_list_update_in bit_or_iff bit_and_iff bit_low
            bit_high simp del: push_bit_of_1)
  next
    case False
    note nx = map_next_index [OF e False]
    define bm1 where "bm1 = bm[?S div 64 := bm ! (?S div 64) OR - push_bit (?S mod 64) 1]"
    obtain bm2 where b2: "map_fill_alloc (s div 64 + 1) ((s + n) div 64) bm1 = ((s + n) div 64, bm2)"
      "length bm2 = length bm"
      "\<forall>j < length bm. bm2 ! j = (if Suc (?S div 64) \<le> j \<and> j < ?E div 64 then - 1 else bm1 ! j)"
      using map_fill_alloc_result [OF nx(2), of bm1] by (auto simp: nx(3) idx bm1_def)
    have r: "map_alloc_bits bm s n = bm2[?E div 64 := bm2 ! (?E div 64) OR (push_bit (?E mod 64) 1 - 1)]"
      using False b2(1) by (simp add: map_alloc_bits_def idx Let_def bm1_def del: push_bit_of_1)
    show ?thesis unfolding range_many_words [OF nx(1)] r using lk m nx(1) b2(2,3)
      by (auto simp: bmbit_def bm1_def nth_list_update_in bit_or_iff bit_low bit_high
            simp del: push_bit_of_1)
  qed
  then show "length (map_alloc_bits bm s n) = length bm"
    and "bmbit (map_alloc_bits bm s n) k \<longleftrightarrow> bmbit bm k \<or> (?S \<le> k \<and> k < ?E)" by auto
qed

lemma map_free_bits_spec:
  assumes e: "unat s + unat n \<le> 64 * length bm" "length bm < 2 ^ 57"
    and k: "k < 64 * length bm"
  shows "bmbit (map_free_bits bm s n) k \<longleftrightarrow> bmbit bm k \<and> \<not> (unat s \<le> k \<and> k < unat s + unat n)"
    and "length (map_free_bits bm s n) = length bm"
proof -
  let ?S = "unat s" and ?E = "unat s + unat n"
  note idx = map_index [OF e]
  have lk: "k div 64 < length bm" and m: "?S mod 64 < 64" "?E mod 64 < 64" "k mod 64 < 64"
    using k by auto
  have "length (map_free_bits bm s n) = length bm \<and>
    (bmbit (map_free_bits bm s n) k \<longleftrightarrow> bmbit bm k \<and> \<not> (?S \<le> k \<and> k < ?E))"
  proof (cases "?S div 64 = ?E div 64")
    case True
    then show ?thesis unfolding range_one_word [OF True] using lk m
      by (auto simp: map_free_bits_def idx bmbit_def nth_list_update_in bit_or_iff bit_and_iff bit_low
            bit_high simp del: push_bit_of_1)
  next
    case False
    note nx = map_next_index [OF e False]
    define bm1 where "bm1 = bm[?S div 64 := bm ! (?S div 64) AND (push_bit (?S mod 64) 1 - 1)]"
    obtain bm2 where b2: "map_fill_free (s div 64 + 1) ((s + n) div 64) bm1 = ((s + n) div 64, bm2)"
      "length bm2 = length bm"
      "\<forall>j < length bm. bm2 ! j = (if Suc (?S div 64) \<le> j \<and> j < ?E div 64 then 0 else bm1 ! j)"
      using map_fill_free_result [OF nx(2), of bm1] by (auto simp: nx(3) idx bm1_def)
    have r: "map_free_bits bm s n = bm2[?E div 64 := bm2 ! (?E div 64) AND - push_bit (?E mod 64) 1]"
      using False b2(1) by (simp add: map_free_bits_def idx Let_def bm1_def del: push_bit_of_1)
    show ?thesis unfolding range_many_words [OF nx(1)] r using lk m nx(1) b2(2,3)
      by (auto simp: bmbit_def bm1_def nth_list_update_in bit_and_iff bit_low bit_high
            simp del: push_bit_of_1)
  qed
  then show "length (map_free_bits bm s n) = length bm"
    and "bmbit (map_free_bits bm s n) k \<longleftrightarrow> bmbit bm k \<and> \<not> (?S \<le> k \<and> k < ?E)" by auto
qed

section \<open>Regions\<close>

definition memr_start :: "bbpalloc_memr \<Rightarrow> nat" where
  "memr_start m = pfn (first_page m)"

definition memr_end :: "bbpalloc_memr \<Rightarrow> nat" where
  "memr_end m = memr_start m + unat (nr_pages m)"

definition memr_ok :: "bbpalloc_memr \<Rightarrow> bool" where
  "memr_ok m \<longleftrightarrow>
     4096 dvd unat (first_page m) \<and> 0 < memr_start m \<and>
     unat (first_page m) + 4096 * unat (nr_pages m) < 2 ^ 64 \<and>
     unat (nr_pages m) \<le> 64 * length (mm_alloc_bitmap m) \<and> length (mm_alloc_bitmap m) < 2 ^ 57"

definition separated :: "bbpalloc_memr \<Rightarrow> bbpalloc_memr \<Rightarrow> bool" where
  "separated m m' \<longleftrightarrow> memr_end m < memr_start m' \<or> memr_end m' < memr_start m"

fun memrs_ok :: "bbpalloc_memr list \<Rightarrow> bool" where
  "memrs_ok [] = True"
| "memrs_ok (m # ms) = (memr_ok m \<and> (\<forall>m' \<in> set ms. separated m m') \<and> memrs_ok ms)"

definition memr_free :: "bbpalloc_memr \<Rightarrow> nat set" where
  "memr_free m = {p. memr_start m \<le> p \<and> p < memr_end m \<and>
     \<not> bmbit (mm_alloc_bitmap m) (p - memr_start m)}"

definition memrs_free :: "bbpalloc_memr list \<Rightarrow> nat set" where
  "memrs_free ms = (\<Union>m \<in> set ms. memr_free m)"

abbreviation free_pages :: "bbpalloc \<Rightarrow> nat set" where
  "free_pages b \<equiv> memrs_free (memr_head b)"

lemma memrs_ok_memr: "memrs_ok ms \<Longrightarrow> m \<in> set ms \<Longrightarrow> memr_ok m"
  by (induction ms) auto

lemma unat_shift_pages:
  assumes "4096 * unat (n::u64) < 2 ^ 64"
  shows "unat (push_bit PAGE_SHIFT n) = 4096 * unat n"
  using assms by (simp add: push_bit_eq_mult unat_word_ariths)

lemma memr_contains_iff:
  assumes "memr_ok m"
  shows "memr_contains m a \<longleftrightarrow> memr_start m \<le> pfn a \<and> pfn a < memr_end m"
proof -
  obtain q where q: "unat (first_page m) = 4096 * q" using assms by (auto simp: memr_ok_def)
  have e: "unat (first_page m + push_bit PAGE_SHIFT (nr_pages m)) = 4096 * (q + unat (nr_pages m))"
    using assms q by (subst unat_add_64) (simp_all add: unat_shift_pages memr_ok_def algebra_simps)
  show ?thesis
    unfolding memr_contains_def word_le_nat_alt word_less_nat_alt e q
    by (auto simp: memr_start_def memr_end_def pfn_def q)
qed

lemma page_idx:
  assumes "memr_ok m" "memr_start m \<le> pfn a"
  shows "unat (drop_bit PAGE_SHIFT (a - first_page m)) = pfn a - memr_start m"
proof -
  obtain q where q: "unat (first_page m) = 4096 * q" using assms by (auto simp: memr_ok_def)
  have "q \<le> unat a div 4096" using assms(2) by (simp add: memr_start_def pfn_def q)
  then have "4096 * q \<le> unat a" by linarith
  then have "unat (a - first_page m) = unat a - 4096 * q" by (subst unat_sub_no_ovf) (simp_all add: q)
  moreover obtain r where "unat a = 4096 * q + r" using \<open>4096 * q \<le> unat a\<close> le_Suc_ex by blast
  ultimately have "unat (a - first_page m) div 4096 = unat a div 4096 - q" by simp
  then show ?thesis by (simp add: drop_bit_eq_div unat_div memr_start_def pfn_def q)
qed

lemma map_get_memr_None: "map_get_memr ms a = None \<longleftrightarrow> (\<forall>m \<in> set ms. \<not> memr_contains m a)"
  by (induction ms) auto

lemma map_get_memr_Some:
  "map_get_memr ms a = Some k \<Longrightarrow> k < length ms \<and> memr_contains (ms ! k) a"
  by (induction ms arbitrary: k) (auto split: if_splits)


lemma memrs_ok_nth_separated:
  "memrs_ok ms \<Longrightarrow> i < length ms \<Longrightarrow> j < length ms \<Longrightarrow> i \<noteq> j \<Longrightarrow> separated (ms ! i) (ms ! j)"
proof (induction ms arbitrary: i j)
  case (Cons m ms)
  then show ?case by (cases i; cases j) (auto simp: separated_def)
qed simp

lemma map_get_memr_unique:
  assumes "memrs_ok ms" "k < length ms" "memr_start (ms ! k) \<le> pfn a" "pfn a < memr_end (ms ! k)"
  shows "map_get_memr ms a = Some k"
proof (cases "map_get_memr ms a")
  case None
  then show ?thesis using assms memr_contains_iff memrs_ok_memr nth_mem
    by (fastforce simp: map_get_memr_None)
next
  case (Some j)
  then have j: "j < length ms" "memr_contains (ms ! j) a" using map_get_memr_Some by auto
  then have "memr_start (ms ! j) \<le> pfn a" "pfn a < memr_end (ms ! j)"
    using assms(1) memr_contains_iff memrs_ok_memr nth_mem by blast+
  then have "\<not> separated (ms ! j) (ms ! k)" using assms(3,4) by (auto simp: separated_def)
  then show ?thesis using memrs_ok_nth_separated [OF assms(1) j(1) assms(2)] Some by blast
qed

text \<open>The code's test for a page is membership in the set of free pages.\<close>

lemma allocated_in_map_iff:
  assumes "memrs_ok (memr_head b)"
  shows "allocated_in_map b a \<longleftrightarrow> pfn a \<notin> free_pages b"
proof (cases "map_get_memr (memr_head b) a")
  case None
  then have "pfn a \<notin> memr_free m" if "m \<in> set (memr_head b)" for m
    using that assms memr_contains_iff memrs_ok_memr
    by (auto simp: map_get_memr_None memr_free_def)
  then show ?thesis using None by (auto simp: allocated_in_map_def memrs_free_def)
next
  case (Some k)
  let ?m = "memr_head b ! k"
  have k: "k < length (memr_head b)" "memr_contains ?m a" using Some map_get_memr_Some by auto
  have ok: "memr_ok ?m" using assms k memrs_ok_memr nth_mem by blast
  then have r: "memr_start ?m \<le> pfn a" "pfn a < memr_end ?m" using k memr_contains_iff by auto
  have only: "m = ?m" if "m \<in> set (memr_head b)" "memr_start m \<le> pfn a" "pfn a < memr_end m" for m
    using that map_get_memr_unique [OF assms, of _ a] Some by (metis in_set_conv_nth option.inject)
  have "pfn a \<in> free_pages b \<longleftrightarrow> pfn a \<in> memr_free ?m"
  proof
    assume "pfn a \<in> free_pages b"
    then obtain m where "m \<in> set (memr_head b)" "pfn a \<in> memr_free m" by (auto simp: memrs_free_def)
    then show "pfn a \<in> memr_free ?m" using only [of m] by (auto simp: memr_free_def)
  next
    assume "pfn a \<in> memr_free ?m"
    then show "pfn a \<in> free_pages b" using k(1) by (auto simp: memrs_free_def)
  qed
  then have "pfn a \<in> free_pages b \<longleftrightarrow> \<not> bmbit (mm_alloc_bitmap ?m) (pfn a - memr_start ?m)"
    using r by (auto simp: memr_free_def)
  then show ?thesis using Some page_idx [OF ok r(1)]
    by (simp add: allocated_in_map_def Let_def and_bit_zero_iff bmbit_def unat_div_64 unat_and_63
          del: push_bit_of_1)
qed

text \<open>Replacing the bitmap of one region.\<close>

lemma memr_ok_bitmap:
  "memr_ok m \<Longrightarrow> length bm = length (mm_alloc_bitmap m) \<Longrightarrow> memr_ok (m\<lparr>mm_alloc_bitmap := bm\<rparr>)"
  by (simp add: memr_ok_def memr_start_def)

lemma memr_bounds_bitmap [simp]:
  "memr_start (m\<lparr>mm_alloc_bitmap := bm\<rparr>) = memr_start m"
  "memr_end (m\<lparr>mm_alloc_bitmap := bm\<rparr>) = memr_end m"
  "separated (m\<lparr>mm_alloc_bitmap := bm\<rparr>) m' = separated m m'"
  "separated m' (m\<lparr>mm_alloc_bitmap := bm\<rparr>) = separated m' m"
  by (simp_all add: memr_start_def memr_end_def separated_def)

lemma memrs_ok_update:
  "memrs_ok ms \<Longrightarrow> k < length ms \<Longrightarrow> length bm = length (mm_alloc_bitmap (ms ! k)) \<Longrightarrow>
   memrs_ok (ms[k := (ms ! k)\<lparr>mm_alloc_bitmap := bm\<rparr>])"
proof (induction ms arbitrary: k)
  case (Cons m ms)
  show ?case
  proof (cases k)
    case 0
    then show ?thesis using Cons.prems by (auto intro: memr_ok_bitmap)
  next
    case (Suc j)
    have "separated m m'" if "m' \<in> set (ms[j := (ms ! j)\<lparr>mm_alloc_bitmap := bm\<rparr>])" for m'
      using Cons.prems that Suc set_update_subset_insert [of ms j] by fastforce
    then show ?thesis using Cons Suc by auto
  qed
qed simp

lemma memrs_free_nth: "p \<in> memrs_free ms \<longleftrightarrow> (\<exists>i < length ms. p \<in> memr_free (ms ! i))"
  by (auto simp: memrs_free_def set_conv_nth)

lemma memrs_free_update:
  assumes "memrs_ok ms" "k < length ms"
  shows "memrs_free (ms[k := (ms ! k)\<lparr>mm_alloc_bitmap := bm\<rparr>]) =
    (memrs_free ms - {memr_start (ms ! k) ..< memr_end (ms ! k)}) \<union> memr_free ((ms ! k)\<lparr>mm_alloc_bitmap := bm\<rparr>)"
    (is "?L = ?R")
proof -
  let ?m = "(ms ! k)\<lparr>mm_alloc_bitmap := bm\<rparr>"
  have "p \<in> ?L \<longleftrightarrow> (\<exists>i < length ms. i \<noteq> k \<and> p \<in> memr_free (ms ! i)) \<or> p \<in> memr_free ?m" for p
    unfolding memrs_free_nth length_list_update using assms(2) by (metis nth_list_update_in)
  moreover have "(\<exists>i < length ms. i \<noteq> k \<and> p \<in> memr_free (ms ! i)) \<longleftrightarrow>
      p \<in> memrs_free ms - {memr_start (ms ! k) ..< memr_end (ms ! k)}" for p
    using assms memrs_ok_nth_separated [OF assms(1), of _ k]
    by (fastforce simp: memrs_free_nth memr_free_def separated_def)
  ultimately show ?thesis by auto
qed


section \<open>Effect of the map operations\<close>

lemma map_region:
  assumes ok: "memrs_ok (memr_head b)" and k: "k < length (memr_head b)"
    and al: "4096 dvd unat a" and n: "0 < unat n"
    and sub: "memr_start (memr_head b ! k) \<le> pfn a" "pfn a + unat n \<le> memr_end (memr_head b ! k)"
  shows "map_get_memr (memr_head b) a = Some k"
    and "a + push_bit PAGE_SHIFT n \<le>
      first_page (memr_head b ! k) + push_bit PAGE_SHIFT (nr_pages (memr_head b ! k))"
    and "unat (drop_bit PAGE_SHIFT (a - first_page (memr_head b ! k))) = pfn a - memr_start (memr_head b ! k)"
proof -
  let ?m = "memr_head b ! k"
  have mok: "memr_ok ?m" using ok k memrs_ok_memr nth_mem by blast
  show "map_get_memr (memr_head b) a = Some k"
    using map_get_memr_unique [OF ok k] sub n by auto
  show "unat (drop_bit PAGE_SHIFT (a - first_page ?m)) = pfn a - memr_start ?m"
    using mok sub(1) by (rule page_idx)
  obtain q where q: "unat (first_page ?m) = 4096 * q" using mok by (auto simp: memr_ok_def)
  obtain r where r: "unat a = 4096 * r" using al by auto
  have le: "r + unat n \<le> q + unat (nr_pages ?m)"
    using sub(2) by (simp add: memr_end_def memr_start_def pfn_def q r)
  have lt: "4096 * (q + unat (nr_pages ?m)) < 2 ^ 64" using mok q by (simp add: memr_ok_def algebra_simps)
  have e: "unat (first_page ?m + push_bit PAGE_SHIFT (nr_pages ?m)) = 4096 * (q + unat (nr_pages ?m))"
    using lt q by (subst unat_add_64) (simp_all add: unat_shift_pages algebra_simps)
  have "unat (a + push_bit PAGE_SHIFT n) = 4096 * (r + unat n)"
    using le lt r by (subst unat_add_64) (simp_all add: unat_shift_pages algebra_simps)
  then show "a + push_bit PAGE_SHIFT n \<le> first_page ?m + push_bit PAGE_SHIFT (nr_pages ?m)"
    using le by (simp only: word_le_nat_alt e) simp
qed

text \<open>Both operations replace the bitmap of one region: what is common to them.\<close>

lemma region_bits:
  assumes "memrs_ok (memr_head b)" "k < length (memr_head b)" "4096 dvd unat a" "0 < unat n"
    and "memr_start (memr_head b ! k) \<le> pfn a" "pfn a + unat (n::u64) \<le> memr_end (memr_head b ! k)"
  defines "m \<equiv> memr_head b ! k"
  shows "unat (drop_bit PAGE_SHIFT (a - first_page m)) + unat n \<le> 64 * length (mm_alloc_bitmap m)"
    and "length (mm_alloc_bitmap m) < 2 ^ 57"
    and "0 < 64 * length (mm_alloc_bitmap m)"
    and "p < memr_end m \<Longrightarrow> p - memr_start m < 64 * length (mm_alloc_bitmap m)"
    and "memr_start m \<le> p \<Longrightarrow>
      unat (drop_bit PAGE_SHIFT (a - first_page m)) \<le> p - memr_start m \<and>
      p - memr_start m < unat (drop_bit PAGE_SHIFT (a - first_page m)) + unat n
      \<longleftrightarrow> p \<in> {pfn a ..< pfn a + unat n}"
proof -
  have mok: "memr_ok m" using assms(1,2) memrs_ok_memr nth_mem m_def by blast
  note idx = map_region(3) [OF assms(1-6), folded m_def]
  show e: "unat (drop_bit PAGE_SHIFT (a - first_page m)) + unat n \<le> 64 * length (mm_alloc_bitmap m)"
    and "length (mm_alloc_bitmap m) < 2 ^ 57"
    using idx assms(5,6) mok by (auto simp: memr_ok_def memr_end_def m_def)
  show z: "0 < 64 * length (mm_alloc_bitmap m)" using e assms(4) by linarith
  show "p - memr_start m < 64 * length (mm_alloc_bitmap m)" if "p < memr_end m"
    using that mok z unfolding memr_ok_def memr_end_def by linarith
  show "memr_start m \<le> p \<Longrightarrow>
      unat (drop_bit PAGE_SHIFT (a - first_page m)) \<le> p - memr_start m \<and>
      p - memr_start m < unat (drop_bit PAGE_SHIFT (a - first_page m)) + unat n
      \<longleftrightarrow> p \<in> {pfn a ..< pfn a + unat n}"
    unfolding idx using assms(5) by (auto simp: m_def)
qed

lemma region_replace:
  assumes ok: "memrs_ok ms" "k < length ms" and len: "length bm = length (mm_alloc_bitmap (ms ! k))"
    and R: "\<And>p. memr_start (ms ! k) \<le> p \<Longrightarrow> p < memr_end (ms ! k) \<Longrightarrow>
      bmbit bm (p - memr_start (ms ! k)) \<longleftrightarrow> p \<notin> F"
    and F: "F - {memr_start (ms ! k) ..< memr_end (ms ! k)} = memrs_free ms - {memr_start (ms ! k) ..< memr_end (ms ! k)}"
  defines "ms' \<equiv> ms[k := (ms ! k)\<lparr>mm_alloc_bitmap := bm\<rparr>]"
  shows "memrs_ok ms'" "map memr_start ms' = map memr_start ms" "map memr_end ms' = map memr_end ms"
    and "memrs_free ms' = F"
proof -
  show "memrs_ok ms'" unfolding ms'_def using ok len by (rule memrs_ok_update)
  show "map memr_start ms' = map memr_start ms" "map memr_end ms' = map memr_end ms"
    using ok(2) by (simp_all add: ms'_def map_update list_update_same_conv)
  have "memr_free ((ms ! k)\<lparr>mm_alloc_bitmap := bm\<rparr>) = F \<inter> {memr_start (ms ! k) ..< memr_end (ms ! k)}"
    using R by (auto simp: memr_free_def)
  then show "memrs_free ms' = F" unfolding ms'_def memrs_free_update [OF ok] F [symmetric] by auto
qed

lemma region_free_bit:
  assumes "memrs_ok ms" "k < length ms" "memr_start (ms ! k) \<le> p" "p < memr_end (ms ! k)"
  shows "p \<in> memrs_free ms \<longleftrightarrow> \<not> bmbit (mm_alloc_bitmap (ms ! k)) (p - memr_start (ms ! k))"
proof -
  have "p \<in> memrs_free ms \<longleftrightarrow> p \<in> memr_free (ms ! k)"
    using memrs_free_update [OF assms(1,2), of "mm_alloc_bitmap (ms ! k)"] assms(3,4) by auto
  then show ?thesis using assms(3,4) by (simp add: memr_free_def)
qed

lemma map_alloc_result:
  assumes ok: "memrs_ok (memr_head b)" and k: "k < length (memr_head b)"
    and "4096 dvd unat a" "0 < unat n"
    and sub: "memr_start (memr_head b ! k) \<le> pfn a" "pfn a + unat n \<le> memr_end (memr_head b ! k)"
  shows "\<exists>ms. map_alloc b a n = Some (b\<lparr>memr_head := ms, nr_free_pages := nr_free_pages b - n\<rparr>) \<and>
    memrs_ok ms \<and> map memr_start ms = map memr_start (memr_head b) \<and>
    map memr_end ms = map memr_end (memr_head b) \<and>
    memrs_free ms = free_pages b - {pfn a ..< pfn a + unat n}"
proof -
  let ?m = "memr_head b ! k"
  note rb = region_bits [OF assms]
  define bm where "bm = map_alloc_bits (mm_alloc_bitmap ?m) (drop_bit PAGE_SHIFT (a - first_page ?m)) n"
  have len: "length bm = length (mm_alloc_bitmap ?m)"
    unfolding bm_def by (rule map_alloc_bits_spec(2) [OF rb(1-3)])
  have R: "bmbit bm (p - memr_start ?m) \<longleftrightarrow> p \<notin> free_pages b - {pfn a ..< pfn a + unat n}"
    if p: "memr_start ?m \<le> p" "p < memr_end ?m" for p
    unfolding bm_def map_alloc_bits_spec(1) [OF rb(1,2) rb(4) [OF p(2)]] rb(5) [OF p(1)]
    using region_free_bit [OF ok k p] by blast
  have F: "free_pages b - {pfn a ..< pfn a + unat n} - {memr_start ?m ..< memr_end ?m} =
      free_pages b - {memr_start ?m ..< memr_end ?m}" using sub by auto
  have "map_alloc b a n = Some (b\<lparr>memr_head := (memr_head b)[k := ?m\<lparr>mm_alloc_bitmap := bm\<rparr>],
      nr_free_pages := nr_free_pages b - n\<rparr>)"
    using map_region [OF assms] by (simp add: map_alloc_def Let_def bm_def)
  then show ?thesis using region_replace [OF ok k len R F] by blast
qed

lemma map_free_result:
  assumes ok: "memrs_ok (memr_head b)" and k: "k < length (memr_head b)"
    and "4096 dvd unat a" "0 < unat n"
    and sub: "memr_start (memr_head b ! k) \<le> pfn a" "pfn a + unat n \<le> memr_end (memr_head b ! k)"
  shows "\<exists>ms. map_free b a n = Some (b\<lparr>memr_head := ms, nr_free_pages := nr_free_pages b + n\<rparr>) \<and>
    memrs_ok ms \<and> map memr_start ms = map memr_start (memr_head b) \<and>
    map memr_end ms = map memr_end (memr_head b) \<and>
    memrs_free ms = free_pages b \<union> {pfn a ..< pfn a + unat n}"
proof -
  let ?m = "memr_head b ! k"
  note rb = region_bits [OF assms]
  define bm where "bm = map_free_bits (mm_alloc_bitmap ?m) (drop_bit PAGE_SHIFT (a - first_page ?m)) n"
  have len: "length bm = length (mm_alloc_bitmap ?m)"
    unfolding bm_def by (rule map_free_bits_spec(2) [OF rb(1-3)])
  have R: "bmbit bm (p - memr_start ?m) \<longleftrightarrow> p \<notin> free_pages b \<union> {pfn a ..< pfn a + unat n}"
    if p: "memr_start ?m \<le> p" "p < memr_end ?m" for p
    unfolding bm_def map_free_bits_spec(1) [OF rb(1,2) rb(4) [OF p(2)]] rb(5) [OF p(1)]
    using region_free_bit [OF ok k p] by blast
  have F: "free_pages b \<union> {pfn a ..< pfn a + unat n} - {memr_start ?m ..< memr_end ?m} =
      free_pages b - {memr_start ?m ..< memr_end ?m}" using sub by auto
  have "map_free b a n = Some (b\<lparr>memr_head := (memr_head b)[k := ?m\<lparr>mm_alloc_bitmap := bm\<rparr>],
      nr_free_pages := nr_free_pages b + n\<rparr>)"
    using map_region [OF assms] by (simp add: map_free_def Let_def bm_def)
  then show ?thesis using region_replace [OF ok k len R F] by blast
qed

end
