(* ===== verification/BbuddyList.thy ===== *)
theory BbuddyList
  imports Bbuddy
begin

text \<open>
  The free lists of the buddy allocator as doubly linked lists on the store: list segments,
  and what linking at the front and unlinking anywhere do to every list.
\<close>

fun dlseg :: "bbpalloc \<Rightarrow> pptr \<Rightarrow> hptr \<Rightarrow> u64 list \<Rightarrow> hptr \<Rightarrow> bool" where
  "dlseg b loc p [] e \<longleftrightarrow> p = e \<and> ch_pprev b e = loc"
| "dlseg b loc p (a # as) e \<longleftrightarrow>
     p = Chunk a \<and> ch_pprev b (Chunk a) = loc \<and>
     dlseg b (NextOf (Chunk a)) (ch_next b (Chunk a)) as e"

definition freelist :: "bbpalloc \<Rightarrow> nat \<Rightarrow> u64 list \<Rightarrow> bool" where
  "freelist b i as \<longleftrightarrow>
     dlseg b (FreeHead i) (free_head b i) as (Tail i) \<and> ch_next b (Tail i) = HNull"

text \<open>All lists together: list \<open>i\<close> holds \<open>F i\<close>, no chunk is on two lists or twice on one.\<close>

definition lists_ok :: "bbpalloc \<Rightarrow> (nat \<Rightarrow> u64 list) \<Rightarrow> bool" where
  "lists_ok b F \<longleftrightarrow>
     (\<forall>i < FREELIST_SIZE. freelist b i (F i) \<and> distinct (F i) \<and>
        (\<forall>a \<in> set (F i). ch_level b (Chunk a) = i))"

lemma lists_ok_disjoint:
  "lists_ok b F \<Longrightarrow> i < FREELIST_SIZE \<Longrightarrow> j < FREELIST_SIZE \<Longrightarrow> i \<noteq> j \<Longrightarrow> set (F i) \<inter> set (F j) = {}"
  unfolding lists_ok_def disjoint_iff by metis

lemma dlseg_cong:
  assumes "\<And>a. a \<in> set as \<Longrightarrow> ch_next b' (Chunk a) = ch_next b (Chunk a) \<and> ch_pprev b' (Chunk a) = ch_pprev b (Chunk a)"
    and "ch_pprev b' e = ch_pprev b e"
  shows "dlseg b' loc p as e = dlseg b loc p as e"
  using assms(1) by (induction as arbitrary: loc p) (auto simp: assms(2))

lemma dlseg_append:
  "dlseg b loc p (as @ a # cs) e \<longleftrightarrow>
     (\<exists>l. dlseg b loc p as (Chunk a) \<and> ch_pprev b (Chunk a) = l \<and>
       dlseg b (NextOf (Chunk a)) (ch_next b (Chunk a)) cs e)"
  by (induction as arbitrary: loc p) auto

lemma freelist_empty_iff:
  assumes "freelist b i as"
  shows "FREELIST_EMPTY b (free_head b i) \<longleftrightarrow> as = []"
proof (cases as)
  case (Cons a cs)
  then have "dlseg b (NextOf (Chunk a)) (ch_next b (Chunk a)) cs (Tail i)" "free_head b i = Chunk a"
    using assms by (auto simp: freelist_def)
  then have "ch_next b (Chunk a) \<noteq> HNull" by (cases cs) auto
  then show ?thesis using Cons \<open>free_head b i = Chunk a\<close> by (simp add: FREELIST_EMPTY_def)
qed (use assms in \<open>auto simp: freelist_def FREELIST_EMPTY_def\<close>)

text \<open>Linking at the front.\<close>

lemma link_chunk_fields [simp]:
  "nr_free_pages (link_chunk b ch ct i) = nr_free_pages b"
  "memr_head (link_chunk b ch ct i) = memr_head b"
  "free_head (link_chunk b ch ct i) = (free_head b)(i := Chunk ch)"
  "ch_level (link_chunk b ch ct i) = (ch_level b)(Chunk ch := i)"
  "ch_next (link_chunk b ch ct i) = (ch_next b)(Chunk ch := free_head b i)"
  by (simp_all add: link_chunk_def Let_def)

lemma link_chunk_pprev:
  "ch_pprev (link_chunk b ch ct i) = (ch_pprev b)(Chunk ch := FreeHead i, free_head b i := NextOf (Chunk ch))"
  by (simp add: link_chunk_def Let_def)

lemma freelist_head:
  "freelist b i as \<Longrightarrow> free_head b i = (case as of [] \<Rightarrow> Tail i | a # _ \<Rightarrow> Chunk a)"
  by (auto simp: freelist_def split: list.splits)

lemma link_chunk_same:
  assumes "freelist b i as" "ch \<notin> set as" "distinct as"
  shows "freelist (link_chunk b ch ct i) i (ch # as)"
proof (cases as)
  case Nil
  then show ?thesis using assms by (simp add: freelist_def link_chunk_pprev)
next
  case (Cons a cs)
  have h: "free_head b i = Chunk a" using assms(1) Cons freelist_head by fastforce
  have "dlseg (link_chunk b ch ct i) (NextOf (Chunk a)) (ch_next b (Chunk a)) cs (Tail i) =
      dlseg b (NextOf (Chunk a)) (ch_next b (Chunk a)) cs (Tail i)"
    using assms(2,3) Cons h by (intro dlseg_cong) (auto simp: link_chunk_pprev)
  then show ?thesis using assms Cons h by (auto simp: freelist_def link_chunk_pprev)
qed

lemma link_chunk_other:
  assumes "freelist b j as" "freelist b i cs" "ch \<notin> set as" "set as \<inter> set cs = {}" "i \<noteq> j"
  shows "freelist (link_chunk b ch ct i) j as"
proof -
  have h: "free_head b i = (case cs of [] \<Rightarrow> Tail i | a # _ \<Rightarrow> Chunk a)" using assms(2) by (rule freelist_head)
  have "dlseg (link_chunk b ch ct i) (FreeHead j) (free_head b j) as (Tail j) =
      dlseg b (FreeHead j) (free_head b j) as (Tail j)"
    using assms(3-5) h by (intro dlseg_cong) (auto simp: link_chunk_pprev split: list.splits)
  then show ?thesis using assms(1,5) by (simp add: freelist_def)
qed

lemma link_chunk_lists_ok:
  assumes ok: "lists_ok b F" and i: "i < FREELIST_SIZE"
    and fresh: "\<And>j. j < FREELIST_SIZE \<Longrightarrow> ch \<notin> set (F j)"
  shows "lists_ok (link_chunk b ch ct i) (F(i := ch # F i))"
  unfolding lists_ok_def
proof (intro allI impI)
  fix j assume j: "j < FREELIST_SIZE"
  have Fi: "freelist b i (F i)" "distinct (F i)" using ok i by (auto simp: lists_ok_def)
  have Fj: "freelist b j (F j)" "distinct (F j)" "\<forall>a\<in>set (F j). ch_level b (Chunk a) = j"
    using ok j by (auto simp: lists_ok_def)
  show "freelist (link_chunk b ch ct i) j ((F(i := ch # F i)) j) \<and> distinct ((F(i := ch # F i)) j) \<and>
    (\<forall>a\<in>set ((F(i := ch # F i)) j). ch_level (link_chunk b ch ct i) (Chunk a) = j)"
  proof (cases "j = i")
    case True
    then show ?thesis using Fi Fj fresh [OF i] link_chunk_same [of b i "F i" ch ct] by auto
  next
    case False
    then show ?thesis
      using Fj fresh [OF j] link_chunk_other [OF Fj(1) Fi(1)] lists_ok_disjoint [OF ok j i] by auto
  qed
qed

text \<open>Unlinking: the segment before the chunk is redirected, the one after it gets a new
  back pointer.\<close>

fun dlpath :: "bbpalloc \<Rightarrow> pptr \<Rightarrow> hptr \<Rightarrow> u64 list \<Rightarrow> hptr \<Rightarrow> bool" where
  "dlpath b loc p [] q \<longleftrightarrow> p = q"
| "dlpath b loc p (a # as) q \<longleftrightarrow>
     p = Chunk a \<and> ch_pprev b (Chunk a) = loc \<and>
     dlpath b (NextOf (Chunk a)) (ch_next b (Chunk a)) as q"

definition lastloc :: "pptr \<Rightarrow> u64 list \<Rightarrow> pptr" where
  "lastloc loc as = (if as = [] then loc else NextOf (Chunk (last as)))"

lemma dlseg_dlpath: "dlseg b loc p as e \<longleftrightarrow> dlpath b loc p as e \<and> ch_pprev b e = lastloc loc as"
  by (induction as arbitrary: loc p) (auto simp: lastloc_def)

lemma dlpath_append:
  "dlpath b loc p (as @ cs) e \<longleftrightarrow> (\<exists>q. dlpath b loc p as q \<and> dlpath b (lastloc loc as) q cs e)"
  by (induction as arbitrary: loc p) (auto simp: lastloc_def)

lemma dlpath_cong:
  assumes "\<And>a. a \<in> set as \<Longrightarrow> ch_next b' (Chunk a) = ch_next b (Chunk a) \<and> ch_pprev b' (Chunk a) = ch_pprev b (Chunk a)"
  shows "dlpath b' loc p as e = dlpath b loc p as e"
  using assms by (induction as arbitrary: loc p) auto

lemma dlpath_redirect:
  "\<lbrakk>dlpath b loc p as q; as \<noteq> []; distinct as;
    \<And>a. a \<in> set as \<Longrightarrow> ch_pprev b' (Chunk a) = ch_pprev b (Chunk a);
    \<And>a. a \<in> set as \<Longrightarrow> ch_next b' (Chunk a) = (if a = last as then q' else ch_next b (Chunk a))\<rbrakk>
   \<Longrightarrow> dlpath b' loc p as q'"
proof (induction as arbitrary: loc p)
  case (Cons a as)
  show ?case
  proof (cases "as = []")
    case True
    then show ?thesis using Cons.prems by auto
  next
    case False
    have "a \<noteq> last as" using Cons.prems(3) False by auto
    then show ?thesis using Cons False by auto
  qed
qed simp

lemma dlpath_relocate:
  assumes "dlpath b l q as e" "distinct as"
    and "ch_pprev b' = (ch_pprev b)(q := l')"
    and "\<And>a. a \<in> set as \<Longrightarrow> ch_next b' (Chunk a) = ch_next b (Chunk a)"
  shows "dlpath b' l' q as e"
proof (cases as)
  case (Cons a cs)
  then have q: "q = Chunk a" using assms(1) by simp
  have "dlpath b' (NextOf (Chunk a)) (ch_next b (Chunk a)) cs e"
    using assms Cons q by (subst dlpath_cong [of _ _ b]) auto
  then show ?thesis using Cons q assms by simp
qed (use assms(1) in simp)

lemma dlpath_ptrs: "dlpath b loc p as e \<Longrightarrow> p = e \<or> (\<exists>a \<in> set as. p = Chunk a)"
  by (cases as) auto

lemma unlink_chunk_fields [simp]:
  "nr_free_pages (unlink_chunk b h) = nr_free_pages b"
  "memr_head (unlink_chunk b h) = memr_head b"
  "ch_level (unlink_chunk b h) = ch_level b"
  by (simp_all add: unlink_chunk_def Let_def poke_def split: pptr.splits)

lemma freelist_mid:
  assumes "freelist b i (xs @ a # ys)" "distinct (xs @ a # ys)"
  shows "ch_pprev b (Chunk a) = lastloc (FreeHead i) xs"
    and "dlpath b (FreeHead i) (free_head b i) xs (Chunk a)"
    and "dlpath b (NextOf (Chunk a)) (ch_next b (Chunk a)) ys (Tail i)"
    and "ch_next b (Chunk a) \<noteq> Chunk a"
  using assms by (auto simp: freelist_def dlseg_dlpath dlpath_append dest!: dlpath_ptrs)

text \<open>The fields after unlinking an element at a known position.\<close>

lemma unlink_mid:
  assumes "freelist b i (xs @ a # ys)" "distinct (xs @ a # ys)"
  defines "b' \<equiv> unlink_chunk b (Chunk a)"
  shows "free_head b' = (if xs = [] then (free_head b)(i := ch_next b (Chunk a)) else free_head b)"
    and "ch_next b' = (if xs = [] then ch_next b else (ch_next b)(Chunk (last xs) := ch_next b (Chunk a)))"
    and "ch_pprev b' = (ch_pprev b)(ch_next b (Chunk a) := lastloc (FreeHead i) xs)"
  using freelist_mid [OF assms(1,2)] assms(2)
  by (auto simp: b'_def unlink_chunk_def poke_def Let_def lastloc_def)

lemma unlink_chunk_same:
  assumes "freelist b i (xs @ a # ys)" "distinct (xs @ a # ys)"
  shows "freelist (unlink_chunk b (Chunk a)) i (xs @ ys)"
proof -
  let ?b = "unlink_chunk b (Chunk a)" and ?q = "ch_next b (Chunk a)"
  note mid = freelist_mid [OF assms] and um = unlink_mid [OF assms]
  have q: "?q = Tail i \<or> (\<exists>y \<in> set ys. ?q = Chunk y)" using dlpath_ptrs [OF mid(3)] .
  have front: "dlpath ?b (FreeHead i) (free_head ?b i) xs ?q"
  proof (cases "xs = []")
    case False
    show ?thesis
      by (rule dlpath_redirect [of b _ _ _ "Chunk a"]) (use mid assms False q um in auto)
  qed (simp add: um)
  have l: "xs \<noteq> [] \<Longrightarrow> last xs \<notin> set ys" using assms(2) by (metis disjoint_iff distinct_append last_in_set list.set_intros(2))
  have rear: "dlpath ?b (lastloc (FreeHead i) xs) ?q ys (Tail i)"
    by (rule dlpath_relocate [OF mid(3)]) (use assms um l in auto)
  have "ch_pprev ?b (Tail i) = lastloc (FreeHead i) (xs @ ys)"
  proof (cases "ys = []")
    case True
    then show ?thesis using mid(3) by (simp add: um)
  next
    case False
    then have "?q \<noteq> Tail i" using mid(3) by (cases ys) auto
    then show ?thesis using assms(1) False by (simp add: um freelist_def dlseg_dlpath lastloc_def)
  qed
  moreover have "ch_next ?b (Tail i) = HNull" using assms(1) by (simp add: um freelist_def)
  ultimately show ?thesis
    using front rear by (auto simp: freelist_def dlseg_dlpath dlpath_append)
qed

lemma unlink_chunk_other:
  assumes "freelist b i (xs @ a # ys)" "distinct (xs @ a # ys)" "freelist b j as"
    and "set as \<inter> set (xs @ a # ys) = {}" "i \<noteq> j"
  shows "freelist (unlink_chunk b (Chunk a)) j as"
proof -
  let ?b = "unlink_chunk b (Chunk a)" and ?q = "ch_next b (Chunk a)"
  note mid = freelist_mid [OF assms(1,2)] and um = unlink_mid [OF assms(1,2)]
  have q: "?q = Tail i \<or> (\<exists>y \<in> set ys. ?q = Chunk y)" using dlpath_ptrs [OF mid(3)] .
  have l: "xs \<noteq> [] \<Longrightarrow> last xs \<in> set xs" by simp
  have "dlseg ?b (FreeHead j) (free_head b j) as (Tail j) = dlseg b (FreeHead j) (free_head b j) as (Tail j)"
    by (rule dlseg_cong) (use assms(4,5) q l um in auto)
  then show ?thesis using assms(3,5) by (simp add: freelist_def um)
qed

lemma unlink_chunk_lists_ok:
  assumes ok: "lists_ok b F" and i: "i < FREELIST_SIZE" and Fi: "F i = xs @ a # ys"
  shows "lists_ok (unlink_chunk b (Chunk a)) (F(i := xs @ ys))"
  unfolding lists_ok_def
proof (intro allI impI)
  fix j assume j: "j < FREELIST_SIZE"
  have fi: "freelist b i (xs @ a # ys)" "distinct (xs @ a # ys)"
    "\<forall>c\<in>set (xs @ a # ys). ch_level b (Chunk c) = i"
    using ok i unfolding lists_ok_def Fi [symmetric] by auto
  have fj: "freelist b j (F j)" "distinct (F j)" "\<forall>a\<in>set (F j). ch_level b (Chunk a) = j"
    using ok j by (auto simp: lists_ok_def)
  show "freelist (unlink_chunk b (Chunk a)) j ((F(i := xs @ ys)) j) \<and> distinct ((F(i := xs @ ys)) j) \<and>
    (\<forall>c\<in>set ((F(i := xs @ ys)) j). ch_level (unlink_chunk b (Chunk a)) (Chunk c) = j)"
  proof (cases "j = i")
    case True
    then show ?thesis using fi unlink_chunk_same [OF fi(1,2)] by auto
  next
    case False
    then show ?thesis
      using fj unlink_chunk_other [OF fi(1,2) fj(1)] lists_ok_disjoint [OF ok j i] Fi by auto
  qed
qed

end
