(* ===== verification/BbuddyInv.thy ===== *)
theory BbuddyInv
  imports BuddyBlocks BbuddyMap BbuddyList
begin

text \<open>
  Addresses and page frames, and the chunks on the free lists as a set of aligned blocks: the vocabulary in which
  the invariant of the buddy allocator is stated.
\<close>

section \<open>Addresses and page frames\<close>

definition page_aligned :: "u64 \<Rightarrow> bool" where
  "page_aligned a \<longleftrightarrow> 4096 dvd unat a"

lemma page_aligned_unat: "page_aligned a \<Longrightarrow> unat a = 4096 * pfn a"
  by (auto simp: page_aligned_def pfn_def)

lemma pfn_inj: "page_aligned a \<Longrightarrow> page_aligned c \<Longrightarrow> pfn a = pfn c \<Longrightarrow> a = c"
  by (metis page_aligned_unat word_unat_eq_iff)

lemma unat_block_size: "i < 52 \<Longrightarrow> unat (push_bit (i + PAGE_SHIFT) 1 :: u64) = 4096 * 2 ^ i"
  using unat_pow2_64 [of "i + 12"] by (simp only: push_bit_of_1) (simp add: power_add)

lemma pfn_add_block:
  assumes "page_aligned a" "4096 * (pfn a + 2 ^ i) < 2 ^ 64" "i < 52"
  shows "unat (a + push_bit (i + PAGE_SHIFT) 1) = 4096 * (pfn a + 2 ^ i)"
    and "page_aligned (a + push_bit (i + PAGE_SHIFT) 1)"
    and "pfn (a + push_bit (i + PAGE_SHIFT) 1) = pfn a + 2 ^ i"
proof -
  note m = unat_block_size [OF assms(3)]
  show u: "unat (a + push_bit (i + PAGE_SHIFT) 1) = 4096 * (pfn a + 2 ^ i)"
    using assms m page_aligned_unat [OF assms(1)] by (subst unat_add_64) (simp_all add: algebra_simps)
  show "page_aligned (a + push_bit (i + PAGE_SHIFT) 1)" "pfn (a + push_bit (i + PAGE_SHIFT) 1) = pfn a + 2 ^ i"
    by (simp_all add: page_aligned_def pfn_def u del: push_bit_of_1)
qed

lemma pfn_sub_block:
  assumes "page_aligned a" "2 ^ i \<le> pfn a" "i < 52"
  shows "page_aligned (a - push_bit (i + PAGE_SHIFT) 1)"
    and "pfn (a - push_bit (i + PAGE_SHIFT) 1) = pfn a - 2 ^ i"
proof -
  note m = unat_block_size [OF assms(3)]
  have u: "unat (a - push_bit (i + PAGE_SHIFT) 1) = 4096 * (pfn a - 2 ^ i)"
    using assms m page_aligned_unat [OF assms(1)] by (subst unat_sub_no_ovf) (simp_all add: diff_mult_distrib2)
  show "page_aligned (a - push_bit (i + PAGE_SHIFT) 1)" "pfn (a - push_bit (i + PAGE_SHIFT) 1) = pfn a - 2 ^ i"
    by (simp_all add: page_aligned_def pfn_def u del: push_bit_of_1)
qed

lemma mask_test:
  "a AND push_bit (i + PAGE_SHIFT) 1 \<noteq> 0 \<longleftrightarrow> odd (pfn a div 2 ^ i)"
proof -
  have "a AND push_bit (i + PAGE_SHIFT) 1 \<noteq> 0 \<longleftrightarrow> bit (unat a) (i + PAGE_SHIFT)"
    by (simp add: and_bit_zero_iff bit_unsigned_iff del: push_bit_of_1)
  also have "\<dots> \<longleftrightarrow> odd (pfn a div 2 ^ i)"
    by (simp add: bit_iff_odd pfn_def power_add div_mult2_eq [symmetric] mult.commute)
  finally show ?thesis .
qed

section \<open>Chunks of the free lists\<close>

definition chunks :: "(nat \<Rightarrow> u64 list) \<Rightarrow> (nat \<times> nat) set" where
  "chunks F = {(pfn a, i) | a i. i < FREELIST_SIZE \<and> a \<in> set (F i)}"

definition aligned_lists :: "(nat \<Rightarrow> u64 list) \<Rightarrow> bool" where
  "aligned_lists F \<longleftrightarrow> (\<forall>i < FREELIST_SIZE. \<forall>a \<in> set (F i). page_aligned a)"

abbreviation covered :: "(nat \<times> nat) set \<Rightarrow> nat set" where
  "covered C \<equiv> \<Union> (blk ` C)"

lemma chunks_iff: "(p, i) \<in> chunks F \<longleftrightarrow> i < FREELIST_SIZE \<and> (\<exists>a \<in> set (F i). pfn a = p)"
  by (auto simp: chunks_def)

lemma chunks_push: "i < FREELIST_SIZE \<Longrightarrow> chunks (F(i := a # F i)) = insert (pfn a, i) (chunks F)"
  by (auto simp: chunks_def split: if_splits)

lemma chunks_remove:
  assumes "aligned_lists F" "i < FREELIST_SIZE" "F i = xs @ a # ys" "distinct (F i)"
  shows "chunks (F(i := xs @ ys)) = chunks F - {(pfn a, i)}"
proof -
  have "pfn c \<noteq> pfn a" if "c \<in> set (xs @ ys)" for c
  proof -
    have "page_aligned c" "page_aligned a" using assms that by (auto simp: aligned_lists_def)
    moreover have "c \<noteq> a" using that assms by auto
    ultimately show ?thesis using pfn_inj by blast
  qed
  then have "(p, j) \<in> chunks (F(i := xs @ ys)) \<longleftrightarrow> (p, j) \<in> chunks F - {(pfn a, i)}" for p j
    using assms(2,3) by (cases "j = i") (auto simp: chunks_iff)
  then show ?thesis by (metis (no_types, lifting) subrelI subset_antisym)
qed

lemma aligned_lists_push: "aligned_lists F \<Longrightarrow> page_aligned a \<Longrightarrow> aligned_lists (F(i := a # F i))"
  by (auto simp: aligned_lists_def)

lemma aligned_lists_remove: "aligned_lists F \<Longrightarrow> F i = xs @ a # ys \<Longrightarrow> aligned_lists (F(i := xs @ ys))"
  by (auto simp: aligned_lists_def)

lemma chunks_mem:
  assumes "aligned_lists F" "(pfn a, i) \<in> chunks F" "page_aligned a"
  shows "a \<in> set (F i)" "i < FREELIST_SIZE"
  using assms pfn_inj by (auto simp: chunks_iff aligned_lists_def)

lemma chunk_not_listed:
  assumes "chunks_ok (insert c (chunks F))" "c \<notin> chunks F" "pfn a \<in> blk c" "i < FREELIST_SIZE"
  shows "a \<notin> set (F i)"
proof
  assume "a \<in> set (F i)"
  then have "(pfn a, i) \<in> chunks F" using assms(4) by (auto simp: chunks_iff)
  then have "blk c \<inter> blk (pfn a, i) = {}" using assms(1,2) by (metis chunks_ok_insert)
  then show False using assms(3) blk_self by blast
qed

section \<open>Regions hold contiguous blocks\<close>

lemma memrs_free_region:
  assumes "p \<in> memrs_free ms"
  shows "\<exists>k < length ms. memr_start (ms ! k) \<le> p \<and> p < memr_end (ms ! k)"
  using assms by (auto simp: memrs_free_nth memr_free_def)

lemma block_in_region:
  assumes "memrs_ok ms" "{p ..< p + n} \<subseteq> memrs_free ms" "0 < n"
  shows "\<exists>k < length ms. memr_start (ms ! k) \<le> p \<and> p + n \<le> memr_end (ms ! k)"
  using assms(2,3)
proof (induction n)
  case (Suc n)
  show ?case
  proof (cases n)
    case 0
    then show ?thesis using Suc.prems memrs_free_region [of p ms] by auto
  next
    case (Suc m)
    then obtain k where k: "k < length ms" "memr_start (ms ! k) \<le> p" "p + n \<le> memr_end (ms ! k)"
      using Suc.IH subset_trans [OF _ Suc.prems(1), of "{p ..< p + n}"] by auto
    have "p + n \<in> memrs_free ms" using Suc.prems by auto
    then obtain l where l: "l < length ms" "memr_start (ms ! l) \<le> p + n" "p + n < memr_end (ms ! l)"
      using memrs_free_region by blast
    have "l = k"
      using memrs_ok_nth_separated [OF assms(1) l(1) k(1)] k l Suc by (auto simp: separated_def)
    then show ?thesis using k l by auto
  qed
qed simp

lemma region_bound:
  assumes "memrs_ok ms" "k < length ms"
  shows "4096 * memr_end (ms ! k) < 2 ^ 64" "0 < memr_start (ms ! k)"
proof -
  have m: "memr_ok (ms ! k)" using assms memrs_ok_memr nth_mem by blast
  then show "4096 * memr_end (ms ! k) < 2 ^ 64"
    by (auto simp: memr_ok_def memr_end_def memr_start_def pfn_def)
  show "0 < memr_start (ms ! k)" using m by (simp add: memr_ok_def)
qed

lemma free_chunk_bounds:
  assumes "memrs_ok ms" "aligned (p, i)" "blk (p, i) \<subseteq> memrs_free ms"
  shows "4096 * (p + 2 ^ i) < 2 ^ 64" "0 < p" "i < FREELIST_SIZE"
proof -
  obtain k where k: "k < length ms" "memr_start (ms ! k) \<le> p" "p + 2 ^ i \<le> memr_end (ms ! k)"
    using block_in_region [OF assms(1), of p "2 ^ i"] assms(3) by (auto simp: blk_def)
  note rb = region_bound [OF assms(1) k(1)]
  show b: "4096 * (p + 2 ^ i) < 2 ^ 64" using rb(1) k(3) by (meson le_less_trans mult_le_mono2)
  show p: "0 < p" using rb k by linarith
  have "2 ^ i \<le> p" using assms(2) p by (auto simp: aligned_def intro: dvd_imp_le)
  then have "(2::nat) ^ i < 2 ^ 52" using b by simp
  then show "i < FREELIST_SIZE" using power_less_imp_less_exp [of "2::nat" i 52] by simp
qed

lemma finite_memrs_free: "finite (memrs_free ms)"
  by (auto simp: memrs_free_def memr_free_def)

end
