(* ===== verification/BbuddyPalloc.thy ===== *)
theory BbuddyPalloc
  imports BbuddyInv
begin

text \<open>
  The invariant of the buddy allocator, also in the form it has while a block is held between two lists, and
  the allocation of pages: the search for a list, the split of a chunk, and the update of the bitmap.
\<close>

section \<open>Invariant\<close>

definition binvF :: "bbpalloc \<Rightarrow> (nat \<Rightarrow> u64 list) \<Rightarrow> bool" where
  "binvF b F \<longleftrightarrow>
     memrs_ok (memr_head b) \<and> lists_ok b F \<and> aligned_lists F \<and>
     chunks_ok (chunks F) \<and> no_buddies (chunks F) \<and> covered (chunks F) = free_pages b \<and>
     nr_free_pages b = of_nat (card (free_pages b))"

definition binv :: "bbpalloc \<Rightarrow> bool" where
  "binv b \<longleftrightarrow> (\<exists>F. binvF b F)"

text \<open>While an operation works, one free chunk \<open>(a, i)\<close> is held outside the lists.\<close>

definition hinv :: "bbpalloc \<Rightarrow> (nat \<Rightarrow> u64 list) \<Rightarrow> u64 \<Rightarrow> nat \<Rightarrow> bool" where
  "hinv b F a i \<longleftrightarrow>
     memrs_ok (memr_head b) \<and> lists_ok b F \<and> aligned_lists F \<and> page_aligned a \<and>
     (pfn a, i) \<notin> chunks F \<and> chunks_ok (insert (pfn a, i) (chunks F)) \<and> no_buddies (chunks F) \<and>
     covered (insert (pfn a, i) (chunks F)) = free_pages b"

lemma hinvD:
  assumes "hinv b F a i"
  shows "memrs_ok (memr_head b)" "lists_ok b F" "aligned_lists F" "page_aligned a"
    "(pfn a, i) \<notin> chunks F" "chunks_ok (insert (pfn a, i) (chunks F))" "no_buddies (chunks F)"
    "covered (insert (pfn a, i) (chunks F)) = free_pages b"
    "aligned (pfn a, i)" "blk (pfn a, i) \<subseteq> free_pages b" "chunks_ok (chunks F)"
  using assms by (auto simp: hinv_def chunks_ok_insert)

lemma hinv_bounds:
  assumes "hinv b F a i"
  shows "4096 * (pfn a + 2 ^ i) < 2 ^ 64" "0 < pfn a" "i < FREELIST_SIZE" "a \<noteq> 0"
  using free_chunk_bounds [OF hinvD(1,9,10) [OF assms]] by (auto simp: pfn_def)

lemma lists_ok_cong:
  assumes "lists_ok b F" "free_head b' = free_head b" "ch_next b' = ch_next b" "ch_pprev b' = ch_pprev b"
    "ch_level b' = ch_level b"
  shows "lists_ok b' F"
proof -
  have "dlseg b' loc p as e = dlseg b loc p as e" for loc p as e
    using assms by (intro dlseg_cong) auto
  then show ?thesis using assms by (simp add: lists_ok_def freelist_def)
qed

section \<open>Splitting\<close>

lemma buddy_upper: "aligned (p, Suc i) \<Longrightarrow> buddy (p + 2 ^ i) i = p"
proof -
  assume "aligned (p, Suc i)"
  then obtain k where "p = 2 * 2 ^ i * k" by (auto simp: aligned_def)
  then have "(p + 2 ^ i) div 2 ^ i = 2 * k + 1" by simp
  then show ?thesis by (simp add: buddy_def)
qed

lemma hinv_split:
  assumes h: "hinv b F a (Suc j)"
  defines "s \<equiv> a + push_bit (j + PAGE_SHIFT) 1"
  shows "hinv (link_chunk b s ct j) (F(j := s # F j)) a j"
proof -
  note hd = hinvD [OF h] and hb = hinv_bounds [OF h]
  have j: "j < FREELIST_SIZE" using hb(3) by simp
  have lt: "4096 * (pfn a + 2 ^ j) < 2 ^ 64" using hb(1) by simp
  note sp = pfn_add_block [OF hd(4) lt j, folded s_def]
  note cs = chunks_ok_split [OF hd(6,5)]
  have in_s: "pfn s \<in> blk (pfn a, Suc j)" by (simp add: sp(3) blk_iff)
  have fresh: "s \<notin> set (F k)" if "k < FREELIST_SIZE" for k
    using chunk_not_listed [OF hd(6,5) in_s that] .
  have ch: "chunks (F(j := s # F j)) = insert (pfn a + 2 ^ j, j) (chunks F)"
    using chunks_push [OF j, of F s] by (simp add: sp(3))
  have nb: "no_buddies (insert (pfn a + 2 ^ j, j) (chunks F))"
    using cs(2) hd(7,9,11) by (intro no_buddies_insert) (simp_all add: buddy_upper)
  show ?thesis unfolding hinv_def ch
    using hd link_chunk_lists_ok [OF hd(2) j fresh] aligned_lists_push [OF hd(3) sp(2)] cs nb
    by (simp add: split_blk Un_assoc)
qed

lemma palloc_split_result:
  assumes "hinv b F a i" "order \<le> i"
  shows "\<exists>F'. hinv (palloc_split b a order i) F' a order \<and>
    memr_head (palloc_split b a order i) = memr_head b \<and>
    nr_free_pages (palloc_split b a order i) = nr_free_pages b"
  using assms
proof (induction "i - order" arbitrary: b F i)
  case 0
  then show ?case by (subst (1 2 3) palloc_split.simps) auto
next
  case (Suc d)
  then obtain j where i: "i = Suc j" "order \<le> j" "d = j - order" by (cases i) auto
  let ?s = "a + push_bit (j + PAGE_SHIFT) 1"
  let ?b = "link_chunk b ?s (?s + push_bit (j + PAGE_SHIFT) 1 - 4) j"
  have "hinv ?b (F(j := ?s # F j)) a j" using hinv_split Suc.prems(1) i by simp
  from Suc.hyps(1) [OF i(3) this i(2)] obtain F' where
    "hinv (palloc_split ?b a order j) F' a order"
    "memr_head (palloc_split ?b a order j) = memr_head ?b"
    "nr_free_pages (palloc_split ?b a order j) = nr_free_pages ?b" by blast
  moreover have "palloc_split b a order i = palloc_split ?b a order j"
    using i by (subst palloc_split.simps) (simp add: Let_def)
  ultimately show ?case by auto
qed

section \<open>Orders\<close>

lemma flsl_bounds: "0 < n \<Longrightarrow> 2 ^ flsl n \<le> n \<and> n < 2 ^ Suc (flsl n)"
proof (induction n rule: flsl.induct)
  case (1 n)
  show ?case
  proof (cases "n \<le> 1")
    case False
    then have "2 ^ flsl (n div 2) \<le> n div 2 \<and> n div 2 < 2 ^ Suc (flsl (n div 2))" using 1 by simp
    moreover have "flsl n = Suc (flsl (n div 2))" using False by (subst flsl.simps) simp
    ultimately show ?thesis by auto
  qed (use 1 in \<open>auto simp: flsl.simps\<close>)
qed

text \<open>The order is the least one whose blocks hold the requested pages.\<close>

lemma num_pages_to_order_bounds:
  assumes "num_pages_to_order n = Some k"
  shows "unat n \<le> 2 ^ k" "0 < k \<Longrightarrow> 2 ^ (k - 1) < unat n" "0 < unat n"
proof -
  have nz: "n \<noteq> 0" and k: "k = (if n = 1 then 0 else flsl (unat (n - 1)) + 1)"
    using assms by (auto simp: num_pages_to_order_def split: if_splits)
  have u: "unat (n - 1) = unat n - 1" using nz by (metis unat_minus_one)
  have n1: "unat n = 1 \<longleftrightarrow> n = 1" by (metis unat_1 word_unat_eq_iff)
  have n0: "0 < unat n" using nz by (simp add: unat_gt_0)
  then show "0 < unat n" .
  have "unat n \<le> 2 ^ k \<and> (0 < k \<longrightarrow> 2 ^ (k - 1) < unat n)"
  proof (cases "n = 1")
    case False
    then show ?thesis using flsl_bounds [of "unat n - 1"] n0 n1 by (auto simp: k u)
  qed (simp add: k)
  then show "unat n \<le> 2 ^ k" "0 < k \<Longrightarrow> 2 ^ (k - 1) < unat n" by auto
qed

lemma num_pages_to_order_le:
  assumes "num_pages_to_order n = Some k" "unat n \<le> 2 ^ m"
  shows "k \<le> m"
proof (rule ccontr)
  assume "\<not> k \<le> m"
  then have "(2::nat) ^ m \<le> 2 ^ (k - 1)" "0 < k" by (auto intro: power_increasing)
  then show False using num_pages_to_order_bounds(2) [OF assms(1)] assms(2) by linarith
qed

lemma num_pages_to_order_Some: "n \<noteq> 0 \<Longrightarrow> \<exists>k. num_pages_to_order n = Some k"
  by (simp add: num_pages_to_order_def)

section \<open>Page allocation\<close>

lemma palloc_find_result:
  assumes "lists_ok b F" "k \<le> FREELIST_SIZE"
  defines "i \<equiv> palloc_find b k"
  shows "k \<le> i" "i \<le> FREELIST_SIZE" "i < FREELIST_SIZE \<Longrightarrow> F i \<noteq> []"
    "k \<le> j \<Longrightarrow> j < i \<Longrightarrow> F j = []"
proof -
  have empty: "FREELIST_EMPTY b (free_head b i) \<longleftrightarrow> F i = []" if "i < FREELIST_SIZE" for i
    using assms(1) that freelist_empty_iff by (simp add: lists_ok_def)
  have "k \<le> palloc_find b k \<and> palloc_find b k \<le> FREELIST_SIZE \<and>
    (palloc_find b k < FREELIST_SIZE \<longrightarrow> F (palloc_find b k) \<noteq> []) \<and>
    (\<forall>j. k \<le> j \<longrightarrow> j < palloc_find b k \<longrightarrow> F j = [])"
    using assms(2)
  proof (induction "FREELIST_SIZE - k" arbitrary: k)
    case 0
    then show ?case by (subst (1 2 3 4 5) palloc_find.simps) auto
  next
    case (Suc d)
    then have k: "k < FREELIST_SIZE" by simp
    show ?case
    proof (cases "F k = []")
      case True
      then have "palloc_find b k = palloc_find b (Suc k)"
        using k empty by (subst palloc_find.simps) simp
      moreover have "d = FREELIST_SIZE - Suc k" "Suc k \<le> FREELIST_SIZE" using Suc.hyps(2) k by auto
      ultimately show ?thesis using Suc.hyps(1) [of "Suc k"] True
        by (metis Suc_leD Suc_leI le_neq_implies_less)
    next
      case False
      then have "palloc_find b k = k" using k empty by (subst palloc_find.simps) simp
      then show ?thesis using False k by auto
    qed
  qed
  then show "k \<le> i" "i \<le> FREELIST_SIZE" "i < FREELIST_SIZE \<Longrightarrow> F i \<noteq> []"
    "k \<le> j \<Longrightarrow> j < i \<Longrightarrow> F j = []" by (auto simp: i_def)
qed

text \<open>Taking a chunk off its list turns the invariant into the invariant with a held chunk.\<close>

lemma hinv_unlink:
  assumes b: "binvF b F" and i: "i < FREELIST_SIZE" and Fi: "F i = xs @ a # ys"
  shows "hinv (unlink_chunk b (Chunk a)) (F(i := xs @ ys)) a i"
proof -
  have d: "distinct (F i)" and al: "aligned_lists F" and lo: "lists_ok b F"
    using b i by (auto simp: binvF_def lists_ok_def)
  have ch: "chunks (F(i := xs @ ys)) = chunks F - {(pfn a, i)}" by (rule chunks_remove [OF al i Fi d])
  have mem: "(pfn a, i) \<in> chunks F" using i Fi by (auto simp: chunks_iff)
  have "page_aligned a" using al i Fi by (auto simp: aligned_lists_def)
  then show ?thesis
    using b unlink_chunk_lists_ok [OF lo i Fi] aligned_lists_remove [of F i xs a ys] Fi
    by (simp add: hinv_def ch binvF_def insert_absorb [OF mem] no_buddies_subset [of "chunks F"])
qed

definition regions :: "bbpalloc \<Rightarrow> (nat \<times> nat) list" where
  "regions b = map (\<lambda>m. (memr_start m, memr_end m)) (memr_head b)"

lemma regionsI:
  "map memr_start ms = map memr_start ns \<Longrightarrow> map memr_end ms = map memr_end ns \<Longrightarrow>
   map (\<lambda>m. (memr_start m, memr_end m)) ms = map (\<lambda>m. (memr_start m, memr_end m)) ns"
  by (auto simp: list_eq_iff_nth_eq)


text \<open>With the bitmap updated, the held chunk becomes allocated memory.\<close>

lemma hinv_map_alloc:
  assumes h: "hinv b F a i" and n: "nr_free_pages b = of_nat (card (free_pages b))"
  shows "\<exists>b'. map_alloc b a (push_bit i 1) = Some b' \<and> binvF b' F \<and> regions b' = regions b \<and>
    free_pages b' = free_pages b - blk (pfn a, i)"
proof -
  note hd = hinvD [OF h] and hb = hinv_bounds [OF h]
  have u: "unat (push_bit i 1 :: u64) = 2 ^ i" using unat_pow2_64 [of i] hb(3) by simp
  have bl: "blk (pfn a, i) = {pfn a ..< pfn a + 2 ^ i}" by (simp add: blk_def)
  obtain k where "k < length (memr_head b)" "memr_start (memr_head b ! k) \<le> pfn a"
    "pfn a + 2 ^ i \<le> memr_end (memr_head b ! k)"
    using block_in_region [OF hd(1), of "pfn a" "2 ^ i"] hd(10) by (auto simp: bl)
  then obtain ms where ms: "map_alloc b a (push_bit i 1) =
      Some (b\<lparr>memr_head := ms, nr_free_pages := nr_free_pages b - push_bit i 1\<rparr>)"
    "memrs_ok ms" "map memr_start ms = map memr_start (memr_head b)"
    "map memr_end ms = map memr_end (memr_head b)" "memrs_free ms = free_pages b - blk (pfn a, i)"
    using map_alloc_result [OF hd(1), of k a "push_bit i 1"] hd(4)
    by (auto simp: u bl page_aligned_def simp del: push_bit_of_1)
  let ?b = "b\<lparr>memr_head := ms, nr_free_pages := nr_free_pages b - push_bit i 1\<rparr>"
  have "card (free_pages b - blk (pfn a, i)) = card (free_pages b) - 2 ^ i" "2 ^ i \<le> card (free_pages b)"
    using card_Diff_subset [OF _ hd(10)] card_mono [OF finite_memrs_free hd(10)] by (auto simp: bl)
  then have "nr_free_pages ?b = of_nat (card (free_pages ?b))"
    using n by (simp add: ms of_nat_diff)
  moreover have "covered (chunks F) = free_pages b - blk (pfn a, i)"
    using hd(5,6,8) by (auto simp: chunks_ok_insert)
  moreover have "lists_ok ?b F" using lists_ok_cong [OF hd(2)] by simp
  ultimately have "binvF ?b F" using hd ms by (simp add: binvF_def)
  then show ?thesis using ms regionsI [OF ms(3,4)] by (simp add: regions_def)
qed


text \<open>An order that no list serves is an order of which no aligned free block exists.\<close>

lemma no_block_free:
  assumes b: "binvF b F" and emp: "\<And>j. k \<le> j \<Longrightarrow> j < FREELIST_SIZE \<Longrightarrow> F j = []"
    and al: "aligned (p, k)"
  shows "\<not> blk (p, k) \<subseteq> free_pages b"
proof
  assume "blk (p, k) \<subseteq> free_pages b"
  then have "blk (p, k) \<subseteq> covered (chunks F)" using b by (simp add: binvF_def)
  then obtain c where "c \<in> chunks F" "k \<le> snd c"
    using coalesced_covers [of "chunks F" p k] b al by (auto simp: binvF_def)
  then show False using emp by (cases c) (auto simp: chunks_iff)
qed

definition palloc_post :: "bbpalloc \<Rightarrow> nat \<Rightarrow> bbpalloc \<Rightarrow> u64 \<Rightarrow> bool" where
  "palloc_post b k b' a \<longleftrightarrow>
     a \<noteq> 0 \<and> page_aligned a \<and> aligned (pfn a, k) \<and> blk (pfn a, k) \<subseteq> free_pages b \<and>
     free_pages b' = free_pages b - blk (pfn a, k) \<and> binv b' \<and> regions b' = regions b"

lemma bbuddy_palloc_found:
  assumes b: "binvF b F" and k: "num_pages_to_order n = Some k" "k \<le> FREELIST_SIZE"
    and i: "palloc_find b k < FREELIST_SIZE"
  shows "\<exists>b' a. bbuddy_palloc b n = Some (b', a) \<and> palloc_post b k b' a"
proof -
  define i where "i = palloc_find b k"
  have lo: "lists_ok b F" and nr: "nr_free_pages b = of_nat (card (free_pages b))"
    using b by (auto simp: binvF_def)
  note pf = palloc_find_result [OF lo k(2), folded i_def]
  obtain a ys where Fi: "F i = a # ys" using pf(3) i by (metis i_def list.exhaust)
  have i52: "i < FREELIST_SIZE" using i by (simp add: i_def)
  have fl: "freelist b i (a # ys)" "distinct (a # ys)" using lo i52 Fi by (auto simp: lists_ok_def)
  have hd: "free_head b i = Chunk a" "ch_pprev b (Chunk a) = FreeHead i"
    using fl by (auto simp: freelist_def)
  define b2 where "b2 = unlink_chunk b (Chunk a)"
  have b2: "b2 = (let b1 = b\<lparr>free_head := (free_head b)(i := ch_next b (Chunk a))\<rparr>
      in b1\<lparr>ch_pprev := (ch_pprev b1)(ch_next b1 (Chunk a) := ch_pprev b1 (Chunk a))\<rparr>)"
    by (simp add: b2_def unlink_chunk_def poke_def hd)
  have h2: "hinv b2 (F(i := ys)) a i"
    using hinv_unlink [OF b i52, of "[]" a ys] Fi by (simp add: b2_def)
  obtain F' where h3: "hinv (palloc_split b2 a k i) F' a k"
    and m3: "memr_head (palloc_split b2 a k i) = memr_head b2"
    and n3: "nr_free_pages (palloc_split b2 a k i) = nr_free_pages b2"
    using palloc_split_result [OF h2 pf(1)] by blast
  have fp: "free_pages (palloc_split b2 a k i) = free_pages b"
    unfolding m3 by (simp add: b2_def)
  obtain b' where b': "map_alloc (palloc_split b2 a k i) a (push_bit k 1) = Some b'" "binvF b' F'"
    "regions b' = regions (palloc_split b2 a k i)" "free_pages b' = free_pages b - blk (pfn a, k)"
    using hinv_map_alloc [OF h3] fp nr n3 by (auto simp: b2_def)
  have rg: "regions (palloc_split b2 a k i) = regions b"
    unfolding regions_def m3 by (simp add: b2_def)
  have "bbuddy_palloc b n = Some (b', a)"
    using b'(1) i52 unfolding b2 by (simp add: bbuddy_palloc_def k(1) i_def [symmetric] hd Let_def)
  moreover have "palloc_post b k b' a"
    using hinvD(4,9,10) [OF h3] hinv_bounds(4) [OF h3] b' fp rg
    by (auto simp: palloc_post_def binv_def)
  ultimately show ?thesis by blast
qed

lemma bbuddy_palloc_result:
  assumes b: "binv b" and k: "num_pages_to_order n = Some k" "k \<le> FREELIST_SIZE"
  shows "if \<exists>p. aligned (p, k) \<and> blk (p, k) \<subseteq> free_pages b
    then \<exists>b' a. bbuddy_palloc b n = Some (b', a) \<and> palloc_post b k b' a
    else bbuddy_palloc b n = Some (b, 0)"
proof -
  obtain F where F: "binvF b F" using b by (auto simp: binv_def)
  have lo: "lists_ok b F" using F by (simp add: binvF_def)
  note pf = palloc_find_result [OF lo k(2)]
  show ?thesis
  proof (cases "palloc_find b k < FREELIST_SIZE")
    case True
    then obtain b' a where "bbuddy_palloc b n = Some (b', a)" "palloc_post b k b' a"
      using bbuddy_palloc_found [OF F k] by blast
    then show ?thesis by (auto simp: palloc_post_def)
  next
    case False
    then have i: "palloc_find b k = FREELIST_SIZE" using pf(2) by simp
    then have "\<not> blk (p, k) \<subseteq> free_pages b" if "aligned (p, k)" for p
      using no_block_free [OF F _ that] pf(4) by simp
    then show ?thesis using i k(1) by (auto simp: bbuddy_palloc_def)
  qed
qed

end
