(* ===== verification/BbuddyFree.thy ===== *)
theory BbuddyFree
  imports BbuddyPalloc
begin

text \<open>
  Releasing pages: the coalescing loop of \<^verbatim>\<open>bbuddy_pfree\<close> keeps the invariant with a held chunk
  and ends when the buddy of the held chunk is not itself a free chunk.
\<close>

lemma buddy_notin_blk: "buddy p i \<notin> blk (p, i)"
  using odd_div_ge [of p i] by (auto simp: buddy_def blk_iff)

text \<open>The address the loop computes for the buddy.\<close>

definition buddy_addr :: "u64 \<Rightarrow> nat \<Rightarrow> u64" where
  "buddy_addr a i =
     (if a AND push_bit (i + PAGE_SHIFT) 1 \<noteq> 0
      then a - push_bit (i + PAGE_SHIFT) 1 else a + push_bit (i + PAGE_SHIFT) 1)"

lemma buddy_addr:
  assumes "hinv b F a i"
  shows "page_aligned (buddy_addr a i)" "pfn (buddy_addr a i) = buddy (pfn a) i"
proof -
  note hd = hinvD [OF assms] and hb = hinv_bounds [OF assms]
  have "page_aligned (buddy_addr a i) \<and> pfn (buddy_addr a i) = buddy (pfn a) i"
  proof (cases "odd (pfn a div 2 ^ i)")
    case True
    then show ?thesis using pfn_sub_block [OF hd(4) odd_div_ge [OF True] hb(3)]
      by (simp add: buddy_addr_def mask_test buddy_def del: push_bit_of_1)
  next
    case False
    then show ?thesis using pfn_add_block [OF hd(4) hb(1) hb(3)]
      by (simp add: buddy_addr_def mask_test buddy_def del: push_bit_of_1)
  qed
  then show "page_aligned (buddy_addr a i)" "pfn (buddy_addr a i) = buddy (pfn a) i" by auto
qed

text \<open>The loop's test is exact: it goes on iff the buddy is a free chunk of the same order.\<close>

lemma merge_test:
  assumes h: "hinv b F a i"
  shows "(allocated_in_map b (buddy_addr a i) \<or> ch_level b (Chunk (buddy_addr a i)) \<noteq> i) \<longleftrightarrow>
    (buddy (pfn a) i, i) \<notin> chunks F"
proof -
  note hd = hinvD [OF h] and ba = buddy_addr [OF h]
  have level: "ch_level b (Chunk (buddy_addr a i)) = j" if "(buddy (pfn a) i, j) \<in> chunks F" for j
    using chunks_mem [OF hd(3), of "buddy_addr a i" j] that ba hd(2) by (auto simp: lists_ok_def)
  have al: "allocated_in_map b (buddy_addr a i) \<longleftrightarrow> buddy (pfn a) i \<notin> free_pages b"
    using allocated_in_map_iff [OF hd(1)] ba by simp
  show ?thesis
  proof
    assume l: "allocated_in_map b (buddy_addr a i) \<or> ch_level b (Chunk (buddy_addr a i)) \<noteq> i"
    show "(buddy (pfn a) i, i) \<notin> chunks F"
    proof
      assume c: "(buddy (pfn a) i, i) \<in> chunks F"
      then have "buddy (pfn a) i \<in> free_pages b" using hd(8) blk_self by blast
      then show False using l level [OF c] al by simp
    qed
  next
    assume c: "(buddy (pfn a) i, i) \<notin> chunks F"
    show "allocated_in_map b (buddy_addr a i) \<or> ch_level b (Chunk (buddy_addr a i)) \<noteq> i"
    proof (cases "buddy (pfn a) i \<in> free_pages b")
      case True
      then obtain c where c': "c \<in> chunks F" "buddy (pfn a) i \<in> blk c"
        using hd(8) buddy_notin_blk by (metis UN_E insertE)
      then have "c = (buddy (pfn a) i, snd c)" using covered_buddy [OF hd(6,5)] by (metis prod.collapse)
      then show ?thesis using level c c'(1) by metis
    qed (simp add: al)
  qed
qed

lemma hinv_merge:
  assumes h: "hinv b F a i" and c: "(buddy (pfn a) i, i) \<in> chunks F"
    and m: "m = (if a AND push_bit (i + PAGE_SHIFT) 1 \<noteq> 0 then buddy_addr a i else a)"
  shows "\<exists>F'. hinv (unlink_chunk b (Chunk (buddy_addr a i))) F' m (Suc i)"
proof -
  note hd = hinvD [OF h] and ba = buddy_addr [OF h]
  define t where "t = buddy_addr a i"
  have "t \<in> set (F i)" and i: "i < FREELIST_SIZE"
    using chunks_mem [OF hd(3), of t i] c ba by (auto simp: t_def)
  then obtain xs ys where Fi: "F i = xs @ t # ys" by (meson split_list)
  let ?F = "F(i := xs @ ys)"
  have d: "distinct (F i)" using hd(2) i by (simp add: lists_ok_def)
  have ch: "chunks ?F = chunks F - {(buddy (pfn a) i, i)}"
    using chunks_remove [OF hd(3) i Fi d] ba by (simp add: t_def)
  have pm: "pfn m = min (pfn a) (buddy (pfn a) i)" "page_aligned m"
    using ba hd(4) by (auto simp: m buddy_def mask_test min_def simp del: push_bit_of_1)
  note mg = chunks_ok_merge [OF hd(6,5) c]
  have "blk (pfn m, Suc i) = blk (pfn a, i) \<union> blk (buddy (pfn a) i, i)"
    using buddy_merge(2) [OF hd(9)] pm by simp
  then have "covered (insert (pfn m, Suc i) (chunks ?F)) = covered (insert (pfn a, i) (chunks F))"
    using c unfolding ch by auto
  then have "hinv (unlink_chunk b (Chunk t)) ?F m (Suc i)"
    using hd mg pm unlink_chunk_lists_ok [OF hd(2) i Fi] aligned_lists_remove [OF hd(3) Fi]
      no_buddies_subset [OF hd(7), of "chunks ?F"]
    by (simp add: hinv_def ch)
  then show ?thesis by (auto simp: t_def)
qed

lemma pfree_merge_step:
  assumes "i < FREELIST_SIZE"
  shows "pfree_merge b a ct i =
    (if allocated_in_map b (buddy_addr a i) \<or> ch_level b (Chunk (buddy_addr a i)) \<noteq> i then (b, a, ct, i)
     else pfree_merge (unlink_chunk b (Chunk (buddy_addr a i)))
       (if a AND push_bit (i + PAGE_SHIFT) 1 \<noteq> 0 then buddy_addr a i else a)
       (if a AND push_bit (i + PAGE_SHIFT) 1 \<noteq> 0 then ct else buddy_addr a i + push_bit (i + PAGE_SHIFT) 1 - 4)
       (Suc i))"
proof (cases "a AND push_bit (i + PAGE_SHIFT) 1 \<noteq> 0")
  case True
  then show ?thesis using assms
    by (subst pfree_merge.simps) (simp add: buddy_addr_def Let_def del: push_bit_of_1)
next
  case False
  then show ?thesis using assms
    by (subst pfree_merge.simps) (simp add: buddy_addr_def Let_def del: push_bit_of_1)
qed

lemma pfree_merge_result:
  assumes "hinv b F a i"
  shows "\<exists>b' F' a' ct' i'. pfree_merge b a ct i = (b', a', ct', i') \<and> hinv b' F' a' i' \<and>
    (buddy (pfn a') i', i') \<notin> chunks F' \<and> memr_head b' = memr_head b \<and> nr_free_pages b' = nr_free_pages b"
  using assms
proof (induction "FREELIST_SIZE - i" arbitrary: b F a ct i)
  case 0
  then show ?case using hinv_bounds(3) by fastforce
next
  case (Suc d)
  have i: "i < FREELIST_SIZE" using hinv_bounds(3) [OF Suc.prems] .
  note mt = merge_test [OF Suc.prems]
  show ?case
  proof (cases "(buddy (pfn a) i, i) \<in> chunks F")
    case False
    then have "pfree_merge b a ct i = (b, a, ct, i)" using mt pfree_merge_step [OF i] by simp
    then show ?thesis using False Suc.prems by blast
  next
    case True
    define m where "m = (if a AND push_bit (i + PAGE_SHIFT) 1 \<noteq> 0 then buddy_addr a i else a)"
    let ?b = "unlink_chunk b (Chunk (buddy_addr a i))"
    obtain F' where F': "hinv ?b F' m (Suc i)" using hinv_merge [OF Suc.prems True m_def] by blast
    obtain ct' where "pfree_merge b a ct i = pfree_merge ?b m ct' (Suc i)"
      using True mt pfree_merge_step [OF i, of b a ct] by (simp add: m_def)
    moreover have "d = FREELIST_SIZE - Suc i" using Suc.hyps(2) by simp
    ultimately show ?thesis using Suc.hyps(1) [OF _ F', of ct'] by auto
  qed
qed


lemma page_aligned_mask: "page_aligned a \<longleftrightarrow> a AND (PAGE_SIZE - 1) = 0"
proof -
  have "unat (a AND (PAGE_SIZE - 1)) = unat a mod 4096"
    using take_bit_eq_mask [of 12 a] unsigned_take_bit_eq [of 12 a]
    by (simp add: mask_eq_exp_minus_1 take_bit_eq_mod)
  then show ?thesis by (metis page_aligned_def dvd_eq_mod_eq_0 unat_eq_zero)
qed

text \<open>Linking the held chunk when its buddy is not free restores the invariant.\<close>

lemma hinv_link:
  assumes h: "hinv b F a i" and nb: "(buddy (pfn a) i, i) \<notin> chunks F"
    and n: "nr_free_pages b = of_nat (card (free_pages b))"
  shows "binvF (link_chunk b a ct i) (F(i := a # F i))"
proof -
  note hd = hinvD [OF h] and hb = hinv_bounds [OF h]
  have fresh: "a \<notin> set (F k)" if "k < FREELIST_SIZE" for k
    using chunk_not_listed [OF hd(6,5) _ that] by simp
  show ?thesis
    using hd n link_chunk_lists_ok [OF hd(2) hb(3) fresh] aligned_lists_push [OF hd(3,4)]
      no_buddies_insert [OF hd(7) nb hd(11)]
    by (simp add: binvF_def chunks_push [OF hb(3)])
qed

definition in_region :: "bbpalloc \<Rightarrow> nat \<times> nat \<Rightarrow> bool" where
  "in_region b c \<longleftrightarrow> (\<exists>r \<in> set (regions b). fst r \<le> fst c \<and> fst c + 2 ^ snd c \<le> snd r)"

text \<open>Clearing the bitmap bits makes the released block the held chunk.\<close>

lemma hinv_map_free:
  assumes b: "binvF b F" and al: "page_aligned a" "aligned (pfn a, i)"
    and reg: "in_region b (pfn a, i)" and dis: "blk (pfn a, i) \<inter> free_pages b = {}"
  shows "\<exists>b'. map_free b a (push_bit i 1) = Some b' \<and> hinv b' F a i \<and> regions b' = regions b \<and>
    free_pages b' = free_pages b \<union> blk (pfn a, i) \<and> nr_free_pages b' = of_nat (card (free_pages b'))"
proof -
  have mo: "memrs_ok (memr_head b)" using b by (simp add: binvF_def)
  have bl: "blk (pfn a, i) = {pfn a ..< pfn a + 2 ^ i}" by (simp add: blk_def)
  obtain k where k: "k < length (memr_head b)" "memr_start (memr_head b ! k) \<le> pfn a"
    "pfn a + 2 ^ i \<le> memr_end (memr_head b ! k)"
    using reg by (auto simp: in_region_def regions_def in_set_conv_nth)
  have "(4096::nat) * 2 ^ i < 2 ^ 64" using region_bound(1) [OF mo k(1)] k(3) by linarith
  then have "(2::nat) ^ (i + 12) < 2 ^ 64" by (simp add: power_add)
  then have i: "i < FREELIST_SIZE" using power_less_imp_less_exp [of 2 "i + 12" 64] by simp
  have u: "unat (push_bit i 1 :: u64) = 2 ^ i" using unat_pow2_64 [of i] i by simp
  obtain ms where ms: "map_free b a (push_bit i 1) =
      Some (b\<lparr>memr_head := ms, nr_free_pages := nr_free_pages b + push_bit i 1\<rparr>)"
    "memrs_ok ms" "map memr_start ms = map memr_start (memr_head b)"
    "map memr_end ms = map memr_end (memr_head b)" "memrs_free ms = free_pages b \<union> blk (pfn a, i)"
    using map_free_result [OF mo k(1), of a "push_bit i 1"] al(1) k
    by (auto simp: u bl page_aligned_def simp del: push_bit_of_1)
  let ?b = "b\<lparr>memr_head := ms, nr_free_pages := nr_free_pages b + push_bit i 1\<rparr>"
  have "card (free_pages b \<union> blk (pfn a, i)) = card (free_pages b) + 2 ^ i"
    using card_Un_disjoint [OF finite_memrs_free, of "blk (pfn a, i)"] dis by (auto simp: bl)
  then have nr: "nr_free_pages ?b = of_nat (card (free_pages ?b))"
    using b by (simp add: ms binvF_def)
  have disj: "blk (pfn a, i) \<inter> blk c = {}" if "c \<in> chunks F" for c
    using b dis that by (auto simp: binvF_def)
  then have "(pfn a, i) \<notin> chunks F" using blk_nonempty by (metis inf.idem)
  moreover have "lists_ok ?b F" using b lists_ok_cong [of b F ?b] by (simp add: binvF_def)
  moreover have "chunks_ok (insert (pfn a, i) (chunks F))"
    using b al(2) disj by (simp add: chunks_ok_insert binvF_def)
  ultimately have "hinv ?b F a i" using b al ms by (auto simp: hinv_def binvF_def)
  then show ?thesis using ms nr regionsI [OF ms(3,4)] by (simp add: regions_def)
qed

lemma bbuddy_pfree_result:
  assumes b: "binv b" and k: "num_pages_to_order n = Some k"
    and al: "page_aligned a" "aligned (pfn a, k)"
    and reg: "in_region b (pfn a, k)" and dis: "blk (pfn a, k) \<inter> free_pages b = {}"
  shows "\<exists>b'. bbuddy_pfree b a n = Some b' \<and> binv b' \<and> regions b' = regions b \<and>
    free_pages b' = free_pages b \<union> blk (pfn a, k)"
proof -
  obtain F where F: "binvF b F" using b by (auto simp: binv_def)
  obtain b1 where b1: "map_free b a (push_bit k 1) = Some b1" "hinv b1 F a k" "regions b1 = regions b"
    "free_pages b1 = free_pages b \<union> blk (pfn a, k)" "nr_free_pages b1 = of_nat (card (free_pages b1))"
    using hinv_map_free [OF F al reg dis] by blast
  obtain b2 F' a' ct' i' where m: "pfree_merge b1 a (a + push_bit (k + PAGE_SHIFT) 1 - 4) k = (b2, a', ct', i')"
    "hinv b2 F' a' i'" "(buddy (pfn a') i', i') \<notin> chunks F'" "memr_head b2 = memr_head b1"
    "nr_free_pages b2 = nr_free_pages b1"
    using pfree_merge_result [OF b1(2)] by metis
  have bi: "binvF (link_chunk b2 a' ct' i') (F'(i' := a' # F' i'))"
    by (rule hinv_link) (use m b1 in simp_all)
  have "a AND (PAGE_SIZE - 1) = 0" using al(1) by (simp add: page_aligned_mask)
  then have "bbuddy_pfree b a n = Some (link_chunk b2 a' ct' i')"
    using b1(1) m(1) hinv_bounds(3) [OF m(2)] by (simp add: bbuddy_pfree_def k del: push_bit_of_1)
  then show ?thesis using bi b1 m by (auto simp: binv_def regions_def)
qed

end
