(* ===== verification/BbuddyAdd.thy ===== *)
theory BbuddyAdd
  imports BbuddyFree
begin

text \<open>
  Adding memory and initialisation: the chunk loop of \<^verbatim>\<open>bbuddy_addmem\<close> covers the added range
  with maximal aligned chunks, so the new state has the invariant; the initial state has it too.
\<close>

section \<open>The size of the next chunk\<close>

lemma addmem_order_result:
  assumes "page_aligned lo" "unat rng = 4096 * r" "2 ^ k \<le> r" "aligned (pfn lo, k)"
  shows "\<exists>m \<ge> k. addmem_order lo rng (k + PAGE_SHIFT) = m + PAGE_SHIFT \<and> 2 ^ m \<le> r \<and>
    aligned (pfn lo, m) \<and> (odd (pfn lo div 2 ^ m) \<or> r < 2 ^ Suc m)"
  using assms(3,4)
proof (induction "r - 2 ^ k" arbitrary: k rule: less_induct)
  case less
  have r: "r < 2 ^ 52" using unat_lt_64 [of rng] assms(2) by simp
  have "(2::nat) ^ k < 2 ^ 52" using less.prems(1) r by linarith
  then have k: "k < 52" using power_less_imp_less_exp [of 2 k 52] by simp
  have le: "k + PAGE_SHIFT < 63 \<and> push_bit (k + PAGE_SHIFT + 1) 1 \<le> rng \<longleftrightarrow> 2 ^ Suc k \<le> r"
  proof (cases "k = 51")
    case True
    then show ?thesis using r by simp
  next
    case False
    then have "unat (push_bit (k + PAGE_SHIFT + 1) 1 :: u64) = 4096 * 2 ^ Suc k"
      using unat_block_size [of "Suc k"] k by (simp add: add.commute del: push_bit_of_1)
    then show ?thesis using False k assms(2) by (simp add: word_le_nat_alt del: push_bit_of_1)
  qed
  have step: "addmem_order lo rng (k + PAGE_SHIFT) =
      (if 2 ^ Suc k \<le> r then if odd (pfn lo div 2 ^ k) then k + PAGE_SHIFT
         else addmem_order lo rng (Suc k + PAGE_SHIFT) else k + PAGE_SHIFT)"
    using mask_test [of lo k] by (subst addmem_order.simps) (simp only: le, simp del: push_bit_of_1)
  show ?case
  proof (cases "2 ^ Suc k \<le> r \<and> even (pfn lo div 2 ^ k)")
    case True
    then have "aligned (pfn lo, Suc k)"
      using less.prems(2) by (auto simp: aligned_def elim!: evenE dvdE)
    moreover have "r - 2 ^ Suc k < r - 2 ^ k" using True less.prems(1)
      by (intro diff_less_mono2) (auto intro: less_le_trans [of _ "2 * 2 ^ k"])
    ultimately obtain m where "Suc k \<le> m" "addmem_order lo rng (Suc k + PAGE_SHIFT) = m + PAGE_SHIFT"
      "2 ^ m \<le> r" "aligned (pfn lo, m)" "odd (pfn lo div 2 ^ m) \<or> r < 2 ^ Suc m"
      using less.hyps [of "Suc k"] True by blast
    then show ?thesis using step True by (intro exI [of _ m]) auto
  next
    case False
    then show ?thesis using step less.prems by (intro exI [of _ k]) auto
  qed
qed

section \<open>The chunk loop\<close>

text \<open>
  \<open>S\<close> is the set of pages the lists cover once the remaining \<open>r\<close> pages from \<open>lo\<close> are added. The
  last conjunct is why no two chunks of the loop are buddies: a chunk that is a lower buddy was
  not made larger only because the range was too short.
\<close>

definition ainv :: "bbpalloc \<Rightarrow> (nat \<Rightarrow> u64 list) \<Rightarrow> nat set \<Rightarrow> u64 \<Rightarrow> nat \<Rightarrow> bool" where
  "ainv b F S lo r \<longleftrightarrow>
     lists_ok b F \<and> aligned_lists F \<and> chunks_ok (chunks F) \<and> no_buddies (chunks F) \<and>
     page_aligned lo \<and> 4096 * (pfn lo + r) < 2 ^ 64 \<and>
     {pfn lo ..< pfn lo + r} \<subseteq> S \<and> pfn lo + r \<notin> S \<and>
     covered (chunks F) = S - {pfn lo ..< pfn lo + r} \<and>
     (\<forall>q j. (q, j) \<in> chunks F \<longrightarrow> q + 2 ^ j = pfn lo \<longrightarrow> even (q div 2 ^ j) \<longrightarrow> r < 2 ^ j)"

lemma ainvD:
  assumes "ainv b F S lo r"
  shows "lists_ok b F" "aligned_lists F" "chunks_ok (chunks F)" "no_buddies (chunks F)"
     "page_aligned lo" "4096 * (pfn lo + r) < 2 ^ 64"
     "{pfn lo ..< pfn lo + r} \<subseteq> S" "pfn lo + r \<notin> S"
     "covered (chunks F) = S - {pfn lo ..< pfn lo + r}"
     "(q, j) \<in> chunks F \<Longrightarrow> q + 2 ^ j = pfn lo \<Longrightarrow> even (q div 2 ^ j) \<Longrightarrow> r < 2 ^ j"
  using assms unfolding ainv_def by blast+

lemma blk_last: "p + 2 ^ i - 1 \<in> blk (p, i)"
  using zero_less_power [of "2::nat" i] by (simp only: blk_iff) linarith

lemma ainv_no_buddy:
  assumes a: "ainv b F S lo r" and m: "2 ^ m \<le> r" "aligned (pfn lo, m)"
  shows "(buddy (pfn lo) m, m) \<notin> chunks F"
proof
  assume c: "(buddy (pfn lo) m, m) \<in> chunks F"
  note d = ainvD [OF a]
  have cov: "blk (buddy (pfn lo) m, m) \<subseteq> S - {pfn lo ..< pfn lo + r}"
    using c d(9) by blast
  show False
  proof (cases "odd (pfn lo div 2 ^ m)")
    case True
    then have b: "buddy (pfn lo) m + 2 ^ m = pfn lo" using odd_div_ge [OF True] by (simp add: buddy_def)
    then have "buddy (pfn lo) m div 2 ^ m = pfn lo div 2 ^ m - 1" using True
      by (metis add_diff_cancel_right' div_add_self2 power_not_zero zero_neq_numeral)
    then have "even (buddy (pfn lo) m div 2 ^ m)" using True by simp
    then show False using d(10) [OF c b] m(1) by simp
  next
    case False
    then have "pfn lo + 2 ^ m \<in> S - {pfn lo ..< pfn lo + r}" using cov by (auto simp: buddy_def blk_iff subset_iff)
    then have "2 ^ m = r" using m(1) by auto
    then show False using d(8) \<open>pfn lo + 2 ^ m \<in> _\<close> by simp
  qed
qed

lemma ainv_step:
  assumes a: "ainv b F S lo r" and m: "2 ^ m \<le> r" "aligned (pfn lo, m)"
    and mx: "odd (pfn lo div 2 ^ m) \<or> r < 2 ^ Suc m"
  shows "ainv (link_chunk b lo ct m) (F(m := lo # F m)) S (lo + push_bit (m + PAGE_SHIFT) 1) (r - 2 ^ m)"
    and "m < FREELIST_SIZE"
proof -
  note d = ainvD [OF a]
  have "4096 * (pfn lo + 2 ^ m) \<le> 4096 * (pfn lo + r)" using m(1) by simp
  then have lt: "4096 * (pfn lo + 2 ^ m) < 2 ^ 64" using d(6) by linarith
  then have "(2::nat) ^ (m + 12) < 2 ^ 64" by (simp add: power_add)
  then show m52: "m < FREELIST_SIZE" using power_less_imp_less_exp [of 2 "m + 12" 64] by simp
  note ad = pfn_add_block [OF d(5) lt m52]
  have disj: "blk (pfn lo, m) \<inter> blk c = {}" if "c \<in> chunks F" for c
  proof -
    have "blk c \<subseteq> S - {pfn lo ..< pfn lo + r}" using d(9) that by blast
    then show ?thesis using m(1) by (auto simp: blk_iff)
  qed
  have fresh: "lo \<notin> set (F k)" if "k < FREELIST_SIZE" for k
  proof
    assume "lo \<in> set (F k)"
    then have "(pfn lo, k) \<in> chunks F" using that by (auto simp: chunks_iff)
    then show False using disj blk_self by blast
  qed
  have ok: "chunks_ok (insert (pfn lo, m) (chunks F))"
    using d(3) disj m(2) by (simp add: chunks_ok_insert)
  have cov: "covered (insert (pfn lo, m) (chunks F)) = S - {pfn lo + 2 ^ m ..< pfn lo + r}"
    using d(7,9) m(1) by (auto simp: blk_iff)
  have last: "r - 2 ^ m < 2 ^ j" if "(q, j) \<in> insert (pfn lo, m) (chunks F)" "q + 2 ^ j = pfn lo + 2 ^ m"
    "even (q div 2 ^ j)" for q j
  proof (cases "(q, j) = (pfn lo, m)")
    case True
    then show ?thesis using mx that(3) by auto
  next
    case False
    then have "blk (pfn lo, m) \<inter> blk (q, j) = {}" using that(1) disj by auto
    moreover have "pfn lo + 2 ^ m - 1 \<in> blk (pfn lo, m)" "q + 2 ^ j - 1 \<in> blk (q, j)"
      by (rule blk_last)+
    ultimately show ?thesis using that(2) by (metis disjoint_iff)
  qed
  show "ainv (link_chunk b lo ct m) (F(m := lo # F m)) S (lo + push_bit (m + PAGE_SHIFT) 1) (r - 2 ^ m)"
    unfolding ainv_def ad(3) chunks_push [OF m52]
    using link_chunk_lists_ok [OF d(1) m52 fresh] aligned_lists_push [OF d(2,5)] ok
      no_buddies_insert [OF d(4) ainv_no_buddy [OF a m] d(3)] ad(2) m(1) d(6,7,8) cov last
    by (simp add: subset_iff)
qed

lemma addmem_chunks_result:
  assumes "ainv b F S lo r" "unat rng = 4096 * r"
  shows "\<exists>b' F'. addmem_chunks b lo rng = Some b' \<and> lists_ok b' F' \<and> aligned_lists F' \<and>
    chunks_ok (chunks F') \<and> no_buddies (chunks F') \<and> covered (chunks F') = S \<and>
    memr_head b' = memr_head b \<and> nr_free_pages b' = nr_free_pages b"
  using assms
proof (induction r arbitrary: b F lo rng rule: less_induct)
  case (less r)
  show ?case
  proof (cases "r = 0")
    case True
    then have "rng = 0" using less.prems(2) by (simp add: unat_eq_zero)
    then show ?thesis using ainvD [OF less.prems(1)] True by (subst addmem_chunks.simps) auto
  next
    case False
    obtain m where m: "addmem_order lo rng PAGE_SHIFT = m + PAGE_SHIFT" "2 ^ m \<le> r"
      "aligned (pfn lo, m)" "odd (pfn lo div 2 ^ m) \<or> r < 2 ^ Suc m"
      using addmem_order_result [OF ainvD(5) [OF less.prems(1)] less.prems(2), of 0] False
      by (auto simp: aligned_def)
    let ?sz = "push_bit (m + PAGE_SHIFT) 1 :: u64"
    let ?b = "link_chunk b lo (lo + ?sz - 4) m"
    note st = ainv_step [OF less.prems(1) m(2-4)]
    have sz: "unat ?sz = 4096 * 2 ^ m" using unat_block_size [OF st(2)] .
    have szr: "\<not> (?sz = 0 \<or> rng < ?sz)"
    proof -
      have "unat ?sz \<noteq> 0" "unat ?sz \<le> unat rng" using m(2) less.prems(2) by (simp_all only: sz) auto
      then show ?thesis by (auto simp: word_less_nat_alt simp del: push_bit_of_1)
    qed
    have u: "unat (rng - ?sz) = 4096 * (r - 2 ^ m)"
      using m(2) less.prems(2) sz by (subst unat_sub_no_ovf) (simp_all add: diff_mult_distrib2 del: push_bit_of_1)
    have r0: "rng \<noteq> 0" using less.prems(2) False by (metis mult_eq_0_iff unat_0 zero_neq_numeral)
    have eq: "addmem_chunks b lo rng = addmem_chunks ?b (lo + ?sz) (rng - ?sz)"
      using szr r0 by (subst addmem_chunks.simps) (simp add: m(1) Let_def del: push_bit_of_1)
    have "r - 2 ^ m < r" using False by simp
    then show ?thesis using less.IH [OF _ st(1) u] unfolding eq by simp
  qed
qed

section \<open>The layout of an added range\<close>

text \<open>Pages and descriptor pages of a range of \<open>R\<close> pages, as the code computes them.\<close>

definition addmem_nr :: "nat \<Rightarrow> nat" where
  "addmem_nr R = 8 * (4096 * R - 40) div 32769"

definition addmem_meta :: "nat \<Rightarrow> nat" where
  "addmem_meta R = (40 + (addmem_nr R + 7) div 8 + 4095) div 4096"

lemma addmem_nr_le: "addmem_nr R \<le> R"
proof -
  have "8 * (4096 * R - 40) \<le> R * 32769" by simp
  then have "8 * (4096 * R - 40) div 32769 \<le> R * 32769 div 32769" by (rule div_le_mono)
  then show ?thesis by (simp add: addmem_nr_def)
qed

lemma addmem_meta_bounds:
  assumes "2 \<le> R"
  shows "0 < addmem_meta R" "addmem_meta R \<le> R" "addmem_nr R \<le> 64 * (512 * addmem_meta R - 5)"
proof -
  let ?n = "addmem_nr R" and ?m = "addmem_meta R"
  have n: "32769 * ?n \<le> 8 * (4096 * R - 40)" by (simp add: addmem_nr_def)
  have c: "8 * ((?n + 7) div 8) \<le> ?n + 7" "?n \<le> 8 * ((?n + 7) div 8)" by linarith+
  have m: "4096 * ?m \<le> 40 + (?n + 7) div 8 + 4095" "40 + (?n + 7) div 8 \<le> 4096 * ?m"
    unfolding addmem_meta_def by linarith+
  show "0 < ?m" using m by linarith
  have "8 * (4096 * ?m) \<le> 320 + ?n + 7 + 8 * 4095" using m c by linarith
  moreover have "?n \<le> R" by (rule addmem_nr_le)
  ultimately show "?m \<le> R" using assms by linarith
  show "?n \<le> 64 * (512 * ?m - 5)" using m c by linarith
qed

lemma unat_addmem_layout:
  fixes rng :: u64
  assumes "unat rng = 4096 * R" "2 \<le> R" "R < 2 ^ 48"
  defines "nr \<equiv> 8 * (rng - SIZEOF_MEMR) div (8 * PAGE_SIZE + 1)"
  shows "unat nr = addmem_nr R"
    and "unat (round_pgup (SIZEOF_MEMR + DIV_ROUND_UP nr 8)) = 4096 * addmem_meta R"
proof -
  have s: "unat (rng - SIZEOF_MEMR) = 4096 * R - 40"
    using assms by (subst unat_sub_no_ovf) simp_all
  have mul: "unat (8 * d) = 8 * unat d" if "8 * unat d < 2 ^ 64" for d :: u64
    using that by (simp add: unat_word_ariths)
  have "unat (8 * (rng - SIZEOF_MEMR)) = 8 * (4096 * R - 40)"
    using assms(3) by (subst mul) (simp_all only: s, simp)
  then show nr: "unat nr = addmem_nr R" by (simp add: nr_def unat_div addmem_nr_def)
  have b: "addmem_nr R < 2 ^ 48" using addmem_nr_le [of R] assms(3) by linarith
  have "unat (7 + nr) = addmem_nr R + 7" using b by (subst unat_add_64) (simp_all add: nr)
  then have d: "unat (DIV_ROUND_UP nr 8) = (addmem_nr R + 7) div 8" by (simp add: DIV_ROUND_UP_def unat_div)
  have "(addmem_nr R + 7) div 8 < 2 ^ 50" using b by simp
  then have "unat (SIZEOF_MEMR + DIV_ROUND_UP nr 8) = 40 + (addmem_nr R + 7) div 8"
    by (subst unat_add_64) (simp_all add: d)
  then show "unat (round_pgup (SIZEOF_MEMR + DIV_ROUND_UP nr 8)) = 4096 * addmem_meta R"
    using \<open>(addmem_nr R + 7) div 8 < 2 ^ 50\<close> by (subst unat_round_pgup) (simp_all add: addmem_meta_def)
qed

lemma addmem_layout_small:
  assumes "2 \<le> R" "R \<le> 32449"
  shows "addmem_nr R = R - 1" "addmem_meta R = 1"
proof -
  show n: "addmem_nr R = R - 1" using assms by (simp add: addmem_nr_def)
  show "addmem_meta R = 1" using assms by (simp add: addmem_meta_def n)
qed


section \<open>Adding memory\<close>

text \<open>The new descriptor: all pages of the range marked as allocated.\<close>

definition new_memr :: "u64 \<Rightarrow> u64 \<Rightarrow> u64 \<Rightarrow> bbpalloc_memr" where
  "new_memr lo nr bm_size =
     \<lparr>first_page = lo, nr_pages = nr, mm_alloc_bitmap_size = bm_size,
      mm_alloc_bitmap = replicate (unat bm_size div 8) (- 1)\<rparr>"

lemma new_memr_fields:
  "memr_start (new_memr lo nr z) = pfn lo" "memr_end (new_memr lo nr z) = pfn lo + unat nr"
  by (simp_all add: new_memr_def memr_start_def memr_end_def)

lemma new_memr_free:
  assumes "unat nr \<le> 64 * (unat z div 8)"
  shows "memr_free (new_memr lo nr z) = {}"
proof -
  have "k div 64 < unat z div 8" if "k < unat nr" for k using assms that by linarith
  then have "bmbit (mm_alloc_bitmap (new_memr lo nr z)) k" if "k < unat nr" for k
    using that by (simp add: bmbit_def new_memr_def bit_minus_1_iff)
  then show ?thesis by (auto simp: memr_free_def new_memr_fields)
qed

lemma bbuddy_addmem_unfold:
  assumes "base \<noteq> 0" "unat base + unat len + 4096 \<le> 2 ^ 64"
  defines "s \<equiv> (unat base + 4095) div 4096" and "e \<equiv> (unat base + unat len) div 4096"
  defines "R \<equiv> e - s"
  assumes R: "2 \<le> R" "R < 2 ^ 48"
  shows "\<exists>lo rng nr z. page_aligned lo \<and> pfn lo = s + addmem_meta R \<and>
    unat rng = 4096 * (R - addmem_meta R) \<and> unat nr = addmem_nr R \<and> unat z = 8 * (512 * addmem_meta R - 5) \<and>
    bbuddy_addmem b base len =
      do {
        b2 \<leftarrow> map_free (b\<lparr>memr_head := new_memr lo nr z # memr_head b\<rparr>) lo nr;
        b3 \<leftarrow> addmem_chunks b2 lo rng;
        Some (b3, Inr ())
      }"
proof -
  let ?lo = "round_pgup base" and ?hi = "round_pgdown (base + len)"
  let ?rng = "?hi - ?lo"
  let ?nr = "8 * (?rng - SIZEOF_MEMR) div (8 * PAGE_SIZE + 1)"
  let ?ms = "round_pgup (SIZEOF_MEMR + DIV_ROUND_UP ?nr 8)"
  have lo: "unat ?lo = 4096 * s" using assms(2) by (subst unat_round_pgup) (simp_all add: s_def)
  have bl: "unat (base + len) = unat base + unat len" using assms(2) by (intro unat_add_64) simp
  have hi: "unat ?hi = 4096 * e" by (simp add: unat_round_pgdown bl e_def)
  have rng: "unat ?rng = 4096 * R"
    using R(1) by (subst unat_sub_no_ovf) (simp_all add: lo hi R_def diff_mult_distrib2)
  note lay = unat_addmem_layout [OF rng R] and mb = addmem_meta_bounds [OF R(1)]
  have e: "4096 * e < 2 ^ 64" using assms(2) by (simp add: e_def)
  have "addmem_meta R \<le> e - s" using mb(2) by (simp add: R_def)
  then have "s + addmem_meta R \<le> e" using R(1) by (simp add: R_def)
  then have lo': "unat (?lo + ?ms) = 4096 * (s + addmem_meta R)"
    using e by (subst unat_add_64) (simp_all only: lo lay, simp_all)
  have rng': "unat (?rng - ?ms) = 4096 * (R - addmem_meta R)"
  proof -
    have "unat ?ms \<le> unat ?rng" using mb(2) by (simp only: rng lay)
    from unat_sub_no_ovf [OF this] show ?thesis by (simp only: rng lay diff_mult_distrib2)
  qed
  have z: "unat (?ms - SIZEOF_MEMR) = 8 * (512 * addmem_meta R - 5)"
    using mb(1) by (subst unat_sub_no_ovf) (simp_all only: lay, simp_all)
  have "\<not> ?hi < ?lo" using R(1) by (simp only: word_less_nat_alt lo hi) (simp add: R_def)
  moreover have "\<not> ?rng < round_pgup (SIZEOF_MEMR + 8) + PAGE_SIZE"
  proof -
    have "unat (round_pgup 48) = 4096" by (subst unat_round_pgup) simp_all
    then have "unat (round_pgup 48 + PAGE_SIZE) = 8192" by (subst unat_add_64) simp_all
    then show ?thesis using R(1) by (simp only: word_less_nat_alt rng) simp
  qed
  ultimately have "bbuddy_addmem b base len =
      do {
        b2 \<leftarrow> map_free (b\<lparr>memr_head := new_memr (?lo + ?ms) ?nr (?ms - SIZEOF_MEMR) # memr_head b\<rparr>) (?lo + ?ms) ?nr;
        b3 \<leftarrow> addmem_chunks b2 (?lo + ?ms) (?rng - ?ms);
        Some (b3, Inr ())
      }"
    using assms(1) by (simp only: bbuddy_addmem_def Let_def new_memr_def) simp
  moreover have "page_aligned (?lo + ?ms)" "pfn (?lo + ?ms) = s + addmem_meta R"
    by (simp_all only: page_aligned_def pfn_def lo') simp_all
  ultimately show ?thesis using rng' lay(1) z by blast
qed

lemma bbuddy_addmem_EINVAL:
  assumes "base \<noteq> 0" "unat base + unat len + 4096 \<le> 2 ^ 64"
    and "(unat base + unat len) div 4096 < (unat base + 4095) div 4096 + 2"
  shows "bbuddy_addmem b base len = Some (b, Inl EINVAL)"
proof -
  define s where "s = (unat base + 4095) div 4096"
  define e where "e = (unat base + unat len) div 4096"
  have lo: "unat (round_pgup base) = 4096 * s" using assms(2) by (subst unat_round_pgup) (simp_all add: s_def)
  have bl: "unat (base + len) = unat base + unat len" using assms(2) by (intro unat_add_64) simp
  have hi: "unat (round_pgdown (base + len)) = 4096 * e" by (simp add: unat_round_pgdown bl e_def)
  have "unat (round_pgup 48) = 4096" by (subst unat_round_pgup) simp_all
  then have two: "unat (round_pgup 48 + PAGE_SIZE) = 8192" by (subst unat_add_64) simp_all
  have "round_pgdown (base + len) - round_pgup base < round_pgup (SIZEOF_MEMR + 8) + PAGE_SIZE"
    if "\<not> round_pgdown (base + len) < round_pgup base"
  proof -
    have "s \<le> e" using that by (simp only: word_less_nat_alt lo hi)
    then have "unat (round_pgdown (base + len) - round_pgup base) = 4096 * (e - s)"
      by (subst unat_sub_no_ovf) (simp_all add: lo hi diff_mult_distrib2)
    moreover have "e - s < 2" using assms(3) by (simp add: s_def e_def)
    ultimately show ?thesis by (simp only: word_less_nat_alt) (simp add: two)
  qed
  then show ?thesis using assms(1) by (auto simp: bbuddy_addmem_def Let_def)
qed

lemma addmem_nr_meta: "2 \<le> R \<Longrightarrow> addmem_nr R + addmem_meta R \<le> R"
proof -
  assume R: "2 \<le> R"
  let ?n = "addmem_nr R" and ?c = "(addmem_nr R + 7) div 8"
  have n: "32769 * ?n \<le> 8 * (4096 * R - 40)" by (simp add: addmem_nr_def)
  have "8 * ?c \<le> ?n + 7" by simp
  moreover have "?n + 320 \<le> 8 * (4096 * (R - ?n))" using n addmem_nr_le [of R] R by linarith
  ultimately have "40 + ?c \<le> 4096 * (R - ?n)" by linarith
  then have "addmem_meta R \<le> R - ?n" unfolding addmem_meta_def by linarith
  then show ?thesis using addmem_nr_le [of R] by linarith
qed

text \<open>A range of pages with a gap to every region: \<open>s\<close> is its first page, \<open>e\<close> the page after it.\<close>

definition gap :: "bbpalloc \<Rightarrow> nat \<Rightarrow> nat \<Rightarrow> bool" where
  "gap b s e \<longleftrightarrow> (\<forall>r \<in> set (regions b). snd r < s \<or> e < fst r)"

lemma gap_not_free:
  assumes "gap b s e" "s \<le> p + 1" "p \<le> e"
  shows "p \<notin> free_pages b"
  using assms by (force simp: gap_def regions_def memrs_free_def memr_free_def)

lemma addmem_insert_memr:
  assumes b: "binvF b F" and lo: "page_aligned lo" "0 < pfn lo"
    and nr: "unat nr \<le> 64 * (unat z div 8)" "0 < unat nr" "unat nr \<le> r" "unat z < 2 ^ 60"
    and r: "4096 * (pfn lo + r) < 2 ^ 64" and g: "gap b (pfn lo) (pfn lo + r)"
  shows "\<exists>b2. map_free (b\<lparr>memr_head := new_memr lo nr z # memr_head b\<rparr>) lo nr = Some b2 \<and>
    memrs_ok (memr_head b2) \<and> regions b2 = (pfn lo, pfn lo + unat nr) # regions b \<and>
    free_pages b2 = free_pages b \<union> {pfn lo ..< pfn lo + unat nr} \<and>
    nr_free_pages b2 = of_nat (card (free_pages b2)) \<and>
    ainv b2 F (free_pages b \<union> {pfn lo ..< pfn lo + r}) lo r"
proof -
  let ?m = "new_memr lo nr z"
  let ?b1 = "b\<lparr>memr_head := ?m # memr_head b\<rparr>"
  have bd: "memrs_ok (memr_head b)" "lists_ok b F" "aligned_lists F" "chunks_ok (chunks F)"
    "no_buddies (chunks F)" "covered (chunks F) = free_pages b"
    "nr_free_pages b = of_nat (card (free_pages b))" using b by (auto simp: binvF_def)
  have "memr_ok ?m"
    using lo nr r page_aligned_unat [OF lo(1)]
    by (simp add: memr_ok_def new_memr_fields) (simp add: new_memr_def page_aligned_def)
  moreover have "separated ?m m'" if "m' \<in> set (memr_head b)" for m'
    using g that nr(3) by (auto simp: gap_def regions_def separated_def new_memr_fields)
  ultimately have ok1: "memrs_ok (memr_head ?b1)" using bd(1) by simp
  have fp1: "free_pages ?b1 = free_pages b" using new_memr_free [OF nr(1)] by (simp add: memrs_free_def)
  obtain ms where ms: "map_free ?b1 lo nr =
      Some (?b1\<lparr>memr_head := ms, nr_free_pages := nr_free_pages ?b1 + nr\<rparr>)"
    "memrs_ok ms" "map memr_start ms = map memr_start (memr_head ?b1)"
    "map memr_end ms = map memr_end (memr_head ?b1)"
    "memrs_free ms = free_pages b \<union> {pfn lo ..< pfn lo + unat nr}"
    using map_free_result [OF ok1, of 0 lo nr] lo(1) nr(2) fp1
    by (auto simp: page_aligned_def new_memr_fields)
  let ?b2 = "?b1\<lparr>memr_head := ms, nr_free_pages := nr_free_pages ?b1 + nr\<rparr>"
  have nf: "p \<notin> free_pages b" if "pfn lo \<le> p + 1" "p \<le> pfn lo + r" for p
    using gap_not_free [OF g that] .
  have "free_pages b \<inter> {pfn lo ..< pfn lo + unat nr} = {}" using nf nr(3) by fastforce
  then have "card (memrs_free ms) = card (free_pages b) + unat nr"
    unfolding ms(5) using card_Un_disjoint [OF finite_memrs_free] by simp
  then have c: "nr_free_pages ?b2 = of_nat (card (free_pages ?b2))" by (simp add: bd(7))
  have last: "q + 2 ^ j \<noteq> pfn lo" if "(q, j) \<in> chunks F" for q j
  proof
    assume "q + 2 ^ j = pfn lo"
    then have "pfn lo - 1 \<in> covered (chunks F)" using blk_last [of q j] that by auto
    moreover have "pfn lo - 1 \<notin> free_pages b" by (rule nf) auto
    ultimately show False using bd(6) by simp
  qed
  have "lists_ok ?b2 F" using lists_ok_cong [OF bd(2)] by simp
  then have "ainv ?b2 F (free_pages b \<union> {pfn lo ..< pfn lo + r}) lo r"
    using bd lo r nf last unfolding ainv_def by auto
  moreover have "regions ?b2 = (pfn lo, pfn lo + unat nr) # regions b"
    using regionsI [OF ms(3,4)] by (simp add: regions_def new_memr_fields)
  ultimately show ?thesis using ms c by simp
qed

text \<open>Adding a range of \<open>R\<close> pages in general: the lists cover \<open>R - addmem_meta R\<close> pages, the bitmap
  has \<open>addmem_nr R\<close>.\<close>

lemma bbuddy_addmem_general:
  assumes b: "binv b" and "base \<noteq> 0" "unat base + unat len + 4096 \<le> 2 ^ 64"
  defines "s \<equiv> (unat base + 4095) div 4096" and "e \<equiv> (unat base + unat len) div 4096"
  defines "R \<equiv> e - s"
  defines "m \<equiv> s + addmem_meta R"
  assumes R: "2 \<le> R" "R < 2 ^ 48" and g: "gap b m e"
  shows "\<exists>b' F'. bbuddy_addmem b base len = Some (b', Inr ()) \<and>
    memrs_ok (memr_head b') \<and> lists_ok b' F' \<and> aligned_lists F' \<and> chunks_ok (chunks F') \<and>
    no_buddies (chunks F') \<and> covered (chunks F') = free_pages b \<union> {m ..< e} \<and>
    free_pages b' = free_pages b \<union> {m ..< m + addmem_nr R} \<and>
    regions b' = (m, m + addmem_nr R) # regions b \<and>
    nr_free_pages b' = of_nat (card (free_pages b'))"
proof -
  obtain F where F: "binvF b F" using b by (auto simp: binv_def)
  obtain lo rng nr z where l: "page_aligned lo" "pfn lo = m" "unat rng = 4096 * (R - addmem_meta R)"
    "unat nr = addmem_nr R" "unat z = 8 * (512 * addmem_meta R - 5)"
    and eq: "bbuddy_addmem b base len =
      do {
        b2 \<leftarrow> map_free (b\<lparr>memr_head := new_memr lo nr z # memr_head b\<rparr>) lo nr;
        b3 \<leftarrow> addmem_chunks b2 lo rng;
        Some (b3, Inr ())
      }"
    using bbuddy_addmem_unfold [OF assms(2,3)] R unfolding R_def e_def s_def m_def by blast
  note mb = addmem_meta_bounds [OF R(1)]
  have nm: "addmem_nr R \<le> R - addmem_meta R" using addmem_nr_meta [OF R(1)] by simp
  have n0: "0 < addmem_nr R"
  proof -
    have "8 * (4096 * 2 - 40) div 32769 \<le> addmem_nr R"
      unfolding addmem_nr_def using R(1) by (intro div_le_mono) simp
    then show ?thesis by simp
  qed
  have e: "m + (R - addmem_meta R) = e" using R(1) mb(2) by (simp add: m_def R_def)
  have "4096 * e < 2 ^ 64" using assms(3) by (simp add: e_def)
  moreover have "unat z < 2 ^ 60" using mb(2) R(2) by (simp add: l(5))
  ultimately obtain b2 where b2: "map_free (b\<lparr>memr_head := new_memr lo nr z # memr_head b\<rparr>) lo nr = Some b2"
    "memrs_ok (memr_head b2)" "regions b2 = (m, m + addmem_nr R) # regions b"
    "free_pages b2 = free_pages b \<union> {m ..< m + addmem_nr R}"
    "nr_free_pages b2 = of_nat (card (free_pages b2))"
    "ainv b2 F (free_pages b \<union> {m ..< e}) lo (R - addmem_meta R)"
    using addmem_insert_memr [OF F l(1), of nr z "R - addmem_meta R"] l mb nm n0 g e by (auto simp: m_def)
  obtain b' F' where c: "addmem_chunks b2 lo rng = Some b'" "lists_ok b' F'" "aligned_lists F'"
    "chunks_ok (chunks F')" "no_buddies (chunks F')" "covered (chunks F') = free_pages b \<union> {m ..< e}"
    "memr_head b' = memr_head b2" "nr_free_pages b' = nr_free_pages b2"
    using addmem_chunks_result [OF b2(6) l(3)] by blast
  have "bbuddy_addmem b base len = Some (b', Inr ())" by (simp add: eq b2(1) c(1))
  moreover have "regions b' = regions b2" by (simp add: regions_def c(7))
  ultimately show ?thesis using b2 c by auto
qed

section \<open>Initialisation\<close>

lemma init_freelists:
  fixes m :: bbpalloc and n :: nat
  defines "b \<equiv> fold init_freelist [0..<n] m"
  shows "i < n \<Longrightarrow> free_head b i = Tail i \<and> ch_pprev b (Tail i) = FreeHead i \<and> ch_next b (Tail i) = HNull"
    and "nr_free_pages b = nr_free_pages m"
proof -
  have "(i < n \<longrightarrow> free_head b i = Tail i \<and> ch_pprev b (Tail i) = FreeHead i \<and> ch_next b (Tail i) = HNull) \<and>
    nr_free_pages b = nr_free_pages m"
    unfolding b_def by (induction n) (auto simp: init_freelist_def)
  then show "i < n \<Longrightarrow> free_head b i = Tail i \<and> ch_pprev b (Tail i) = FreeHead i \<and> ch_next b (Tail i) = HNull"
    "nr_free_pages b = nr_free_pages m" by auto
qed

text \<open>The state \<^verbatim>\<open>uk_allocbbuddy_init\<close> has before it adds memory.\<close>

definition empty_bbpalloc :: "bbpalloc \<Rightarrow> bbpalloc" where
  "empty_bbpalloc m0 = (fold init_freelist [0..<FREELIST_SIZE] (m0\<lparr>nr_free_pages := 0\<rparr>))\<lparr>memr_head := []\<rparr>"

lemma empty_bbpalloc:
  "binv (empty_bbpalloc m0)" "free_pages (empty_bbpalloc m0) = {}" "regions (empty_bbpalloc m0) = []"
proof -
  have ch: "chunks (\<lambda>_. []) = {}" by (auto simp: chunks_def)
  have "lists_ok (empty_bbpalloc m0) (\<lambda>_. [])"
    using init_freelists(1) [of _ FREELIST_SIZE "m0\<lparr>nr_free_pages := 0\<rparr>"]
    by (simp add: lists_ok_def freelist_def empty_bbpalloc_def)
  moreover have "nr_free_pages (empty_bbpalloc m0) = 0"
    using init_freelists(2) [of FREELIST_SIZE "m0\<lparr>nr_free_pages := 0\<rparr>"] by (simp add: empty_bbpalloc_def)
  ultimately have "binvF (empty_bbpalloc m0) (\<lambda>_. [])"
    by (simp add: binvF_def ch aligned_lists_def chunks_ok_def no_buddies_def empty_bbpalloc_def memrs_free_def)
  then show "binv (empty_bbpalloc m0)" by (auto simp: binv_def)
  show "free_pages (empty_bbpalloc m0) = {}" "regions (empty_bbpalloc m0) = []"
    by (simp_all add: empty_bbpalloc_def memrs_free_def regions_def)
qed

lemma bbuddy_addmem_exact:
  assumes b: "binv b" and "base \<noteq> 0" "unat base + unat len + 4096 \<le> 2 ^ 64"
  defines "s \<equiv> (unat base + 4095) div 4096" and "e \<equiv> (unat base + unat len) div 4096"
  assumes R: "s + 2 \<le> e" "e \<le> s + 32449" and g: "gap b (s + 1) e"
  shows "\<exists>b'. bbuddy_addmem b base len = Some (b', Inr ()) \<and> binv b' \<and>
    free_pages b' = free_pages b \<union> {s + 1 ..< e} \<and> regions b' = (s + 1, e) # regions b"
proof -
  have R': "2 \<le> e - s" "e - s < 2 ^ 48" "e - s \<le> 32449" using R by auto
  note lay = addmem_layout_small [OF R'(1,3)]
  have g': "gap b (s + addmem_meta (e - s)) e" using g by (simp add: lay)
  have e: "s + 1 + (e - s - 1) = e" using R by simp
  obtain b' F' where *: "bbuddy_addmem b base len = Some (b', Inr ())"
    "memrs_ok (memr_head b')" "lists_ok b' F'" "aligned_lists F'" "chunks_ok (chunks F')"
    "no_buddies (chunks F')" "covered (chunks F') = free_pages b \<union> {s + 1 ..< e}"
    "free_pages b' = free_pages b \<union> {s + 1 ..< s + 1 + (e - s - 1)}"
    "regions b' = (s + 1, s + 1 + (e - s - 1)) # regions b"
    "nr_free_pages b' = of_nat (card (free_pages b'))"
    using bbuddy_addmem_general [OF assms(1-3), folded s_def e_def, OF R'(1,2) g'] unfolding lay by blast
  then have "binvF b' F'" unfolding binvF_def e by simp
  then show ?thesis using * unfolding e binv_def by blast
qed

lemma uk_allocbbuddy_init_result:
  assumes "unat base + unat len + 4096 \<le> 2 ^ 64"
  defines "s \<equiv> (unat base + 4095) div 4096" and "e \<equiv> (unat base + unat len) div 4096"
  assumes R: "s + 4 \<le> e" "e \<le> s + 32451"
  shows "\<exists>b. uk_allocbbuddy_init m0 base len = Some (Some b) \<and> binv b \<and>
    free_pages b = {s + 3 ..< e} \<and> regions b = [(s + 3, e)]"
proof -
  let ?lo = "round_pgup base" and ?hi = "round_pgdown (base + len)"
  have lo: "unat ?lo = 4096 * s" using assms(1) by (subst unat_round_pgup) (simp_all add: s_def)
  have bl: "unat (base + len) = unat base + unat len" using assms(1) by (intro unat_add_64) simp
  have hi: "unat ?hi = 4096 * e" by (simp add: unat_round_pgdown bl e_def)
  have m: "round_pgup (80 + 1680) = 4096"
    by (rule word_unat_eq_iff [THEN iffD2]) (subst unat_round_pgup; simp)
  have e: "4096 * e + 4096 \<le> 2 ^ 64" using assms(1) by (simp add: e_def)
  have lo1: "unat (?lo + 4096) = 4096 * (s + 1)" using R e by (subst unat_add_64) (simp_all add: lo)
  have lo2: "unat (?lo + 4096 + 4096) = 4096 * (s + 2)" using R e by (subst unat_add_64) (simp_all add: lo1)
  have "?hi - (?lo + 4096) - 4096 = ?hi - (?lo + 4096 + 4096)" by simp
  moreover have "unat (?hi - (?lo + 4096 + 4096)) = 4096 * (e - (s + 2))"
  proof -
    have "unat (?lo + 4096 + 4096) \<le> unat ?hi" using R by (simp only: lo2 hi) simp
    from unat_sub_no_ovf [OF this] show ?thesis by (simp only: lo2 hi diff_mult_distrib2)
  qed
  ultimately have len: "unat (?hi - (?lo + 4096) - 4096) = 4096 * (e - (s + 2))" by (simp only:)
  have nz: "?lo + 4096 + 4096 \<noteq> 0" using lo2 by (metis mult_eq_0_iff add_eq_0_iff_both_eq_0 unat_0 zero_neq_numeral)
  have sum: "unat (?lo + 4096 + 4096) + unat (?hi - (?lo + 4096) - 4096) = 4096 * e"
    using R by (simp only: lo2 len) simp
  have s2: "(unat (?lo + 4096 + 4096) + 4095) div 4096 = s + 2" by (simp only: lo2) simp
  obtain b' where b': "bbuddy_addmem (empty_bbpalloc m0) (?lo + 4096 + 4096) (?hi - (?lo + 4096) - 4096) =
      Some (b', Inr ())" "binv b'" "free_pages b' = {s + 3 ..< e}" "regions b' = [(s + 3, e)]"
    using bbuddy_addmem_exact [OF empty_bbpalloc(1) [of m0] nz, of "?hi - (?lo + 4096) - 4096"] R e
    unfolding sum s2 by (auto simp: empty_bbpalloc gap_def numeral_3_eq_3)
  have c1: "?hi > ?lo" using R by (simp only: word_less_nat_alt lo hi)
  have c2: "\<not> ?lo + 4096 > ?hi" using R by (simp only: word_less_nat_alt lo1 hi) simp
  have c3: "?hi > ?lo + 4096 + 4096" using R by (simp only: word_less_nat_alt lo2 hi) simp
  have "uk_allocbbuddy_init m0 base len = Some (Some b')"
    unfolding uk_allocbbuddy_init_def m Let_def empty_bbpalloc_def [symmetric]
    using c1 c2 c3 b'(1) by simp
  then show ?thesis using b' by blast
qed

end
