(* ===== verification/BbuddyTop.thy ===== *)
theory BbuddyTop
  imports BbuddyAdd PageAlloc
begin

text \<open>
  The buddy allocator as an implementation of the page allocator contract, the clients that
  allocate and release pages in any order, and the properties of the component.
\<close>

section \<open>The contract\<close>

definition order_of :: "u64 \<Rightarrow> nat" where
  "order_of n = the (num_pages_to_order n)"

definition bb_span :: "u64 \<Rightarrow> u64 \<Rightarrow> nat set" where
  "bb_span a n = blk (pfn a, order_of n)"

definition bb_legal :: "bbpalloc \<Rightarrow> u64 \<Rightarrow> u64 \<Rightarrow> bool" where
  "bb_legal b a n \<longleftrightarrow>
     n \<noteq> 0 \<and> page_aligned a \<and> aligned (pfn a, order_of n) \<and> in_region b (pfn a, order_of n)"

lemma order_of: "n \<noteq> 0 \<Longrightarrow> num_pages_to_order n = Some (order_of n)"
  using num_pages_to_order_Some [of n] by (auto simp: order_of_def)

lemma order_of_le: "n \<noteq> 0 \<Longrightarrow> unat n \<le> 2 ^ 52 \<Longrightarrow> order_of n \<le> FREELIST_SIZE"
  using num_pages_to_order_le [OF order_of] by blast

lemma free_in_region:
  assumes "binv b" "blk (p, k) \<subseteq> free_pages b"
  shows "in_region b (p, k)"
proof -
  have "memrs_ok (memr_head b)" using assms(1) by (auto simp: binv_def binvF_def)
  from block_in_region [OF this, of p "2 ^ k"] assms(2) show ?thesis
    by (force simp: in_region_def regions_def blk_def)
qed

lemma in_region_bounds:
  assumes "binv b" "in_region b (p, k)"
  shows "0 < p" "4096 * (p + 2 ^ k) < 2 ^ 64"
proof -
  have mo: "memrs_ok (memr_head b)" using assms(1) by (auto simp: binv_def binvF_def)
  obtain i where i: "i < length (memr_head b)" "memr_start (memr_head b ! i) \<le> p" "p + 2 ^ k \<le> memr_end (memr_head b ! i)"
    using assms(2) by (auto simp: in_region_def regions_def in_set_conv_nth)
  note rb = region_bound [OF mo i(1)]
  show "0 < p" using rb(2) i(2) by linarith
  show "4096 * (p + 2 ^ k) < 2 ^ 64" using rb(1) i(3) by (meson le_less_trans mult_le_mono2)
qed

lemma in_region_cong: "regions b' = regions b \<Longrightarrow> in_region b' = in_region b"
  by (intro ext) (simp add: in_region_def)

lemma bb_legal_cong: "regions b' = regions b \<Longrightarrow> bb_legal b' = bb_legal b"
  by (intro ext) (simp add: bb_legal_def in_region_cong [of b' b])

interpretation bb: page_allocator binv "\<lambda>b. free_pages b" bb_span bb_legal bbuddy_palloc bbuddy_pfree
proof
  fix s n assume b: "binv s" and n: "0 < unat (n::u64)" "unat n \<le> 2 ^ 52"
  then have nz: "n \<noteq> 0" by auto
  note r = bbuddy_palloc_result [OF b order_of [OF nz] order_of_le [OF nz n(2)]]
  show "bbuddy_palloc s n = Some (s, 0) \<or>
    (\<exists>s' a. bbuddy_palloc s n = Some (s', a) \<and> a \<noteq> 0 \<and> binv s' \<and> bb_span a n \<subseteq> free_pages s \<and>
       free_pages s' = free_pages s - bb_span a n \<and> bb_legal s' = bb_legal s \<and> bb_legal s a n)"
  proof (cases "\<exists>p. aligned (p, order_of n) \<and> blk (p, order_of n) \<subseteq> free_pages s")
    case True
    with r obtain s' a where "bbuddy_palloc s n = Some (s', a)" and p: "palloc_post s (order_of n) s' a" by auto
    moreover have "in_region s (pfn a, order_of n)" using p b by (auto simp: palloc_post_def intro: free_in_region)
    ultimately show ?thesis using nz bb_legal_cong [of s' s]
      by (auto simp: palloc_post_def bb_span_def bb_legal_def)
  qed (use r in auto)
next
  fix s a n assume *: "binv s" "bb_legal s a n" "bb_span a n \<inter> free_pages s = {}"
  then obtain s' where s': "bbuddy_pfree s a n = Some s'" "binv s'" "regions s' = regions s"
    "free_pages s' = free_pages s \<union> bb_span a n"
    using bbuddy_pfree_result [OF *(1) order_of, of n a] by (auto simp: bb_legal_def bb_span_def)
  then show "\<exists>s'. bbuddy_pfree s a n = Some s' \<and> binv s' \<and> free_pages s' = free_pages s \<union> bb_span a n \<and>
      bb_legal s' = bb_legal s"
    using bb_legal_cong [OF s'(3)] by blast
next
  fix s a n assume b: "binv s" and l: "bb_legal s a n"
  then have nz: "n \<noteq> 0" by (simp add: bb_legal_def)
  note o = num_pages_to_order_bounds [OF order_of [OF nz]]
  have "0 < pfn a" "4096 * (pfn a + 2 ^ order_of n) < 2 ^ 64"
    using in_region_bounds [OF b] l by (auto simp: bb_legal_def)
  moreover have "4096 * (pfn a + unat n) \<le> 4096 * (pfn a + 2 ^ order_of n)" using o(1) by simp
  ultimately show "4096 dvd unat a \<and> 0 < unat a \<and> 0 < unat n \<and> {pfn a ..< pfn a + unat n} \<subseteq> bb_span a n \<and>
      4096 * (pfn a + unat n) < 2 ^ 64"
    using l o page_aligned_unat [of a] by (auto simp: bb_legal_def bb_span_def blk_def page_aligned_def)
qed

section \<open>Clients\<close>

text \<open>
  A state of the system is the allocator with the set of blocks its clients hold, as address
  and number of pages. Clients call the two operations in any order, and release what they hold.
\<close>

inductive bb_step :: "bbpalloc \<times> (u64 \<times> u64) set \<Rightarrow> bbpalloc \<times> (u64 \<times> u64) set \<Rightarrow> bool" where
  alloc: "bbuddy_palloc b n = Some (b', a) \<Longrightarrow> 0 < unat n \<Longrightarrow> unat n \<le> 2 ^ 52 \<Longrightarrow> a \<noteq> 0 \<Longrightarrow>
    bb_step (b, L) (b', insert (a, n) L)"
| fail: "bbuddy_palloc b n = Some (b', 0) \<Longrightarrow> 0 < unat n \<Longrightarrow> unat n \<le> 2 ^ 52 \<Longrightarrow> bb_step (b, L) (b', L)"
| release: "(a, n) \<in> L \<Longrightarrow> bbuddy_pfree b a n = Some b' \<Longrightarrow> bb_step (b, L) (b', L - {(a, n)})"

lemma bb_step_holds:
  assumes "bb_step (b, L) (b', L')" "bb.holds b L"
  shows "bb.holds b' L' \<and> bb.pages b' L' = bb.pages b L"
  using assms(1)
proof (cases rule: bb_step.cases)
  case alloc
  then show ?thesis using bb.palloc_fresh(1,3) [OF assms(2)] by simp
next
  case fail
  then show ?thesis using bb.palloc_null [OF assms(2)] assms(2) by auto
next
  case (release a n)
  then show ?thesis using bb.pfree_held [OF assms(2) release(2)] by auto
qed

lemma bb_run_holds:
  assumes "bb_step\<^sup>*\<^sup>* s s'" "bb.holds (fst s) (snd s)"
  shows "bb.holds (fst s') (snd s') \<and> bb.pages (fst s') (snd s') = bb.pages (fst s) (snd s)"
  using assms
proof (induction rule: rtranclp_induct)
  case (step y z)
  then show ?case using bb_step_holds [of "fst y" "snd y" "fst z" "snd z"] by simp
qed simp

section \<open>A concrete allocator\<close>

text \<open>Memory full of zeroes, and the allocator made on 15 pages from address 4096.\<close>

definition zero_mem :: bbpalloc where
  "zero_mem = \<lparr>nr_free_pages = 0, free_head = (\<lambda>_. HNull), ch_next = (\<lambda>_. HNull),
     ch_pprev = (\<lambda>_. FreeHead 0), ch_level = (\<lambda>_. 0), ct_level = (\<lambda>_. 0), memr_head = []\<rparr>"

lemma example_init:
  "\<exists>b. uk_allocbbuddy_init zero_mem 4096 61440 = Some (Some b) \<and> binv b \<and>
    free_pages b = {4 ..< 16} \<and> regions b = [(4, 16)]"
  using uk_allocbbuddy_init_result [of 4096 61440 zero_mem] by simp

lemma example_alloc:
  assumes "binv b" "p \<in> free_pages b"
  shows "\<exists>b' a. bbuddy_palloc b 1 = Some (b', a) \<and> palloc_post b 0 b' a"
proof -
  have "aligned (p, 0)" "blk (p, 0) \<subseteq> free_pages b" using assms(2) by (auto simp: aligned_def)
  moreover have "num_pages_to_order 1 = Some 0" by (simp add: num_pages_to_order_def)
  ultimately show ?thesis using bbuddy_palloc_result [OF assms(1), of 1 0] by (auto split: if_splits)
qed

section \<open>Properties\<close>

lemma free_pages_bounds:
  assumes "binv b"
  shows "4096 * card (free_pages b) < 2 ^ 64"
proof -
  have mo: "memrs_ok (memr_head b)" using assms by (auto simp: binv_def binvF_def)
  have "free_pages b \<subseteq> {0 <..< 2 ^ 52}"
  proof
    fix p assume "p \<in> free_pages b"
    then have "blk (p, 0) \<subseteq> free_pages b" "aligned (p, 0)" by (auto simp: aligned_def)
    from free_chunk_bounds [OF mo this(2,1)] show "p \<in> {0 <..< 2 ^ 52}" by auto
  qed
  then have "card (free_pages b) \<le> card {0 <..< (2::nat) ^ 52}" by (intro card_mono) auto
  then show ?thesis by simp
qed

text \<open>
  C1: For a request of 1 to \<open>2 ^ 52\<close> pages, \<^verbatim>\<open>bbuddy_palloc\<close> does not crash. If some naturally
  aligned free block of the request's order exists, it returns one: a page-aligned, non-null
  address of a block that was free, whose pages are exactly the ones that stop being free, and
  the allocator's invariant holds again. If no such block exists, it returns \<^verbatim>\<open>NULL\<close> and the
  allocator is unchanged.
\<close>

theorem bbuddy_palloc_correct:
  assumes "binv b" "n \<noteq> 0" "unat n \<le> 2 ^ 52"
  shows "\<exists>k. num_pages_to_order n = Some k \<and> unat n \<le> 2 ^ k \<and>
    (if \<exists>p. aligned (p, k) \<and> blk (p, k) \<subseteq> free_pages b
     then \<exists>b' a. bbuddy_palloc b n = Some (b', a) \<and> a \<noteq> 0 \<and> page_aligned a \<and> aligned (pfn a, k) \<and>
       blk (pfn a, k) \<subseteq> free_pages b \<and> free_pages b' = free_pages b - blk (pfn a, k) \<and>
       binv b' \<and> regions b' = regions b
     else bbuddy_palloc b n = Some (b, 0))"
proof -
  obtain k where k: "num_pages_to_order n = Some k" using num_pages_to_order_Some assms(2) by blast
  have "k \<le> FREELIST_SIZE" using num_pages_to_order_le [OF k] assms(3) by blast
  from bbuddy_palloc_result [OF assms(1) k this] show ?thesis
    using k num_pages_to_order_bounds(1) [OF k] unfolding palloc_post_def by blast
qed

theorem bbuddy_palloc_correct_witness:
  "\<exists>b b' a. uk_allocbbuddy_init zero_mem 4096 61440 = Some (Some b) \<and>
    bbuddy_palloc b 3 = Some (b', a) \<and> a \<noteq> 0 \<and> blk (pfn a, 2) \<subseteq> {4 ..< 16} \<and>
    free_pages b' = {4 ..< 16} - blk (pfn a, 2) \<and> binv b'"
proof -
  obtain b where b: "uk_allocbbuddy_init zero_mem 4096 61440 = Some (Some b)" "binv b" "free_pages b = {4 ..< 16}"
    using example_init by blast
  have "num_pages_to_order 3 = Some 2" by code_simp
  moreover have "aligned (4, 2)" "blk (4, 2) \<subseteq> free_pages b" by (auto simp: aligned_def b blk_iff)
  ultimately show ?thesis using bbuddy_palloc_correct [OF b(2), of 3] b unfolding b(3) by (auto split: if_splits)
qed

text \<open>
  C2: \<^verbatim>\<open>bbuddy_pfree\<close> of an aligned block that lies in a memory region and is not free succeeds:
  afterwards exactly the pages of that block are free in addition, and the invariant holds, so
  the block has been coalesced with its free buddies as far as possible.
\<close>

theorem bbuddy_pfree_correct:
  assumes "binv b" "num_pages_to_order n = Some k" "page_aligned a" "aligned (pfn a, k)"
    and "in_region b (pfn a, k)" "blk (pfn a, k) \<inter> free_pages b = {}"
  shows "\<exists>b'. bbuddy_pfree b a n = Some b' \<and> binv b' \<and> regions b' = regions b \<and>
    free_pages b' = free_pages b \<union> blk (pfn a, k)"
  using assms by (rule bbuddy_pfree_result)

theorem bbuddy_pfree_correct_witness:
  "\<exists>b b1 a b2. uk_allocbbuddy_init zero_mem 4096 61440 = Some (Some b) \<and>
    bbuddy_palloc b 1 = Some (b1, a) \<and> a \<noteq> 0 \<and> bbuddy_pfree b1 a 1 = Some b2 \<and>
    binv b2 \<and> free_pages b2 = {4 ..< 16}"
proof -
  obtain b where b: "uk_allocbbuddy_init zero_mem 4096 61440 = Some (Some b)" "binv b" "free_pages b = {4 ..< 16}"
    using example_init by blast
  obtain b1 a where a: "bbuddy_palloc b 1 = Some (b1, a)" and p: "palloc_post b 0 b1 a"
    using example_alloc [OF b(2), of 5] b(3) by auto
  have o: "num_pages_to_order 1 = Some 0" by (simp add: num_pages_to_order_def)
  have a0: "a \<noteq> 0" "page_aligned a" "aligned (pfn a, 0)" "binv b1" "regions b1 = regions b"
    "pfn a \<in> {4 ..< 16}" "free_pages b1 = {4 ..< 16} - {pfn a}"
    using p b(3) by (simp_all add: palloc_post_def)
  have r: "in_region b1 (pfn a, 0)"
    using free_in_region [OF b(2), of "pfn a" 0] in_region_cong [OF a0(5)] a0(6) b(3) by simp
  have "blk (pfn a, 0) \<inter> free_pages b1 = {}" by (simp add: a0)
  from bbuddy_pfree_correct [OF a0(4) o a0(2,3) r this] obtain b2
    where "bbuddy_pfree b1 a 1 = Some b2" "binv b2" "free_pages b2 = free_pages b1 \<union> {pfn a}" by auto
  moreover have "free_pages b1 \<union> {pfn a} = {4 ..< 16}" using a0(6,7) by blast
  ultimately show ?thesis using b(1) a a0(1) by metis
qed

text \<open>
  C3: Whatever sequence of allocations and releases the clients make on an initialised
  allocator, two blocks held at the same time never share a byte.
\<close>

theorem bb_clients_disjoint:
  assumes "binv b0" "bb_step\<^sup>*\<^sup>* (b0, {}) (b, L)"
    and "(a, n) \<in> L" "(a', n') \<in> L" "(a, n) \<noteq> (a', n')"
  shows "unat a + 4096 * unat n \<le> unat a' \<or> unat a' + 4096 * unat n' \<le> unat a"
  using bb.held_bytes_disjoint [of b L] bb_run_holds [OF assms(2)] assms by simp

lemma example_run:
  "\<exists>b0 b2 a1 a2. uk_allocbbuddy_init zero_mem 4096 61440 = Some (Some b0) \<and> binv b0 \<and> free_pages b0 = {4 ..< 16} \<and>
    bb_step\<^sup>*\<^sup>* (b0, {}) (b2, {(a1, 1), (a2, 1)}) \<and> a1 \<noteq> a2"
proof -
  obtain b where b: "uk_allocbbuddy_init zero_mem 4096 61440 = Some (Some b)" "binv b" "free_pages b = {4 ..< 16}"
    using example_init by blast
  obtain b1 a1 where a1: "bbuddy_palloc b 1 = Some (b1, a1)" and p1: "palloc_post b 0 b1 a1"
    using example_alloc [OF b(2), of 5] b(3) by auto
  have f1: "free_pages b1 = {4 ..< 16} - {pfn a1}" using p1 b(3) by (auto simp: palloc_post_def blk_def)
  have "(4::nat) \<in> free_pages b1 \<or> 5 \<in> free_pages b1" by (auto simp: f1)
  then obtain b2 a2 where a2: "bbuddy_palloc b1 1 = Some (b2, a2)" and p2: "palloc_post b1 0 b2 a2"
    using example_alloc p1 by (metis palloc_post_def)
  have "pfn a2 \<in> free_pages b1" using p2 by (auto simp: palloc_post_def)
  then have "a1 \<noteq> a2" using f1 by auto
  moreover have "bb_step (b, {}) (b1, {(a1, 1)})" using bb_step.alloc [OF a1, of "{}"] p1 by (simp add: palloc_post_def)
  moreover have "bb_step (b1, {(a1, 1)}) (b2, {(a1, 1), (a2, 1)})"
    using bb_step.alloc [OF a2, of "{(a1, 1)}"] p2 by (simp add: palloc_post_def insert_commute)
  ultimately show ?thesis using b by (metis (no_types, opaque_lifting) rtranclp.rtrancl_refl rtranclp.rtrancl_into_rtrancl)
qed

theorem bb_clients_disjoint_witness:
  "\<exists>b0 b a1 a2. binv b0 \<and> bb_step\<^sup>*\<^sup>* (b0, {}) (b, {(a1, 1), (a2, 1)}) \<and>
    (unat a1 + 4096 \<le> unat a2 \<or> unat a2 + 4096 \<le> unat a1)"
proof -
  obtain b0 b a1 a2 where r: "binv b0" "bb_step\<^sup>*\<^sup>* (b0, {}) (b, {(a1, 1), (a2, 1)})" "a1 \<noteq> a2"
    using example_run by metis
  have "unat a1 + 4096 \<le> unat a2 \<or> unat a2 + 4096 \<le> unat a1"
    using bb_clients_disjoint [OF r(1,2), of a1 1 a2 1] r(3) by simp
  with r show ?thesis by metis
qed

text \<open>
  C4: In every state clients can reach, no page is lost or gained: the free pages and the pages
  of the held blocks together are the pages that were free at the start.
\<close>

theorem bb_clients_conserve:
  assumes "binv b0" "bb_step\<^sup>*\<^sup>* (b0, {}) (b, L)"
  shows "free_pages b \<union> (\<Union>c \<in> L. blk (pfn (fst c), order_of (snd c))) = free_pages b0"
  using bb_run_holds [OF assms(2)] assms(1) by (simp add: bb.pages_def bb_span_def)

theorem bb_clients_conserve_witness:
  "\<exists>b0 b a1 a2. binv b0 \<and> bb_step\<^sup>*\<^sup>* (b0, {}) (b, {(a1, 1), (a2, 1)}) \<and>
    free_pages b \<union> {pfn a1, pfn a2} = {4 ..< 16}"
proof -
  obtain b0 b a1 a2 where r: "binv b0" "bb_step\<^sup>*\<^sup>* (b0, {}) (b, {(a1, 1), (a2, 1)})" "free_pages b0 = {4 ..< 16}"
    using example_run by metis
  have "order_of 1 = 0" by (simp add: order_of_def num_pages_to_order_def)
  then have "free_pages b \<union> {pfn a1, pfn a2} = {4 ..< 16}"
    using bb_clients_conserve [OF r(1,2)] r(3) by (simp add: insert_commute)
  with r show ?thesis by metis
qed

text \<open>
  C5: In every state clients can reach, a request of 1 to \<open>2 ^ 52\<close> pages and the release of any held
  block run to completion: no assertion of the allocator fails.
\<close>

theorem bb_clients_progress:
  assumes "binv b0" "bb_step\<^sup>*\<^sup>* (b0, {}) (b, L)"
  shows "(0 < unat n \<and> unat n \<le> 2 ^ 52 \<longrightarrow> bbuddy_palloc b n \<noteq> None) \<and>
    ((a, k) \<in> L \<longrightarrow> bbuddy_pfree b a k \<noteq> None)"
proof -
  have h: "bb.holds b L" using bb_run_holds [OF assms(2)] assms(1) by simp
  then have "binv b" by (simp add: bb.holds_def)
  then show ?thesis using bb.palloc_total [of b n] bb.pfree_held [OF h, of a k] by auto
qed

theorem bb_clients_progress_witness:
  "\<exists>b0 b a1 a2. binv b0 \<and> bb_step\<^sup>*\<^sup>* (b0, {}) (b, {(a1, 1), (a2, 1)}) \<and>
    bbuddy_palloc b 7 \<noteq> None \<and> bbuddy_pfree b a2 1 \<noteq> None"
proof -
  obtain b0 b a1 a2 where r: "binv b0" "bb_step\<^sup>*\<^sup>* (b0, {}) (b, {(a1, 1), (a2, 1)})"
    using example_run by metis
  have "bbuddy_palloc b 7 \<noteq> None \<and> bbuddy_pfree b a2 1 \<noteq> None"
    using bb_clients_progress [OF r(1,2), of 7 a2 1] by simp
  with r show ?thesis by metis
qed

text \<open>
  C6: \<^verbatim>\<open>bbuddy_addmem\<close> of a range of 2 to 32449 whole pages that keeps a gap to the regions the
  allocator has: it succeeds, the first page of the range holds the descriptor and its bitmap,
  all other pages become free, and the invariant holds.
\<close>

theorem bbuddy_addmem_correct:
  assumes "binv b" "base \<noteq> 0" "unat base + unat len + 4096 \<le> 2 ^ 64"
    and "s = (unat base + 4095) div 4096" "e = (unat base + unat len) div 4096"
    and "s + 2 \<le> e" "e \<le> s + 32449" "gap b (s + 1) e"
  shows "\<exists>b'. bbuddy_addmem b base len = Some (b', Inr ()) \<and> binv b' \<and>
    free_pages b' = free_pages b \<union> {s + 1 ..< e} \<and> regions b' = (s + 1, e) # regions b"
  using bbuddy_addmem_exact [OF assms(1-3)] assms(4-8) by simp

theorem bbuddy_addmem_correct_witness:
  "\<exists>b b'. uk_allocbbuddy_init zero_mem 4096 61440 = Some (Some b) \<and>
    bbuddy_addmem b 0x100000 0x8000 = Some (b', Inr ()) \<and> binv b' \<and>
    free_pages b' = {4 ..< 16} \<union> {257 ..< 264}"
proof -
  obtain b where b: "uk_allocbbuddy_init zero_mem 4096 61440 = Some (Some b)" "binv b"
    "free_pages b = {4 ..< 16}" "regions b = [(4, 16)]"
    using example_init by blast
  have "gap b (256 + 1) 264" by (simp add: gap_def b)
  then show ?thesis using bbuddy_addmem_correct [OF b(2), of "0x100000" "0x8000" 256 264] b by auto
qed

lemma pfn_of_nat: "4096 * p < 2 ^ 64 \<Longrightarrow> pfn (of_nat (4096 * p)) = p"
  unfolding pfn_def unat_of_nat by simp

text \<open>
  For some sizes the number of pages \<^verbatim>\<open>bbuddy_addmem\<close> records is one less than the number of
  pages it puts on the free lists (32450 pages is the first such size). The last page of the
  range is then part of a free chunk, yet the allocator's own test says it is allocated.
\<close>

theorem bbuddy_addmem_lost_page:
  assumes "binv b" "base \<noteq> 0" "unat base + unat len + 4096 \<le> 2 ^ 64"
    and "s = (unat base + 4095) div 4096" "e = (unat base + unat len) div 4096"
    and "e = s + 32450" "gap b (s + 1) e"
  shows "\<exists>b' F. bbuddy_addmem b base len = Some (b', Inr ()) \<and> lists_ok b' F \<and>
    e - 1 \<in> covered (chunks F) \<and> allocated_in_map b' (of_nat (4096 * (e - 1)))"
proof -
  have R: "e - s = 32450" using assms(6) by simp
  have l: "addmem_nr 32450 = 32448" "addmem_meta 32450 = 1" by (simp_all add: addmem_nr_def addmem_meta_def)
  obtain b' F' where *: "bbuddy_addmem b base len = Some (b', Inr ())"
    "memrs_ok (memr_head b')" "lists_ok b' F'" "covered (chunks F') = free_pages b \<union> {s + 1 ..< e}"
    "free_pages b' = free_pages b \<union> {s + 1 ..< s + 1 + 32448}"
    using bbuddy_addmem_general [OF assms(1-3)] assms(6,7) unfolding assms(4,5) [symmetric] R l by auto
  have "4096 * (e - 1) < 2 ^ 64" using assms(3,5) by simp
  then have "pfn (of_nat (4096 * (e - 1))) = e - 1" by (rule pfn_of_nat)
  moreover have "e - 1 \<notin> free_pages b" using gap_not_free [OF assms(7), of "e - 1"] assms(6) by simp
  ultimately have "allocated_in_map b' (of_nat (4096 * (e - 1)))"
    using allocated_in_map_iff [OF *(2)] *(5) assms(6) by simp
  then show ?thesis using * assms(6) by fastforce
qed

theorem bbuddy_addmem_lost_page_witness:
  "\<exists>b' F. bbuddy_addmem (empty_bbpalloc zero_mem) 4096 132915200 = Some (b', Inr ()) \<and> lists_ok b' F \<and>
    32450 \<in> covered (chunks F) \<and> allocated_in_map b' 132915200"
proof -
  have "gap (empty_bbpalloc zero_mem) (1 + 1) 32451" by (simp add: gap_def empty_bbpalloc)
  then have "\<exists>b' F. bbuddy_addmem (empty_bbpalloc zero_mem) 4096 132915200 = Some (b', Inr ()) \<and>
      lists_ok b' F \<and> 32451 - 1 \<in> covered (chunks F) \<and> allocated_in_map b' (of_nat (4096 * (32451 - 1)))"
    by (intro bbuddy_addmem_lost_page [OF empty_bbpalloc(1)]) simp_all
  moreover have "(32451::nat) - 1 = 32450" "of_nat (4096 * 32450) = (132915200::u64)" by simp_all
  ultimately show ?thesis by metis
qed



text \<open>
  \<^verbatim>\<open>bbuddy_availmem\<close> is the size in bytes of the pages that are free.
\<close>

theorem bbuddy_availmem_correct:
  assumes "binv b"
  shows "unat (bbuddy_availmem b) = 4096 * card (free_pages b)"
proof -
  have n: "nr_free_pages b = of_nat (card (free_pages b))" using assms by (auto simp: binv_def binvF_def)
  note fb = free_pages_bounds [OF assms]
  have u: "unat (nr_free_pages b) = card (free_pages b)" using fb by (simp add: n unat_of_nat)
  show ?thesis using unat_shift_pages [of "nr_free_pages b"] fb by (simp add: bbuddy_availmem_def u)
qed

theorem bbuddy_availmem_correct_witness:
  "\<exists>b. uk_allocbbuddy_init zero_mem 4096 61440 = Some (Some b) \<and> unat (bbuddy_availmem b) = 49152"
  using example_init bbuddy_availmem_correct by fastforce

text \<open>
  \<^verbatim>\<open>num_pages_to_order\<close> of a non-zero number is the least order whose blocks hold that many
  pages.
\<close>

theorem num_pages_to_order_least:
  assumes "n \<noteq> 0"
  shows "\<exists>k. num_pages_to_order n = Some k \<and> k = (LEAST i. unat n \<le> 2 ^ i)"
proof -
  obtain k where k: "num_pages_to_order n = Some k" using num_pages_to_order_Some assms by blast
  have "(LEAST i. unat n \<le> 2 ^ i) = k"
  proof (rule Least_equality)
    show "unat n \<le> 2 ^ k" by (rule num_pages_to_order_bounds(1) [OF k])
    show "k \<le> i" if "unat n \<le> 2 ^ i" for i by (rule num_pages_to_order_le [OF k that])
  qed
  then show ?thesis using k by simp
qed

theorem num_pages_to_order_least_witness:
  "num_pages_to_order 5 = Some (LEAST i. unat (5::u64) \<le> 2 ^ i)"
proof -
  have "(5::u64) \<noteq> 0" by simp
  from num_pages_to_order_least [OF this] show ?thesis by blast
qed

text \<open>
  A request of more than \<open>2 ^ 52\<close> pages passes the test for the end of the array of free
  lists, and \<^verbatim>\<open>bbuddy_palloc\<close> reads beyond it.
\<close>

theorem bbuddy_palloc_too_large:
  assumes "2 ^ 52 < unat n"
  shows "bbuddy_palloc b n = None"
proof -
  have "n \<noteq> 0" using assms by auto
  then obtain k where k: "num_pages_to_order n = Some k" using num_pages_to_order_Some by blast
  have "(2::nat) ^ 52 < 2 ^ k" using num_pages_to_order_bounds(1) [OF k] assms by linarith
  then have "52 < k" using power_less_imp_less_exp [of 2 52 k] by simp
  moreover from this have "palloc_find b k = k" by (subst palloc_find.simps) simp
  ultimately show ?thesis by (simp add: bbuddy_palloc_def k)
qed

theorem bbuddy_palloc_too_large_witness: "bbuddy_palloc zero_mem 4503599627370497 = None"
  by (rule bbuddy_palloc_too_large) simp

end
