(* ===== verification/UkAllocTop.thy ===== *)
theory UkAllocTop
  imports UkAllocPages BbuddyTop
begin

text \<open>
  The default configuration: \<^verbatim>\<open>malloc\<close> and friends on the buddy allocator, as
  \<^verbatim>\<open>uk_allocbbuddy_init\<close> registers them. Clients allocate, resize, release and write their objects
  in any order.
\<close>

interpretation hp: page_heap binv "\<lambda>b. free_pages b" bb_span bb_legal bbuddy_palloc bbuddy_pfree
  by unfold_locales

section \<open>The registered allocator\<close>

definition bb_alloc :: "bbpalloc uk_alloc" where
  "bb_alloc = uk_alloc_init_palloc bbuddy_palloc bbuddy_pfree bbuddy_addmem"

definition bb_pages :: "bbpalloc uk_alloc" where
  "bb_pages = no_alloc\<lparr>palloc_f := Some (lift_palloc bbuddy_palloc), pfree_f := Some (lift_pfree bbuddy_pfree),
     addmem_f := Some (lift_addmem bbuddy_addmem)\<rparr>"

lemma bb_pages_on [simp]: "on_pages bbuddy_palloc bbuddy_pfree bb_pages"
  by (simp add: on_pages_def bb_pages_def)

lemma bb_alloc_calls:
  "uk_malloc (Some bb_alloc) h z = uk_malloc_ifpages (Some bb_pages) h z"
  "uk_free (Some bb_alloc) h p = uk_free_ifpages (Some bb_pages) h p"
  "uk_realloc (Some bb_alloc) h p z = uk_realloc_ifpages (Some bb_pages) h p z"
  "uk_posix_memalign (Some bb_alloc) h al z = uk_posix_memalign_ifpages (Some bb_pages) h al z"
  by (simp_all add: uk_malloc_def uk_do_malloc_def uk_free_def uk_do_free_def uk_realloc_def uk_do_realloc_def
      uk_posix_memalign_def uk_do_posix_memalign_def bb_alloc_def uk_alloc_init_palloc_def bb_pages_def Let_def)

lemma bb_alloc_calloc:
  assumes "0 < unat z" "unat n * unat z < 2 ^ 64"
  shows "uk_calloc (Some bb_alloc) h n z =
    do { (h1, p) \<leftarrow> uk_malloc_ifpages (Some bb_pages) h (n * z);
         if p = 0 then Some (h1, 0) else Some (memset_bytes p 0 (n * z) h1, p) }"
proof -
  have "unat n \<le> unat (- 1 :: u64) div unat z"
    using assms by (simp add: less_eq_div_iff_mult_less_eq unat_max_64)
  then have "\<not> n > - 1 div z" by (simp add: word_less_nat_alt unat_div not_less)
  moreover have "z \<noteq> 0" using assms(1) by auto
  ultimately show ?thesis
    by (simp add: uk_calloc_def uk_do_calloc_def bb_alloc_def uk_alloc_init_palloc_def bb_pages_def Let_def
        uk_calloc_compat_def uk_malloc_def uk_do_malloc_def)
qed

section \<open>Clients\<close>

text \<open>A state is the heap with the set of live objects, as address and requested size.\<close>

inductive ua_step :: "bbpalloc heap \<times> (u64 \<times> u64) set \<Rightarrow> bbpalloc heap \<times> (u64 \<times> u64) set \<Rightarrow> bool" where
  malloc: "uk_malloc (Some bb_alloc) h z = Some (h', p) \<Longrightarrow> 0 < unat z \<Longrightarrow> unat z + 4112 \<le> 2 ^ 64 \<Longrightarrow>
    ua_step (h, Os) (h', if p = 0 then Os else insert (p, z) Os)"
| calloc: "uk_calloc (Some bb_alloc) h n z = Some (h', p) \<Longrightarrow> 0 < unat n * unat z \<Longrightarrow>
    unat n * unat z + 4112 \<le> 2 ^ 64 \<Longrightarrow> ua_step (h, Os) (h', if p = 0 then Os else insert (p, n * z) Os)"
| memalign: "uk_posix_memalign (Some bb_alloc) h (2 ^ j) z = Some (h', r) \<Longrightarrow> 3 \<le> j \<Longrightarrow> j < 64 \<Longrightarrow>
    0 < unat z \<Longrightarrow> unat z + 2 ^ j + 16384 \<le> 2 ^ 64 \<Longrightarrow>
    ua_step (h, Os) (h', case r of Inl _ \<Rightarrow> Os | Inr p \<Rightarrow> insert (p, z) Os)"
| realloc: "uk_realloc (Some bb_alloc) h p z = Some (h', q) \<Longrightarrow> (p, y) \<in> Os \<Longrightarrow> 0 < unat z \<Longrightarrow>
    unat z + 4112 \<le> 2 ^ 64 \<Longrightarrow> ua_step (h, Os) (h', if q = 0 then Os else insert (q, z) (Os - {(p, y)}))"
| release: "uk_free (Some bb_alloc) h p = Some h' \<Longrightarrow> (p, z) \<in> Os \<Longrightarrow> ua_step (h, Os) (h', Os - {(p, z)})"
| store: "(p, z) \<in> Os \<Longrightarrow> unat i < unat z \<Longrightarrow> ua_step (h, Os) (h\<lparr>bytes := (bytes h)(p + i := v)\<rparr>, Os)"

lemma calloc_ok:
  assumes h: "hp_ok bb.holds h Os" and z: "0 < unat n * unat z" "unat n * unat z + 4112 \<le> 2 ^ 64"
  shows "\<exists>h' p. uk_calloc (Some bb_alloc) h n z = Some (h', p) \<and> errno_v h' = errno_v h \<and>
    (if p = 0 then h' = h
     else hp_ok bb.holds h' (insert (p, n * z) Os) \<and> (p, n * z) \<notin> Os \<and>
       hp.hpages h' (insert (p, n * z) Os) = hp.hpages h Os \<and>
       (\<forall>i. unat i < unat n * unat z \<longrightarrow> bytes h' (p + i) = 0) \<and> (\<forall>ob \<in> Os. hp.same_obj h h' ob))"
proof -
  have t: "unat (n * z) = unat n * unat z" using z(2) by (simp add: unat_word_ariths)
  obtain h1 p where m: "uk_malloc_ifpages (Some bb_pages) h (n * z) = Some (h1, p)" "bytes h1 = bytes h"
    "errno_v h1 = errno_v h"
    "if p = 0 then h1 = h else hp_ok bb.holds h1 (insert (p, n * z) Os) \<and> (p, n * z) \<notin> Os \<and> 16 dvd unat p \<and>
       hp.hpages h1 (insert (p, n * z) Os) = hp.hpages h Os"
    using hp.malloc_ifpages_ok [OF bb_pages_on h, of "n * z"] z t by auto
  have "unat n * unat z < 2 ^ 64" "0 < unat z" using z by (auto intro: Nat.gr0I)
  note eq = bb_alloc_calloc [OF this(2,1), of h, unfolded m(1), simplified]
  show ?thesis
  proof (cases "p = 0")
    case False
    then have h1: "hp_ok bb.holds h1 (insert (p, n * z) Os)" "(p, n * z) \<notin> Os"
      "hp.hpages h1 (insert (p, n * z) Os) = hp.hpages h Os" using m(4) by auto
    let ?h = "memset_bytes p 0 (n * z) h1"
    have pz: "unat p + unat (n * z) < 2 ^ 64" using hp.fits_obj(1) [OF h1(1)] by blast
    have "bytes ?h (p + i) = 0" if "unat i < unat n * unat z" for i
      using that by (simp add: memset_bytes_def word_less_nat_alt t)
    moreover have "hp.same_obj h ?h (q, y)" if "(q, y) \<in> Os" for q y
      unfolding hp.same_obj_def
    proof (intro allI impI)
      fix i assume i: "unat (i::u64) < unat (snd (q, y))"
      have "unat q + unat y < 2 ^ 64" using hp.fits_obj(1) [OF h that] .
      then have u: "unat (q + i) = unat q + unat i" using i by (subst unat_add_64) simp_all
      have "unat q + unat y \<le> unat p \<or> unat p + unat (n * z) \<le> unat q"
        using hp.objects_disjoint [OF h1(1), of q y p "n * z"] that h1(2) by auto
      then have "bytes ?h (q + i) = bytes h1 (q + i)" using u i pz by (intro memset_outside) auto
      then show "bytes ?h (fst (q, y) + i) = bytes h (fst (q, y) + i)" by (simp add: m(2))
    qed
    moreover have "errno_v ?h = errno_v h" by (simp add: memset_bytes_def m(3))
    ultimately show ?thesis using eq False h1 by auto
  qed (use eq m in simp)
qed

lemma ua_step_ok:
  assumes "ua_step (h, Os) (h', Os')" "hp_ok bb.holds h Os"
  shows "hp_ok bb.holds h' Os' \<and> hp.hpages h' Os' = hp.hpages h Os"
  using assms(1)
proof (cases rule: ua_step.cases)
  case (malloc z p)
  then show ?thesis using hp.malloc_ifpages_ok [OF bb_pages_on assms(2), of z] assms(2)
    by (auto simp: bb_alloc_calls split: if_splits)
next
  case (calloc n z p)
  then show ?thesis using calloc_ok [OF assms(2), of n z] assms(2) by (auto split: if_splits)
next
  case (memalign j z r)
  then show ?thesis using hp.memalign_ifpages_ok [OF bb_pages_on assms(2), of "2 ^ j" j z] assms(2)
    by (auto simp: bb_alloc_calls split: sum.splits)
next
  case (realloc p z q y)
  then show ?thesis using hp.realloc_ifpages_ok [OF bb_pages_on assms(2), of p y z] assms(2)
    by (auto simp: bb_alloc_calls split: if_splits)
next
  case (release p z)
  then show ?thesis using hp.free_ifpages_ok [OF bb_pages_on assms(2), of p z] by (auto simp: bb_alloc_calls)
next
  case (store p z i v)
  then show ?thesis using assms(2) by (simp add: hp_ok_bytes hp.hpages_def blkof_def)
qed

lemma ua_run_ok:
  assumes "ua_step\<^sup>*\<^sup>* s s'" "hp_ok bb.holds (fst s) (snd s)"
  shows "hp_ok bb.holds (fst s') (snd s') \<and> hp.hpages (fst s') (snd s') = hp.hpages (fst s) (snd s)"
  using assms
proof (induction rule: rtranclp_induct)
  case (step y z)
  then show ?case using ua_step_ok [of "fst y" "snd y" "fst z" "snd z"] by simp
qed simp

lemma hp_ok_start: "hp_ok bb.holds h {} \<longleftrightarrow> binv (priv h)"
  by (simp add: hp_ok_def)

lemma same_objs_iff:
  "(\<forall>ob \<in> A. hp.same_obj h h' ob) \<longleftrightarrow>
   (\<forall>(r, x) \<in> A. \<forall>i. unat i < unat x \<longrightarrow> bytes h' (r + i) = bytes h (r + i))"
  by (auto simp: hp.same_obj_def split_beta)

section \<open>A concrete heap\<close>

definition heap_on :: "bbpalloc \<Rightarrow> bbpalloc heap" where
  "heap_on b = \<lparr>priv = b, md = (\<lambda>_. \<lparr>num_pages = 0, base = 0\<rparr>), mdm = (\<lambda>_. \<lparr>msize = 0, mbase = 0\<rparr>),
     bytes = (\<lambda>x. ucast x), errno_v = None\<rparr>"

lemma example_malloc:
  assumes "binv (priv h)" "p \<in> free_pages (priv h)"
  shows "\<exists>h' q r. uk_malloc (Some bb_alloc) h 100 = Some (h', q) \<and> q \<noteq> 0 \<and> binv (priv h') \<and>
    free_pages (priv h') = free_pages (priv h) - {r}"
proof -
  obtain b' a where b': "bbuddy_palloc (priv h) 1 = Some (b', a)" and p: "palloc_post (priv h) 0 b' a"
    using example_alloc [OF assms] by blast
  have n: "size_to_num_pages 116 = 1"
    using unat_size_to_num_pages [of 116] by (simp add: word_unat_eq_iff)
  have d: "4096 dvd unat a" using p by (simp add: palloc_post_def page_aligned_def)
  have "a + 16 \<noteq> 0"
  proof
    assume "a + 16 = 0"
    then have "a = - 16" by (simp add: eq_neg_iff_add_eq_0)
    then show False using d by simp
  qed
  then have "uk_malloc (Some bb_alloc) h 100 =
      Some (h\<lparr>priv := b', md := (md h)(a := \<lparr>num_pages = 1, base = a\<rparr>)\<rparr>, a + 16)" "a + 16 \<noteq> 0"
    using b' p by (simp_all add: bb_alloc_calls uk_malloc_ifpages_def n uk_palloc_on [OF bb_pages_on] lift_palloc_def palloc_post_def)
  then show ?thesis using p by (auto simp: palloc_post_def)
qed

lemma example_heap:
  "\<exists>h0 :: bbpalloc heap. binv (priv h0) \<and> free_pages (priv h0) = {4 ..< 16}"
proof -
  obtain b where "binv b" "free_pages b = {4 ..< 16}" using example_init by blast
  then show ?thesis by (intro exI [of _ "heap_on b"]) (simp add: heap_on_def)
qed

lemma example_objects:
  "\<exists>h0 h p q. binv (priv h0) \<and> ua_step\<^sup>*\<^sup>* (h0, {}) (h, {(p, 100), (q, 100)}) \<and> p \<noteq> q"
proof -
  obtain h0 :: "bbpalloc heap" where h0: "binv (priv h0)" "free_pages (priv h0) = {4 ..< 16}" using example_heap by blast
  obtain h1 p r where h1: "uk_malloc (Some bb_alloc) h0 100 = Some (h1, p)" "p \<noteq> 0" "binv (priv h1)"
    "free_pages (priv h1) = {4 ..< 16} - {r}"
    using example_malloc [OF h0(1), of 5] unfolding h0(2) by auto
  have "(4::nat) \<in> free_pages (priv h1) \<or> 5 \<in> free_pages (priv h1)" using h1(4) by auto
  then obtain h2 q where h2: "uk_malloc (Some bb_alloc) h1 100 = Some (h2, q)" "q \<noteq> 0"
    using example_malloc [OF h1(3)] by metis
  have s1: "ua_step (h0, {}) (h1, {(p, 100)})" using ua_step.malloc [OF h1(1), of "{}"] h1(2) by simp
  have s2: "ua_step (h1, {(p, 100)}) (h2, {(p, 100), (q, 100)})"
    using ua_step.malloc [OF h2(1), of "{(p, 100)}"] h2(2) by (simp add: insert_commute)
  have ok: "hp_ok bb.holds h1 {(p, 100)}" using ua_step_ok [OF s1] h0(1) by (simp add: hp_ok_start)
  have "(q, 100) \<notin> {(p, 100)}"
    using hp.malloc_ifpages_ok [OF bb_pages_on ok, of 100] h2 by (auto simp: bb_alloc_calls split: if_splits)
  then have "p \<noteq> q" by auto
  then show ?thesis using h0(1) s1 s2 by (metis (no_types, opaque_lifting) rtranclp.rtrancl_refl rtranclp.rtrancl_into_rtrancl)
qed

section \<open>Properties\<close>

text \<open>
  C8: Whatever clients do with malloc, calloc, posix_memalign, realloc and free, two live objects
  never overlap, and no object overlaps the metadata the allocator keeps for any object.
\<close>

theorem ua_objects_disjoint:
  assumes "binv (priv h0)" "ua_step\<^sup>*\<^sup>* (h0, {}) (h, Os)" "(p, z) \<in> Os" "(q, y) \<in> Os"
  shows "((p, z) \<noteq> (q, y) \<longrightarrow> unat p + unat z \<le> unat q \<or> unat q + unat y \<le> unat p) \<and>
    (\<exists>m. uk_get_metadata p = Some m \<and> (unat m + 16 \<le> unat q \<or> unat q + unat y \<le> unat m))"
proof -
  have ok: "hp_ok bb.holds h Os" using ua_run_ok [OF assms(2)] assms(1) by (simp add: hp_ok_start)
  have "uk_get_metadata p = Some (meta_addr p)"
    using hp.fits_obj(2) [OF ok assms(3)] by (simp add: uk_get_metadata_eq word_le_nat_alt)
  then show ?thesis using hp.objects_disjoint [OF ok assms(3,4)] hp.metadata_apart [OF ok assms(3,4)] by blast
qed

theorem ua_objects_disjoint_witness:
  "\<exists>h0 h p q. binv (priv h0) \<and> ua_step\<^sup>*\<^sup>* (h0, {}) (h, {(p, 100), (q, 100)}) \<and>
    (unat p + 100 \<le> unat q \<or> unat q + 100 \<le> unat p)"
proof -
  obtain h0 h p q where r: "binv (priv h0)" "ua_step\<^sup>*\<^sup>* (h0, {}) (h, {(p, 100), (q, 100)})" "p \<noteq> q"
    using example_objects by metis
  have "unat p + 100 \<le> unat q \<or> unat q + 100 \<le> unat p"
    using ua_objects_disjoint [OF r(1,2), of p 100 q 100] r(3) by simp
  with r show ?thesis by metis
qed

text \<open>
  C9: The heap does not leak: once all objects are released, whatever happened before, exactly
  the pages that were free at the start are free.
\<close>

theorem ua_no_leak:
  assumes "binv (priv h0)" "ua_step\<^sup>*\<^sup>* (h0, {}) (h, {})"
  shows "binv (priv h) \<and> free_pages (priv h) = free_pages (priv h0)"
  using ua_run_ok [OF assms(2)] assms(1) by (simp add: hp_ok_start hp.hpages_def bb.pages_def)

theorem ua_no_leak_witness:
  "\<exists>h0 h1 h2 p. binv (priv h0) \<and> uk_malloc (Some bb_alloc) h0 100 = Some (h1, p) \<and> p \<noteq> 0 \<and>
    uk_free (Some bb_alloc) h1 p = Some h2 \<and> free_pages (priv h2) = {4 ..< 16}"
proof -
  obtain h0 :: "bbpalloc heap" where h0: "binv (priv h0)" "free_pages (priv h0) = {4 ..< 16}" using example_heap by blast
  obtain h1 p r where h1: "uk_malloc (Some bb_alloc) h0 100 = Some (h1, p)" "p \<noteq> 0"
    using example_malloc [OF h0(1), of 5] unfolding h0(2) by auto
  have s1: "ua_step (h0, {}) (h1, {(p, 100)})" using ua_step.malloc [OF h1(1), of "{}"] h1(2) by simp
  have ok: "hp_ok bb.holds h1 {(p, 100)}" using ua_step_ok [OF s1] h0(1) by (simp add: hp_ok_start)
  obtain h2 where h2: "uk_free (Some bb_alloc) h1 p = Some h2"
    using hp.free_ifpages_ok [OF bb_pages_on ok, of p 100] by (auto simp: bb_alloc_calls)
  have s2: "ua_step (h1, {(p, 100)}) (h2, {})" using ua_step.release [OF h2, of 100 "{(p, 100)}"] by simp
  have "ua_step\<^sup>*\<^sup>* (h0, {}) (h2, {})" using s1 s2 by (meson converse_rtranclp_into_rtranclp rtranclp.rtrancl_refl)
  from ua_no_leak [OF h0(1) this] show ?thesis using h0 h1 h2 by metis
qed



text \<open>
  \<^verbatim>\<open>posix_memalign\<close> with an alignment that is a power of two of at least 8 (below, at and above
  the page size) does not fail its underflow assertion; it returns \<^verbatim>\<open>ENOMEM\<close> with the heap unchanged,
  or a fresh object at a multiple of the alignment that the other operations can use like any other.
\<close>

theorem uk_posix_memalign_correct:
  assumes "hp_ok bb.holds h Os" "3 \<le> j" "j < 64" "0 < unat z" "unat z + 2 ^ j + 16384 \<le> 2 ^ 64"
  shows "\<exists>h' r. uk_posix_memalign (Some bb_alloc) h (2 ^ j) z = Some (h', r) \<and> bytes h' = bytes h \<and>
    (case r of Inl e \<Rightarrow> e = ENOMEM \<and> h' = h
     | Inr p \<Rightarrow> hp_ok bb.holds h' (insert (p, z) Os) \<and> (p, z) \<notin> Os \<and> 2 ^ j dvd unat p)"
  using hp.memalign_ifpages_ok [OF bb_pages_on assms(1) refl assms(2-5)]
  by (fastforce simp: bb_alloc_calls split: sum.splits)

theorem uk_posix_memalign_correct_witness:
  "\<exists>h h' r. hp_ok bb.holds h {} \<and> uk_posix_memalign (Some bb_alloc) h (2 ^ 13) 100 = Some (h', r) \<and>
    (\<forall>p. r = Inr p \<longrightarrow> 8192 dvd unat p)"
proof -
  obtain h0 :: "bbpalloc heap" where h0: "binv (priv h0)" using example_heap by blast
  then have ok: "hp_ok bb.holds h0 {}" by (simp add: hp_ok_start)
  obtain h' r where "uk_posix_memalign (Some bb_alloc) h0 (2 ^ 13) 100 = Some (h', r)"
    "case r of Inl e \<Rightarrow> e = ENOMEM \<and> h' = h0 | Inr p \<Rightarrow> hp_ok bb.holds h' (insert (p, 100) {}) \<and> (p, 100 :: u64) \<notin> {} \<and> 2 ^ 13 dvd unat p"
    using uk_posix_memalign_correct [OF ok, of 13 100] by auto
  then show ?thesis using ok by (intro exI [of _ h0] exI [of _ h'] exI [of _ r]) auto
qed

text \<open>
  \<^verbatim>\<open>calloc\<close> returns \<^verbatim>\<open>NULL\<close> with the heap unchanged, or a fresh object of the product of both sizes,
  full of zeroes; all other objects keep their contents.
\<close>

theorem uk_calloc_correct:
  assumes "hp_ok bb.holds h Os" "0 < unat n * unat z" "unat n * unat z + 4112 \<le> 2 ^ 64"
  shows "\<exists>h' p. uk_calloc (Some bb_alloc) h n z = Some (h', p) \<and>
    (if p = 0 then h' = h
     else hp_ok bb.holds h' (insert (p, n * z) Os) \<and> (p, n * z) \<notin> Os \<and>
       (\<forall>i. unat i < unat n * unat z \<longrightarrow> bytes h' (p + i) = 0) \<and>
       (\<forall>(r, x) \<in> Os. \<forall>i. unat i < unat x \<longrightarrow> bytes h' (r + i) = bytes h (r + i)))"
  using calloc_ok [OF assms] unfolding same_objs_iff by (metis (no_types, lifting))

theorem uk_calloc_correct_witness:
  "\<exists>h h' p. hp_ok bb.holds h {} \<and> uk_calloc (Some bb_alloc) h 10 20 = Some (h', p) \<and>
    (p \<noteq> 0 \<longrightarrow> bytes h' (p + 199) = 0)"
proof -
  obtain h0 :: "bbpalloc heap" where h0: "binv (priv h0)" using example_heap by blast
  then have ok: "hp_ok bb.holds h0 {}" by (simp add: hp_ok_start)
  obtain h' p where "uk_calloc (Some bb_alloc) h0 10 20 = Some (h', p)" "p \<noteq> 0 \<longrightarrow> bytes h' (p + 199) = 0"
    using uk_calloc_correct [OF ok, of 10 20] by (auto split: if_splits)
  with ok show ?thesis by metis
qed

text \<open>
  A request within a page of the largest size passes \<^verbatim>\<open>uk_malloc_ifpages\<close>'s overflow check, but
  the rounding to pages overflows to zero pages, and the page allocator's assertion fails.
\<close>

theorem uk_malloc_huge:
  assumes "unat z + 16 < 2 ^ 64" "2 ^ 64 < unat z + 16 + 4096"
  shows "uk_malloc (Some bb_alloc) h z = None"
proof -
  have r: "unat (16 + z) = 16 + unat z" using assms(1) by (subst unat_add_64) simp_all
  have "unat (16 + z + PAGE_SIZE - 1) = unat (16 + z) + 4095 - 2 ^ 64"
    using assms r unat_word_ariths(1) [of "16 + z" 4095] by (simp add: add.assoc mod_if)
  then have "unat (ALIGN_UP (16 + z) PAGE_SIZE) = 0"
    using assms r unat_and_not_mask [of "16 + z + PAGE_SIZE - 1" 12]
    by (simp add: ALIGN_UP_def mask_eq_exp_minus_1)
  then have n: "size_to_num_pages (16 + z) = 0" by (simp add: size_to_num_pages_def unat_eq_zero)
  have "\<not> (z = 0 \<or> 16 + z < z)" using assms r by (auto simp: word_less_nat_alt)
  then show ?thesis
    by (simp add: bb_alloc_calls uk_malloc_ifpages_def Let_def n uk_palloc_on [OF bb_pages_on] lift_palloc_def
        bbuddy_palloc_def num_pages_to_order_def)
qed

theorem uk_malloc_huge_witness: "uk_malloc (Some bb_alloc) (heap_on zero_mem) 0xFFFFFFFFFFFFF800 = None"
  by (rule uk_malloc_huge) simp_all

end
