(* ===== verification/Region.thy ===== *)
theory Region
  imports UkAllocPages
begin

text \<open>
  The region allocator \<^verbatim>\<open>lib/ukallocregion/region.c\<close>: a bump pointer between \<^verbatim>\<open>heap_base\<close> and
  \<^verbatim>\<open>heap_top\<close>, without release. The operations, the allocator they are registered as, and that
  the objects handed out lie in the region one after the other.
\<close>

section \<open>Operations\<close>

record uk_allocregion =
  heap_top :: u64
  heap_base :: u64

definition uk_allocregion_malloc :: "uk_allocregion \<Rightarrow> u64 \<Rightarrow> uk_allocregion \<times> u64" where
  "uk_allocregion_malloc b sz =
     (let intptr = ALIGN_UP (heap_base b) 8;
          newbase = intptr + sz
      in if newbase > heap_top b then (b, 0)
         else if newbase \<le> heap_base b then (b, 0)
         else (b\<lparr>heap_base := newbase\<rparr>, intptr))"

text \<open>\<open>None\<close> for a failed assertion on the alignment; \<open>Inl\<close> with the pointer that \<^verbatim>\<open>*memptr\<close> is set to
  in the error cases where it is written.\<close>

definition uk_allocregion_posix_memalign ::
  "uk_allocregion \<Rightarrow> u64 \<Rightarrow> u64 \<Rightarrow> (uk_allocregion \<times> (errno + u64)) option" where
  "uk_allocregion_posix_memalign b align sz =
     do {
       uk_assert ((align - 1) AND align = 0);
       uk_assert (align mod 8 = 0);
       if sz = 0 then Some (b, Inl EINVAL)
       else
         let intptr = ALIGN_UP (heap_base b) align;
             newbase = intptr + sz
         in if newbase > heap_top b then Some (b, Inl ENOMEM)
            else if newbase \<le> heap_base b then Some (b, Inl EINVAL)
            else Some (b\<lparr>heap_base := newbase\<rparr>, Inr intptr)
     }"

definition uk_allocregion_free :: "uk_allocregion \<Rightarrow> u64 \<Rightarrow> uk_allocregion" where
  "uk_allocregion_free b ptr = b"

definition uk_allocregion_addmem :: "uk_allocregion \<Rightarrow> u64 \<Rightarrow> u64 \<Rightarrow> uk_allocregion" where
  "uk_allocregion_addmem b bs sz = b"

text \<open>\<^verbatim>\<open>sizeof(struct uk_alloc)\<close> is 80 and \<^verbatim>\<open>sizeof(struct uk_allocregion)\<close> 16.\<close>

definition uk_allocregion_init :: "u64 \<Rightarrow> u64 \<Rightarrow> uk_allocregion option" where
  "uk_allocregion_init bs len =
     (let metalen = 80 + 16 in
      if len \<le> PAGE_SIZE then None
      else if metalen > len then None
      else Some \<lparr>heap_top = bs + len, heap_base = bs + metalen\<rparr>)"

text \<open>The allocator as it is registered, with the compatibility functions for the rest.\<close>

definition region_alloc :: "uk_allocregion uk_alloc" where
  "region_alloc =
     (let mf = (\<lambda>h sz. case uk_allocregion_malloc (priv h) sz of (b, p) \<Rightarrow> Some (h\<lparr>priv := b\<rparr>, p));
          af = (\<lambda>h al sz. do { (b, r) \<leftarrow> uk_allocregion_posix_memalign (priv h) al sz; Some (h\<lparr>priv := b\<rparr>, r) });
          ff = (\<lambda>h p. Some (h\<lparr>priv := uk_allocregion_free (priv h) p\<rparr>));
          a0 = no_alloc\<lparr>malloc_f := mf, posix_memalign_f := af, free_f := ff\<rparr>
      in uk_alloc_init_malloc mf (uk_calloc_compat (Some a0)) (uk_realloc_compat (Some a0)) ff af
           (uk_memalign_compat (Some a0)) None)"

section \<open>Objects\<close>

definition region_ok :: "uk_allocregion \<Rightarrow> bool" where
  "region_ok b \<longleftrightarrow> heap_base b \<le> heap_top b \<and> 0 < unat (heap_base b) \<and> unat (heap_top b) < 2 ^ 63"

text \<open>An object lies between the old and the new \<^verbatim>\<open>heap_base\<close>.\<close>

lemma unat_align_base:
  assumes "unat x < 2 ^ 63" "k < 63"
  shows "unat x \<le> unat (ALIGN_UP x (2 ^ k))" "unat (ALIGN_UP x (2 ^ k)) < unat x + 2 ^ k"
    "2 ^ k dvd unat (ALIGN_UP x (2 ^ k))"
proof -
  have "(2::nat) ^ k < 2 ^ 63" using assms(2) by (intro power_strict_increasing) simp_all
  then have u: "unat (ALIGN_UP x (2 ^ k)) = (unat x + 2 ^ k - 1) div 2 ^ k * 2 ^ k"
    using assms by (subst unat_ALIGN_UP) simp_all
  show "unat x \<le> unat (ALIGN_UP x (2 ^ k))" "unat (ALIGN_UP x (2 ^ k)) < unat x + 2 ^ k"
    "2 ^ k dvd unat (ALIGN_UP x (2 ^ k))"
    using ceil_mult_bounds [of "2 ^ k" "unat x"] by (simp_all add: u)
qed

lemma bump_ok:
  assumes b: "region_ok b" and k: "k < 62" and z: "0 < unat z" "unat z < 2 ^ 62"
  defines "p \<equiv> ALIGN_UP (heap_base b) (2 ^ k)"
  shows "unat (p + z) = unat p + unat z" "unat (heap_base b) \<le> unat p" "2 ^ k dvd unat p" "p \<noteq> 0"
    "\<not> p + z \<le> heap_base b"
proof -
  have hb: "unat (heap_base b) < 2 ^ 63" using b by (simp add: region_ok_def word_le_nat_alt)
  have k62: "(2::nat) ^ k \<le> 2 ^ 61" using k by (intro power_increasing) simp_all
  note al = unat_align_base [OF hb, of k, folded p_def]
  show u: "unat (p + z) = unat p + unat z" using al k k62 z hb by (subst unat_add_64) simp_all
  show "unat (heap_base b) \<le> unat p" "2 ^ k dvd unat p" using al k by auto
  have "0 < unat p" using al(1) k b by (simp add: region_ok_def)
  then show "p \<noteq> 0" by auto
  show "\<not> p + z \<le> heap_base b" using u al(1) k z(1) by (simp add: word_le_nat_alt)
qed

text \<open>Requests: a size for \<^verbatim>\<open>malloc\<close>, an alignment \<open>2 ^ k\<close> and a size for \<^verbatim>\<open>posix_memalign\<close>.\<close>

datatype region_req = Malloc u64 | Memalign nat u64

fun region_req_ok :: "region_req \<Rightarrow> bool" where
  "region_req_ok (Malloc z) \<longleftrightarrow> 0 < unat z \<and> unat z < 2 ^ 62"
| "region_req_ok (Memalign k z) \<longleftrightarrow> 3 \<le> k \<and> k < 62 \<and> 0 < unat z \<and> unat z < 2 ^ 62"

text \<open>Serving a list of requests; the objects are collected as address and size.\<close>

fun region_run :: "uk_allocregion \<Rightarrow> region_req list \<Rightarrow> (uk_allocregion \<times> (u64 \<times> u64) list) option" where
  "region_run b [] = Some (b, [])"
| "region_run b (Malloc z # rs) =
     (case uk_allocregion_malloc b z of (b', p) \<Rightarrow> do {
        (b'', os) \<leftarrow> region_run b' rs;
        Some (b'', if p = 0 then os else (p, z) # os) })"
| "region_run b (Memalign k z # rs) =
     do {
       (b', r) \<leftarrow> uk_allocregion_posix_memalign b (2 ^ k) z;
       (b'', os) \<leftarrow> region_run b' rs;
       Some (b'', case r of Inl _ \<Rightarrow> os | Inr p \<Rightarrow> (p, z) # os)
     }"

text \<open>Objects one after the other between two addresses.\<close>

fun laid_out :: "nat \<Rightarrow> (u64 \<times> u64) list \<Rightarrow> nat \<Rightarrow> bool" where
  "laid_out lo [] hi \<longleftrightarrow> lo \<le> hi"
| "laid_out lo ((p, z) # os) hi \<longleftrightarrow> lo \<le> unat p \<and> laid_out (unat p + unat z) os hi"

lemma region_malloc_ok:
  assumes b: "region_ok b" and z: "0 < unat z" "unat z < 2 ^ 62"
  shows "case uk_allocregion_malloc b z of (b', p) \<Rightarrow>
    region_ok b' \<and> heap_top b' = heap_top b \<and>
    (if p = 0 then b' = b else unat (heap_base b) \<le> unat p \<and> unat (heap_base b') = unat p + unat z \<and> 8 dvd unat p)"
proof -
  note bo = bump_ok [OF b _ z, of 3, simplified]
  show ?thesis using b bo
    by (auto simp: uk_allocregion_malloc_def Let_def region_ok_def word_le_nat_alt not_less)
qed

lemma region_memalign_ok:
  assumes b: "region_ok b" and k: "3 \<le> k" "k < 62" and z: "0 < unat z" "unat z < 2 ^ 62"
  shows "\<exists>b' r. uk_allocregion_posix_memalign b (2 ^ k) z = Some (b', r) \<and> region_ok b' \<and> heap_top b' = heap_top b \<and>
    (case r of Inl e \<Rightarrow> e = ENOMEM \<and> b' = b
     | Inr p \<Rightarrow> unat (heap_base b) \<le> unat p \<and> unat (heap_base b') = unat p + unat z \<and> 2 ^ k dvd unat p)"
proof -
  note bo = bump_ok [OF b k(2) z]
  have t: "(2 ^ k - 1) AND 2 ^ k = (0::u64)" "2 ^ k mod 8 = (0::u64)" using pow2_align_tests [OF refl k(1)] k(2) by auto
  have "z \<noteq> 0" using z(1) by auto
  then have eq: "uk_allocregion_posix_memalign b (2 ^ k) z =
     (let p = ALIGN_UP (heap_base b) (2 ^ k) in
      if p + z > heap_top b then Some (b, Inl ENOMEM) else Some (b\<lparr>heap_base := p + z\<rparr>, Inr p))"
    using bo t by (simp add: uk_allocregion_posix_memalign_def Let_def)
  show ?thesis using b bo unfolding eq
    by (auto simp: Let_def region_ok_def word_le_nat_alt not_less)
qed

lemma region_run_ok:
  assumes "region_ok b" "\<forall>r \<in> set rs. region_req_ok r"
  shows "\<exists>b' os. region_run b rs = Some (b', os) \<and> region_ok b' \<and> heap_top b' = heap_top b \<and>
    laid_out (unat (heap_base b)) os (unat (heap_base b'))"
  using assms
proof (induction rs arbitrary: b)
  case (Cons r rs)
  have rs: "\<forall>r \<in> set rs. region_req_ok r" using Cons.prems(2) by simp
  show ?case
  proof (cases r)
    case (Malloc z)
    obtain b1 p where m: "uk_allocregion_malloc b z = (b1, p)" by (cases "uk_allocregion_malloc b z")
    have mo: "region_ok b1" "heap_top b1 = heap_top b" "if p = 0 then b1 = b
        else unat (heap_base b) \<le> unat p \<and> unat (heap_base b1) = unat p + unat z"
      using region_malloc_ok [OF Cons.prems(1), of z] Cons.prems(2) Malloc m by (auto split: if_splits)
    then show ?thesis using Cons.IH [OF mo(1) rs] Malloc m by (auto split: if_splits)
  next
    case (Memalign k z)
    obtain b1 r' where m: "uk_allocregion_posix_memalign b (2 ^ k) z = Some (b1, r')" "region_ok b1" "heap_top b1 = heap_top b"
      "case r' of Inl e \<Rightarrow> e = ENOMEM \<and> b1 = b
       | Inr p \<Rightarrow> unat (heap_base b) \<le> unat p \<and> unat (heap_base b1) = unat p + unat z \<and> 2 ^ k dvd unat p"
      using region_memalign_ok [OF Cons.prems(1), of k z] Cons.prems(2) Memalign by auto
    then show ?thesis using Cons.IH [OF m(2) rs] Memalign by (auto split: sum.splits)
  qed
qed auto

section \<open>Properties\<close>

text \<open>
  An initialised region allocator serves any sequence of malloc and posix_memalign requests
  with sizes below \<open>2 ^ 62\<close> without a failing assertion, and the objects it hands out lie in the
  region one after the other, behind the descriptor and below the end.
\<close>

theorem region_objects_laid_out:
  assumes "uk_allocregion_init bs len = Some b" "unat bs + unat len < 2 ^ 63" "\<forall>r \<in> set rs. region_req_ok r"
  shows "\<exists>b' os. region_run b rs = Some (b', os) \<and> laid_out (unat bs + 96) os (unat bs + unat len)"
proof -
  have b: "b = \<lparr>heap_top = bs + len, heap_base = bs + 96\<rparr>" "4096 < unat len"
    using assms(1) by (auto simp: uk_allocregion_init_def word_less_nat_alt word_le_nat_alt split: if_splits)
  have t: "unat (bs + len) = unat bs + unat len" using assms(2) by (intro unat_add_64) simp
  have s: "unat (bs + 96) = unat bs + 96" using assms(2) b(2) by (subst unat_add_64) simp_all
  have "region_ok b" using b assms(2) by (simp add: region_ok_def t s word_le_nat_alt)
  then obtain b' os where r: "region_run b rs = Some (b', os)" "region_ok b'" "heap_top b' = heap_top b"
    "laid_out (unat (heap_base b)) os (unat (heap_base b'))" using region_run_ok assms(3) by blast
  have "unat (heap_base b') \<le> unat bs + unat len" using r(2,3) b(1) t by (simp add: region_ok_def word_le_nat_alt)
  moreover have "laid_out lo os hi \<Longrightarrow> hi \<le> hi' \<Longrightarrow> laid_out lo os hi'" for lo os hi hi'
    by (induction lo os hi rule: laid_out.induct) auto
  ultimately show ?thesis using r(1,4) b(1) s by auto
qed

theorem region_objects_laid_out_witness:
  "\<exists>b b' os. uk_allocregion_init 0x1000 0x2000 = Some b \<and>
    region_run b [Malloc 10, Memalign 4 20] = Some (b', os) \<and> laid_out 4192 os 12288"
proof -
  obtain b where b: "uk_allocregion_init 0x1000 0x2000 = Some b" by (simp add: uk_allocregion_init_def)
  then show ?thesis using region_objects_laid_out [OF b, of "[Malloc 10, Memalign 4 20]"] by simp
qed

text \<open>
  The overflow test compares with the old \<^verbatim>\<open>heap_base\<close> rather than with the aligned start of the
  object: a request of \<open>2 ^ 64 - 3\<close> bytes is granted when the region's base is one byte past a multiple of 8.
\<close>

theorem region_malloc_overflow:
  assumes "unat (heap_base b) mod 8 = 1" "heap_base b + 16 \<le> heap_top b" "unat (heap_base b) + 16 < 2 ^ 64"
  shows "\<exists>b' p. uk_allocregion_malloc b (- 3) = (b', p) \<and> p \<noteq> 0 \<and> heap_base b < heap_base b'"
proof -
  obtain q where q: "unat (heap_base b) = 8 * q + 1" using assms(1) by (metis mult_div_mod_eq)
  have al: "unat (ALIGN_UP (heap_base b) 8) = 8 * q + 8"
    using unat_ALIGN_UP [of 3 "heap_base b"] assms(3) by (simp add: q)
  have "unat (ALIGN_UP (heap_base b) 8 + (- 3)) = 8 * q + 5"
    using unat_sub_no_ovf [of 3 "ALIGN_UP (heap_base b) 8"] al by simp
  moreover have "unat (heap_base b + 16) = 8 * q + 17" using assms(3) q by (subst unat_add_64) simp_all
  moreover have "ALIGN_UP (heap_base b) 8 \<noteq> 0" using al by auto
  ultimately show ?thesis using assms(2) q
    by (auto simp: uk_allocregion_malloc_def Let_def word_less_nat_alt word_le_nat_alt)
qed

theorem region_malloc_overflow_witness:
  "\<exists>b' p. uk_allocregion_malloc \<lparr>heap_top = 0x2000, heap_base = 0x1001\<rparr> (- 3) = (b', p) \<and> p \<noteq> 0 \<and> 0x1001 < heap_base b'"
  using region_malloc_overflow [of "\<lparr>heap_top = 0x2000, heap_base = 0x1001\<rparr>"] by simp

end
