(* ===== verification/Ring.thy ===== *)
theory Ring
  imports UkPrelude
begin

text \<open>
  The lock-free ring of \<^verbatim>\<open>include/uk/ring.h\<close>. Each operation is a thread-local program: a program
  counter with the operation's local variables, and one transition per access to shared memory.
  Running the program alone gives the sequential operation; letting several threads take
  transitions in turn gives the concurrent ones. The bulk operations are modelled sequentially.

  The ring's array is a list; an access beyond it is \<open>None\<close>.
\<close>

section \<open>State\<close>

record 'a ring =
  prod_head :: u32
  prod_tail :: u32
  prod_size :: u32
  prod_mask :: u32
  drops :: u64
  cons_head :: u32
  cons_tail :: u32
  cons_size :: u32
  cons_mask :: u32
  br_ring :: "'a list"

definition ring_get :: "'a list \<Rightarrow> u32 \<Rightarrow> 'a option" where
  "ring_get xs i = (if unat i < length xs then Some (xs ! unat i) else None)"

definition ring_set :: "'a list \<Rightarrow> u32 \<Rightarrow> 'a \<Rightarrow> 'a list option" where
  "ring_set xs i v = (if unat i < length xs then Some (xs[unat i := v]) else None)"

text \<open>\<^verbatim>\<open>UK_RING_ALLOC_FN\<close>; the memory is \<open>mem\<close>, with whatever it held.\<close>

definition ring_alloc :: "u32 \<Rightarrow> u64 \<Rightarrow> 'a list \<Rightarrow> 'a ring option" where
  "ring_alloc cnt old_drops mem =
     do {
       uk_assert (POWER_OF_2 cnt);
       Some \<lparr>prod_head = 0, prod_tail = 0, prod_size = cnt, prod_mask = cnt - 1, drops = old_drops,
             cons_head = 0, cons_tail = 0, cons_size = cnt, cons_mask = cnt - 1, br_ring = mem\<rparr>
     }"

section \<open>Enqueue\<close>

datatype enq_pc =
    E_read_head
  | E_read_tail u32
  | E_test u32 u32
  | E_recheck_head u32 u32
  | E_recheck_tail u32 u32
  | E_cas u32
  | E_store u32
  | E_wait u32
  | E_publish u32
  | E_ret "errno + unit"

definition prod_next :: "'a ring \<Rightarrow> u32 \<Rightarrow> u32" where
  "prod_next r ph = (ph + 1) AND prod_mask r"

text \<open>
  The \<^verbatim>\<open>continue\<close> of the source jumps to the loop's condition, the compare-and-exchange; if that
  fails, the loop starts again.
\<close>

fun enq_step :: "'a \<Rightarrow> 'a ring \<Rightarrow> enq_pc \<Rightarrow> ('a ring \<times> enq_pc) option" where
  "enq_step v r E_read_head = Some (r, E_read_tail (prod_head r))"
| "enq_step v r (E_read_tail ph) = Some (r, E_test ph (cons_tail r))"
| "enq_step v r (E_test ph ct) =
     Some (r, if prod_next r ph = ct then E_recheck_head ph ct else E_cas ph)"
| "enq_step v r (E_recheck_head ph ct) =
     Some (r, if ph = prod_head r then E_recheck_tail ph ct else E_cas ph)"
| "enq_step v r (E_recheck_tail ph ct) =
     (if ct = cons_tail r then Some (r\<lparr>drops := drops r + 1\<rparr>, E_ret (Inl ENOBUFS))
      else Some (r, E_cas ph))"
| "enq_step v r (E_cas ph) =
     (if prod_head r = ph then Some (r\<lparr>prod_head := prod_next r ph\<rparr>, E_store ph)
      else Some (r, E_read_head))"
| "enq_step v r (E_store ph) = do { xs \<leftarrow> ring_set (br_ring r) ph v; Some (r\<lparr>br_ring := xs\<rparr>, E_wait ph) }"
| "enq_step v r (E_wait ph) = Some (r, if prod_tail r \<noteq> ph then E_wait ph else E_publish ph)"
| "enq_step v r (E_publish ph) = Some (r\<lparr>prod_tail := prod_next r ph\<rparr>, E_ret (Inr ()))"
| "enq_step v r (E_ret res) = Some (r, E_ret res)"

section \<open>Dequeue\<close>

datatype 'a deq_pc =
    D_read_head
  | D_test u32
  | D_cas u32
  | D_load u32
  | D_wait u32 'a
  | D_publish u32 'a
  | D_ret "'a option"

definition cons_next :: "'a ring \<Rightarrow> u32 \<Rightarrow> u32" where
  "cons_next r ch = (ch + 1) AND cons_mask r"

fun deq_step :: "'a ring \<Rightarrow> 'a deq_pc \<Rightarrow> ('a ring \<times> 'a deq_pc) option" where
  "deq_step r D_read_head = Some (r, D_test (cons_head r))"
| "deq_step r (D_test ch) = Some (r, if ch = prod_tail r then D_ret None else D_cas ch)"
| "deq_step r (D_cas ch) =
     (if cons_head r = ch then Some (r\<lparr>cons_head := cons_next r ch\<rparr>, D_load ch)
      else Some (r, D_read_head))"
| "deq_step r (D_load ch) = do { buf \<leftarrow> ring_get (br_ring r) ch; Some (r, D_wait ch buf) }"
| "deq_step r (D_wait ch buf) = Some (r, if cons_tail r \<noteq> ch then D_wait ch buf else D_publish ch buf)"
| "deq_step r (D_publish ch buf) = Some (r\<lparr>cons_tail := cons_next r ch\<rparr>, D_ret (Some buf))"
| "deq_step r (D_ret res) = Some (r, D_ret res)"

section \<open>The operations run alone\<close>

text \<open>Eight transitions complete either operation when no other thread interferes.\<close>

fun enq_run :: "nat \<Rightarrow> 'a \<Rightarrow> 'a ring \<Rightarrow> enq_pc \<Rightarrow> ('a ring \<times> (errno + unit)) option" where
  "enq_run n v r (E_ret res) = Some (r, res)"
| "enq_run 0 v r pc = None"
| "enq_run (Suc n) v r pc = do { (r', pc') \<leftarrow> enq_step v r pc; enq_run n v r' pc' }"

fun deq_run :: "nat \<Rightarrow> 'a ring \<Rightarrow> 'a deq_pc \<Rightarrow> ('a ring \<times> 'a option) option" where
  "deq_run n r (D_ret res) = Some (r, res)"
| "deq_run 0 r pc = None"
| "deq_run (Suc n) r pc = do { (r', pc') \<leftarrow> deq_step r pc; deq_run n r' pc' }"

definition ring_enqueue :: "'a ring \<Rightarrow> 'a \<Rightarrow> ('a ring \<times> (errno + unit)) option" where
  "ring_enqueue r v = enq_run 8 v r E_read_head"

definition ring_dequeue_mc :: "'a ring \<Rightarrow> ('a ring \<times> 'a option) option" where
  "ring_dequeue_mc r = deq_run 8 r D_read_head"

section \<open>Single consumer operations\<close>

text \<open>\<^verbatim>\<open>UK_RING_DEQUEUE_SC_FN\<close> compares with a local variable \<^verbatim>\<open>prod_tail\<close> it never sets; \<open>garbage\<close> is what it
  happens to hold.\<close>

definition ring_dequeue_sc :: "u32 \<Rightarrow> 'a ring \<Rightarrow> ('a ring \<times> 'a option) option" where
  "ring_dequeue_sc garbage r =
     (let ch = cons_head r; nx = cons_next r ch in
      if ch = garbage then Some (r, None)
      else do {
        buf \<leftarrow> ring_get (br_ring r) ch;
        Some (r\<lparr>cons_head := nx, cons_tail := nx\<rparr>, Some buf)
      })"

definition ring_advance_sc :: "'a ring \<Rightarrow> 'a ring" where
  "ring_advance_sc r =
     (let ch = cons_head r; nx = cons_next r ch in
      if ch = prod_tail r then r else r\<lparr>cons_head := nx, cons_tail := nx\<rparr>)"

definition ring_putback_sc :: "'a ring \<Rightarrow> 'a \<Rightarrow> 'a ring option" where
  "ring_putback_sc r v =
     do {
       uk_assert (cons_head r \<noteq> prod_tail r);
       xs \<leftarrow> ring_set (br_ring r) (cons_head r) v;
       Some (r\<lparr>br_ring := xs\<rparr>)
     }"

definition ring_peek :: "'a ring \<Rightarrow> 'a option option" where
  "ring_peek r =
     (if cons_head r = prod_tail r then Some None
      else do { buf \<leftarrow> ring_get (br_ring r) (cons_head r); Some (Some buf) })"

definition ring_peek_clear_sc :: "'a ring \<Rightarrow> 'a option option" where
  "ring_peek_clear_sc r =
     (if cons_head r = prod_tail r then Some None
      else do { ret \<leftarrow> ring_get (br_ring r) (cons_head r); Some (Some ret) })"

definition ring_full :: "'a ring \<Rightarrow> bool" where
  "ring_full r \<longleftrightarrow> (prod_head r + 1) AND prod_mask r = cons_tail r"

definition ring_empty :: "'a ring \<Rightarrow> bool" where
  "ring_empty r \<longleftrightarrow> cons_head r = prod_tail r"

definition ring_count :: "'a ring \<Rightarrow> u32" where
  "ring_count r = (prod_size r + prod_tail r - cons_tail r) AND prod_mask r"

section \<open>Bulk operations\<close>

text \<open>The results: new ring, number of elements, old head, new head, free entries.\<close>

definition move_prod_head :: "'a ring \<Rightarrow> u32 \<Rightarrow> 'a ring \<times> u32 \<times> u32 \<times> u32 \<times> u32" where
  "move_prod_head r n =
     (let old_head = prod_head r;
          free_entries = prod_size r + cons_tail r - old_head;
          n' = (if n > free_entries then free_entries else n)
      in if n' = 0 then (r, 0, old_head, old_head, free_entries)
         else (r\<lparr>prod_head := old_head + n'\<rparr>, n', old_head, old_head + n', free_entries))"

definition move_cons_head :: "'a ring \<Rightarrow> u32 \<Rightarrow> 'a ring \<times> u32 \<times> u32 \<times> u32 \<times> u32" where
  "move_cons_head r n =
     (let old_head = cons_head r;
          entries = prod_tail r - old_head;
          n' = (if n > entries then entries else n)
      in if n' = 0 then (r, 0, old_head, old_head, entries)
         else (r\<lparr>cons_head := old_head + n'\<rparr>, n', old_head, old_head + n', entries))"

text \<open>
  Copying between arrays, as the loops do it: four elements a turn, the rest by falling through a
  \<^verbatim>\<open>switch\<close>. \<open>cpy1\<close> is one assignment \<^verbatim>\<open>dst[d] = src[s]\<close>.
\<close>

definition cpy1 :: "'a list \<Rightarrow> nat \<Rightarrow> 'a list \<Rightarrow> nat \<Rightarrow> 'a list option" where
  "cpy1 dst d src s = (if d < length dst \<and> s < length src then Some (dst[d := src ! s]) else None)"

function cpy4_loop :: "'a list \<Rightarrow> nat \<Rightarrow> 'a list \<Rightarrow> nat \<Rightarrow> nat \<Rightarrow> nat \<Rightarrow> ('a list \<times> nat \<times> nat) option" where
  "cpy4_loop dst d src s i lim =
     (if i < lim
      then do {
        a \<leftarrow> cpy1 dst d src s;
        b \<leftarrow> cpy1 a (d + 1) src (s + 1);
        c \<leftarrow> cpy1 b (d + 2) src (s + 2);
        e \<leftarrow> cpy1 c (d + 3) src (s + 3);
        cpy4_loop e (d + 4) src (s + 4) (i + 4) lim
      }
      else Some (dst, d, s))"
  by pat_completeness auto
termination
  by (relation "measure (\<lambda>(dst, d, src, s, i, lim). lim - i)") auto

declare cpy4_loop.simps [simp del]

text \<open>The \<^verbatim>\<open>switch\<close> on the remainder: \<open>k\<close> single assignments.\<close>

fun cpy_switch :: "'a list \<Rightarrow> nat \<Rightarrow> 'a list \<Rightarrow> nat \<Rightarrow> nat \<Rightarrow> 'a list option" where
  "cpy_switch dst d src s 0 = Some dst"
| "cpy_switch dst d src s (Suc k) = do { a \<leftarrow> cpy1 dst d src s; cpy_switch a (d + 1) src (s + 1) k }"

definition cpy_unrolled :: "'a list \<Rightarrow> nat \<Rightarrow> 'a list \<Rightarrow> nat \<Rightarrow> nat \<Rightarrow> 'a list option" where
  "cpy_unrolled dst d src s n =
     do {
       (a, d', s') \<leftarrow> cpy4_loop dst d src s 0 (n - n mod 4);
       cpy_switch a d' src s' (n mod 4)
     }"

text \<open>Storing \<open>n\<close> elements of \<open>buf\<close> into the ring from index \<open>idx\<close>, in one piece or wrapping around.\<close>

definition bulk_store :: "'a list \<Rightarrow> nat \<Rightarrow> nat \<Rightarrow> 'a list \<Rightarrow> nat \<Rightarrow> 'a list option" where
  "bulk_store rng_arr sz idx buf n =
     (if idx + n < sz then cpy_unrolled rng_arr idx buf 0 n
      else do {
        a \<leftarrow> cpy_switch rng_arr idx buf 0 (sz - idx);
        cpy_switch a 0 buf (sz - idx) (n - (sz - idx))
      })"

definition bulk_load :: "'a list \<Rightarrow> nat \<Rightarrow> nat \<Rightarrow> 'a list \<Rightarrow> nat \<Rightarrow> 'a list option" where
  "bulk_load rng_arr sz idx buf n =
     (if idx + n < sz then cpy_unrolled buf 0 rng_arr idx n
      else do {
        a \<leftarrow> cpy_switch buf 0 rng_arr idx (sz - idx);
        cpy_switch a (sz - idx) rng_arr 0 (n - (sz - idx))
      })"

text \<open>The wait for earlier enqueues would not end if \<^verbatim>\<open>prod_tail\<close> differs; that is \<open>None\<close>. The results
  are the ring, the number of elements and the free space afterwards.\<close>

definition ring_enqueue_bulk :: "'a ring \<Rightarrow> 'a list \<Rightarrow> u32 \<Rightarrow> ('a ring \<times> u32 \<times> u32) option" where
  "ring_enqueue_bulk r buf n =
     (case move_prod_head r n of (r1, n', ph, nx, free_entries) \<Rightarrow>
        if n' = 0 then Some (r1, n', free_entries - n')
        else do {
          xs \<leftarrow> bulk_store (br_ring r1) (unat (prod_size r1)) (unat (ph AND prod_mask r1)) buf (unat n');
          uk_assert (prod_tail r1 = ph);
          Some (r1\<lparr>br_ring := xs, prod_tail := nx\<rparr>, n', free_entries - n')
        })"

definition ring_dequeue_bulk :: "'a ring \<Rightarrow> 'a list \<Rightarrow> u32 \<Rightarrow> ('a ring \<times> 'a list \<times> u32 \<times> u32) option" where
  "ring_dequeue_bulk r buf n =
     (case move_cons_head r n of (r1, n', ch, nx, entries) \<Rightarrow>
        if n' = 0 then Some (r1, buf, n', entries - n')
        else do {
          ys \<leftarrow> bulk_load (br_ring r1) (unat (cons_size r1)) (unat (ch AND cons_mask r1)) buf (unat n');
          uk_assert (cons_tail r1 = ch);
          Some (r1\<lparr>cons_tail := nx\<rparr>, ys, n', entries - n')
        })"

end
