(* ===== verification/Fifo.thy ===== *)
theory Fifo
  imports UkPrelude
begin

text \<open>
  The contract of a bounded queue: an operation that appends or reports that the queue is full,
  and one that removes the oldest element or reports that it is empty. A queue that keeps the
  contract answers every sequence of operations like a list.
\<close>

datatype 'a qop = Enq 'a | Deq

datatype 'a qres = R_enq bool | R_deq "'a option"

text \<open>The specification: a list with a capacity.\<close>

fun spec_ops :: "nat \<Rightarrow> 'a list \<Rightarrow> 'a qop list \<Rightarrow> 'a list \<times> 'a qres list" where
  "spec_ops n xs [] = (xs, [])"
| "spec_ops n xs (Enq v # ops) =
     (if length xs < n then (let (ys, rs) = spec_ops n (xs @ [v]) ops in (ys, R_enq True # rs))
      else (let (ys, rs) = spec_ops n xs ops in (ys, R_enq False # rs)))"
| "spec_ops n xs (Deq # ops) =
     (case xs of
        [] \<Rightarrow> (let (ys, rs) = spec_ops n [] ops in (ys, R_deq None # rs))
      | x # xs' \<Rightarrow> (let (ys, rs) = spec_ops n xs' ops in (ys, R_deq (Some x) # rs)))"

text \<open>The implementation: its two operations.\<close>

fun run_ops ::
  "('q \<Rightarrow> 'a \<Rightarrow> ('q \<times> (errno + unit)) option) \<Rightarrow> ('q \<Rightarrow> ('q \<times> 'a option) option) \<Rightarrow>
   'q \<Rightarrow> 'a qop list \<Rightarrow> ('q \<times> 'a qres list) option" where
  "run_ops enq deq q [] = Some (q, [])"
| "run_ops enq deq q (Enq v # ops) =
     do {
       (q1, r) \<leftarrow> enq q v;
       (q2, rs) \<leftarrow> run_ops enq deq q1 ops;
       Some (q2, R_enq (r = Inr ()) # rs)
     }"
| "run_ops enq deq q (Deq # ops) =
     do {
       (q1, r) \<leftarrow> deq q;
       (q2, rs) \<leftarrow> run_ops enq deq q1 ops;
       Some (q2, R_deq r # rs)
     }"

locale bounded_fifo =
  fixes inv :: "'q \<Rightarrow> bool"
    and contents :: "'q \<Rightarrow> 'a list"
    and cap :: "'q \<Rightarrow> nat"
    and enq :: "'q \<Rightarrow> 'a \<Rightarrow> ('q \<times> (errno + unit)) option"
    and deq :: "'q \<Rightarrow> ('q \<times> 'a option) option"
  assumes enq_room: "inv q \<Longrightarrow> length (contents q) < cap q \<Longrightarrow>
      \<exists>q'. enq q v = Some (q', Inr ()) \<and> inv q' \<and> contents q' = contents q @ [v] \<and> cap q' = cap q"
    and enq_full: "inv q \<Longrightarrow> \<not> length (contents q) < cap q \<Longrightarrow>
      \<exists>q' e. enq q v = Some (q', Inl e) \<and> inv q' \<and> contents q' = contents q \<and> cap q' = cap q"
    and deq_some: "inv q \<Longrightarrow> contents q = x # xs \<Longrightarrow>
      \<exists>q'. deq q = Some (q', Some x) \<and> inv q' \<and> contents q' = xs \<and> cap q' = cap q"
    and deq_none: "inv q \<Longrightarrow> contents q = [] \<Longrightarrow>
      \<exists>q'. deq q = Some (q', None) \<and> inv q' \<and> contents q' = [] \<and> cap q' = cap q"
begin

theorem run_refines:
  assumes "inv q"
  shows "\<exists>q'. run_ops enq deq q ops = Some (q', snd (spec_ops (cap q) (contents q) ops)) \<and>
    inv q' \<and> contents q' = fst (spec_ops (cap q) (contents q) ops) \<and> cap q' = cap q"
  using assms
proof (induction ops arbitrary: q)
  case (Cons opn ops)
  show ?case
  proof (cases opn)
    case (Enq v)
    show ?thesis
    proof (cases "length (contents q) < cap q")
      case True
      then obtain q1 where q1: "enq q v = Some (q1, Inr ())" "inv q1" "contents q1 = contents q @ [v]" "cap q1 = cap q"
        using enq_room [OF Cons.prems] by blast
      then show ?thesis using Cons.IH [OF q1(2)] Enq True by (auto split: prod.splits)
    next
      case False
      then obtain q1 e where q1: "enq q v = Some (q1, Inl e)" "inv q1" "contents q1 = contents q" "cap q1 = cap q"
        using enq_full [OF Cons.prems] by blast
      then show ?thesis using Cons.IH [OF q1(2)] Enq False by (auto split: prod.splits)
    qed
  next
    case Deq
    show ?thesis
    proof (cases "contents q")
      case Nil
      then obtain q1 where q1: "deq q = Some (q1, None)" "inv q1" "contents q1 = []" "cap q1 = cap q"
        using deq_none [OF Cons.prems] by blast
      then show ?thesis using Cons.IH [OF q1(2)] Deq Nil by (auto split: prod.splits)
    next
      case (Cons x xs)
      then obtain q1 where q1: "deq q = Some (q1, Some x)" "inv q1" "contents q1 = xs" "cap q1 = cap q"
        using deq_some [OF Cons.prems] by blast
      then show ?thesis using Cons.IH [OF q1(2)] Deq Cons by (auto split: prod.splits)
    qed
  qed
qed simp

end

end
