(* ===== verification/RingSeq.thy ===== *)
theory RingSeq
  imports Ring Fifo
begin

text \<open>
  The ring used by one thread at a time: it is a bounded queue. The segment of the array between
  the two tails, read modulo the size, is the list of queued elements.
\<close>

section \<open>Segments of a circular array\<close>

definition seg :: "'a list \<Rightarrow> nat \<Rightarrow> nat \<Rightarrow> 'a list" where
  "seg xs c n = map (\<lambda>j. xs ! ((c + j) mod length xs)) [0..<n]"

lemma length_seg [simp]: "length (seg xs c n) = n"
  by (simp add: seg_def)

lemma seg_0 [simp]: "seg xs c 0 = []"
  by (simp add: seg_def)

lemma seg_mod [simp]: "seg xs (c mod length xs) n = seg xs c n"
  by (simp add: seg_def mod_simps)

lemma seg_snoc: "seg xs c (Suc n) = seg xs c n @ [xs ! ((c + n) mod length xs)]"
  by (simp add: seg_def)

lemma seg_Cons: "seg xs c (Suc n) = xs ! (c mod length xs) # seg xs (Suc c) n"
  by (simp add: seg_def upt_conv_Cons map_Suc_upt [symmetric] comp_def del: upt_Suc)

lemma mod_add_neq: "j < n \<Longrightarrow> n < N \<Longrightarrow> (c + j) mod N \<noteq> (c + n) mod (N::nat)"
proof
  assume a: "j < n" "n < N" "(c + j) mod N = (c + n) mod N"
  then have "N dvd (c + n) - (c + j)" using mod_eq_dvd_iff_nat [of "c + j" "c + n" N] by simp
  then have "N dvd n - j" by simp
  then show False using a(1,2) by (auto dest: dvd_imp_le)
qed

lemma seg_update:
  assumes "n < length xs"
  shows "seg (xs[(c + n) mod length xs := v]) c n = seg xs c n"
    and "seg (xs[(c + n) mod length xs := v]) c (Suc n) = seg xs c n @ [v]"
proof -
  show e: "seg (xs[(c + n) mod length xs := v]) c n = seg xs c n"
    using assms not_sym [OF mod_add_neq [of _ n "length xs" c]] by (auto simp: seg_def)
  have "(c + n) mod length xs < length xs" using assms by (intro mod_less_divisor) linarith
  then show "seg (xs[(c + n) mod length xs := v]) c (Suc n) = seg xs c n @ [v]"
    by (simp add: seg_snoc e)
qed

section \<open>Masked indices\<close>

lemma unat_mask_u32:
  assumes "k < 32"
  shows "unat ((x::u32) AND (2 ^ k - 1)) = unat x mod 2 ^ k"
proof -
  have "x AND (2 ^ k - 1) = take_bit k x" by (simp add: take_bit_eq_mask mask_eq_exp_minus_1)
  then have "x AND (2 ^ k - 1) = x mod 2 ^ k" by (simp add: take_bit_eq_mod)
  then show ?thesis using assms by (simp only: unat_mod) (simp add: unat_pow2)
qed

lemma unat_add_mod_u32:
  assumes "k < 32"
  shows "unat ((x::u32) + y) mod 2 ^ k = (unat x + unat y) mod 2 ^ k"
proof -
  have "(2::nat) ^ k dvd 2 ^ 32" using assms by (intro le_imp_power_dvd) simp
  then show ?thesis by (simp add: unat_word_ariths mod_mod_cancel)
qed

lemma unat_next:
  assumes "k < 32"
  shows "unat (((x::u32) + 1) AND (2 ^ k - 1)) = Suc (unat x) mod 2 ^ k"
  using unat_mask_u32 [OF assms, of "x + 1"] unat_add_mod_u32 [OF assms, of x 1] by simp

section \<open>The ring at rest\<close>

text \<open>No operation is in progress; the size is a power of two.\<close>

definition ring_size :: "nat \<Rightarrow> 'a ring \<Rightarrow> bool" where
  "ring_size k r \<longleftrightarrow>
     0 < k \<and> k < 31 \<and> prod_size r = 2 ^ k \<and> prod_mask r = 2 ^ k - 1 \<and> cons_size r = 2 ^ k \<and>
     cons_mask r = 2 ^ k - 1 \<and> length (br_ring r) = 2 ^ k"

definition ring_inv :: "'a ring \<Rightarrow> bool" where
  "ring_inv r \<longleftrightarrow>
     (\<exists>k. ring_size k r) \<and> prod_head r = prod_tail r \<and> cons_head r = cons_tail r \<and>
     unat (prod_tail r) < length (br_ring r) \<and> unat (cons_tail r) < length (br_ring r)"

definition ring_used :: "'a ring \<Rightarrow> nat" where
  "ring_used r = (length (br_ring r) + unat (prod_tail r) - unat (cons_tail r)) mod length (br_ring r)"

definition ring_contents :: "'a ring \<Rightarrow> 'a list" where
  "ring_contents r = seg (br_ring r) (unat (cons_tail r)) (ring_used r)"

definition ring_cap :: "'a ring \<Rightarrow> nat" where
  "ring_cap r = length (br_ring r) - 1"

lemma ring_nexts:
  assumes "ring_size k r"
  shows "unat (prod_next r x) = Suc (unat x) mod length (br_ring r)"
    "unat (cons_next r x) = Suc (unat x) mod length (br_ring r)"
  using assms unat_next [of k x] by (auto simp: ring_size_def prod_next_def cons_next_def)

text \<open>The producer's index is the consumer's plus the number of queued elements.\<close>

lemma ring_used_index:
  assumes "ring_inv r"
  shows "unat (prod_tail r) = (unat (cons_tail r) + ring_used r) mod length (br_ring r)"
    "ring_used r < length (br_ring r)"
proof -
  let ?N = "length (br_ring r)" and ?p = "unat (prod_tail r)" and ?c = "unat (cons_tail r)"
  have pc: "?p < ?N" "?c < ?N" using assms by (auto simp: ring_inv_def)
  have "(?c + ring_used r) mod ?N = (?c + (?N + ?p - ?c)) mod ?N" by (simp add: ring_used_def mod_simps)
  also have "\<dots> = ?p" using pc by simp
  finally show "?p = (?c + ring_used r) mod ?N" by simp
  have "0 < ?N" using pc by linarith
  then show "ring_used r < ?N" by (simp add: ring_used_def)
qed

lemma wrap_diff: "c < N \<Longrightarrow> n < N \<Longrightarrow> (N + (c + n) mod N - c) mod N = (n::nat)"
proof (cases "c + n < N")
  case False
  assume "c < N" "n < N"
  with False have "c + n - N < N" "N \<le> c + n" by linarith+
  then have "(c + n) mod N = c + n - N" by (metis le_mod_geq mod_less)
  then show ?thesis using False \<open>n < N\<close> by simp
qed simp

lemma ring_usedI:
  assumes "unat (prod_tail r) = (unat (cons_tail r) + n) mod length (br_ring r)" "n < length (br_ring r)"
    "unat (cons_tail r) < length (br_ring r)"
  shows "ring_used r = n"
  using wrap_diff [OF assms(3,2)] by (simp add: ring_used_def assms(1))

lemma full_iff:
  assumes r: "ring_inv r"
  shows "prod_next r (prod_tail r) = cons_tail r \<longleftrightarrow> \<not> ring_used r < ring_cap r"
proof -
  let ?N = "length (br_ring r)" and ?c = "unat (cons_tail r)"
  obtain k where k: "ring_size k r" using r by (auto simp: ring_inv_def)
  note ri = ring_used_index [OF r]
  have c: "?c < ?N" using r by (simp add: ring_inv_def)
  have "unat (prod_next r (prod_tail r)) = (?c + Suc (ring_used r)) mod ?N"
    by (simp add: ring_nexts [OF k] ri(1) mod_simps)
  then have "prod_next r (prod_tail r) = cons_tail r \<longleftrightarrow> (?c + Suc (ring_used r)) mod ?N = ?c"
    by (simp add: word_unat_eq_iff)
  also have "\<dots> \<longleftrightarrow> Suc (ring_used r) = ?N"
  proof
    assume e: "(?c + Suc (ring_used r)) mod ?N = ?c"
    show "Suc (ring_used r) = ?N"
    proof (rule ccontr)
      assume "Suc (ring_used r) \<noteq> ?N"
      then have "(?c + 0) mod ?N \<noteq> (?c + Suc (ring_used r)) mod ?N"
        using ri(2) by (intro mod_add_neq) auto
      then show False using e c by simp
    qed
  qed (use c in simp)
  finally show ?thesis using ri(2) by (auto simp: ring_cap_def)
qed

lemma ring_enqueue_eq:
  assumes r: "ring_inv r"
  shows "ring_enqueue r v =
    (if ring_used r < ring_cap r
     then Some (r\<lparr>prod_head := prod_next r (prod_tail r),
                 br_ring := (br_ring r)[unat (prod_tail r) := v], prod_tail := prod_next r (prod_tail r)\<rparr>, Inr ())
     else Some (r\<lparr>drops := drops r + 1\<rparr>, Inl ENOBUFS))"
  using r full_iff [OF r]
  by (auto simp: ring_enqueue_def numeral_eq_Suc ring_inv_def ring_set_def prod_next_def)

lemma ring_dequeue_eq:
  assumes r: "ring_inv r"
  shows "ring_dequeue_mc r =
    (if cons_tail r = prod_tail r then Some (r, None)
     else Some (r\<lparr>cons_head := cons_next r (cons_tail r), cons_tail := cons_next r (cons_tail r)\<rparr>,
                Some (br_ring r ! unat (cons_tail r))))"
  using r by (auto simp: ring_dequeue_mc_def numeral_eq_Suc ring_inv_def ring_get_def cons_next_def)

lemma empty_iff:
  assumes "ring_inv r"
  shows "cons_tail r = prod_tail r \<longleftrightarrow> ring_used r = 0"
proof
  assume "cons_tail r = prod_tail r"
  then show "ring_used r = 0" using assms by (intro ring_usedI) (auto simp: ring_inv_def)
next
  assume "ring_used r = 0"
  then have "unat (prod_tail r) = unat (cons_tail r)"
    using ring_used_index(1) [OF assms] assms by (simp add: ring_inv_def)
  then show "cons_tail r = prod_tail r" by (simp add: word_unat_eq_iff)
qed

lemma enqueue_room:
  fixes v :: 'a
  assumes r: "ring_inv r" and room: "ring_used r < ring_cap r"
  defines "r' \<equiv> r\<lparr>prod_head := prod_next r (prod_tail r),
    br_ring := (br_ring r)[unat (prod_tail r) := v], prod_tail := prod_next r (prod_tail r)\<rparr>"
  shows "ring_inv r'" "ring_contents r' = ring_contents r @ [v]" "ring_cap r' = ring_cap r"
proof -
  let ?N = "length (br_ring r)"
  obtain k where k: "ring_size k r" using r by (auto simp: ring_inv_def)
  note ri = ring_used_index [OF r] and c = r [unfolded ring_inv_def]
  have nx: "unat (prod_next r (prod_tail r)) = (unat (cons_tail r) + Suc (ring_used r)) mod ?N"
    by (simp add: ring_nexts(1) [OF k] ri(1) mod_simps)
  have N: "0 < ?N" using c by linarith
  have k': "ring_size k r'" using k by (simp add: r'_def ring_size_def)
  show inv': "ring_inv r'" using c k' N nx by (auto simp: ring_inv_def r'_def)
  have "ring_used r' = Suc (ring_used r)"
    using nx room c by (intro ring_usedI) (auto simp: r'_def ring_cap_def)
  then show "ring_contents r' = ring_contents r @ [v]"
    using seg_update(2) [of "ring_used r" "br_ring r" "unat (cons_tail r)" v] ri
    by (simp add: ring_contents_def r'_def)
  show "ring_cap r' = ring_cap r" by (simp add: ring_cap_def r'_def)
qed

lemma dequeue_some:
  assumes r: "ring_inv r" and some: "ring_used r = Suc n"
  defines "r' \<equiv> r\<lparr>cons_head := cons_next r (cons_tail r), cons_tail := cons_next r (cons_tail r)\<rparr>"
  shows "ring_inv r'" "ring_contents r = br_ring r ! unat (cons_tail r) # ring_contents r'" "ring_cap r' = ring_cap r"
proof -
  let ?N = "length (br_ring r)"
  obtain k where k: "ring_size k r" using r by (auto simp: ring_inv_def)
  note ri = ring_used_index [OF r] and c = r [unfolded ring_inv_def]
  have nx: "unat (cons_next r (cons_tail r)) = Suc (unat (cons_tail r)) mod ?N" by (rule ring_nexts(2) [OF k])
  have N: "0 < ?N" using c by linarith
  have k': "ring_size k r'" using k by (simp add: r'_def ring_size_def)
  show "ring_inv r'" using c k' N nx by (auto simp: ring_inv_def r'_def)
  have "ring_used r' = n"
    using nx ri some N by (intro ring_usedI) (auto simp: r'_def mod_simps)
  then show "ring_contents r = br_ring r ! unat (cons_tail r) # ring_contents r'"
    using some c nx by (simp add: ring_contents_def seg_Cons r'_def)
  show "ring_cap r' = ring_cap r" by (simp add: ring_cap_def r'_def)
qed

lemma length_contents [simp]: "length (ring_contents r) = ring_used r"
  by (simp add: ring_contents_def)

interpretation ring_q: bounded_fifo ring_inv ring_contents ring_cap ring_enqueue ring_dequeue_mc
proof
  fix q :: "'a ring" and v assume "ring_inv q" "length (ring_contents q) < ring_cap q"
  then show "\<exists>q'. ring_enqueue q v = Some (q', Inr ()) \<and> ring_inv q' \<and> ring_contents q' = ring_contents q @ [v] \<and>
      ring_cap q' = ring_cap q"
    using enqueue_room [of q v] by (simp add: ring_enqueue_eq)
next
  fix q :: "'a ring" and v assume q: "ring_inv q" "\<not> length (ring_contents q) < ring_cap q"
  have "ring_inv (q\<lparr>drops := drops q + 1\<rparr>)" "ring_contents (q\<lparr>drops := drops q + 1\<rparr>) = ring_contents q"
    using q(1) by (simp_all add: ring_inv_def ring_size_def ring_contents_def ring_used_def)
  then show "\<exists>q' e. ring_enqueue q v = Some (q', Inl e) \<and> ring_inv q' \<and> ring_contents q' = ring_contents q \<and>
      ring_cap q' = ring_cap q"
    using q by (simp add: ring_enqueue_eq ring_cap_def)
next
  fix q :: "'a ring" and x xs assume q: "ring_inv q" "ring_contents q = x # xs"
  then have u: "ring_used q = Suc (length xs)" using length_contents [of q] by simp
  then have "cons_tail q \<noteq> prod_tail q" using empty_iff [OF q(1)] by simp
  then show "\<exists>q'. ring_dequeue_mc q = Some (q', Some x) \<and> ring_inv q' \<and> ring_contents q' = xs \<and> ring_cap q' = ring_cap q"
    using dequeue_some [OF q(1) u] q by (simp add: ring_dequeue_eq)
next
  fix q :: "'a ring" assume q: "ring_inv q" "ring_contents q = []"
  then have "ring_used q = 0" using length_contents [of q] by simp
  then show "\<exists>q'. ring_dequeue_mc q = Some (q', None) \<and> ring_inv q' \<and> ring_contents q' = [] \<and> ring_cap q' = ring_cap q"
    using q empty_iff [OF q(1)] by (simp add: ring_dequeue_eq)
qed

lemma POWER_OF_2_u32:
  assumes "POWER_OF_2 (w::u32)"
  shows "\<exists>k < 32. w = 2 ^ k"
proof -
  have w: "w \<noteq> 0" "w AND (w - 1) = 0" using assms by (auto simp: POWER_OF_2_def)
  have "unat (w - 1) = unat w - 1" using w(1) by (metis unat_minus_one)
  then have "unat w AND (unat w - 1) = 0" using w(2) by (metis unat_0 unsigned_and_eq)
  then obtain k where k: "unat w = 2 ^ k" using pow2_test_nat w(1) by (metis unat_gt_0)
  have "unat w < 2 ^ 32" using unsigned_less [of w] by simp
  then have k32: "k < 32" using power_less_imp_less_exp [of 2 k 32] k by simp
  then have "w = 2 ^ k" using k unat_pow2 [of k, where 'a = 32] by (simp add: word_unat_eq_iff)
  then show ?thesis using k32 by blast
qed

lemma ring_alloc_inv:
  assumes "ring_alloc n d mem = Some r" "length mem = unat n" "1 < unat n" "unat n < 2 ^ 31"
  shows "ring_inv r" "ring_contents r = []" "ring_cap r = unat n - 1"
proof -
  have p: "POWER_OF_2 n" and r: "r = \<lparr>prod_head = 0, prod_tail = 0, prod_size = n, prod_mask = n - 1, drops = d,
      cons_head = 0, cons_tail = 0, cons_size = n, cons_mask = n - 1, br_ring = mem\<rparr>"
    using assms(1) by (auto simp: ring_alloc_def uk_assert_bind_Some)
  obtain k where k: "k < 32" "n = 2 ^ k" using POWER_OF_2_u32 [OF p] by blast
  have u: "unat n = 2 ^ k" using k by (simp add: unat_pow2)
  then have "0 < k" using assms(3) by (cases k) auto
  moreover have "k < 31" using power_less_imp_less_exp [of 2 k 31] u assms(4) by simp
  ultimately have "ring_size k r" using k u assms(2) by (simp add: r ring_size_def)
  then show "ring_inv r" "ring_contents r = []" "ring_cap r = unat n - 1"
    using assms by (auto simp: ring_inv_def r ring_contents_def ring_used_def ring_cap_def)
qed

end
