(* ===== verification/RingBulk.thy ===== *)
theory RingBulk
  imports RingSeq
begin

text \<open>
  The bulk operations of the ring: the unrolled copy loops do what a plain loop does, and bulk
  enqueue and dequeue append and remove as many elements as fit. Their indices run freely over
  all 32-bit values and are masked on access.
\<close>

section \<open>The copy loops\<close>

lemma cpy_switch_add:
  "cpy_switch dst d src s (m + n) = do { a \<leftarrow> cpy_switch dst d src s m; cpy_switch a (d + m) src (s + m) n }"
proof (induction m arbitrary: dst d s)
  case (Suc m)
  then show ?case by (cases "cpy1 dst d src s") simp_all
qed simp

lemma cpy4_loop_eq:
  "cpy4_loop dst d src s i (i + 4 * m) = do { a \<leftarrow> cpy_switch dst d src s (4 * m); Some (a, d + 4 * m, s + 4 * m) }"
proof (induction m arbitrary: dst d s i)
  case 0
  then show ?case by (subst cpy4_loop.simps) simp
next
  case (Suc m)
  have IH: "cpy4_loop e (d + 4) src (s + 4) (i + 4) (i + 4 * Suc m) =
      do { a \<leftarrow> cpy_switch e (d + 4) src (s + 4) (4 * m); Some (a, d + 4 * Suc m, s + 4 * Suc m) }" for e
    using Suc.IH [of e "d + 4" "s + 4" "i + 4"] by (simp add: algebra_simps)
  have four: "cpy_switch dst d src s 4 = do {
        a \<leftarrow> cpy1 dst d src s; b \<leftarrow> cpy1 a (d + 1) src (s + 1);
        c \<leftarrow> cpy1 b (d + 2) src (s + 2); cpy1 c (d + 3) src (s + 3) }"
    by (simp add: numeral_eq_Suc)
  have "4 * Suc m = 4 + 4 * m" by simp
  then have "cpy_switch dst d src s (4 * Suc m) = do {
        e \<leftarrow> cpy_switch dst d src s 4; cpy_switch e (d + 4) src (s + 4) (4 * m) }"
    by (simp only: cpy_switch_add)
  then show ?case by (subst cpy4_loop.simps) (simp only: IH four, simp)
qed

text \<open>The unrolled copy is the plain one, out of bounds accesses included.\<close>

lemma cpy_unrolled_eq: "cpy_unrolled dst d src s n = cpy_switch dst d src s n"
proof -
  have "n - n mod 4 = 0 + 4 * (n div 4)" by (simp add: minus_mod_eq_mult_div)
  moreover have "cpy_switch dst d src s n = cpy_switch dst d src s (4 * (n div 4) + n mod 4)" by simp
  ultimately show ?thesis
    unfolding cpy_unrolled_def by (simp only: cpy4_loop_eq cpy_switch_add) (simp add: bind_assoc)
qed

lemma cpy_switch_nth:
  assumes "d + n \<le> length dst" "s + n \<le> length src"
  shows "\<exists>x. cpy_switch dst d src s n = Some x \<and> length x = length dst \<and>
    (\<forall>p < length dst. x ! p = (if d \<le> p \<and> p < d + n then src ! (s + (p - d)) else dst ! p))"
  using assms
proof (induction n arbitrary: dst d s)
  case (Suc n)
  let ?a = "dst[d := src ! s]"
  obtain x where x: "cpy_switch ?a (Suc d) src (Suc s) n = Some x" "length x = length dst"
    "\<forall>p < length dst. x ! p = (if Suc d \<le> p \<and> p < Suc d + n then src ! (Suc s + (p - Suc d)) else ?a ! p)"
    using Suc.IH [of "Suc d" ?a "Suc s"] Suc.prems by auto
  have "x ! p = (if d \<le> p \<and> p < d + Suc n then src ! (s + (p - d)) else dst ! p)" if "p < length dst" for p
  proof (cases "p = d")
    case False
    then show ?thesis using x(3) that by (auto simp: Suc_diff_le [symmetric] Suc_le_eq intro!: arg_cong [of _ _ "(!) src"])
  qed (use x(3) that in simp)
  then show ?case using x Suc.prems by (simp add: cpy1_def)
qed auto

section \<open>Freely running indices\<close>

definition bulk_used :: "'a ring \<Rightarrow> nat" where
  "bulk_used r = unat (prod_tail r - cons_tail r)"

definition bulk_inv :: "'a ring \<Rightarrow> bool" where
  "bulk_inv r \<longleftrightarrow>
     (\<exists>k. ring_size k r) \<and> prod_head r = prod_tail r \<and> cons_head r = cons_tail r \<and>
     bulk_used r \<le> length (br_ring r)"

definition bulk_contents :: "'a ring \<Rightarrow> 'a list" where
  "bulk_contents r = seg (br_ring r) (unat (cons_tail r)) (bulk_used r)"

lemma ring_size_unat:
  assumes "ring_size k r"
  shows "unat (prod_size r) = length (br_ring r)" "unat (cons_size r) = length (br_ring r)"
    "unat (x AND prod_mask r) = unat x mod length (br_ring r)" "unat (x AND cons_mask r) = unat x mod length (br_ring r)"
    "unat (x + y) mod length (br_ring r) = (unat x + unat y) mod length (br_ring r)"
    "0 < length (br_ring r)" "length (br_ring r) < 2 ^ 31"
proof -
  have k: "k < 32" "k < 31" using assms by (auto simp: ring_size_def)
  show "unat (prod_size r) = length (br_ring r)" "unat (cons_size r) = length (br_ring r)"
    using assms k by (auto simp: ring_size_def unat_pow2)
  show "unat (x AND prod_mask r) = unat x mod length (br_ring r)" "unat (x AND cons_mask r) = unat x mod length (br_ring r)"
    using assms unat_mask_u32 [OF k(1), of x] by (auto simp: ring_size_def)
  show "unat (x + y) mod length (br_ring r) = (unat x + unat y) mod length (br_ring r)"
    using assms unat_add_mod_u32 [OF k(1), of x y] by (auto simp: ring_size_def)
  show "0 < length (br_ring r)" using assms by (auto simp: ring_size_def)
  have "(2::nat) ^ k < 2 ^ 31" using k(2) by (intro power_strict_increasing) simp_all
  then show "length (br_ring r) < 2 ^ 31" using assms by (auto simp: ring_size_def)
qed

lemma prod_index:
  assumes "ring_size k r"
  shows "unat (prod_tail r) mod length (br_ring r) = (unat (cons_tail r) + bulk_used r) mod length (br_ring r)"
  using ring_size_unat(5) [OF assms, of "cons_tail r" "prod_tail r - cons_tail r"]
  by (simp add: bulk_used_def)

lemma wrap_sub:
  assumes "j < u + n" "u + n \<le> N" "0 < (N::nat)"
  shows "((c + j) mod N + N - (c + u) mod N) mod N = (if j < u then N - (u - j) else j - u)"
proof -
  let ?i = "(c + u) mod N"
  have "((c + j) mod N + N - ?i) mod N = ((c + j) mod N + (N - ?i)) mod N" using assms(3) by simp
  also have "\<dots> = (c + j + (N - ?i)) mod N" by (simp add: mod_simps)
  also have "\<dots> = (if j < u then N - (u - j) else j - u)"
  proof -
    have c: "c + u = N * ((c + u) div N) + ?i" by simp
    have e: "c + j + (N - ?i) + u = j + N + N * ((c + u) div N)"
      using c mod_less_divisor [OF assms(3), of "c + u"] by linarith
    show ?thesis
    proof (cases "j < u")
      case True
      then have "c + j + (N - ?i) = (N - (u - j)) + N * ((c + u) div N)" using e assms by linarith
      moreover have "N - (u - j) < N" using True assms by simp
      ultimately have "(c + j + (N - ?i)) mod N = N - (u - j)" by (simp only: mod_mult_self2 mod_less)
      then show ?thesis using True by simp
    next
      case False
      then have "c + j + (N - ?i) = (j - u) + N * Suc ((c + u) div N)" using e by simp
      then show ?thesis using False assms by (simp only: mod_mult_self2) simp
    qed
  qed
  finally show ?thesis .
qed

text \<open>Storing \<open>n\<close> elements behind the queued ones appends them.\<close>

lemma seg_store:
  assumes N: "length xs = N" "0 < N" and n: "u + n \<le> N" "n \<le> length buf" and ys: "length ys = N"
    "\<And>p. p < N \<Longrightarrow> ys ! p = (if (p + N - (c + u) mod N) mod N < n then buf ! ((p + N - (c + u) mod N) mod N) else xs ! p)"
  shows "seg ys c (u + n) = seg xs c u @ take n buf"
proof (rule nth_equalityI)
  fix j assume "j < length (seg ys c (u + n))"
  then have j: "j < u + n" by simp
  have at: "((c + j) mod N + N - (c + u) mod N) mod N = (if j < u then N - (u - j) else j - u)"
    by (rule wrap_sub) (use j n(1) N in auto)
  show "seg ys c (u + n) ! j = (seg xs c u @ take n buf) ! j"
    using j at ys(1) ys(2) [of "(c + j) mod N"] N n by (auto simp: seg_def nth_append)
qed (use n in simp)

lemma wrap_index:
  assumes "i < N" "p < (N :: nat)"
  shows "(p + N - i) mod N = (if i \<le> p then p - i else p + N - i)"
  using assms by (simp add: le_mod_geq)

lemma bulk_store_seg:
  assumes N: "length xs = N" "0 < N" and n: "u + n \<le> N" "n \<le> length buf"
  shows "\<exists>ys. bulk_store xs N ((c + u) mod N) buf n = Some ys \<and> length ys = N \<and>
    seg ys c (u + n) = seg xs c u @ take n buf"
proof -
  let ?i = "(c + u) mod N"
  have i: "?i < N" using N by simp
  have "\<exists>ys. bulk_store xs N ?i buf n = Some ys \<and> length ys = N \<and>
    (\<forall>p < N. ys ! p = (if (p + N - ?i) mod N < n then buf ! ((p + N - ?i) mod N) else xs ! p))"
  proof (cases "?i + n < N")
    case True
    obtain ys where ys: "cpy_switch xs ?i buf 0 n = Some ys" "length ys = N"
      "\<forall>p < N. ys ! p = (if ?i \<le> p \<and> p < ?i + n then buf ! (p - ?i) else xs ! p)"
      using cpy_switch_nth [of ?i n xs 0 buf] True n(2) N by auto
    moreover have "(p + N - ?i) mod N < n \<longleftrightarrow> ?i \<le> p \<and> p < ?i + n" "?i \<le> p \<Longrightarrow> (p + N - ?i) mod N = p - ?i"
      if "p < N" for p
    proof -
      show e: "?i \<le> p \<Longrightarrow> (p + N - ?i) mod N = p - ?i" using that by (simp add: le_mod_geq)
      have "p < ?i \<Longrightarrow> (p + N - ?i) mod N = p + N - ?i" using i by simp
      then show "(p + N - ?i) mod N < n \<longleftrightarrow> ?i \<le> p \<and> p < ?i + n"
        using e True by (cases "?i \<le> p") auto
    qed
    ultimately show ?thesis using True by (auto simp: bulk_store_def cpy_unrolled_eq)
  next
    case False
    let ?m = "N - ?i"
    have m: "?m \<le> n" using False by simp
    obtain zs where zs: "cpy_switch xs ?i buf 0 ?m = Some zs" "length zs = N"
      "\<forall>p < N. zs ! p = (if ?i \<le> p \<and> p < ?i + ?m then buf ! (p - ?i) else xs ! p)"
      using cpy_switch_nth [of ?i ?m xs 0 buf] i m n(2) N by auto
    obtain ys where ys: "cpy_switch zs 0 buf ?m (n - ?m) = Some ys" "length ys = N"
      "\<forall>p < N. ys ! p = (if p < n - ?m then buf ! (?m + p) else zs ! p)"
    proof -
      have "0 + (n - ?m) \<le> length zs" "?m + (n - ?m) \<le> length buf" using m n zs(2) by linarith+
      from cpy_switch_nth [OF this] show ?thesis using that zs(2) by auto
    qed
    have "ys ! p = (if (p + N - ?i) mod N < n then buf ! ((p + N - ?i) mod N) else xs ! p)" if p: "p < N" for p
    proof (cases "?i \<le> p")
      case True
      then have "(p + N - ?i) mod N = p - ?i" using p by (simp add: le_mod_geq)
      moreover have "\<not> p < n - ?m" using True n(1) i by linarith
      ultimately show ?thesis using ys(3) zs(3) p True m by auto
    next
      case False
      then have e: "(p + N - ?i) mod N = ?m + p" using i by simp
      have "p < n - ?m \<longleftrightarrow> ?m + p < n" by linarith
      then show ?thesis unfolding e using ys(3) zs(3) p False by presburger
    qed
    then show ?thesis using False ys zs by (auto simp: bulk_store_def)
  qed
  then obtain ys where ys: "bulk_store xs N ?i buf n = Some ys" "length ys = N"
    "\<And>p. p < N \<Longrightarrow> ys ! p = (if (p + N - ?i) mod N < n then buf ! ((p + N - ?i) mod N) else xs ! p)" by blast
  have "seg ys c (u + n) = seg xs c u @ take n buf" by (rule seg_store [OF N n ys(2,3)])
  then show ?thesis using ys(1,2) by blast
qed

text \<open>Loading \<open>n\<close> elements reads the front of the queue.\<close>

lemma bulk_load_seg:
  assumes N: "length xs = N" "0 < N" and n: "n \<le> N" "n \<le> length buf"
  shows "bulk_load xs N (c mod N) buf n = Some (seg xs c n @ drop n buf)"
proof -
  let ?i = "c mod N"
  have i: "?i < N" using N by simp
  obtain ys where ys: "bulk_load xs N ?i buf n = Some ys" "length ys = length buf"
    "\<And>p. p < length buf \<Longrightarrow> ys ! p = (if p < n then xs ! ((?i + p) mod N) else buf ! p)"
  proof (cases "?i + n < N")
    case True
    obtain ys where ys: "cpy_switch buf 0 xs ?i n = Some ys" "length ys = length buf"
      "\<forall>p < length buf. ys ! p = (if p < n then xs ! (?i + p) else buf ! p)"
      using cpy_switch_nth [of 0 n buf ?i xs] True n(2) N by auto
    then show ?thesis using True by (intro that [of ys]) (auto simp: bulk_load_def cpy_unrolled_eq)
  next
    case False
    let ?m = "N - ?i"
    have m: "?m \<le> n" using False by simp
    obtain zs where zs: "cpy_switch buf 0 xs ?i ?m = Some zs" "length zs = length buf"
      "\<forall>p < length buf. zs ! p = (if p < ?m then xs ! (?i + p) else buf ! p)"
      using cpy_switch_nth [of 0 ?m buf ?i xs] i m n(2) N by auto
    obtain ys where ys: "cpy_switch zs ?m xs 0 (n - ?m) = Some ys" "length ys = length buf"
      "\<forall>p < length buf. ys ! p = (if ?m \<le> p \<and> p < ?m + (n - ?m) then xs ! (p - ?m) else zs ! p)"
    proof -
      have "?m + (n - ?m) \<le> length zs" "0 + (n - ?m) \<le> length xs" using m n N zs(2) by linarith+
      from cpy_switch_nth [OF this] show ?thesis using that zs(2) by auto
    qed
    have "ys ! p = (if p < n then xs ! ((?i + p) mod N) else buf ! p)" if p: "p < length buf" for p
    proof (cases "p < ?m")
      case True
      then show ?thesis using ys(3) zs(3) p m by simp
    next
      case f: False
      have "(?i + p) mod N = p - ?m" if "p < n"
      proof -
        have "?i + p = (p - ?m) + N" using f i by simp
        moreover have "p - ?m < N" using that n(1) by linarith
        ultimately show ?thesis by (metis mod_add_self2 mod_less)
      qed
      then show ?thesis using ys(3) zs(3) p m f by auto
    qed
    then show ?thesis using False ys zs by (intro that [of ys]) (auto simp: bulk_load_def)
  qed
  have "ys = seg xs c n @ drop n buf"
    using ys(2,3) n N by (intro nth_equalityI) (auto simp: nth_append seg_def mod_simps)
  then show ?thesis using ys(1) by simp
qed

section \<open>The bulk operations\<close>

lemma unat_free_entries:
  assumes "ring_size k r" "bulk_used r \<le> length (br_ring r)"
  shows "unat (prod_size r + cons_tail r - prod_tail r) = length (br_ring r) - bulk_used r"
proof -
  note rs = ring_size_unat [OF assms(1)]
  have "prod_size r + cons_tail r - prod_tail r = prod_size r - (prod_tail r - cons_tail r)" by simp
  then show ?thesis using assms(2) rs(1) by (simp only:) (subst unat_sub_no_ovf; simp add: bulk_used_def)
qed

lemma ring_enqueue_bulk_ok:
  assumes r: "bulk_inv r" and n: "unat n \<le> length buf"
  defines "m \<equiv> min (unat n) (length (br_ring r) - bulk_used r)"
  shows "\<exists>r' m' f. ring_enqueue_bulk r buf n = Some (r', m', f) \<and> unat m' = m \<and> bulk_inv r' \<and>
    bulk_contents r' = bulk_contents r @ take m buf \<and> unat f = length (br_ring r') - bulk_used r'"
proof -
  let ?N = "length (br_ring r)"
  obtain k where k: "ring_size k r" and pc: "prod_head r = prod_tail r" "cons_head r = cons_tail r" "bulk_used r \<le> ?N"
    using r by (auto simp: bulk_inv_def)
  note rs = ring_size_unat [OF k]
  define f where "f = prod_size r + cons_tail r - prod_tail r"
  have f: "unat f = ?N - bulk_used r" using unat_free_entries [OF k pc(3)] by (simp add: f_def)
  define m' where "m' = (if n > f then f else n)"
  have m': "unat m' = m" using f by (auto simp: m'_def m_def word_less_nat_alt)
  show ?thesis
  proof (cases "m' = 0")
    case True
    then have "move_prod_head r n = (r, 0, prod_tail r, prod_tail r, f)"
      by (simp only: move_prod_head_def Let_def pc f_def [symmetric] m'_def [symmetric]) simp
    then have "ring_enqueue_bulk r buf n = Some (r, 0, f)" by (simp add: ring_enqueue_bulk_def)
    then show ?thesis using True m' r f by auto
  next
    case False
    have mN: "bulk_used r + m \<le> ?N" "m \<le> length buf" using pc(3) n by (auto simp: m_def)
    have idx: "unat (prod_tail r AND prod_mask r) = (unat (cons_tail r) + bulk_used r) mod ?N"
      using rs(3) [of "prod_tail r"] prod_index [OF k] by simp
    obtain ys where ys: "bulk_store (br_ring r) ?N ((unat (cons_tail r) + bulk_used r) mod ?N) buf m = Some ys"
      "length ys = ?N" "seg ys (unat (cons_tail r)) (bulk_used r + m) = bulk_contents r @ take m buf"
      using bulk_store_seg [OF refl rs(6) mN] by (auto simp: bulk_contents_def)
    let ?r = "r\<lparr>prod_head := prod_tail r + m', br_ring := ys, prod_tail := prod_tail r + m'\<rparr>"
    have eq: "ring_enqueue_bulk r buf n = Some (?r, m', f - m')"
    proof -
      have "move_prod_head r n = (r\<lparr>prod_head := prod_tail r + m'\<rparr>, m', prod_tail r, prod_tail r + m', f)"
        using False by (simp only: move_prod_head_def Let_def pc f_def [symmetric] m'_def [symmetric]) simp
      then show ?thesis using False ys(1) pc by (simp add: ring_enqueue_bulk_def rs(1) idx m')
    qed
    have "unat (m' + (prod_tail r - cons_tail r)) = bulk_used r + m"
      using mN(1) rs(7) m' by (subst unat_add_no_ovf) (simp_all add: bulk_used_def)
    moreover have "m' + (prod_tail r - cons_tail r) = prod_tail r + m' - cons_tail r" by simp
    ultimately have u: "bulk_used ?r = bulk_used r + m" unfolding bulk_used_def by (simp only:) simp
    have "ring_size k ?r" using k ys(2) by (simp add: ring_size_def)
    then have "bulk_inv ?r" using u mN(1) ys(2) pc by (auto simp: bulk_inv_def)
    moreover have "bulk_contents ?r = bulk_contents r @ take m buf" using ys(3) u by (simp add: bulk_contents_def)
    moreover have "unat (f - m') = length ys - bulk_used ?r"
      using f m' ys(2) u by (subst unat_sub_no_ovf) (auto simp: m_def)
    ultimately show ?thesis using eq m' by simp
  qed
qed

lemma seg_take: "m \<le> n \<Longrightarrow> take m (seg xs c n) = seg xs c m"
  by (simp add: seg_def take_map)

lemma seg_drop: "drop m (seg xs c n) = seg xs (c + m) (n - m)"
  by (auto simp: seg_def add.assoc intro!: nth_equalityI)

lemma ring_dequeue_bulk_ok:
  assumes r: "bulk_inv r" and n: "unat n \<le> length buf"
  defines "m \<equiv> min (unat n) (bulk_used r)"
  shows "\<exists>r' m' f. ring_dequeue_bulk r buf n = Some (r', take m (bulk_contents r) @ drop m buf, m', f) \<and>
    unat m' = m \<and> bulk_inv r' \<and> bulk_contents r' = drop m (bulk_contents r) \<and> unat f = bulk_used r'"
proof -
  let ?N = "length (br_ring r)"
  obtain k where k: "ring_size k r" and pc: "prod_head r = prod_tail r" "cons_head r = cons_tail r" "bulk_used r \<le> ?N"
    using r by (auto simp: bulk_inv_def)
  note rs = ring_size_unat [OF k]
  define e where "e = prod_tail r - cons_tail r"
  have e: "unat e = bulk_used r" by (simp add: e_def bulk_used_def)
  define m' where "m' = (if n > e then e else n)"
  have m': "unat m' = m" using e by (auto simp: m'_def m_def word_less_nat_alt)
  show ?thesis
  proof (cases "m' = 0")
    case True
    then have "move_cons_head r n = (r, 0, cons_tail r, cons_tail r, e)"
      by (simp only: move_cons_head_def Let_def pc e_def [symmetric] m'_def [symmetric]) simp
    then have "ring_dequeue_bulk r buf n = Some (r, buf, 0, e)" by (simp add: ring_dequeue_bulk_def)
    then show ?thesis using True m' r e by auto
  next
    case False
    have mN: "m \<le> ?N" "m \<le> length buf" "m \<le> bulk_used r" using pc(3) n by (auto simp: m_def)
    have ld: "bulk_load (br_ring r) ?N (unat (cons_tail r) mod ?N) buf m = Some (take m (bulk_contents r) @ drop m buf)"
      using bulk_load_seg [OF refl rs(6) mN(1,2)] mN(3) by (simp add: bulk_contents_def seg_take)
    let ?r = "r\<lparr>cons_head := cons_tail r + m', cons_tail := cons_tail r + m'\<rparr>"
    have eq: "ring_dequeue_bulk r buf n = Some (?r, take m (bulk_contents r) @ drop m buf, m', e - m')"
    proof -
      have "move_cons_head r n = (r\<lparr>cons_head := cons_tail r + m'\<rparr>, m', cons_tail r, cons_tail r + m', e)"
        using False by (simp only: move_cons_head_def Let_def pc e_def [symmetric] m'_def [symmetric]) simp
      then show ?thesis using False ld pc by (simp add: ring_dequeue_bulk_def rs(2,4) m')
    qed
    have u: "unat (e - m') = bulk_used r - m" using e m' mN(3) by (subst unat_sub_no_ovf) simp_all
    have u': "bulk_used ?r = bulk_used r - m" using u by (simp add: bulk_used_def e_def diff_diff_eq)
    have "ring_size k ?r" using k by (simp add: ring_size_def)
    then have "bulk_inv ?r" using u' pc by (auto simp: bulk_inv_def)
    moreover have "bulk_contents ?r = drop m (bulk_contents r)"
    proof -
      have "seg (br_ring r) (unat (cons_tail r + m')) n = seg (br_ring r) (unat (cons_tail r) + m) n" for n
        using rs(5) [of "cons_tail r" m'] m' seg_mod [of "br_ring r" "unat (cons_tail r + m')" n]
          seg_mod [of "br_ring r" "unat (cons_tail r) + m" n] by simp
      then show ?thesis by (simp add: bulk_contents_def seg_drop u')
    qed
    ultimately show ?thesis using eq m' u u' by simp
  qed
qed

end
