(* ===== verification/RingConc.thy ===== *)
theory RingConc
  imports RingBulk
begin

text \<open>
  Concurrent use of the ring, one shared memory access at a time. With one producer and one
  consumer the ring is a queue in every interleaving. With two producers it is not: a stale index
  can pass the compare-and-exchange after the ring went round once.
\<close>

section \<open>One producer, one consumer\<close>

text \<open>\<open>ins\<close> lists the values whose enqueue has been published, \<open>outs\<close> those whose dequeue has.\<close>

record 'a spsc =
  rg :: "'a ring"
  pval :: 'a
  ppc :: enq_pc
  cpc :: "'a deq_pc"
  ins :: "'a list"
  outs :: "'a list"

fun is_publish :: "enq_pc \<Rightarrow> bool" where
  "is_publish (E_publish ph) = True"
| "is_publish _ = False"

fun published :: "'a deq_pc \<Rightarrow> 'a list" where
  "published (D_publish ch b) = [b]"
| "published _ = []"

fun e_returned :: "enq_pc \<Rightarrow> bool" where
  "e_returned (E_ret res) = True"
| "e_returned _ = False"

fun d_returned :: "'a deq_pc \<Rightarrow> bool" where
  "d_returned (D_ret res) = True"
| "d_returned _ = False"

inductive spsc_step :: "'a spsc \<Rightarrow> 'a spsc \<Rightarrow> bool" where
  start_enq: "e_returned (ppc s) \<Longrightarrow> spsc_step s (s\<lparr>ppc := E_read_head, pval := v\<rparr>)"
| enq: "\<not> e_returned (ppc s) \<Longrightarrow> enq_step (pval s) (rg s) (ppc s) = Some (r', pc') \<Longrightarrow>
    spsc_step s (s\<lparr>rg := r', ppc := pc', ins := (if is_publish (ppc s) then ins s @ [pval s] else ins s)\<rparr>)"
| start_deq: "d_returned (cpc s) \<Longrightarrow> spsc_step s (s\<lparr>cpc := D_read_head\<rparr>)"
| deq: "\<not> d_returned (cpc s) \<Longrightarrow> deq_step (rg s) (cpc s) = Some (r', pc') \<Longrightarrow>
    spsc_step s (s\<lparr>rg := r', cpc := pc', outs := outs s @ published (cpc s)\<rparr>)"

definition spsc_init :: "'a ring \<Rightarrow> 'a \<Rightarrow> 'a spsc" where
  "spsc_init r v = \<lparr>rg = r, pval = v, ppc = E_ret (Inr ()), cpc = D_ret None, ins = [], outs = []\<rparr>"

text \<open>What the producer knows at each point; \<open>a\<close> values have been published, \<open>c\<close> have been taken.\<close>

fun prod_ok :: "nat \<Rightarrow> nat \<Rightarrow> nat \<Rightarrow> 'a ring \<Rightarrow> 'a \<Rightarrow> enq_pc \<Rightarrow> bool" where
  "prod_ok N a c r v (E_read_tail ph) \<longleftrightarrow> unat (prod_head r) = a mod N \<and> ph = prod_head r"
| "prod_ok N a c r v (E_test ph ct) \<longleftrightarrow> unat (prod_head r) = a mod N \<and> ph = prod_head r \<and>
     (\<exists>c' \<le> c. unat ct = c' mod N \<and> a < c' + N)"
| "prod_ok N a c r v (E_recheck_head ph ct) \<longleftrightarrow> unat (prod_head r) = a mod N \<and> ph = prod_head r \<and>
     (\<exists>c' \<le> c. unat ct = c' mod N \<and> a + 1 = c' + N)"
| "prod_ok N a c r v (E_recheck_tail ph ct) \<longleftrightarrow> unat (prod_head r) = a mod N \<and> ph = prod_head r \<and>
     (\<exists>c' \<le> c. unat ct = c' mod N \<and> a + 1 = c' + N)"
| "prod_ok N a c r v (E_cas ph) \<longleftrightarrow> unat (prod_head r) = a mod N \<and> ph = prod_head r \<and> a + 1 < c + N"
| "prod_ok N a c r v (E_store ph) \<longleftrightarrow> unat (prod_head r) = Suc a mod N \<and> unat ph = a mod N \<and> a + 1 < c + N"
| "prod_ok N a c r v (E_wait ph) \<longleftrightarrow> unat (prod_head r) = Suc a mod N \<and> unat ph = a mod N \<and> a + 1 < c + N \<and>
     br_ring r ! (a mod N) = v"
| "prod_ok N a c r v (E_publish ph) \<longleftrightarrow> unat (prod_head r) = Suc a mod N \<and> unat ph = a mod N \<and> a + 1 < c + N \<and>
     br_ring r ! (a mod N) = v"
| "prod_ok N a c r v _ \<longleftrightarrow> unat (prod_head r) = a mod N"

fun cons_ok :: "nat \<Rightarrow> 'a list \<Rightarrow> nat \<Rightarrow> 'a ring \<Rightarrow> 'a deq_pc \<Rightarrow> bool" where
  "cons_ok N is c r (D_test ch) \<longleftrightarrow> unat (cons_head r) = c mod N \<and> ch = cons_head r"
| "cons_ok N is c r (D_cas ch) \<longleftrightarrow> unat (cons_head r) = c mod N \<and> ch = cons_head r \<and> c < length is"
| "cons_ok N is c r (D_load ch) \<longleftrightarrow> unat (cons_head r) = Suc c mod N \<and> unat ch = c mod N \<and> c < length is"
| "cons_ok N is c r (D_wait ch b) \<longleftrightarrow> unat (cons_head r) = Suc c mod N \<and> unat ch = c mod N \<and> c < length is \<and> b = is ! c"
| "cons_ok N is c r (D_publish ch b) \<longleftrightarrow> unat (cons_head r) = Suc c mod N \<and> unat ch = c mod N \<and> c < length is \<and> b = is ! c"
| "cons_ok N is c r _ \<longleftrightarrow> unat (cons_head r) = c mod N"

definition spsc_inv :: "nat \<Rightarrow> 'a spsc \<Rightarrow> bool" where
  "spsc_inv k s \<longleftrightarrow>
     (let r = rg s; N = 2 ^ k; a = length (ins s); c = length (outs s) in
      ring_size k r \<and> c \<le> a \<and> a < c + N \<and> outs s = take c (ins s) \<and>
      unat (prod_tail r) = a mod N \<and> unat (cons_tail r) = c mod N \<and>
      (\<forall>j. c \<le> j \<and> j < a \<longrightarrow> br_ring r ! (j mod N) = ins s ! j) \<and>
      prod_ok N a c r (pval s) (ppc s) \<and> cons_ok N (ins s) c r (cpc s))"

lemma mod_eq_near:
  assumes "c \<le> a" "a < c + N" "a mod N = c mod (N::nat)"
  shows "a = c"
proof (rule ccontr)
  assume "a \<noteq> c"
  then have "(c + 0) mod N \<noteq> (c + (a - c)) mod N" using assms(1,2) by (intro mod_add_neq) auto
  then show False using assms by simp
qed

lemma full_near:
  assumes "c \<le> a" "a < c + N"
  shows "Suc a mod N = c mod (N::nat) \<longleftrightarrow> Suc a = c + N"
proof
  assume e: "Suc a mod N = c mod N"
  show "Suc a = c + N"
  proof (rule ccontr)
    assume "Suc a \<noteq> c + N"
    then have "Suc a = c" using mod_eq_near [of c "Suc a" N] assms e by simp
    then show False using assms(1) by simp
  qed
qed simp

text \<open>The other side's steps do not disturb what a side knows.\<close>

lemma prod_ok_mono:
  assumes "prod_ok N a c r v pc" "c \<le> c'" "prod_head r' = prod_head r" "br_ring r' = br_ring r"
  shows "prod_ok N a c' r' v pc"
  using assms by (cases pc) (auto intro: le_trans)

lemma cons_ok_mono:
  assumes "cons_ok N is c r pc" "cons_head r' = cons_head r"
  shows "cons_ok N is c r' pc" "cons_ok N (is @ [v]) c r' pc"
  using assms by (cases pc; simp add: nth_append)+

lemma spsc_invD:
  assumes "spsc_inv k s"
  shows "ring_size k (rg s)" "length (outs s) \<le> length (ins s)" "length (ins s) < length (outs s) + 2 ^ k"
    "outs s = take (length (outs s)) (ins s)" "unat (prod_tail (rg s)) = length (ins s) mod 2 ^ k"
    "unat (cons_tail (rg s)) = length (outs s) mod 2 ^ k"
    "\<And>j. length (outs s) \<le> j \<Longrightarrow> j < length (ins s) \<Longrightarrow> br_ring (rg s) ! (j mod 2 ^ k) = ins s ! j"
    "prod_ok (2 ^ k) (length (ins s)) (length (outs s)) (rg s) (pval s) (ppc s)"
    "cons_ok (2 ^ k) (ins s) (length (outs s)) (rg s) (cpc s)"
    "length (br_ring (rg s)) = 2 ^ k"
  using assms by (auto simp: spsc_inv_def Let_def ring_size_def)

lemma spsc_inv_enq:
  assumes i: "spsc_inv k s" and st: "enq_step (pval s) (rg s) (ppc s) = Some (r', pc')" "\<not> e_returned (ppc s)"
  shows "spsc_inv k (s\<lparr>rg := r', ppc := pc', ins := (if is_publish (ppc s) then ins s @ [pval s] else ins s)\<rparr>)"
proof -
  let ?r = "rg s" and ?N = "2 ^ k :: nat" and ?a = "length (ins s)" and ?c = "length (outs s)"
  note d = spsc_invD [OF i]
  have nx: "unat (prod_next ?r x) = Suc (unat x) mod ?N" for x using ring_nexts(1) [OF d(1)] d(10) by simp
  have nxa: "unat (prod_next ?r ph) = Suc ?a mod ?N" if "unat ph = ?a mod ?N" for ph
    by (simp add: nx that mod_Suc_eq)
  note c1 = cons_ok_mono(1) [OF d(9)] and c2 = cons_ok_mono(2) [OF d(9)]
  have sz: "ring_size k r'" if "br_ring r' = br_ring ?r \<or> (\<exists>i v. br_ring r' = (br_ring ?r)[i := v])"
     "prod_size r' = prod_size ?r" "prod_mask r' = prod_mask ?r" "cons_size r' = cons_size ?r" "cons_mask r' = cons_mask ?r"
    using d(1) that by (auto simp: ring_size_def)
  show ?thesis
  proof (cases "ppc s")
    case E_read_head
    then show ?thesis using st d i by (auto simp: spsc_inv_def Let_def)
  next
    case (E_read_tail ph)
    then show ?thesis using st d i by (auto simp: spsc_inv_def Let_def)
  next
    case (E_test ph ct)
    then obtain c' where c': "c' \<le> ?c" "unat ct = c' mod ?N" "?a < c' + ?N" "unat ph = ?a mod ?N" using d(8) by auto
    have "prod_next ?r ph = ct \<longleftrightarrow> Suc ?a = c' + ?N"
      using full_near [of c' ?a ?N] c' d(2) nxa [OF c'(4)] by (simp add: word_unat_eq_iff)
    then show ?thesis using st i E_test c' by (auto simp: spsc_inv_def Let_def)
  next
    case (E_recheck_head ph ct)
    then show ?thesis using st d(8) i by (auto simp: spsc_inv_def Let_def)
  next
    case (E_recheck_tail ph ct)
    then obtain c' where c': "c' \<le> ?c" "unat ct = c' mod ?N" "?a + 1 = c' + ?N" "unat ph = ?a mod ?N" using d(8) by auto
    show ?thesis
    proof (cases "ct = cons_tail ?r")
      case True
      then show ?thesis using st i E_recheck_tail by (auto simp: spsc_inv_def Let_def ring_size_def intro: c1)
    next
      case False
      then have "c' \<noteq> ?c" using c'(2) d(6) by (auto simp: word_unat_eq_iff)
      then show ?thesis using st i E_recheck_tail c' False by (auto simp: spsc_inv_def Let_def)
    qed
  next
    case (E_cas ph)
    then have "unat ph = ?a mod ?N" "ph = prod_head ?r" "?a + 1 < ?c + ?N" using d(8) by auto
    then show ?thesis using st i E_cas nxa [of ph] by (auto simp: spsc_inv_def Let_def ring_size_def intro: c1)
  next
    case (E_store ph)
    then have ph: "unat ph = ?a mod ?N" "unat (prod_head ?r) = Suc ?a mod ?N" "?a + 1 < ?c + ?N" using d(8) by auto
    have lt: "?a mod ?N < length (br_ring ?r)" by (simp add: d(10))
    then have r': "r' = ?r\<lparr>br_ring := (br_ring ?r)[?a mod ?N := pval s]\<rparr>" "pc' = E_wait ph"
      using st E_store ph by (auto simp: ring_set_def)
    have "(br_ring ?r)[?a mod ?N := pval s] ! (j mod ?N) = ins s ! j" if "?c \<le> j" "j < ?a" for j
    proof -
      have "j mod ?N \<noteq> ?a mod ?N" using mod_eq_near [of j ?a ?N] that d(3) by auto
      then show ?thesis using d(7) [OF that] by simp
    qed
    then show ?thesis using d i ph lt E_store by (auto simp: r' spsc_inv_def Let_def ring_size_def intro: c1)
  next
    case (E_wait ph)
    then show ?thesis using st d i by (auto simp: spsc_inv_def Let_def)
  next
    case (E_publish ph)
    then have ph: "unat ph = ?a mod ?N" "unat (prod_head ?r) = Suc ?a mod ?N" "?a + 1 < ?c + ?N"
      "br_ring ?r ! (?a mod ?N) = pval s" using d(8) by auto
    have r': "r' = ?r\<lparr>prod_tail := prod_next ?r ph\<rparr>" "pc' = E_ret (Inr ())" using st E_publish by auto
    have "br_ring ?r ! (j mod ?N) = (ins s @ [pval s]) ! j" if "?c \<le> j" "j < Suc ?a" for j
      using d(7) [of j] that ph(4) by (cases "j = ?a") (auto simp: nth_append)
    then show ?thesis using d(1-6) ph E_publish nxa [OF ph(1)]
      by (auto simp: r' spsc_inv_def Let_def ring_size_def intro: c2)
  next
    case (E_ret res)
    then show ?thesis using st(2) by simp
  qed
qed

lemma spsc_inv_deq:
  assumes i: "spsc_inv k s" and st: "deq_step (rg s) (cpc s) = Some (r', pc')" "\<not> d_returned (cpc s)"
  shows "spsc_inv k (s\<lparr>rg := r', cpc := pc', outs := outs s @ published (cpc s)\<rparr>)"
proof -
  let ?r = "rg s" and ?N = "2 ^ k :: nat" and ?a = "length (ins s)" and ?c = "length (outs s)"
  note d = spsc_invD [OF i]
  have nx: "unat (cons_next ?r x) = Suc (unat x) mod ?N" for x using ring_nexts(2) [OF d(1)] d(10) by simp
  have nxc: "unat (cons_next ?r ch) = Suc ?c mod ?N" if "unat ch = ?c mod ?N" for ch
    by (simp add: nx that mod_Suc_eq)
  note p1 = prod_ok_mono [OF d(8)]
  show ?thesis
  proof (cases "cpc s")
    case D_read_head
    then show ?thesis using st d i by (auto simp: spsc_inv_def Let_def)
  next
    case (D_test ch)
    then have ch: "unat ch = ?c mod ?N" using d(9) by auto
    have "ch = prod_tail ?r \<longleftrightarrow> ?c = ?a"
      using mod_eq_near [OF d(2,3)] ch by (simp only: word_unat_eq_iff d(5)) metis
    then show ?thesis using st i D_test d(2) by (auto simp: spsc_inv_def Let_def)
  next
    case (D_cas ch)
    then have "unat ch = ?c mod ?N" "ch = cons_head ?r" "?c < ?a" using d(9) by auto
    then show ?thesis using st i D_cas nxc [of ch] by (auto simp: spsc_inv_def Let_def ring_size_def intro: p1)
  next
    case (D_load ch)
    then have ch: "unat ch = ?c mod ?N" "?c < ?a" using d(9) by auto
    then have "br_ring ?r ! unat ch = ins s ! ?c" using d(7) [of ?c] by simp
    then show ?thesis using st i D_load ch d(10) by (auto simp: spsc_inv_def Let_def ring_get_def)
  next
    case (D_wait ch b)
    then show ?thesis using st d i by (auto simp: spsc_inv_def Let_def)
  next
    case (D_publish ch b)
    then have ch: "unat ch = ?c mod ?N" "unat (cons_head ?r) = Suc ?c mod ?N" "?c < ?a" "b = ins s ! ?c" using d(9) by auto
    have r': "r' = ?r\<lparr>cons_tail := cons_next ?r ch\<rparr>" "pc' = D_ret (Some b)" using st D_publish by auto
    have "outs s @ [b] = take (Suc ?c) (ins s)" using ch d(4) by (simp add: take_Suc_conv_app_nth)
    then show ?thesis using d ch D_publish nxc [OF ch(1)]
      by (auto simp: r' spsc_inv_def Let_def ring_size_def intro: p1)
  next
    case (D_ret res)
    then show ?thesis using st(2) by simp
  qed
qed

end
