(* ===== verification/RingTop.thy ===== *)
theory RingTop
  imports RingConc
begin

text \<open>The properties of the ring of \<^verbatim>\<open>include/uk/ring.h\<close>, alone and under interleavings.\<close>

lemma spsc_inv_step: "spsc_step s s' \<Longrightarrow> spsc_inv k s \<Longrightarrow> spsc_inv k s'"
proof (induction rule: spsc_step.induct)
  case (start_enq s v)
  then show ?case by (cases "ppc s") (auto simp: spsc_inv_def Let_def)
next
  case (enq s r' pc')
  then show ?case by (intro spsc_inv_enq)
next
  case (start_deq s)
  then show ?case by (cases "cpc s") (auto simp: spsc_inv_def Let_def)
next
  case (deq s r' pc')
  then show ?case by (intro spsc_inv_deq)
qed

lemma spsc_inv_reach: "spsc_step\<^sup>*\<^sup>* s s' \<Longrightarrow> spsc_inv k s \<Longrightarrow> spsc_inv k s'"
  by (induction rule: rtranclp_induct) (auto intro: spsc_inv_step)

lemma spsc_inv_init:
  assumes "ring_alloc n d mem = Some r" "length mem = unat n" "1 < unat n" "unat n < 2 ^ 31"
  shows "\<exists>k. unat n = 2 ^ k \<and> spsc_inv k (spsc_init r v)"
proof -
  note i = ring_alloc_inv [OF assms]
  obtain k where k: "ring_size k r" using i(1) by (auto simp: ring_inv_def)
  have r: "r = \<lparr>prod_head = 0, prod_tail = 0, prod_size = n, prod_mask = n - 1, drops = d,
      cons_head = 0, cons_tail = 0, cons_size = n, cons_mask = n - 1, br_ring = mem\<rparr>"
    using assms(1) by (auto simp: ring_alloc_def uk_assert_bind_Some)
  have "length (br_ring r) = 2 ^ k" using k by (simp only: ring_size_def)
  then have "unat n = 2 ^ k" using assms(2) by (simp add: r)
  moreover have "spsc_inv k (spsc_init r v)" using k by (simp add: spsc_inv_def spsc_init_def Let_def) (simp add: r)
  ultimately show ?thesis by blast
qed

lemma spsc_inv_no_crash:
  assumes "spsc_inv k s"
  shows "enq_step (pval s) (rg s) (ppc s) \<noteq> None" "deq_step (rg s) (cpc s) \<noteq> None"
proof -
  note d = spsc_invD [OF assms]
  show "enq_step (pval s) (rg s) (ppc s) \<noteq> None"
    using d(8,10) by (cases "ppc s") (auto simp: ring_set_def)
  show "deq_step (rg s) (cpc s) \<noteq> None"
    using d(9,10) by (cases "cpc s") (auto simp: ring_get_def)
qed

lemma spsc_inv_drop:
  assumes "spsc_inv k s" "ppc s = E_recheck_tail ph ct" "ct = cons_tail (rg s)"
  shows "length (ins s) = length (outs s) + (2 ^ k - 1)"
proof -
  note d = spsc_invD [OF assms(1)]
  obtain c' where c': "c' \<le> length (outs s)" "unat ct = c' mod 2 ^ k" "length (ins s) + 1 = c' + 2 ^ k"
    using d(8) assms(2) by auto
  have "c' = length (outs s)"
    using mod_eq_near [of c' "length (outs s)" "2 ^ k"] c' d(2,6) assms(3) by simp
  then show ?thesis using c'(3) by simp
qed


definition ring2 :: "nat ring" where
  "ring2 = \<lparr>prod_head = 0, prod_tail = 0, prod_size = 2, prod_mask = 1, drops = 0,
     cons_head = 0, cons_tail = 0, cons_size = 2, cons_mask = 1, br_ring = [0, 0]\<rparr>"

lemma ring2_alloc: "ring_alloc 2 0 [0, 0] = Some ring2"
  by (simp add: ring_alloc_def ring2_def POWER_OF_2_def uk_assert_def)


section \<open>Two producers\<close>

text \<open>\<open>n\<close> steps of an enqueue that is then suspended.\<close>

fun enq_steps :: "nat \<Rightarrow> 'a \<Rightarrow> 'a ring \<Rightarrow> enq_pc \<Rightarrow> ('a ring \<times> enq_pc) option" where
  "enq_steps 0 v r pc = Some (r, pc)"
| "enq_steps (Suc n) v r pc = do { (r', pc') \<leftarrow> enq_step v r pc; enq_steps n v r' pc' }"

text \<open>
  With a second producer an enqueue can overwrite a full ring. In a ring of two slots a producer
  is suspended before its compare-and-exchange; the other one enqueues 2, the consumer takes it, the
  other one enqueues 3 and the indices are back where they were. The first producer's enqueue of 1 then
  reports success, and the next dequeue finds the ring empty: 1 and 3 are both lost.
\<close>

theorem ring_two_producers_lose:
  "\<exists>pc r1 r2 r3 r4. enq_steps 3 1 ring2 E_read_head = Some (ring2, pc) \<and>
    ring_enqueue ring2 2 = Some (r1, Inr ()) \<and> ring_dequeue_mc r1 = Some (r2, Some 2) \<and>
    ring_enqueue r2 3 = Some (r3, Inr ()) \<and> ring_full r3 \<and>
    enq_run 5 1 r3 pc = Some (r4, Inr ()) \<and> ring_dequeue_mc r4 = Some (r4, None)"
  by (simp add: numeral_eq_Suc ring2_def ring_enqueue_def ring_dequeue_mc_def ring_full_def prod_next_def cons_next_def
      ring_set_def ring_get_def)

section \<open>The ring as a bounded queue\<close>



section \<open>Bulk operations\<close>

text \<open>
  The copy loop of the bulk operations, unrolled four times with a \<^verbatim>\<open>switch\<close> for the rest, is the
  element by element copy.
\<close>

theorem ring_unrolled_copy: "cpy_unrolled dst d src s n = cpy_switch dst d src s n"
  by (rule cpy_unrolled_eq)



end
