(* ===== verification/NlString.thy ===== *)
theory NlString
  imports UkPrelude
begin

text \<open>
  The string functions of \<^verbatim>\<open>lib/nolibc/string.c\<close>. Memory is a function from addresses to bytes and
  a pointer a natural number: an object does not run around the end of the address space. \<^verbatim>\<open>NULL\<close> is
  0. A loop that only a terminator stops may run forever; such a function is a
  \<open>partial_function\<close>, with \<open>None\<close> for not returning. \<^verbatim>\<open>char\<close> is signed and words are stored with the
  least significant byte first, as on x86_64.
\<close>

type_synonym mem8 = "nat \<Rightarrow> u8"

abbreviation SIZE_MAX :: nat where "SIZE_MAX \<equiv> 2 ^ 64 - 1"

section \<open>Blocks of bytes\<close>

function memcpy_loop :: "mem8 \<Rightarrow> nat \<Rightarrow> nat \<Rightarrow> nat \<Rightarrow> nat \<Rightarrow> mem8" where
  "memcpy_loop m dst src p len =
     (if p < len then memcpy_loop (m(dst + p := m (src + p))) dst src (p + 1) len else m)"
  by pat_completeness auto
termination
  by (relation "measure (\<lambda>(m, dst, src, p, len). len - p)") auto

definition memcpy :: "mem8 \<Rightarrow> nat \<Rightarrow> nat \<Rightarrow> nat \<Rightarrow> mem8" where
  "memcpy m dst src len = memcpy_loop m dst src 0 len"

fun memset :: "mem8 \<Rightarrow> nat \<Rightarrow> u8 \<Rightarrow> nat \<Rightarrow> mem8" where
  "memset m p val 0 = m"
| "memset m p val (Suc len) = memset (m(p := val)) (p + 1) val len"

function memchr_loop :: "mem8 \<Rightarrow> nat \<Rightarrow> u8 \<Rightarrow> nat \<Rightarrow> nat \<Rightarrow> nat" where
  "memchr_loop m ptr val off len =
     (if off < len then (if m (ptr + off) = val then ptr + off else memchr_loop m ptr val (off + 1) len) else 0)"
  by pat_completeness auto
termination
  by (relation "measure (\<lambda>(m, ptr, val, off, len). len - off)") auto

definition memchr :: "mem8 \<Rightarrow> nat \<Rightarrow> u8 \<Rightarrow> nat \<Rightarrow> nat" where
  "memchr m ptr val len = memchr_loop m ptr val 0 len"

fun memrchr :: "mem8 \<Rightarrow> nat \<Rightarrow> u8 \<Rightarrow> nat \<Rightarrow> nat" where
  "memrchr m s c 0 = 0"
| "memrchr m s c (Suc n) = (if m (s + n) = c then s + n else memrchr m s c n)"

fun memmove_fwd :: "mem8 \<Rightarrow> nat \<Rightarrow> nat \<Rightarrow> nat \<Rightarrow> mem8" where
  "memmove_fwd m d s 0 = m"
| "memmove_fwd m d s (Suc len) = memmove_fwd (m(d := m s)) (d + 1) (s + 1) len"

fun memmove_bwd :: "mem8 \<Rightarrow> nat \<Rightarrow> nat \<Rightarrow> nat \<Rightarrow> mem8" where
  "memmove_bwd m d s 0 = m"
| "memmove_bwd m d s (Suc len) = memmove_bwd (m(d := m s)) (d - 1) (s - 1) len"

definition memmove :: "mem8 \<Rightarrow> nat \<Rightarrow> nat \<Rightarrow> nat \<Rightarrow> mem8" where
  "memmove m dst src len =
     (if src > dst then memmove_fwd m dst src len
      else memmove_bwd m (dst + len) (src + len) len)"

fun memcmp :: "mem8 \<Rightarrow> nat \<Rightarrow> nat \<Rightarrow> nat \<Rightarrow> int" where
  "memcmp m c1 c2 0 = 0"
| "memcmp m c1 c2 (Suc len) =
     (if m c1 \<noteq> m c2 then uint (m c1) - uint (m c2) else memcmp m (c1 + 1) (c2 + 1) len)"

section \<open>Length, copy and comparison\<close>

definition strnlen :: "mem8 \<Rightarrow> nat \<Rightarrow> nat \<Rightarrow> nat" where
  "strnlen m str len = (let p = memchr m str 0 len in if p \<noteq> 0 then p - str else len)"

definition strlen :: "mem8 \<Rightarrow> nat \<Rightarrow> nat" where
  "strlen m str = strnlen m str SIZE_MAX"

text \<open>For \<^verbatim>\<open>clen\<close> 0 the test reads the byte before the buffer.\<close>

definition strncpy :: "mem8 \<Rightarrow> nat \<Rightarrow> nat \<Rightarrow> nat \<Rightarrow> mem8" where
  "strncpy m dst src len =
     (let clen = strnlen m src len;
          m1 = memcpy m dst src clen
      in if clen < len \<and> m1 (dst + clen - 1) \<noteq> 0 then m1(dst + clen := 0) else m1)"

definition strcpy :: "mem8 \<Rightarrow> nat \<Rightarrow> nat \<Rightarrow> mem8" where
  "strcpy m dst src = strncpy m dst src SIZE_MAX"

fun strncmp :: "mem8 \<Rightarrow> nat \<Rightarrow> nat \<Rightarrow> nat \<Rightarrow> int" where
  "strncmp m c1 c2 0 = 0"
| "strncmp m c1 c2 (Suc len) =
     (if m c1 \<noteq> m c2 then sint (m c1) - sint (m c2)
      else if m c1 = 0 then 0
      else strncmp m (c1 + 1) (c2 + 1) len)"

text \<open>The difference is kept in a \<^verbatim>\<open>signed char\<close>.\<close>

partial_function (option) strcmp :: "mem8 \<Rightarrow> nat \<Rightarrow> nat \<Rightarrow> int option" where
  "strcmp m str1 str2 =
     (let res = m str1 - m str2 in
      if res = 0 \<and> m str1 \<noteq> 0 then strcmp m (str1 + 1) (str2 + 1) else Some (sint res))"

section \<open>Searching a word at a time\<close>

abbreviation ONES :: u64 where "ONES \<equiv> 0x0101010101010101"
abbreviation HIGHS :: u64 where "HIGHS \<equiv> 0x8080808080808080"

definition HASZERO :: "u64 \<Rightarrow> u64" where
  "HASZERO x = (x - ONES) AND NOT x AND HIGHS"

text \<open>Reading and writing \<open>n\<close> bytes as a word.\<close>

fun loadn :: "mem8 \<Rightarrow> nat \<Rightarrow> nat \<Rightarrow> u64" where
  "loadn m a 0 = 0"
| "loadn m a (Suc n) = ucast (m a) + 256 * loadn m (a + 1) n"

fun storen :: "mem8 \<Rightarrow> nat \<Rightarrow> u64 \<Rightarrow> nat \<Rightarrow> mem8" where
  "storen m a w 0 = m"
| "storen m a w (Suc n) = storen (m(a := ucast w)) (a + 1) (w div 256) n"

function strchrnul_align :: "mem8 \<Rightarrow> nat \<Rightarrow> u8 \<Rightarrow> nat + nat" where
  "strchrnul_align m s c =
     (if s mod 8 \<noteq> 0
      then (if m s = 0 \<or> m s = c then Inl s else strchrnul_align m (s + 1) c)
      else Inr s)"
  by pat_completeness auto
termination
  by (relation "measure (\<lambda>(m, s, c). if s mod 8 = 0 then 0 else 8 - s mod 8)") (auto simp: mod_Suc)

partial_function (option) strchrnul_words :: "mem8 \<Rightarrow> nat \<Rightarrow> u64 \<Rightarrow> nat option" where
  "strchrnul_words m w k =
     (let x = loadn m w 8 in
      if HASZERO x = 0 \<and> HASZERO (x XOR k) = 0 then strchrnul_words m (w + 8) k else Some w)"

partial_function (option) strchrnul_bytes :: "mem8 \<Rightarrow> nat \<Rightarrow> u8 \<Rightarrow> nat option" where
  "strchrnul_bytes m s c = (if m s \<noteq> 0 \<and> m s \<noteq> c then strchrnul_bytes m (s + 1) c else Some s)"

definition strchrnul :: "mem8 \<Rightarrow> nat \<Rightarrow> u8 \<Rightarrow> nat option" where
  "strchrnul m s c =
     (if c = 0 then Some (s + strlen m s)
      else case strchrnul_align m s c of
        Inl r \<Rightarrow> Some r
      | Inr s' \<Rightarrow> do {
          w \<leftarrow> strchrnul_words m s' (ONES * ucast c);
          strchrnul_bytes m w c
        })"

definition strchr :: "mem8 \<Rightarrow> nat \<Rightarrow> u8 \<Rightarrow> nat option" where
  "strchr m str c = do { r \<leftarrow> strchrnul m str c; Some (if m r = c then r else 0) }"

definition strrchr :: "mem8 \<Rightarrow> nat \<Rightarrow> u8 \<Rightarrow> nat" where
  "strrchr m s c = memrchr m s c (strlen m s + 1)"

section \<open>Spans and tokens\<close>

text \<open>A set of bytes in four words, as \<^verbatim>\<open>BITOP\<close> reads and writes it.\<close>

definition bitop_or :: "u64 list \<Rightarrow> u8 \<Rightarrow> u64 list" where
  "bitop_or bs b = bs[unat b div 64 := bs ! (unat b div 64) OR push_bit (unat b mod 64) 1]"

definition bitop_and :: "u64 list \<Rightarrow> u8 \<Rightarrow> u64" where
  "bitop_and bs b = bs ! (unat b div 64) AND push_bit (unat b mod 64) 1"

partial_function (option) byteset_fill :: "mem8 \<Rightarrow> u64 list \<Rightarrow> nat \<Rightarrow> u64 list option" where
  "byteset_fill m bs c =
     (if m c \<noteq> 0
      then (let bs' = bitop_or bs (m c) in
            if bs' ! (unat (m c) div 64) \<noteq> 0 then byteset_fill m bs' (c + 1) else Some bs')
      else Some bs)"

partial_function (option) span_out :: "mem8 \<Rightarrow> u64 list \<Rightarrow> nat \<Rightarrow> nat option" where
  "span_out m bs s = (if m s \<noteq> 0 \<and> bitop_and bs (m s) = 0 then span_out m bs (s + 1) else Some s)"

partial_function (option) span_in :: "mem8 \<Rightarrow> u64 list \<Rightarrow> nat \<Rightarrow> nat option" where
  "span_in m bs s = (if m s \<noteq> 0 \<and> bitop_and bs (m s) \<noteq> 0 then span_in m bs (s + 1) else Some s)"

partial_function (option) span_eq :: "mem8 \<Rightarrow> nat \<Rightarrow> u8 \<Rightarrow> nat option" where
  "span_eq m s c = (if m s = c then span_eq m (s + 1) c else Some s)"

definition strcspn :: "mem8 \<Rightarrow> nat \<Rightarrow> nat \<Rightarrow> nat option" where
  "strcspn m s c =
     (if m c = 0 \<or> m (c + 1) = 0 then do { r \<leftarrow> strchrnul m s (m c); Some (r - s) }
      else do {
        bs \<leftarrow> byteset_fill m [0, 0, 0, 0] c;
        r \<leftarrow> span_out m bs s;
        Some (r - s)
      })"

definition strspn :: "mem8 \<Rightarrow> nat \<Rightarrow> nat \<Rightarrow> nat option" where
  "strspn m s c =
     (if m c = 0 then Some 0
      else if m (c + 1) = 0 then do { r \<leftarrow> span_eq m s (m c); Some (r - s) }
      else do {
        bs \<leftarrow> byteset_fill m [0, 0, 0, 0] c;
        r \<leftarrow> span_in m bs s;
        Some (r - s)
      })"

text \<open>The results are the memory, the token and the new value of the saved pointer.\<close>

definition strtok_r :: "mem8 \<Rightarrow> nat \<Rightarrow> nat \<Rightarrow> nat \<Rightarrow> (mem8 \<times> nat \<times> nat) option" where
  "strtok_r m s sep p =
     (let s0 = (if s = 0 then p else s) in
      if s0 = 0 then Some (m, 0, p)
      else do {
        k \<leftarrow> strspn m s0 sep;
        let s1 = s0 + k;
        if m s1 = 0 then Some (m, 0, 0)
        else do {
          l \<leftarrow> strcspn m s1 sep;
          let p1 = s1 + l;
          if m p1 \<noteq> 0 then Some (m(p1 := 0), s1, p1 + 1) else Some (m, s1, 0)
        }
      })"

text \<open>\<^verbatim>\<open>strtok\<close> keeps the pointer in a static variable, here its last argument and result.\<close>

definition strtok :: "mem8 \<Rightarrow> nat \<Rightarrow> nat \<Rightarrow> nat \<Rightarrow> (mem8 \<times> nat \<times> nat) option" where
  "strtok m s sep static_p =
     (let s0 = (if s = 0 then static_p else s) in
      if s0 = 0 then Some (m, 0, static_p)
      else do {
        k \<leftarrow> strspn m s0 sep;
        let s1 = s0 + k;
        if m s1 = 0 then Some (m, 0, 0)
        else do {
          l \<leftarrow> strcspn m s1 sep;
          let p1 = s1 + l;
          if m p1 \<noteq> 0 then Some (m(p1 := 0), s1, p1 + 1) else Some (m, s1, 0)
        }
      })"

section \<open>Duplicates and bounded copies\<close>

text \<open>
  \<open>alloc\<close> is \<^verbatim>\<open>malloc\<close>: from the memory and a size, the memory and a pointer or 0. The length is kept
  in an \<^verbatim>\<open>int\<close>, and converted back to \<^verbatim>\<open>size_t\<close> in the calls.
\<close>

definition strndup :: "(mem8 \<Rightarrow> nat \<Rightarrow> mem8 \<times> nat) \<Rightarrow> mem8 \<Rightarrow> nat \<Rightarrow> nat \<Rightarrow> mem8 \<times> nat" where
  "strndup alloc m str len =
     (let l = sint (of_nat (strnlen m str len) :: u32);
          (m1, res) = alloc m (nat ((l + 1) mod 2 ^ 64))
      in if res \<noteq> 0
         then ((memcpy m1 res str (nat (l mod 2 ^ 64)))(nat (int res + l) := 0), res)
         else (m1, res))"

definition strdup :: "(mem8 \<Rightarrow> nat \<Rightarrow> mem8 \<times> nat) \<Rightarrow> mem8 \<Rightarrow> nat \<Rightarrow> mem8 \<times> nat" where
  "strdup alloc m str = strndup alloc m str SIZE_MAX"

text \<open>The loops of \<^verbatim>\<open>strlcpy\<close>; the results are the memory and the final \<^verbatim>\<open>d\<close>, \<^verbatim>\<open>s\<close> and \<^verbatim>\<open>n\<close>.\<close>

fun strlcpy_align :: "mem8 \<Rightarrow> nat \<Rightarrow> nat \<Rightarrow> nat \<Rightarrow> mem8 \<times> nat \<times> nat \<times> nat" where
  "strlcpy_align m d s 0 = (m, d, s, 0)"
| "strlcpy_align m d s (Suc n) =
     (if s mod 8 \<noteq> 0
      then (let m1 = m(d := m s) in if m s \<noteq> 0 then strlcpy_align m1 (d + 1) (s + 1) n else (m1, d, s, Suc n))
      else (m, d, s, Suc n))"

function strlcpy_words :: "mem8 \<Rightarrow> nat \<Rightarrow> nat \<Rightarrow> nat \<Rightarrow> mem8 \<times> nat \<times> nat \<times> nat" where
  "strlcpy_words m d s n =
     (if 8 \<le> n \<and> HASZERO (loadn m s 8) = 0
      then strlcpy_words (storen m d (loadn m s 8) 8) (d + 8) (s + 8) (n - 8)
      else (m, d, s, n))"
  by pat_completeness auto
termination
  by (relation "measure (\<lambda>(m, d, s, n). n)") auto

fun strlcpy_bytes :: "mem8 \<Rightarrow> nat \<Rightarrow> nat \<Rightarrow> nat \<Rightarrow> mem8 \<times> nat \<times> nat \<times> nat" where
  "strlcpy_bytes m d s 0 = (m, d, s, 0)"
| "strlcpy_bytes m d s (Suc n) =
     (let m1 = m(d := m s) in
      if m s \<noteq> 0 then strlcpy_bytes m1 (d + 1) (s + 1) n else (m1, d, s, Suc n))"

definition strlcpy :: "mem8 \<Rightarrow> nat \<Rightarrow> nat \<Rightarrow> nat \<Rightarrow> mem8 \<times> nat" where
  "strlcpy m d0 s0 n0 =
     (if n0 = 0 then (m, strlen m s0)
      else
        let (m1, d1, s1, n1) =
              (if s0 mod 8 = d0 mod 8
               then (let (m', d', s', n') = strlcpy_align m d0 s0 (n0 - 1)
                     in if n' \<noteq> 0 \<and> m' s' \<noteq> 0 then strlcpy_words m' d' s' n' else (m', d', s', n'))
               else (m, d0, s0, n0 - 1));
            (m2, d2, s2, n2) = strlcpy_bytes m1 d1 s1 n1;
            m3 = m2(d2 := 0)
        in (m3, d2 - d0 + strlen m3 s2))"

definition strlcat :: "mem8 \<Rightarrow> nat \<Rightarrow> nat \<Rightarrow> nat \<Rightarrow> mem8 \<times> nat" where
  "strlcat m d s n =
     (let l = strnlen m d n in
      if l = n then (m, l + strlen m s)
      else let (m1, r) = strlcpy m (d + l) s (n - l) in (m1, l + r))"

declare memcpy_loop.simps [simp del] memchr_loop.simps [simp del] strchrnul_align.simps [simp del]
  strlcpy_words.simps [simp del]

end
