(* ===== verification/NlStringOk.thy ===== *)
theory NlStringOk
  imports NlString
begin

text \<open>
  What the block and string functions compute, in terms of the strings stored in memory; among them
  that the word-at-a-time tricks find the first zero byte.
\<close>

section \<open>Strings in memory\<close>

definition c_string :: "mem8 \<Rightarrow> nat \<Rightarrow> u8 list \<Rightarrow> bool" where
  "c_string m a xs \<longleftrightarrow> 0 \<notin> set xs \<and> (\<forall>i < length xs. m (a + i) = xs ! i) \<and> m (a + length xs) = 0"

lemma c_string_Nil [simp]: "c_string m a [] \<longleftrightarrow> m a = 0"
  by (simp add: c_string_def)

lemma c_string_Cons [simp]: "c_string m a (x # xs) \<longleftrightarrow> x \<noteq> 0 \<and> m a = x \<and> c_string m (Suc a) xs"
proof -
  have "(\<forall>i < Suc (length xs). m (a + i) = (x # xs) ! i) \<longleftrightarrow> m a = x \<and> (\<forall>i < length xs. m (Suc a + i) = xs ! i)"
    using All_less_Suc2 [of "length xs" "\<lambda>i. m (a + i) = (x # xs) ! i"] by simp
  then show ?thesis by (auto simp: c_string_def)
qed

lemma c_string_unique: "c_string m a xs \<Longrightarrow> c_string m a ys \<Longrightarrow> xs = ys"
proof (induction xs arbitrary: a ys)
  case Nil
  then show ?case by (cases ys) auto
next
  case (Cons x xs)
  then show ?case by (cases ys) auto
qed

lemma c_string_cong: "(\<And>x. a \<le> x \<Longrightarrow> x \<le> a + length xs \<Longrightarrow> m' x = m x) \<Longrightarrow> c_string m' a xs \<longleftrightarrow> c_string m a xs"
  by (auto simp: c_string_def)

section \<open>Blocks\<close>

text \<open>Memory with \<open>len\<close> bytes at \<open>dst\<close> replaced by those at \<open>src\<close>.\<close>

definition copied :: "mem8 \<Rightarrow> nat \<Rightarrow> nat \<Rightarrow> nat \<Rightarrow> mem8" where
  "copied m dst src len = (\<lambda>x. if dst \<le> x \<and> x < dst + len then m (src + (x - dst)) else m x)"

lemma copied_0 [simp]: "copied m d s 0 = m"
  by (rule ext) (auto simp: copied_def)

lemma memcpy_loop_eq:
  assumes "dst \<le> src \<or> src + len \<le> dst" "p \<le> len"
  shows "memcpy_loop m dst src p len = copied m (dst + p) (src + p) (len - p)"
  using assms(2)
proof (induction "len - p" arbitrary: p m)
  case 0
  then show ?case by (simp add: memcpy_loop.simps)
next
  case (Suc n)
  then have lt: "p < len" by simp
  have "memcpy_loop m dst src p len = memcpy_loop (m(dst + p := m (src + p))) dst src (p + 1) len"
    using lt by (subst memcpy_loop.simps) simp
  also have "\<dots> = copied (m(dst + p := m (src + p))) (dst + (p + 1)) (src + (p + 1)) (len - (p + 1))"
    using Suc lt by (intro Suc.hyps) auto
  also have "\<dots> = copied m (dst + p) (src + p) (len - p)"
  proof
    fix x
    show "copied (m(dst + p := m (src + p))) (dst + (p + 1)) (src + (p + 1)) (len - (p + 1)) x =
        copied m (dst + p) (src + p) (len - p) x"
    proof (cases "dst + p < x \<and> x < dst + len")
      case True
      then have "src + (p + 1) + (x - (dst + (p + 1))) = src + p + (x - (dst + p))"
        "src + p + (x - (dst + p)) \<noteq> dst + p" using assms(1) by auto
      then show ?thesis using True lt unfolding copied_def by simp
    next
      case False
      then show ?thesis using lt by (auto simp: copied_def)
    qed
  qed
  finally show ?case .
qed

lemma memcpy_eq:
  assumes "dst \<le> src \<or> src + len \<le> dst"
  shows "memcpy m dst src len = copied m dst src len"
  using memcpy_loop_eq [OF assms, of 0 m] by (simp add: memcpy_def)

lemma memset_eq: "memset m p v len = (\<lambda>x. if p \<le> x \<and> x < p + len then v else m x)"
  by (induction len arbitrary: m p) (auto intro!: ext)

lemma memmove_fwd_eq: "d < s \<Longrightarrow> memmove_fwd m d s len = copied m d s len"
proof (induction len arbitrary: m d s)
  case (Suc len)
  have "copied (m(d := m s)) (d + 1) (s + 1) len x = copied m d s (Suc len) x" for x
    using Suc.prems by (cases "d < x") (auto simp: copied_def Suc_diff_Suc)
  then show ?case using Suc by (simp add: fun_eq_iff)
qed simp

lemma memmove_bwd_eq:
  "s \<le> d \<Longrightarrow> len \<le> s \<Longrightarrow>
   memmove_bwd m d s len = (\<lambda>x. if d - len < x \<and> x \<le> d then m (s - (d - x)) else m x)"
proof (induction len arbitrary: m d s)
  case (Suc len)
  then have "memmove_bwd m d s (Suc len) =
      (\<lambda>x. if d - 1 - len < x \<and> x \<le> d - 1 then (m(d := m s)) (s - 1 - (d - 1 - x)) else (m(d := m s)) x)"
    unfolding memmove_bwd.simps by (intro Suc.IH) auto
  also have "\<dots> = (\<lambda>x. if d - Suc len < x \<and> x \<le> d then m (s - (d - x)) else m x)"
  proof
    fix x
    show "(if d - 1 - len < x \<and> x \<le> d - 1 then (m(d := m s)) (s - 1 - (d - 1 - x)) else (m(d := m s)) x) =
        (if d - Suc len < x \<and> x \<le> d then m (s - (d - x)) else m x)"
    proof (cases "x < d")
      case True
      then have "s - 1 - (d - 1 - x) = s - (d - x)" "s - (d - x) \<noteq> d" "x \<le> d - 1" using Suc.prems by arith+
      then show ?thesis using True by simp
    qed (use Suc.prems in auto)
  qed
  finally show ?case .
qed (auto intro!: ext)

lemma memcmp_zero_iff: "memcmp m a b n = 0 \<longleftrightarrow> (\<forall>i < n. m (a + i) = m (b + i))"
proof (induction n arbitrary: a b)
  case (Suc n)
  have "(\<forall>i < Suc n. m (a + i) = m (b + i)) \<longleftrightarrow> m a = m b \<and> (\<forall>i < n. m (a + 1 + i) = m (b + 1 + i))"
    using All_less_Suc2 [of n "\<lambda>i. m (a + i) = m (b + i)"] by simp
  then show ?case using Suc by (simp add: uint_word_ariths word_uint_eq_iff)
qed simp

section \<open>Lengths\<close>

lemma memchr_loop_string:
  assumes "c_string m a xs" "off \<le> length xs"
  shows "memchr_loop m a 0 off len = (if length xs < len then a + length xs else 0)"
  using assms(2)
proof (induction "length xs - off" arbitrary: off)
  case 0
  then show ?case using assms(1) by (subst memchr_loop.simps) (auto simp: c_string_def)
next
  case (Suc n)
  then have "m (a + off) \<noteq> 0" using assms(1) by (auto simp: c_string_def in_set_conv_nth)
  then show ?case using Suc by (subst memchr_loop.simps) auto
qed

lemma strnlen_string:
  assumes "c_string m a xs" "0 < a"
  shows "strnlen m a len = min (length xs) len"
  using memchr_loop_string [OF assms(1), of 0 len] assms(2) by (auto simp: strnlen_def memchr_def Let_def)

lemma strlen_string:
  assumes "c_string m a xs" "0 < a" "length xs < 2 ^ 64"
  shows "strlen m a = length xs"
  using strnlen_string [OF assms(1,2)] assms(3) by (simp add: strlen_def)

section \<open>Comparison\<close>

lemma strcmp_string:
  assumes "c_string m a xs" "c_string m b ys"
  shows "\<exists>r. strcmp m a b = Some r \<and> (r = 0 \<longleftrightarrow> xs = ys)"
  using assms
proof (induction xs arbitrary: a b ys)
  case Nil
  then show ?case
    by (cases ys) (subst strcmp.simps, auto simp: Let_def signed_eq_0_iff)+
next
  case (Cons x xs)
  show ?case
  proof (cases ys)
    case (Cons y ys')
    show ?thesis
    proof (cases "x = y")
      case True
      then have "strcmp m a b = strcmp m (a + 1) (b + 1)"
        using Cons Cons.prems by (subst strcmp.simps) (auto simp: Let_def)
      then show ?thesis using Cons.IH [of "a + 1" "b + 1" ys'] Cons Cons.prems True by auto
    next
      case False
      then show ?thesis using Cons Cons.prems by (subst strcmp.simps) (auto simp: Let_def signed_eq_0_iff)
    qed
  qed (use Cons.prems in \<open>subst strcmp.simps, auto simp: Let_def signed_eq_0_iff\<close>)
qed

end
