(* ===== verification/NlStringWord.thy ===== *)
theory NlStringWord
  imports NlStringOk
begin

text \<open>
  The word-at-a-time search: \<^verbatim>\<open>HASZERO\<close> is zero exactly when no byte of the word is, so \<^verbatim>\<open>strchrnul\<close>
  returns the first occurrence of a byte or the terminator; the byte sets of \<^verbatim>\<open>strspn\<close> and \<^verbatim>\<open>strcspn\<close>.
\<close>

section \<open>Bytes of an integer\<close>

text \<open>On integers: the value of a list of bytes, least significant first, and the two constants.\<close>

fun bytes_val :: "int list \<Rightarrow> int" where
  "bytes_val [] = 0"
| "bytes_val (b # bs) = b + 256 * bytes_val bs"

fun rep_val :: "int \<Rightarrow> nat \<Rightarrow> int" where
  "rep_val c 0 = 0"
| "rep_val c (Suc n) = c + 256 * rep_val c n"

lemma byte_low_high:
  assumes "0 \<le> (a::int)" "a < 256"
  shows "take_bit 8 (a + 256 * y) = a" "drop_bit 8 (a + 256 * y) = y"
  using assms by (simp_all add: take_bit_eq_mod drop_bit_eq_div)

lemma int_split_byte: "(x::int) = take_bit 8 x + 256 * drop_bit 8 x"
  by (simp add: take_bit_eq_mod drop_bit_eq_div)

lemma and_bytes:
  assumes "0 \<le> (a::int)" "a < 256" "0 \<le> b" "b < 256"
  shows "(a + 256 * y) AND (b + 256 * z) = (a AND b) + 256 * (y AND z)"
  by (subst int_split_byte)
    (simp only: take_bit_and drop_bit_and byte_low_high [OF assms(1,2)] byte_low_high [OF assms(3,4)])

lemma and3_bytes:
  assumes "0 \<le> (a::int)" "a < 256" "0 \<le> b" "b < 256" "0 \<le> c" "c < 256"
  shows "(a + 256 * x) AND (b + 256 * y) AND (c + 256 * z) = (a AND b AND c) + 256 * (x AND y AND z)"
proof -
  have "0 \<le> b AND c" "b AND c < 256" using assms AND_upper2 [of c b] by auto
  then show ?thesis using assms by (simp only: and_bytes)
qed

lemma xor_bytes:
  assumes "0 \<le> (a::int)" "a < 256" "0 \<le> b" "b < 256"
  shows "(a + 256 * y) XOR (b + 256 * z) = (a XOR b) + 256 * (y XOR z)"
  by (subst int_split_byte)
    (simp only: take_bit_xor drop_bit_xor byte_low_high [OF assms(1,2)] byte_low_high [OF assms(3,4)])

lemma not_bytes: "NOT (a + 256 * y) = (255 - a) + 256 * NOT (y::int)"
  by (simp add: not_int_def)

lemma and_range: "0 \<le> (b::int) \<Longrightarrow> 0 \<le> a AND b \<and> a AND b \<le> b"
  by (simp add: AND_upper2)

lemma small_byte_cases:
  assumes "0 < (b::int)" "b < 256"
  shows "(b - 1) AND (255 - b) AND 128 = 0"
proof -
  have "\<forall>b \<in> {1..255}. ((b::int) - 1) AND (255 - b) AND 128 = 0" by code_simp
  then show ?thesis using assms by auto
qed

lemma rep_val_nonneg: "0 \<le> c \<Longrightarrow> 0 \<le> rep_val c n"
  by (induction n) simp_all

lemma bytes_haszero:
  assumes "\<forall>b \<in> set bs. 0 \<le> b \<and> b < 256"
  shows "((bytes_val bs - rep_val 1 (length bs)) AND NOT (bytes_val bs) AND rep_val 128 (length bs) = 0) \<longleftrightarrow> 0 \<notin> set bs"
  using assms
proof (induction bs)
  case (Cons b bs)
  let ?v = "bytes_val bs" and ?o = "rep_val 1 (length bs)" and ?h = "rep_val 128 (length bs)"
  have b: "0 \<le> b" "b < 256" using Cons.prems by auto
  have h: "0 \<le> ?h" by (simp add: rep_val_nonneg)
  show ?case
  proof (cases "b = 0")
    case True
    have e: "256 * ?v - (1 + 256 * ?o) = 255 + 256 * (?v - ?o - 1)" "NOT (256 * ?v) = 255 + 256 * NOT ?v"
      using not_bytes [of 0 ?v] by simp_all
    have "(255 + 256 * (?v - ?o - 1)) AND (255 + 256 * NOT ?v) AND (128 + 256 * ?h) =
        128 + 256 * ((?v - ?o - 1) AND NOT ?v AND ?h)"
      by (subst and3_bytes) simp_all
    moreover have "0 \<le> (?v - ?o - 1) AND (NOT ?v AND ?h)" using and_range [OF h] and_range by blast
    ultimately have "(256 * ?v - (1 + 256 * ?o)) AND NOT (256 * ?v) AND (128 + 256 * ?h) \<noteq> 0"
      unfolding e by linarith
    then show ?thesis using True by simp
  next
    case False
    have e: "b + 256 * ?v - (1 + 256 * ?o) = (b - 1) + 256 * (?v - ?o)" by simp
    have "((b - 1) + 256 * (?v - ?o)) AND ((255 - b) + 256 * NOT ?v) AND (128 + 256 * ?h) =
        ((b - 1) AND (255 - b) AND 128) + 256 * ((?v - ?o) AND NOT ?v AND ?h)"
      using b False by (subst and3_bytes) simp_all
    then show ?thesis using Cons b False small_byte_cases [of b] by (simp add: e not_bytes)
  qed
qed simp

section \<open>Words\<close>

definition mem_bytes :: "mem8 \<Rightarrow> nat \<Rightarrow> nat \<Rightarrow> int list" where
  "mem_bytes m a n = map (\<lambda>i. uint (m (a + i))) [0..<n]"

lemma mem_bytes_Suc: "mem_bytes m a (Suc n) = uint (m a) # mem_bytes m (a + 1) n"
  by (simp add: mem_bytes_def upt_conv_Cons map_Suc_upt [symmetric] comp_def del: upt_Suc)

lemma length_mem_bytes: "length (mem_bytes m a n) = n"
  by (simp add: mem_bytes_def)

lemma loadn_bytes: "loadn m a n = word_of_int (bytes_val (mem_bytes m a n))"
proof (induction n arbitrary: a)
  case 0
  then show ?case by (simp add: mem_bytes_def)
next
  case (Suc n)
  then show ?case
    by (simp only: loadn.simps mem_bytes_Suc bytes_val.simps of_int_add of_int_mult of_int_numeral ucast_eq)
qed

lemma rep_val_8:
  "rep_val c 8 = 0x0101010101010101 * c" "rep_val 1 8 = 0x0101010101010101" "rep_val 128 8 = 0x8080808080808080"
proof -
  have "rep_val c 8 = rep_val c (Suc (Suc (Suc (Suc (Suc (Suc (Suc (Suc 0))))))))" for c by (simp add: eval_nat_numeral)
  then show *: "rep_val c 8 = 0x0101010101010101 * c" for c by (simp only: rep_val.simps) simp
  show "rep_val 1 8 = 0x0101010101010101" "rep_val 128 8 = 0x8080808080808080" by (simp_all add: *)
qed

lemma word_of_int_small_zero: "0 \<le> e \<Longrightarrow> e < 2 ^ 64 \<Longrightarrow> (word_of_int e :: u64) = 0 \<longleftrightarrow> e = 0"
  using zdvd_not_zless [of e "2 ^ 64"] by (auto simp: word_of_int_eq_0_iff)

lemma HASZERO_bytes:
  assumes "\<forall>b \<in> set bs. 0 \<le> b \<and> b < 256" "length bs = 8"
  shows "HASZERO (word_of_int (bytes_val bs)) = 0 \<longleftrightarrow> 0 \<notin> set bs"
proof -
  let ?e = "(bytes_val bs - rep_val 1 8) AND NOT (bytes_val bs) AND rep_val 128 8"
  have "HASZERO (word_of_int (bytes_val bs)) = word_of_int ?e"
    unfolding HASZERO_def rep_val_8
    by (simp add: of_int_and_eq of_int_not_eq)
  moreover have "0 \<le> ?e" "?e < 2 ^ 64"
    using and_range [of "rep_val 128 8" "(bytes_val bs - rep_val 1 8) AND NOT (bytes_val bs)"]
    by (simp_all add: rep_val_8 and.assoc)
  then have "(word_of_int ?e :: u64) = 0 \<longleftrightarrow> ?e = 0"
    by (rule word_of_int_small_zero)
  ultimately show ?thesis using bytes_haszero [OF assms(1)] assms(2) by simp
qed

lemma mem_bytes_range: "\<forall>b \<in> set (mem_bytes m a n). 0 \<le> b \<and> b < 256"
  using uint_lt2p [where 'a = 8] by (auto simp: mem_bytes_def)

lemma zero_in_mem_bytes: "0 \<in> set (mem_bytes m a n) \<longleftrightarrow> (\<exists>i < n. m (a + i) = 0)"
  by (auto simp: mem_bytes_def image_iff) (metis atLeastLessThan_iff le0 uint_0_eq uint_0_iff)+

lemma HASZERO_load: "HASZERO (loadn m a 8) = 0 \<longleftrightarrow> (\<forall>i < 8. m (a + i) \<noteq> 0)"
  unfolding loadn_bytes
  by (subst HASZERO_bytes [OF mem_bytes_range]) (auto simp: zero_in_mem_bytes length_mem_bytes)

lemma bytes_val_xor:
  assumes "\<forall>b \<in> set bs. 0 \<le> b \<and> b < 256" "0 \<le> c" "c < 256"
  shows "bytes_val bs XOR rep_val c (length bs) = bytes_val (map (\<lambda>b. b XOR c) bs)"
  using assms(1) by (induction bs) (simp_all add: xor_bytes assms)

lemma xor_byte_range:
  assumes "0 \<le> (b::int)" "b < 256" "0 \<le> c" "c < 256"
  shows "0 \<le> b XOR c \<and> b XOR c < 256"
proof -
  have "b XOR c = take_bit 8 (b XOR c)" using assms by (simp add: take_bit_xor take_bit_int_eq_self)
  then show ?thesis using take_bit_nonnegative [of 8 "b XOR c"] take_bit_int_less_exp [of 8 "b XOR c"] by simp
qed

lemma xor_zero_iff: "(a::int) XOR b = 0 \<longleftrightarrow> a = b"
  by (auto simp: bit_eq_iff bit_simps)

lemma HASZERO_xor:
  "HASZERO (loadn m a 8 XOR (ONES * ucast (c::u8))) = 0 \<longleftrightarrow> (\<forall>i < 8. m (a + i) \<noteq> c)"
proof -
  let ?bs = "mem_bytes m a 8" and ?c = "uint c"
  have c: "0 \<le> ?c" "?c < 256" using uint_lt2p [of c] by simp_all
  have l: "length ?bs = 8" by (simp add: mem_bytes_def)
  have k: "ONES * ucast c = (word_of_int (rep_val ?c 8) :: u64)" 
    by (simp only: rep_val_8(1) of_int_mult of_int_numeral ucast_eq)
  have "loadn m a 8 XOR (ONES * ucast c) = word_of_int (bytes_val (map (\<lambda>b. b XOR ?c) ?bs))"
    using bytes_val_xor [OF mem_bytes_range [of m a 8] c] by (simp only: loadn_bytes k l of_int_xor_eq [symmetric])
  moreover have "\<forall>b \<in> set (map (\<lambda>b. b XOR ?c) ?bs). 0 \<le> b \<and> b < 256"
    using mem_bytes_range [of m a 8] xor_byte_range [OF _ _ c] by auto
  ultimately have "HASZERO (loadn m a 8 XOR (ONES * ucast c)) = 0 \<longleftrightarrow> 0 \<notin> set (map (\<lambda>b. b XOR ?c) ?bs)"
    using HASZERO_bytes [of "map (\<lambda>b. b XOR ?c) ?bs"] l by simp
  also have "\<dots> \<longleftrightarrow> (\<forall>b \<in> set ?bs. b XOR ?c \<noteq> 0)" by (metis (mono_tags, lifting) image_iff list.set_map)
  also have "\<dots> \<longleftrightarrow> (\<forall>i < 8. m (a + i) \<noteq> c)" by (auto simp: xor_zero_iff mem_bytes_def word_uint_eq_iff)
  finally show ?thesis .
qed

section \<open>Search\<close>

text \<open>The position of the first byte of a string that satisfies a test, or of its end.\<close>

abbreviation first_pos :: "(u8 \<Rightarrow> bool) \<Rightarrow> u8 list \<Rightarrow> nat" where
  "first_pos P xs \<equiv> length (takeWhile (\<lambda>b. \<not> P b) xs)"

lemma first_pos_none: "\<forall>x \<in> set xs. \<not> P x \<Longrightarrow> first_pos P xs = length xs"
  by (induction xs) auto

text \<open>A loop that runs byte by byte over a string while a test holds stops at the first exception.\<close>

lemma string_loop:
  assumes step: "\<And>s. f s = (if m s \<noteq> 0 \<and> \<not> P (m s) then f (s + 1) else Some s)" and s: "c_string m s xs"
  shows "f s = Some (s + first_pos P xs)"
  using s
proof (induction xs arbitrary: s)
  case Nil
  then show ?case by (subst step) simp
next
  case (Cons x xs)
  then show ?case by (subst step) auto
qed

lemma strchrnul_bytes_string:
  assumes "c_string m s xs"
  shows "strchrnul_bytes m s c = Some (s + first_pos (\<lambda>b. b = c) xs)"
  by (rule string_loop [OF _ assms]) (rule strchrnul_bytes.simps)

lemma strchrnul_align_string:
  assumes "c_string m s xs" "c \<noteq> 0"
  shows "case strchrnul_align m s c of
      Inl r \<Rightarrow> r = s + first_pos (\<lambda>b. b = c) xs
    | Inr s' \<Rightarrow> \<exists>ys zs. xs = ys @ zs \<and> c \<notin> set ys \<and> s' = s + length ys \<and> c_string m s' zs"
  using assms(1)
proof (induction xs arbitrary: s)
  case Nil
  then show ?case by (subst strchrnul_align.simps) simp
next
  case (Cons x xs)
  show ?case
  proof (cases "s mod 8 \<noteq> 0 \<and> x \<noteq> c")
    case True
    have "strchrnul_align m s c = strchrnul_align m (s + 1) c"
      using True Cons.prems by (subst strchrnul_align.simps) auto
    moreover have "xs = ys @ zs \<Longrightarrow> x # xs = (x # ys) @ zs" for ys zs by simp
    ultimately show ?thesis using Cons.IH [of "s + 1"] Cons.prems True
      by (auto split: sum.splits) (metis add_Suc_right add_Suc length_Cons set_ConsD append_Cons)
  next
    case False
    then show ?thesis using Cons.prems by (subst strchrnul_align.simps) (auto intro: exI [of _ "[]"])
  qed
qed

lemma strchrnul_words_string:
  assumes "c_string m s xs"
  shows "\<exists>ys zs. strchrnul_words m s (ONES * ucast c) = Some (s + length ys) \<and> xs = ys @ zs \<and> c \<notin> set ys \<and>
    c_string m (s + length ys) zs"
  using assms
proof (induction "length xs" arbitrary: s xs rule: less_induct)
  case less
  show ?case
  proof (cases "HASZERO (loadn m s 8) = 0 \<and> HASZERO (loadn m s 8 XOR (ONES * ucast c)) = 0")
    case True
    then have nz: "\<forall>i < 8. m (s + i) \<noteq> 0 \<and> m (s + i) \<noteq> c" by (simp add: HASZERO_load HASZERO_xor)
    have l: "8 \<le> length xs"
      using nz less.prems by (metis c_string_def linorder_not_less)
    then have c8: "c_string m (s + 8) (drop 8 xs)" using less.prems by (auto simp: c_string_def add.assoc dest: in_set_dropD)
    have nc: "c \<notin> set (take 8 xs)"
      using nz less.prems l by (auto simp: in_set_conv_nth c_string_def)
    have "length (drop 8 xs) < length xs" using l by simp
    from less.hyps [OF this c8] obtain ys zs where "strchrnul_words m (s + 8) (ONES * ucast c) = Some (s + 8 + length ys)" "drop 8 xs = ys @ zs"
      "c \<notin> set ys" "c_string m (s + 8 + length ys) zs" by blast
    moreover have "xs = (take 8 xs @ ys) @ zs" using calculation(2) by (metis append_assoc append_take_drop_id)
    moreover have "strchrnul_words m s (ONES * ucast c) = strchrnul_words m (s + 8) (ONES * ucast c)"
      using True by (subst strchrnul_words.simps) (simp add: Let_def)
    ultimately show ?thesis using nc l
      by (intro exI [of _ "take 8 xs @ ys"] exI [of _ zs]) (simp add: min_absorb2 add.assoc)
  next
    case False
    then have "strchrnul_words m s (ONES * ucast c) = Some s" by (subst strchrnul_words.simps) (auto simp: Let_def)
    then show ?thesis using less.prems by (intro exI [of _ "[]"] exI [of _ xs]) simp
  qed
qed

lemma first_pos_append: "c \<notin> set ys \<Longrightarrow> first_pos (\<lambda>b. b = c) (ys @ zs) = length ys + first_pos (\<lambda>b. b = c) zs"
  by (induction ys) auto

lemma strchrnul_string:
  assumes "c_string m s xs" "0 < s" "length xs < 2 ^ 64"
  shows "strchrnul m s c = Some (s + first_pos (\<lambda>b. b = c) xs)"
proof (cases "c = 0")
  case True
  have "\<forall>x \<in> set xs. x \<noteq> 0" using assms(1) by (auto simp: c_string_def)
  then show ?thesis using True strlen_string [OF assms] first_pos_none [of xs "\<lambda>b. b = 0"] by (simp add: strchrnul_def)
next
  case False
  note al = strchrnul_align_string [OF assms(1) False]
  show ?thesis
  proof (cases "strchrnul_align m s c")
    case (Inl r)
    then show ?thesis using al False by (simp add: strchrnul_def)
  next
    case (Inr s')
    then obtain ys zs where y: "xs = ys @ zs" "c \<notin> set ys" "s' = s + length ys" "c_string m s' zs" using al by auto
    obtain ys' zs' where w: "strchrnul_words m s' (ONES * ucast c) = Some (s' + length ys')" "zs = ys' @ zs'" "c \<notin> set ys'"
      "c_string m (s' + length ys') zs'" using strchrnul_words_string [OF y(4)] by blast
    then show ?thesis using False Inr y strchrnul_bytes_string [OF w(4), of c]
      by (simp add: strchrnul_def first_pos_append)
  qed
qed

section \<open>Byte sets\<close>

definition byteset_of :: "u64 list \<Rightarrow> u8 set" where
  "byteset_of bs = {b. bitop_and bs b \<noteq> 0}"

lemma unat_byte: "unat (b::u8) div 64 < 4"
  using unat_lt_8 [of b] by simp

lemma bitop_and_bit: "bitop_and bs b \<noteq> 0 \<longleftrightarrow> bit (bs ! (unat b div 64)) (unat b mod 64)"
  unfolding bitop_and_def by (simp add: and_exp_eq_0_iff_not_bit push_bit_of_1)

lemma byteset_or:
  assumes "length bs = 4"
  shows "byteset_of (bitop_or bs b) = insert b (byteset_of bs)" "length (bitop_or bs b) = 4"
    "bitop_or bs b ! (unat b div 64) \<noteq> 0"
proof -
  have eq: "unat (x::u8) = unat b" if "unat x div 64 = unat b div 64" "unat x mod 64 = unat b mod 64" for x
    using that by (metis div_mult_mod_eq)
  have "bit (bitop_or bs b ! (unat x div 64)) (unat x mod 64) \<longleftrightarrow> x = b \<or> bit (bs ! (unat x div 64)) (unat x mod 64)"
    for x :: u8
  proof (cases "unat x div 64 = unat b div 64")
    case True
    then have "x = b \<longleftrightarrow> unat x mod 64 = unat b mod 64" using eq [of x] by (metis word_unat_eq_iff)
    then show ?thesis using True assms unat_byte [of b] by (auto simp: bitop_or_def bit_simps)
  next
    case False
    then show ?thesis by (auto simp: bitop_or_def)
  qed
  then have "x \<in> byteset_of (bitop_or bs b) \<longleftrightarrow> x \<in> insert b (byteset_of bs)" for x
    by (simp only: byteset_of_def bitop_and_bit mem_Collect_eq insert_iff)
  then show "byteset_of (bitop_or bs b) = insert b (byteset_of bs)" by blast
  show "length (bitop_or bs b) = 4" using assms by (simp add: bitop_or_def)
  have "bit (bitop_or bs b ! (unat b div 64)) (unat b mod 64)"
    using assms unat_byte [of b] by (simp add: bitop_or_def bit_simps)
  then show "bitop_or bs b ! (unat b div 64) \<noteq> 0" by auto
qed

lemma byteset_fill_string:
  assumes "c_string m c cs" "length bs = 4"
  shows "\<exists>bs'. byteset_fill m bs c = Some bs' \<and> length bs' = 4 \<and> byteset_of bs' = byteset_of bs \<union> set cs"
  using assms
proof (induction cs arbitrary: c bs)
  case Nil
  then show ?case by (subst byteset_fill.simps) simp
next
  case (Cons x cs)
  note o = byteset_or [OF Cons.prems(2), of x]
  have "byteset_fill m bs c = byteset_fill m (bitop_or bs x) (c + 1)"
    using Cons.prems o(3) by (subst byteset_fill.simps) (auto simp: Let_def)
  then show ?case using Cons.IH [OF _ o(2), of "c + 1"] Cons.prems o(1) by auto
qed

lemma byteset_empty: "byteset_of [0, 0, 0, 0] = {}"
proof -
  have r: "[0, 0, 0, 0 :: u64] = replicate 4 0" by (simp add: numeral_eq_Suc)
  have "[0, 0, 0, 0 :: u64] ! (unat (b::u8) div 64) = 0" for b
    by (simp only: r nth_replicate unat_byte)
  then show ?thesis by (simp add: byteset_of_def bitop_and_def)
qed

lemma span_out_string:
  assumes "c_string m s xs"
  shows "span_out m bs s = Some (s + first_pos (\<lambda>b. b \<in> byteset_of bs) xs)"
  by (rule string_loop [OF _ assms]) (subst span_out.simps, simp add: byteset_of_def)

lemma span_in_string:
  assumes "c_string m s xs"
  shows "span_in m bs s = Some (s + first_pos (\<lambda>b. b \<notin> byteset_of bs) xs)"
  by (rule string_loop [OF _ assms]) (subst span_in.simps, simp add: byteset_of_def)

lemma span_eq_string:
  assumes "c_string m s xs" "c \<noteq> 0"
  shows "span_eq m s c = Some (s + first_pos (\<lambda>b. b \<noteq> c) xs)"
  using assms(2) by (intro string_loop [OF _ assms(1)]) (subst span_eq.simps, auto)

lemma strcspn_string:
  assumes "c_string m s xs" "c_string m c cs" "0 < s" "length xs < 2 ^ 64"
  shows "strcspn m s c = Some (first_pos (\<lambda>b. b \<in> set cs) xs)"
proof -
  consider "cs = []" | x where "cs = [x]" | x y zs where "cs = x # y # zs" by (metis list.exhaust)
  then show ?thesis
  proof cases
    case 1
    have "\<forall>x \<in> set xs. x \<noteq> 0" using assms(1) by (auto simp: c_string_def)
    then show ?thesis using 1 assms strchrnul_string [OF assms(1,3,4), of 0] first_pos_none [of xs "\<lambda>b. b = 0"]
      first_pos_none [of xs "\<lambda>b. False"] by (simp add: strcspn_def)
  next
    case 2
    then show ?thesis using assms strchrnul_string [OF assms(1,3,4), of x] by (simp add: strcspn_def)
  next
    case 3
    obtain bs where "byteset_fill m [0, 0, 0, 0] c = Some bs" "byteset_of bs = set cs"
      using byteset_fill_string [OF assms(2), of "[0, 0, 0, 0]"] by (auto simp: byteset_empty)
    then show ?thesis using 3 assms(2) span_out_string [OF assms(1), of bs] by (simp add: strcspn_def)
  qed
qed

lemma strspn_string:
  assumes "c_string m s xs" "c_string m c cs"
  shows "strspn m s c = Some (first_pos (\<lambda>b. b \<notin> set cs) xs)"
proof -
  consider "cs = []" | x where "cs = [x]" | x y zs where "cs = x # y # zs" by (metis list.exhaust)
  then show ?thesis
  proof cases
    case 1
    then show ?thesis using assms(2) by (cases xs) (simp_all add: strspn_def)
  next
    case 2
    then show ?thesis using assms span_eq_string [OF assms(1), of x] by (simp add: strspn_def)
  next
    case 3
    obtain bs where "byteset_fill m [0, 0, 0, 0] c = Some bs" "byteset_of bs = set cs"
      using byteset_fill_string [OF assms(2), of "[0, 0, 0, 0]"] by (auto simp: byteset_empty)
    then show ?thesis using 3 assms(2) span_in_string [OF assms(1), of bs] by (simp add: strspn_def)
  qed
qed

end
