(* ===== verification/NlStringCpy.thy ===== *)
theory NlStringCpy
  imports NlStringWord
begin

text \<open>The bounded copies \<^verbatim>\<open>strlcpy\<close> and \<^verbatim>\<open>strlcat\<close>: three loops that hand over a partly copied string.\<close>

text \<open>A string at \<open>s\<close> and room for \<open>N\<close> bytes and a terminator at \<open>d\<close>, apart from each other.\<close>

definition cpy_ok :: "mem8 \<Rightarrow> nat \<Rightarrow> nat \<Rightarrow> nat \<Rightarrow> u8 list \<Rightarrow> bool" where
  "cpy_ok m d s N xs \<longleftrightarrow> c_string m s xs \<and> (d + N < s \<or> s + length xs < d)"

text \<open>The state of a loop after \<open>j\<close> bytes; a loop that met the terminator has copied it as well.\<close>

definition cpy_at :: "mem8 \<Rightarrow> nat \<Rightarrow> nat \<Rightarrow> nat \<Rightarrow> u8 list \<Rightarrow> nat \<Rightarrow> mem8 \<times> nat \<times> nat \<times> nat \<Rightarrow> bool" where
  "cpy_at m d s N xs j st \<longleftrightarrow>
     (case st of (m', d', s', n') \<Rightarrow>
        j \<le> N \<and> j \<le> length xs \<and> d' = d + j \<and> s' = s + j \<and> n' = N - j \<and>
        (m' = copied m d s j \<or> m' = (copied m d s j)(d + j := 0) \<and> j = length xs \<and> j < N))"

lemma copied_Suc: "copied m d s (Suc j) = (copied m d s j)(d + j := m (s + j))"
  by (auto simp: copied_def)

lemma copied_add: "copied (copied m d s j) (d + j) (s + j) n = copied m d s (j + n)"
  if "\<And>i. i < n \<Longrightarrow> copied m d s j (s + j + i) = m (s + j + i)"
proof
  fix x
  show "copied (copied m d s j) (d + j) (s + j) n x = copied m d s (j + n) x"
  proof (cases "d + j \<le> x \<and> x < d + j + n")
    case True
    then have "copied m d s j (s + j + (x - (d + j))) = m (s + j + (x - (d + j)))" by (intro that) auto
    moreover have "s + j + (x - (d + j)) = s + (x - d)" using True by auto
    ultimately show ?thesis using True by (auto simp: copied_def)
  qed (auto simp: copied_def)
qed

lemma cpy_src:
  assumes "cpy_ok m d s N xs" "j \<le> N" "i \<le> length xs"
  shows "copied m d s j (s + i) = m (s + i)" "d + j \<noteq> s + i"
  using assms by (auto simp: cpy_ok_def copied_def)

lemma string_byte:
  assumes "c_string m s xs" "j \<le> length xs"
  shows "m (s + j) = 0 \<longleftrightarrow> j = length xs"
  using assms by (auto simp: c_string_def in_set_conv_nth) (metis le_neq_implies_less)

lemma cpy_at_src:
  assumes "cpy_ok m d s N xs" "cpy_at m d s N xs j (m', d', s', n')"
  shows "m' s' = 0 \<longleftrightarrow> j = length xs"
proof -
  have "m' s' = m (s + j)" using cpy_src [OF assms(1), of j j] assms(2) by (auto simp: cpy_at_def)
  then show ?thesis using string_byte [of m s xs j] assms by (simp add: cpy_ok_def cpy_at_def)
qed

text \<open>One byte.\<close>

lemma cpy_at_byte:
  assumes "cpy_ok m d s N xs" "cpy_at m d s N xs j (m', d', s', Suc n)"
  shows "m' s' \<noteq> 0 \<Longrightarrow> cpy_at m d s N xs (Suc j) (m'(d' := m' s'), d' + 1, s' + 1, n)"
    and "m' s' = 0 \<Longrightarrow> cpy_at m d s N xs j (m'(d' := m' s'), d', s', Suc n) \<and> j = length xs"
proof -
  have j: "j \<le> length xs" "d' = d + j" "s' = s + j" "Suc n = N - j" using assms(2) by (auto simp: cpy_at_def)
  have z: "m' s' = 0 \<longleftrightarrow> j = length xs" by (rule cpy_at_src [OF assms])
  have e: "m' s' = m (s + j)" using cpy_src [OF assms(1), of j j] assms(2) by (auto simp: cpy_at_def)
  show "cpy_at m d s N xs (Suc j) (m'(d' := m' s'), d' + 1, s' + 1, n)" if "m' s' \<noteq> 0"
    using that z j assms(2) e by (auto simp: cpy_at_def copied_Suc)
  show "cpy_at m d s N xs j (m'(d' := m' s'), d', s', Suc n) \<and> j = length xs" if "m' s' = 0"
    using that z j assms(2) by (auto simp: cpy_at_def)
qed

lemma strlcpy_align_ok:
  assumes "cpy_ok m d s N xs" "cpy_at m d s N xs j (m', d', s', n)"
  shows "\<exists>j'. cpy_at m d s N xs j' (strlcpy_align m' d' s' n)"
  using assms(2)
proof (induction n arbitrary: j m' d' s')
  case (Suc n)
  note b = cpy_at_byte [OF assms(1) Suc.prems]
  show ?case
  proof (cases "s' mod 8 \<noteq> 0 \<and> m' s' \<noteq> 0")
    case True
    then show ?thesis using Suc.IH [OF b(1)] by (simp add: Let_def del: fun_upd_apply)
  next
    case False
    then show ?thesis using b(2) Suc.prems by (auto simp: Let_def simp del: fun_upd_apply)
  qed
qed auto

lemma strlcpy_bytes_ok:
  assumes "cpy_ok m d s N xs" "cpy_at m d s N xs j (m', d', s', n)"
  shows "cpy_at m d s N xs (min N (length xs)) (strlcpy_bytes m' d' s' n)"
  using assms(2)
proof (induction n arbitrary: j m' d' s')
  case 0
  then have "j = min N (length xs)" by (auto simp: cpy_at_def)
  then show ?case using 0 by simp
next
  case (Suc n)
  note b = cpy_at_byte [OF assms(1) Suc.prems]
  have "j < N" using Suc.prems by (auto simp: cpy_at_def)
  then have k: "j = length xs \<Longrightarrow> min N (length xs) = j" by simp
  show ?case
  proof (cases "m' s' = 0")
    case True
    then show ?thesis using b(2) k by (auto simp: Let_def simp del: fun_upd_apply)
  next
    case False
    then show ?thesis using Suc.IH [OF b(1)] by (simp add: Let_def del: fun_upd_apply)
  qed
qed

section \<open>A word at a time\<close>

lemma storen_loadn:
  assumes "n \<le> 8"
  shows "storen m d (loadn m' s n) n = (\<lambda>x. if d \<le> x \<and> x < d + n then m' (s + (x - d)) else m x)"
  using assms
proof (induction n arbitrary: m d s)
  case (Suc n)
  let ?w = "loadn m' s (Suc n)"
  have le: "uint (loadn m' a k) = bytes_val (mem_bytes m' a k) \<and> bytes_val (mem_bytes m' a k) < 256 ^ k" if "k \<le> 8" for a k
  proof -
    have r: "0 \<le> bytes_val bs \<and> bytes_val bs < 256 ^ length bs" if "\<forall>b \<in> set bs. 0 \<le> b \<and> b < 256" for bs
      using that by (induction bs) auto
    have "(256::int) ^ k \<le> 256 ^ 8" using that by (intro power_increasing) auto
    then show ?thesis using r [OF mem_bytes_range [of m' a k]]
      by (simp add: loadn_bytes length_mem_bytes uint_word_of_int take_bit_int_eq_self)
  qed
  have w: "uint ?w = uint (m' s) + 256 * uint (loadn m' (s + 1) n)"
    using le [of "Suc n" s] le [of n "s + 1"] Suc.prems by (simp add: mem_bytes_Suc)
  have b: "0 \<le> uint (m' s)" "uint (m' s) < 256" using uint_lt2p [of "m' s"] by simp_all
  have lo: "ucast ?w = m' s"
    using w b by (simp add: word_uint_eq_iff unsigned_ucast_eq take_bit_eq_mod del: loadn.simps)
  have hi: "?w div 256 = loadn m' (s + 1) n"
    using w b by (simp add: word_uint_eq_iff uint_div del: loadn.simps)
  show ?case using Suc.prems
    by (simp only: storen.simps lo hi Suc.IH) (auto simp: Suc_diff_Suc intro!: ext)
qed (auto intro!: ext)

lemma strlcpy_words_ok:
  assumes ok: "cpy_ok m d s N xs" and at: "cpy_at m d s N xs j (m', d', s', n)"
  shows "\<exists>j'. cpy_at m d s N xs j' (strlcpy_words m' d' s' n)"
  using at
proof (induction n arbitrary: j m' d' s' rule: less_induct)
  case (less n)
  show ?case
  proof (cases "8 \<le> n \<and> HASZERO (loadn m' s' 8) = 0")
    case True
    then have nz: "\<forall>i < 8. m' (s' + i) \<noteq> 0" by (simp add: HASZERO_load)
    have j: "j \<le> N" "j \<le> length xs" "d' = d + j" "s' = s + j" "n = N - j" using less.prems by (auto simp: cpy_at_def)
    have m'0: "m' s' \<noteq> 0" using nz by (metis add.right_neutral zero_less_numeral)
    then have m': "m' = copied m d s j" using cpy_at_src [OF ok less.prems] less.prems by (auto simp: cpy_at_def)
    have "j + 8 \<le> length xs"
    proof (rule ccontr)
      assume "\<not> j + 8 \<le> length xs"
      then have "length xs - j < 8" "s' + (length xs - j) = s + length xs" using j by auto
      then have "m' (s + length xs) \<noteq> 0" using nz by metis
      then show False using m' cpy_src [OF ok j(1), of "length xs"] ok by (simp add: cpy_ok_def c_string_def)
    qed
    moreover have "storen m' d' (loadn m' s' 8) 8 = copied m' d' s' 8"
      by (subst storen_loadn) (simp_all only: copied_def order_refl)
    then have "storen m' d' (loadn m' s' 8) 8 = copied m d s (j + 8)"
      using copied_add [of 8 m d s j] cpy_src(1) [OF ok j(1)] calculation by (simp add: m' j(3,4) add.assoc)
    ultimately have "cpy_at m d s N xs (j + 8) (storen m' d' (loadn m' s' 8) 8, d' + 8, s' + 8, n - 8)"
      using True j by (auto simp: cpy_at_def)
    then have "\<exists>j'. cpy_at m d s N xs j' (strlcpy_words (storen m' d' (loadn m' s' 8) 8) (d' + 8) (s' + 8) (n - 8))"
      using True by (intro less.IH) auto
    then show ?thesis using True by (subst strlcpy_words.simps) simp
  next
    case False
    then show ?thesis using less.prems by (subst strlcpy_words.simps) auto
  qed
qed

section \<open>The whole copy\<close>

lemma strlcpy_string:
  assumes "c_string m s xs" "d + n \<le> s \<or> s + length xs < d" "0 < s" "length xs < 2 ^ 64" "0 < n"
  defines "k \<equiv> min (n - 1) (length xs)"
  shows "strlcpy m d s n = ((copied m d s k)(d + k := 0), length xs)"
proof -
  define N where "N = n - 1"
  have ok: "cpy_ok m d s N xs" using assms by (auto simp: cpy_ok_def N_def)
  have at0: "cpy_at m d s N xs 0 (m, d, s, N)" by (simp add: cpy_at_def)
  define st1 where "st1 = (if s mod 8 = d mod 8
      then (let (m', d', s', n') = strlcpy_align m d s N
            in if n' \<noteq> 0 \<and> m' s' \<noteq> 0 then strlcpy_words m' d' s' n' else (m', d', s', n'))
      else (m, d, s, N))"
  have "\<exists>j. cpy_at m d s N xs j st1"
  proof (cases "s mod 8 = d mod 8")
    case True
    obtain m' d' s' n' where a: "strlcpy_align m d s N = (m', d', s', n')" by (metis prod_cases4)
    then obtain j where "cpy_at m d s N xs j (m', d', s', n')" using strlcpy_align_ok [OF ok at0] by auto
    then show ?thesis using True strlcpy_words_ok [OF ok] by (auto simp: a st1_def)
  next
    case False
    then show ?thesis using at0 by (auto simp: st1_def)
  qed
  then obtain j m1 d1 s1 n1 where st1: "st1 = (m1, d1, s1, n1)" "cpy_at m d s N xs j (m1, d1, s1, n1)"
    by (cases st1) auto
  obtain m2 d2 s2 n2 where st2: "strlcpy_bytes m1 d1 s1 n1 = (m2, d2, s2, n2)" by (metis prod_cases4)
  have "cpy_at m d s N xs k (m2, d2, s2, n2)" using strlcpy_bytes_ok [OF ok st1(2)] st2 by (simp add: k_def N_def)
  then have e: "d2 = d + k" "s2 = s + k" "m2(d2 := 0) = (copied m d s k)(d + k := 0)" by (auto simp: cpy_at_def)
  have k: "k \<le> N" "k \<le> length xs" by (auto simp: k_def N_def)
  have "c_string m (s + k) (drop k xs)" using assms(1) k by (auto simp: c_string_def add.assoc dest: in_set_dropD)
  then have "c_string (m2(d2 := 0)) (s + k) (drop k xs)"
    unfolding e(3) using ok k by (subst c_string_cong [of _ _ _ m]) (auto simp: copied_def cpy_ok_def)
  then have "strlen (m2(d2 := 0)) s2 = length xs - k" using strlen_string assms(3,4) e(2) by simp
  moreover have "strlcpy m d s n = (m2(d2 := 0), d2 - d + strlen (m2(d2 := 0)) s2)"
    using assms(5) st1(1) st2 unfolding strlcpy_def N_def [symmetric] st1_def [symmetric] by (simp add: Let_def)
  ultimately show ?thesis using e k by simp
qed

end
