(* ===== verification/NlStringTop.thy ===== *)
theory NlStringTop
  imports NlStringCpy
begin

text \<open>Properties of the string functions.\<close>

section \<open>Moving blocks\<close>

text \<open>
  C36: \<^verbatim>\<open>memmove\<close> copies correctly towards lower addresses. In the other direction its loop starts one byte
  too high: the bytes that change are those from \<open>dst + 1\<close> to \<open>dst + len\<close>, one beyond the
  destination, and the first byte of the destination keeps its old value.
\<close>

theorem memmove_effect:
  "memmove m dst src len =
     (if dst < src then (\<lambda>x. if dst \<le> x \<and> x < dst + len then m (src + (x - dst)) else m x)
      else (\<lambda>x. if dst < x \<and> x \<le> dst + len then m (src + (x - dst)) else m x))"
proof (cases "dst < src")
  case True
  then show ?thesis using memmove_fwd_eq [OF True, of m len] by (simp add: memmove_def copied_def)
next
  case False
  have "memmove_bwd m (dst + len) (src + len) len =
      (\<lambda>x. if dst + len - len < x \<and> x \<le> dst + len then m (src + len - (dst + len - x)) else m x)"
    using False by (intro memmove_bwd_eq) auto
  also have "\<dots> = (\<lambda>x. if dst < x \<and> x \<le> dst + len then m (src + (x - dst)) else m x)"
    by (rule ext) simp
  finally show ?thesis using False by (simp add: memmove_def)
qed

section \<open>Search and spans\<close>

text \<open>
  \<^verbatim>\<open>strchrnul\<close>, which reads the string a word at a time, returns the address of the first
  occurrence of the byte in the string, or of the terminator.
\<close>

theorem strchrnul_correct:
  assumes "c_string m s xs" "0 < s" "length xs < 2 ^ 64"
  shows "strchrnul m s c = Some (s + first_pos (\<lambda>b. b = c) xs)"
  by (rule strchrnul_string [OF assms])

definition abc_mem :: mem8 where
  "abc_mem = (\<lambda>_. 0)(0x10 := 0x61, 0x11 := 0x62, 0x12 := 0x63, 0x13 := 0x62, 0x20 := 0x63, 0x21 := 0x62, 0x30 := 0x61)"

lemma abc_strings: "c_string abc_mem 0x10 [0x61, 0x62, 0x63, 0x62]" "c_string abc_mem 0x20 [0x63, 0x62]"
  "c_string abc_mem 0x30 [0x61]"
  by (simp_all add: abc_mem_def)

theorem strchrnul_correct_witness: "strchrnul abc_mem 0x10 0x62 = Some 0x11"
  using strchrnul_correct [OF abc_strings(1), of "0x62"] by simp

text \<open>
  \<^verbatim>\<open>strspn\<close> and \<^verbatim>\<open>strcspn\<close> return the length of the longest prefix of the string made of bytes of
  the given set, and of bytes outside it.
\<close>

theorem strspn_strcspn_correct:
  assumes "c_string m s xs" "c_string m c cs" "0 < s" "length xs < 2 ^ 64"
  shows "strspn m s c = Some (length (takeWhile (\<lambda>b. b \<in> set cs) xs)) \<and>
    strcspn m s c = Some (length (takeWhile (\<lambda>b. b \<notin> set cs) xs))"
  using strspn_string [OF assms(1,2)] strcspn_string [OF assms] by simp

theorem strspn_strcspn_correct_witness: "strspn abc_mem 0x10 0x30 = Some 1 \<and> strcspn abc_mem 0x10 0x20 = Some 1"
  using strspn_strcspn_correct [OF abc_strings(1,2)] strspn_strcspn_correct [OF abc_strings(1,3)] by simp

lemma c_string_append:
  assumes "c_string m s (xs @ ys)"
  shows "c_string m (s + length xs) ys"
  using assms
proof (induction xs arbitrary: s)
  case (Cons x xs)
  then show ?case using Cons.IH [of "Suc s"] by simp
qed simp

lemma c_string_cut:
  assumes "c_string m s (xs @ y # ys)"
  shows "c_string (m(s + length xs := 0)) s xs" "c_string (m(s + length xs := 0)) (s + length xs + 1) ys"
proof -
  have "c_string m (s + length xs + 1) ys" using c_string_append [of m s "xs @ [y]" ys] assms by simp
  then show "c_string (m(s + length xs := 0)) (s + length xs + 1) ys" by (subst c_string_cong [of _ _ _ m]) auto
  show "c_string (m(s + length xs := 0)) s xs" using assms by (auto simp: c_string_def nth_append)
qed

text \<open>
  \<^verbatim>\<open>strtok_r\<close> skips leading separators and returns the token up to the next separator, which it
  replaces by a terminator; the saved pointer then points to the string behind it, or is \<^verbatim>\<open>NULL\<close> when
  the string is used up.
\<close>

theorem strtok_r_correct:
  assumes "c_string m s xs" "c_string m sep cs" "0 < s" "length xs < 2 ^ 64"
  defines "ys \<equiv> dropWhile (\<lambda>b. b \<in> set cs) xs"
  defines "tok \<equiv> takeWhile (\<lambda>b. b \<notin> set cs) ys"
  shows "\<exists>m' r p'. strtok_r m s sep p = Some (m', r, p') \<and>
    (if ys = [] then r = 0 \<and> p' = 0 \<and> m' = m
     else c_string m' r tok \<and> tok \<noteq> [] \<and> r = s + (length xs - length ys) \<and>
       (case dropWhile (\<lambda>b. b \<notin> set cs) ys of [] \<Rightarrow> p' = 0 | z # zs \<Rightarrow> c_string m' p' zs))"
proof -
  let ?pre = "takeWhile (\<lambda>b. b \<in> set cs) xs" and ?s1 = "s + (length xs - length ys)"
  have x: "xs = ?pre @ ys" by (simp add: ys_def)
  then have l: "length ?pre = length xs - length ys" by (metis add_diff_cancel_right' length_append)
  have y: "c_string m ?s1 ys" using c_string_append [of m s ?pre ys] assms(1) x l by simp
  have z: "ys = tok @ dropWhile (\<lambda>b. b \<notin> set cs) ys" by (simp add: tok_def)
  have sp: "strspn m s sep = Some (length xs - length ys)" using strspn_string [OF assms(1,2)] l by simp
  show ?thesis
  proof (cases ys)
    case Nil
    then show ?thesis using y assms(3) by (simp add: strtok_r_def Let_def sp)
  next
    case (Cons a as)
    then have nz: "m ?s1 \<noteq> 0" using y by auto
    have "a \<notin> set cs" using Cons hd_dropWhile [of "\<lambda>b. b \<in> set cs" xs] by (auto simp: ys_def)
    then have t: "tok \<noteq> []" using Cons by (simp add: tok_def)
    have "length ys < 2 ^ 64" using assms(4) x by (metis le_add2 le_less_trans length_append)
    then have sc: "strcspn m ?s1 sep = Some (length tok)"
      using strcspn_string [OF y assms(2)] assms(3) by (simp add: tok_def)
    show ?thesis
    proof (cases "dropWhile (\<lambda>b. b \<notin> set cs) ys")
      case Nil
      then have "ys = tok" using z by (metis append_Nil2)
      then have "m (?s1 + length tok) = 0" using y by (simp add: c_string_def)
      then have "strtok_r m s sep p = Some (m, ?s1, 0)"
        using nz assms(3) by (simp add: strtok_r_def Let_def sp sc)
      then show ?thesis using Nil t y \<open>ys = tok\<close> by (simp del: dropWhile_eq_Nil_conv)
    next
      case (Cons b bs)
      then have y': "c_string m ?s1 (tok @ b # bs)" using y z by simp
      then have "m (?s1 + length tok) \<noteq> 0" using c_string_append [OF y'] by simp
      then have "strtok_r m s sep p = Some (m(?s1 + length tok := 0), ?s1, ?s1 + length tok + 1)"
        using nz assms(3) by (simp add: strtok_r_def Let_def sp sc)
      then show ?thesis using c_string_cut [OF y'] Cons t \<open>ys = a # as\<close> by simp
    qed
  qed
qed

theorem strtok_r_correct_witness:
  "\<exists>m' p'. strtok_r abc_mem 0x10 0x20 0 = Some (m', 0x10, p') \<and> c_string m' 0x10 [0x61] \<and> c_string m' p' [0x63, 0x62]"
  using strtok_r_correct [OF abc_strings(1,2), of 0] by (auto simp: )

section \<open>Copies\<close>



text \<open>
  \<^verbatim>\<open>strcpy\<close> of an empty string writes no terminator when the byte before the destination is zero: it
  tests the byte at index \<open>clen - 1\<close>.
\<close>

theorem strcpy_empty_keeps:
  assumes "m src = 0" "0 < src" "0 < dst" "m (dst - 1) = 0"
  shows "strcpy m dst src = m"
proof -
  have "strnlen m src SIZE_MAX = 0" using strnlen_string [of m src "[]" SIZE_MAX] assms(1,2) by simp
  moreover have "memcpy m dst src 0 = m" by (simp add: memcpy_def memcpy_loop.simps)
  ultimately show ?thesis using assms(3,4) by (simp add: strcpy_def strncpy_def Let_def)
qed

theorem strcpy_empty_keeps_witness: "strcpy abc_mem 0x30 0x50 = abc_mem \<and> abc_mem 0x30 \<noteq> 0"
  using strcpy_empty_keeps [of abc_mem "0x50" "0x30"] by (simp add: abc_mem_def)

section \<open>Comparison\<close>

text \<open>
  \<^verbatim>\<open>strcmp\<close> of two strings returns, and returns 0 exactly when they are equal.
\<close>

theorem strcmp_equal_iff:
  assumes "c_string m a xs" "c_string m b ys"
  shows "\<exists>r. strcmp m a b = Some r \<and> (r = 0 \<longleftrightarrow> xs = ys)"
  by (rule strcmp_string [OF assms])

theorem strcmp_equal_iff_witness: "\<exists>r. strcmp abc_mem 0x10 0x20 = Some r \<and> r \<noteq> 0"
  using strcmp_equal_iff [OF abc_strings(1,2)] by auto

text \<open>The order of two strings is not always what the sign says: the difference is cut to a \<^verbatim>\<open>signed char\<close>.\<close>

lemma strcmp_sign: "m a = 0x01 \<Longrightarrow> m b = 0x82 \<Longrightarrow> strcmp m a b = Some 127"
  by (subst strcmp.simps) (simp add: Let_def)

end
