(* ===== verification/NlStdlib.thy ===== *)
theory NlStdlib
  imports NlString
begin

text \<open>
  Character classes (\<^verbatim>\<open>lib/nolibc/ctype.c\<close>, \<^verbatim>\<open>include/ctype.h\<close>) and the conversion of strings to numbers
  (\<^verbatim>\<open>lib/nolibc/stdlib.c\<close>). \<^verbatim>\<open>int\<close> has 32 bits, \<^verbatim>\<open>long\<close> and \<^verbatim>\<open>long long\<close> 64. A conversion returns the
  value, what it stores through \<^verbatim>\<open>endptr\<close> and the value it gives \<^verbatim>\<open>errno\<close>, if it sets it; it does not
  return when the memory holds no end of the number, which is \<open>None\<close>.
\<close>

section \<open>Character classes\<close>

abbreviation cU :: u8 where "cU \<equiv> 0x01"
abbreviation cL :: u8 where "cL \<equiv> 0x02"
abbreviation cD :: u8 where "cD \<equiv> 0x04"
abbreviation cC :: u8 where "cC \<equiv> 0x08"
abbreviation cP :: u8 where "cP \<equiv> 0x10"
abbreviation cS :: u8 where "cS \<equiv> 0x20"
abbreviation cX :: u8 where "cX \<equiv> 0x40"
abbreviation cSP :: u8 where "cSP \<equiv> 0x80"

definition nolibc_ctype :: "u8 list" where
  "nolibc_ctype =
     [cC, cC, cC, cC, cC, cC, cC, cC,
      cC, cC OR cS, cC OR cS, cC OR cS, cC OR cS, cC OR cS, cC, cC,
      cC, cC, cC, cC, cC, cC, cC, cC,
      cC, cC, cC, cC, cC, cC, cC, cC,
      cS OR cSP, cP, cP, cP, cP, cP, cP, cP,
      cP, cP, cP, cP, cP, cP, cP, cP,
      cD, cD, cD, cD, cD, cD, cD, cD,
      cD, cD, cP, cP, cP, cP, cP, cP,
      cP, cU OR cX, cU OR cX, cU OR cX, cU OR cX, cU OR cX, cU OR cX, cU,
      cU, cU, cU, cU, cU, cU, cU, cU,
      cU, cU, cU, cU, cU, cU, cU, cU,
      cU, cU, cU, cP, cP, cP, cP, cP,
      cP, cL OR cX, cL OR cX, cL OR cX, cL OR cX, cL OR cX, cL OR cX, cL,
      cL, cL, cL, cL, cL, cL, cL, cL,
      cL, cL, cL, cL, cL, cL, cL, cL,
      cL, cL, cL, cP, cP, cP, cP, cC,
      0, 0, 0, 0, 0, 0, 0, 0,
      0, 0, 0, 0, 0, 0, 0, 0,
      0, 0, 0, 0, 0, 0, 0, 0,
      0, 0, 0, 0, 0, 0, 0, 0,
      cS OR cSP, cP, cP, cP, cP, cP, cP, cP,
      cP, cP, cP, cP, cP, cP, cP, cP,
      cP, cP, cP, cP, cP, cP, cP, cP,
      cP, cP, cP, cP, cP, cP, cP, cP,
      cU, cU, cU, cU, cU, cU, cU, cU,
      cU, cU, cU, cU, cU, cU, cU, cU,
      cU, cU, cU, cU, cU, cU, cU, cP,
      cU, cU, cU, cU, cU, cU, cU, cL,
      cL, cL, cL, cL, cL, cL, cL, cL,
      cL, cL, cL, cL, cL, cL, cL, cL,
      cL, cL, cL, cL, cL, cL, cL, cP,
      cL, cL, cL, cL, cL, cL, cL, cL]"

definition nolibc_ismask :: "u8 \<Rightarrow> u8" where
  "nolibc_ismask c = nolibc_ctype ! unat c"

definition isalnum :: "u8 \<Rightarrow> bool" where "isalnum c \<longleftrightarrow> nolibc_ismask c AND (cU OR cL OR cD) \<noteq> 0"
definition isalpha :: "u8 \<Rightarrow> bool" where "isalpha c \<longleftrightarrow> nolibc_ismask c AND (cU OR cL) \<noteq> 0"
definition iscntrl :: "u8 \<Rightarrow> bool" where "iscntrl c \<longleftrightarrow> nolibc_ismask c AND cC \<noteq> 0"
definition isdigit :: "u8 \<Rightarrow> bool" where "isdigit c \<longleftrightarrow> nolibc_ismask c AND cD \<noteq> 0"
definition isgraph :: "u8 \<Rightarrow> bool" where "isgraph c \<longleftrightarrow> nolibc_ismask c AND (cP OR cU OR cL OR cD) \<noteq> 0"
definition islower :: "u8 \<Rightarrow> bool" where "islower c \<longleftrightarrow> nolibc_ismask c AND cL \<noteq> 0"
definition isprint :: "u8 \<Rightarrow> bool" where "isprint c \<longleftrightarrow> nolibc_ismask c AND (cP OR cU OR cL OR cD OR cSP) \<noteq> 0"
definition ispunct :: "u8 \<Rightarrow> bool" where "ispunct c \<longleftrightarrow> nolibc_ismask c AND cP \<noteq> 0"
definition isspace :: "u8 \<Rightarrow> bool" where "isspace c \<longleftrightarrow> nolibc_ismask c AND cS \<noteq> 0"
definition isupper :: "u8 \<Rightarrow> bool" where "isupper c \<longleftrightarrow> nolibc_ismask c AND cU \<noteq> 0"
definition isxdigit :: "u8 \<Rightarrow> bool" where "isxdigit c \<longleftrightarrow> nolibc_ismask c AND (cD OR cX) \<noteq> 0"
definition isascii :: "u8 \<Rightarrow> bool" where "isascii c \<longleftrightarrow> c \<le> 0x7f"

text \<open>\<^verbatim>\<open>tolower\<close> and \<^verbatim>\<open>toupper\<close> on the range of a byte.\<close>

definition tolower :: "u8 \<Rightarrow> u8" where
  "tolower c = (if isupper c then c - (0x41 - 0x61) else c)"

definition toupper :: "u8 \<Rightarrow> u8" where
  "toupper c = (if islower c then c - (0x61 - 0x41) else c)"

section \<open>Strings to numbers\<close>

abbreviation EINVAL_no :: int where "EINVAL_no \<equiv> 22"
abbreviation ERANGE_no :: int where "ERANGE_no \<equiv> 34"
abbreviation ULONG_MAX :: u64 where "ULONG_MAX \<equiv> - 1"
abbreviation LONG_MAX :: u64 where "LONG_MAX \<equiv> 0x7fffffffffffffff"
abbreviation LONG_MIN :: u64 where "LONG_MIN \<equiv> 0x8000000000000000"

partial_function (option) strto_skip :: "mem8 \<Rightarrow> nat \<Rightarrow> (u8 \<times> nat) option" where
  "strto_skip m s = (let c = m s in if isspace c then strto_skip m (s + 1) else Some (c, s + 1))"

definition strto_sign :: "mem8 \<Rightarrow> u8 \<Rightarrow> nat \<Rightarrow> bool \<times> u8 \<times> nat" where
  "strto_sign m c s =
     (if c = 0x2d then (True, m s, s + 1)
      else if c = 0x2b then (False, m s, s + 1)
      else (False, c, s))"

definition strto_radix :: "mem8 \<Rightarrow> nat \<Rightarrow> u8 \<Rightarrow> nat \<Rightarrow> nat \<times> u8 \<times> nat" where
  "strto_radix m radix c s =
     (let (radix1, c1, s1) =
            (if (radix = 0 \<or> radix = 16) \<and> c = 0x30 \<and> (m s = 0x78 \<or> m s = 0x58)
             then (16, m (s + 1), s + 2) else (radix, c, s))
      in (if radix1 = 0 then (if c1 = 0x30 then 8 else 10) else radix1, c1, s1))"

definition strto_digit :: "nat \<Rightarrow> u8 \<Rightarrow> u8 option" where
  "strto_digit radix c =
     (if \<not> isascii c then None
      else
        let d = (if isdigit c then Some (c - 0x30)
                 else if isalpha c then Some (c - (if isupper c then 0x41 - 10 else 0x61 - 10))
                 else None)
        in case d of None \<Rightarrow> None | Some v \<Rightarrow> if radix \<le> unat v then None else Some v)"

partial_function (option) strto_loop ::
  "mem8 \<Rightarrow> nat \<Rightarrow> u64 \<Rightarrow> u64 \<Rightarrow> nat \<Rightarrow> u8 \<Rightarrow> u64 \<Rightarrow> int \<Rightarrow> (nat \<times> u64 \<times> int) option" where
  "strto_loop m radix cutoff cutlim s c acc any =
     (case strto_digit radix c of
        None \<Rightarrow> Some (s, acc, any)
      | Some v \<Rightarrow>
          if any < 0 \<or> acc > cutoff \<or> (acc = cutoff \<and> ucast v > cutlim)
          then strto_loop m radix cutoff cutlim (s + 1) (m s) acc (- 1)
          else strto_loop m radix cutoff cutlim (s + 1) (m s) (acc * of_nat radix + ucast v) 1)"

definition strtoul :: "mem8 \<Rightarrow> nat \<Rightarrow> int \<Rightarrow> (u64 \<times> nat \<times> int option) option" where
  "strtoul m nptr base0 =
     (if base0 < 0 \<or> base0 = 1 \<or> base0 > 36 then Some (0, nptr, Some (- EINVAL_no))
      else do {
        (c, s) \<leftarrow> strto_skip m nptr;
        let (neg, c, s) = strto_sign m c s;
        let (radix, c, s) = strto_radix m (nat base0) c s;
        let cutoff = ULONG_MAX div of_nat radix;
        let cutlim = ULONG_MAX mod of_nat radix;
        (s, acc, any) \<leftarrow> strto_loop m radix cutoff cutlim s c 0 0;
        let endp = (if any \<noteq> 0 then s - 1 else nptr);
        Some (if any < 0 then (ULONG_MAX, endp, Some ERANGE_no)
              else if neg then (- acc, endp, None)
              else (acc, endp, None))
      })"

definition strtol :: "mem8 \<Rightarrow> nat \<Rightarrow> int \<Rightarrow> (u64 \<times> nat \<times> int option) option" where
  "strtol m nptr base0 =
     (if base0 < 0 \<or> base0 = 1 \<or> base0 > 36 then Some (0, nptr, Some (- EINVAL_no))
      else do {
        (c, s) \<leftarrow> strto_skip m nptr;
        let (neg, c, s) = strto_sign m c s;
        let (radix, c, s) = strto_radix m (nat base0) c s;
        let cut = (if neg then LONG_MAX - (LONG_MIN + LONG_MAX) else LONG_MAX);
        let cutlim = cut mod of_nat radix;
        let cutoff = cut div of_nat radix;
        (s, acc, any) \<leftarrow> strto_loop m radix cutoff cutlim s c 0 0;
        let endp = (if any \<noteq> 0 then s - 1 else nptr);
        Some (if any < 0 then (if neg then LONG_MIN else LONG_MAX, endp, Some ERANGE_no)
              else if neg then (- acc, endp, None)
              else (acc, endp, None))
      })"

definition strtoll :: "mem8 \<Rightarrow> nat \<Rightarrow> int \<Rightarrow> (u64 \<times> nat \<times> int option) option" where
  "strtoll m nptr base0 =
     (if base0 < 0 \<or> base0 = 1 \<or> base0 > 36 then Some (0, nptr, Some (- EINVAL_no))
      else do {
        (c, s) \<leftarrow> strto_skip m nptr;
        let (neg, c, s) = strto_sign m c s;
        let (radix, c, s) = strto_radix m (nat base0) c s;
        let cut = (if neg then LONG_MAX - (LONG_MIN + LONG_MAX) else LONG_MAX);
        let cutlim = cut mod of_nat radix;
        let cutoff = cut div of_nat radix;
        (s, acc, any) \<leftarrow> strto_loop m radix cutoff cutlim s c 0 0;
        let endp = (if any \<noteq> 0 then s - 1 else nptr);
        Some (if any < 0 then (if neg then LONG_MIN else LONG_MAX, endp, Some ERANGE_no)
              else if neg then (- acc, endp, None)
              else (acc, endp, None))
      })"

definition strtoull :: "mem8 \<Rightarrow> nat \<Rightarrow> int \<Rightarrow> (u64 \<times> nat \<times> int option) option" where
  "strtoull m nptr base0 =
     (if base0 < 0 \<or> base0 = 1 \<or> base0 > 36 then Some (0, nptr, Some (- EINVAL_no))
      else do {
        (c, s) \<leftarrow> strto_skip m nptr;
        let (neg, c, s) = strto_sign m c s;
        let (radix, c, s) = strto_radix m (nat base0) c s;
        let cutoff = ULONG_MAX div of_nat radix;
        let cutlim = ULONG_MAX mod of_nat radix;
        (s, acc, any) \<leftarrow> strto_loop m radix cutoff cutlim s c 0 0;
        let endp = (if any \<noteq> 0 then s - 1 else nptr);
        Some (if any < 0 then (ULONG_MAX, endp, Some ERANGE_no)
              else if neg then (- acc, endp, None)
              else (acc, endp, None))
      })"

definition atoi :: "mem8 \<Rightarrow> nat \<Rightarrow> (u32 \<times> int option) option" where
  "atoi m s =
     do {
       (r, endp, e) \<leftarrow> strtoll m s 10;
       let v = sint r;
       let v = (if v > 2147483647 then 2147483647 else v);
       let v = (if v < - 2147483648 then - 2147483648 else v);
       Some (word_of_int v, e)
     }"

end
