(* ===== verification/NlStdio.thy ===== *)
theory NlStdio
  imports NlStdlib
begin

text \<open>
  Formatted output, \<^verbatim>\<open>lib/nolibc/stdio.c\<close> and \<^verbatim>\<open>asprintf.c\<close>. The format is the list of its bytes with the
  terminator; reading behind it is \<open>None\<close>. The variable arguments are a list of 64-bit values, of which
  an \<^verbatim>\<open>int\<close> is the lower half; a missing argument is \<open>None\<close>. Widths and counts are integers without
  bound.
\<close>

section \<open>Characters and numbers\<close>

definition hex2ascii_data :: "u8 list" where
  "hex2ascii_data =
     [0x30, 0x31, 0x32, 0x33, 0x34, 0x35, 0x36, 0x37, 0x38, 0x39, 0x61, 0x62, 0x63, 0x64, 0x65, 0x66, 0x67, 0x68,
      0x69, 0x6a, 0x6b, 0x6c, 0x6d, 0x6e, 0x6f, 0x70, 0x71, 0x72, 0x73, 0x74, 0x75, 0x76, 0x77, 0x78, 0x79, 0x7a]"

text \<open>The buffer \<^verbatim>\<open>nbuf\<close> up to the last character written; its first byte is the terminator.\<close>

partial_function (option) ksprintn_loop :: "u8 list \<Rightarrow> u64 \<Rightarrow> u64 \<Rightarrow> bool \<Rightarrow> u8 list option" where
  "ksprintn_loop nbuf num radix upper =
     (let c = hex2ascii_data ! unat (num mod radix);
          nbuf' = nbuf @ [if upper then toupper c else c];
          num' = num div radix
      in if num' \<noteq> 0 then ksprintn_loop nbuf' num' radix upper else Some nbuf')"

definition ksprintn :: "u64 \<Rightarrow> u64 \<Rightarrow> bool \<Rightarrow> (u8 list \<times> nat) option" where
  "ksprintn num radix upper = do { nbuf \<leftarrow> ksprintn_loop [0] num radix upper; Some (nbuf, length nbuf - 1) }"

text \<open>The output: memory, the next position and the room left, and the number of characters so far.\<close>

record pst =
  pmem :: mem8
  pstr :: nat
  psize :: nat
  retval :: nat

definition PCHAR :: "u8 \<Rightarrow> pst \<Rightarrow> pst" where
  "PCHAR c st =
     (let st1 = (if 2 \<le> psize st
                 then st\<lparr>pmem := (pmem st)(pstr st := c), pstr := pstr st + 1, psize := psize st - 1\<rparr>
                 else st)
      in st1\<lparr>retval := retval st + 1\<rparr>)"

fun pchar_rep :: "nat \<Rightarrow> u8 \<Rightarrow> pst \<Rightarrow> pst" where
  "pchar_rep 0 c st = st"
| "pchar_rep (Suc n) c st = pchar_rep n c (PCHAR c st)"

fun pchar_str :: "nat \<Rightarrow> nat \<Rightarrow> pst \<Rightarrow> pst" where
  "pchar_str 0 p st = st"
| "pchar_str (Suc n) p st = pchar_str n (p + 1) (PCHAR (pmem st p) st)"

fun pchar_list :: "u8 list \<Rightarrow> pst \<Rightarrow> pst" where
  "pchar_list [] st = st"
| "pchar_list (c # cs) st = pchar_list cs (PCHAR c st)"

fun pchar_num :: "u8 list \<Rightarrow> nat \<Rightarrow> pst \<Rightarrow> pst" where
  "pchar_num nbuf 0 st = st"
| "pchar_num nbuf (Suc i) st =
     (if nbuf ! Suc i \<noteq> 0 then pchar_num nbuf i (PCHAR (nbuf ! Suc i) st) else st)"

section \<open>Conversions\<close>

record pflags =
  llflag :: bool
  lflag :: bool
  ladjust :: bool
  sharpflag :: bool
  sign :: bool
  dot :: bool
  dwidth :: int
  upper :: bool
  cflag :: bool
  hflag :: bool
  jflag :: bool
  tflag :: bool
  zflag :: bool
  padc :: u8
  width :: int

definition pflags_init :: pflags where
  "pflags_init = \<lparr>llflag = False, lflag = False, ladjust = False, sharpflag = False, sign = False, dot = False,
     dwidth = 0, upper = False, cflag = False, hflag = False, jflag = False, tflag = False, zflag = False,
     padc = 0x20, width = 0\<rparr>"

definition va_int :: "u64 \<Rightarrow> int" where
  "va_int a = sint (ucast a :: u32)"

definition arg_nosign :: "pflags \<Rightarrow> u64 \<Rightarrow> u64" where
  "arg_nosign f a =
     (if jflag f then a else if llflag f then a else if tflag f then a else if lflag f then a
      else if zflag f then a else if hflag f then ucast (ucast a :: u16)
      else if cflag f then ucast (ucast a :: u8) else ucast (ucast a :: u32))"

definition arg_sign :: "pflags \<Rightarrow> u64 \<Rightarrow> u64" where
  "arg_sign f a =
     (if jflag f then a else if llflag f then a else if tflag f then a else if lflag f then a
      else if zflag f then a else if hflag f then scast (ucast a :: u16)
      else if cflag f then scast (ucast a :: u8) else scast (ucast a :: u32))"

text \<open>From the label \<^verbatim>\<open>number\<close>: the sign and the digits, then the padding around them.\<close>

definition put_digits :: "pflags \<Rightarrow> bool \<Rightarrow> u64 \<Rightarrow> u64 \<Rightarrow> u8 list \<Rightarrow> nat \<Rightarrow> pst \<Rightarrow> pst" where
  "put_digits f neg num radix nbuf n st =
     (let pre = (if sharpflag f \<and> num \<noteq> 0 then (if radix = 8 then 1 else if radix = 16 then 2 else 0) else 0)
                + (if neg then 1 else 0);
          dw = (if \<not> ladjust f \<and> padc f = 0x30 then width f - pre else dwidth f);
          w = width f - (pre + (if dw > int n then dw else int n));
          dw = dw - int n;
          st = (if \<not> ladjust f then pchar_rep (nat w) 0x20 st else st);
          st = (if neg then PCHAR 0x2d st else st);
          st = (if sharpflag f \<and> num \<noteq> 0
                then (if radix = 8 then PCHAR 0x30 st
                      else if radix = 16 then PCHAR 0x78 (PCHAR 0x30 st) else st)
                else st);
          st = pchar_rep (nat dw) 0x30 st;
          st = pchar_num nbuf n st
      in if ladjust f then pchar_rep (nat w) 0x20 st else st)"

definition put_number :: "pflags \<Rightarrow> u64 \<Rightarrow> u64 \<Rightarrow> pst \<Rightarrow> pst option" where
  "put_number f num0 radix st =
     (let neg = (sign f \<and> sint num0 < 0);
          num = (if neg then - num0 else num0)
      in do {
        (nbuf, n) \<leftarrow> ksprintn num radix (upper f);
        Some (put_digits f neg num radix nbuf n st)
      })"

fun bounded_len :: "mem8 \<Rightarrow> nat \<Rightarrow> nat \<Rightarrow> nat" where
  "bounded_len m p 0 = 0"
| "bounded_len m p (Suc k) = (if m p \<noteq> 0 then Suc (bounded_len m (p + 1) k) else 0)"

text \<open>Conversion \<^verbatim>\<open>s\<close>; \<open>null_str\<close> is where the constant \<^verbatim>\<open>"(null)"\<close> lies.\<close>

definition put_string :: "nat \<Rightarrow> pflags \<Rightarrow> nat \<Rightarrow> pst \<Rightarrow> pst" where
  "put_string null_str f p0 st =
     (let p = (if p0 = 0 then null_str else p0);
          n = (if \<not> dot f then strlen (pmem st) p else bounded_len (pmem st) p (nat (dwidth f)));
          w = width f - int n;
          st = (if \<not> ladjust f then pchar_rep (nat w) (padc f) st else st);
          st = pchar_str n p st
      in if ladjust f then pchar_rep (nat w) (padc f) st else st)"

text \<open>Conversion \<^verbatim>\<open>n\<close>.\<close>

definition put_count :: "pflags \<Rightarrow> u64 \<Rightarrow> pst \<Rightarrow> pst" where
  "put_count f a st =
     (let k = (if jflag f then 8 else if llflag f then 8 else if lflag f then 8 else if zflag f then 8
               else if hflag f then 2 else if cflag f then 1 else 4)
      in st\<lparr>pmem := storen (pmem st) (unat a) (of_nat (retval st)) k\<rparr>)"

text \<open>The digits of a width: its value and the rest of the format.\<close>

fun fmt_num :: "int \<Rightarrow> u8 \<Rightarrow> u8 list \<Rightarrow> (int \<times> u8 list) option" where
  "fmt_num n ch [] = None"
| "fmt_num n ch (c # fmt) =
     (let n' = n * 10 + (uint ch - 0x30) in
      if c < 0x30 \<or> c > 0x39 then Some (n', c # fmt) else fmt_num n' c fmt)"

lemma fmt_num_length: "fmt_num n ch fmt = Some (n', rest) \<Longrightarrow> length rest \<le> length fmt"
  by (induction n ch fmt rule: fmt_num.induct) (auto simp: Let_def split: if_splits)

text \<open>The cases of the \<^verbatim>\<open>switch\<close> that only set a flag and go back to \<^verbatim>\<open>reswitch\<close>.\<close>

definition flag_char :: "pflags \<Rightarrow> u8 \<Rightarrow> pflags option" where
  "flag_char f ch =
     (if ch = 0x2e then Some (f\<lparr>dot := True\<rparr>)
      else if ch = 0x23 then Some (f\<lparr>sharpflag := True\<rparr>)
      else if ch = 0x2b then Some (f\<lparr>sign := True\<rparr>)
      else if ch = 0x2d then Some (f\<lparr>ladjust := True\<rparr>)
      else if ch = 0x30 \<and> \<not> dot f then Some (f\<lparr>padc := 0x30\<rparr>)
      else if ch = 0x68 then Some (if hflag f then f\<lparr>hflag := False, cflag := True\<rparr> else f\<lparr>hflag := True\<rparr>)
      else if ch = 0x6a then Some (f\<lparr>jflag := True\<rparr>)
      else if ch = 0x6c then Some (if lflag f then f\<lparr>lflag := False, llflag := True\<rparr> else f\<lparr>lflag := True\<rparr>)
      else if ch = 0x71 then Some (f\<lparr>llflag := True\<rparr>)
      else if ch = 0x74 then Some (f\<lparr>tflag := True\<rparr>)
      else if ch = 0x7a then Some (f\<lparr>zflag := True\<rparr>)
      else None)"

text \<open>The cases that print a number: the flags, the number and the base with which they reach \<^verbatim>\<open>number\<close>.\<close>

definition number_conv :: "pflags \<Rightarrow> u8 \<Rightarrow> u64 \<Rightarrow> (pflags \<times> u64 \<times> u64) option" where
  "number_conv f ch a =
     (if ch = 0x64 \<or> ch = 0x69 then Some (f\<lparr>sign := True\<rparr>, arg_sign f a, 10)
      else if ch = 0x6f then Some (f\<lparr>sign := False\<rparr>, arg_nosign f a, 8)
      else if ch = 0x70 then Some (f\<lparr>sharpflag := (width f = 0), sign := False\<rparr>, a, 16)
      else if ch = 0x72 then Some (f, if sign f then arg_sign f a else arg_nosign f a, 10)
      else if ch = 0x75 then Some (f\<lparr>sign := False\<rparr>, arg_nosign f a, 10)
      else if ch = 0x58 then Some (f\<lparr>sign := False, upper := True\<rparr>, arg_nosign f a, 16)
      else if ch = 0x78 then Some (f\<lparr>sign := False\<rparr>, arg_nosign f a, 16)
      else if ch = 0x79 then Some (f\<lparr>sign := True\<rparr>, arg_sign f a, 16)
      else None)"

text \<open>
  The \<^verbatim>\<open>switch\<close> on one character: back to \<^verbatim>\<open>reswitch\<close>, or the conversion is done. \<open>percent\<close> is the format
  from the per cent sign on; the last component of \<open>Done\<close> is the flag \<^verbatim>\<open>stop\<close>.
\<close>

datatype spec_result =
    Again pflags "u64 list" "u8 list"
  | Done pst "u64 list" "u8 list" bool

definition width_arg :: "pflags \<Rightarrow> int \<Rightarrow> pflags" where
  "width_arg f w =
     (if \<not> dot f then (if w < 0 then f\<lparr>ladjust := \<not> ladjust f, width := - w\<rparr> else f\<lparr>width := w\<rparr>)
      else f\<lparr>dwidth := w\<rparr>)"

definition arg_conv :: "nat \<Rightarrow> pflags \<Rightarrow> u8 \<Rightarrow> u64 \<Rightarrow> pst \<Rightarrow> pst option" where
  "arg_conv ns f ch a st =
     (if ch = 0x63 then Some (PCHAR (ucast a) st)
      else if ch = 0x6e then Some (put_count f a st)
      else if ch = 0x73 then Some (put_string ns f (unat a) st)
      else case number_conv f ch a of None \<Rightarrow> None | Some (f', num, radix) \<Rightarrow> put_number f' num radix st)"

definition takes_arg :: "u8 \<Rightarrow> bool" where
  "takes_arg ch \<longleftrightarrow>
     ch \<in> set [0x63, 0x6e, 0x73, 0x64, 0x69, 0x6f, 0x70, 0x72, 0x75, 0x58, 0x78, 0x79]"

definition spec_char ::
  "nat \<Rightarrow> u8 list \<Rightarrow> pflags \<Rightarrow> u64 list \<Rightarrow> u8 \<Rightarrow> u8 list \<Rightarrow> pst \<Rightarrow> spec_result option" where
  "spec_char ns percent f ap ch fmt st =
     (case flag_char f ch of
        Some f' \<Rightarrow> Some (Again f' ap fmt)
      | None \<Rightarrow>
          if ch = 0x25 then Some (Done (PCHAR ch st) ap fmt False)
          else if ch = 0x2a then
            (case ap of [] \<Rightarrow> None | a # ap' \<Rightarrow> Some (Again (width_arg f (va_int a)) ap' fmt))
          else if 0x30 \<le> ch \<and> ch \<le> 0x39 then
            (case fmt_num 0 ch fmt of None \<Rightarrow> None
             | Some (n, rest) \<Rightarrow> Some (Again (if dot f then f\<lparr>dwidth := n\<rparr> else f\<lparr>width := n\<rparr>) ap rest))
          else if takes_arg ch then
            (case ap of [] \<Rightarrow> None
             | a # ap' \<Rightarrow> do { st' \<leftarrow> arg_conv ns f ch a st; Some (Done st' ap' fmt False) })
          else Some (Done (pchar_list (take (length percent - length fmt) percent) st) ap fmt True))"

lemma spec_char_Again: "spec_char ns percent f ap ch fmt st = Some (Again f' ap' rest) \<Longrightarrow> length rest \<le> length fmt"
  by (auto simp: spec_char_def bind_eq_Some_conv dest: fmt_num_length split: option.splits if_splits list.splits)

function (sequential) fmt_spec ::
  "nat \<Rightarrow> u8 list \<Rightarrow> pflags \<Rightarrow> u64 list \<Rightarrow> u8 list \<Rightarrow> pst \<Rightarrow> (pst \<times> u64 list \<times> u8 list \<times> bool) option" where
  "fmt_spec ns percent f ap [] st = None"
| "fmt_spec ns percent f ap (ch # fmt) st =
     (case spec_char ns percent f ap ch fmt st of
        None \<Rightarrow> None
      | Some (Again f' ap' rest) \<Rightarrow> fmt_spec ns percent f' ap' rest st
      | Some (Done st' ap' rest stop) \<Rightarrow> Some (st', ap', rest, stop))"
  by pat_completeness auto
termination
  by (relation "measure (\<lambda>(ns, percent, f, ap, fmt, st). length fmt)") (auto dest: spec_char_Again)

lemma spec_char_Done: "spec_char ns percent f ap ch fmt st = Some (Done st' ap' rest stop) \<Longrightarrow> rest = fmt"
  by (auto simp: spec_char_def bind_eq_Some_conv split: option.splits if_splits list.splits)

lemma fmt_spec_length: "fmt_spec ns percent f ap fmt st = Some (st', ap', rest, stop) \<Longrightarrow> length rest < length fmt"
  by (induction ns percent f ap fmt st rule: fmt_spec.induct)
    (auto dest: spec_char_Done spec_char_Again split: option.splits spec_result.splits)

section \<open>The functions\<close>

function (sequential) vsn_loop :: "nat \<Rightarrow> pst \<Rightarrow> u64 list \<Rightarrow> u8 list \<Rightarrow> bool \<Rightarrow> pst option" where
  "vsn_loop ns st ap [] stop = None"
| "vsn_loop ns st ap (ch # fmt) stop =
     (if ch \<noteq> 0x25 \<or> stop
      then (if ch = 0
            then Some (if 1 \<le> psize st then st\<lparr>pmem := (pmem st)(pstr st := 0)\<rparr> else st)
            else vsn_loop ns (PCHAR ch st) ap fmt stop)
      else (case fmt_spec ns (ch # fmt) pflags_init ap fmt st of
              None \<Rightarrow> None
            | Some (st', ap', fmt', stop') \<Rightarrow> vsn_loop ns st' ap' fmt' stop'))"
  by pat_completeness auto
termination
  by (relation "measure (\<lambda>(ns, st, ap, fmt, stop). length fmt)") (auto dest: fmt_spec_length)

text \<open>The bytes of \<^verbatim>\<open>"(fmt null)\n"\<close>.\<close>

definition fmt_null :: "u8 list" where
  "fmt_null = [0x28, 0x66, 0x6d, 0x74, 0x20, 0x6e, 0x75, 0x6c, 0x6c, 0x29, 0x0a, 0]"

definition vsnprintf :: "nat \<Rightarrow> mem8 \<Rightarrow> nat \<Rightarrow> nat \<Rightarrow> u8 list option \<Rightarrow> u64 list \<Rightarrow> (mem8 \<times> nat) option" where
  "vsnprintf ns m str sz fmt ap =
     do {
       st \<leftarrow> vsn_loop ns \<lparr>pmem = m, pstr = str, psize = sz, retval = 0\<rparr> ap
               (case fmt of None \<Rightarrow> fmt_null | Some xs \<Rightarrow> xs) False;
       Some (pmem st, retval st)
     }"

definition vsprintf :: "nat \<Rightarrow> mem8 \<Rightarrow> nat \<Rightarrow> u8 list option \<Rightarrow> u64 list \<Rightarrow> (mem8 \<times> nat) option" where
  "vsprintf ns m str fmt ap = vsnprintf ns m str SIZE_MAX fmt ap"

definition snprintf :: "nat \<Rightarrow> mem8 \<Rightarrow> nat \<Rightarrow> nat \<Rightarrow> u8 list option \<Rightarrow> u64 list \<Rightarrow> (mem8 \<times> nat) option" where
  "snprintf ns m str sz fmt ap = vsnprintf ns m str sz fmt ap"

definition sprintf :: "nat \<Rightarrow> mem8 \<Rightarrow> nat \<Rightarrow> u8 list option \<Rightarrow> u64 list \<Rightarrow> (mem8 \<times> nat) option" where
  "sprintf ns m str fmt ap = vsprintf ns m str fmt ap"

text \<open>
  \<^verbatim>\<open>vfprintf\<close> formats into a buffer of 1024 bytes at \<open>buf\<close> on its stack and hands the console the buffer and
  the length \<^verbatim>\<open>vsnprintf\<close> returned. The result is the memory and that request.
\<close>

datatype stream = Stdin | Stdout | Stderr

datatype console = Coutk nat nat | Coutd nat nat

definition vfprintf :: "nat \<Rightarrow> mem8 \<Rightarrow> nat \<Rightarrow> stream \<Rightarrow> u8 list option \<Rightarrow> u64 list \<Rightarrow> (mem8 \<times> console option) option" where
  "vfprintf ns m buf fp fmt ap =
     do {
       (m1, ret) \<leftarrow> vsnprintf ns m buf 1024 fmt ap;
       Some (m1, case fp of Stdout \<Rightarrow> Some (Coutk buf ret) | Stderr \<Rightarrow> Some (Coutd buf ret) | Stdin \<Rightarrow> None)
     }"

definition fprintf :: "nat \<Rightarrow> mem8 \<Rightarrow> nat \<Rightarrow> stream \<Rightarrow> u8 list option \<Rightarrow> u64 list \<Rightarrow> (mem8 \<times> console option) option" where
  "fprintf ns m buf fp fmt ap = vfprintf ns m buf fp fmt ap"

definition vprintf :: "nat \<Rightarrow> mem8 \<Rightarrow> nat \<Rightarrow> u8 list option \<Rightarrow> u64 list \<Rightarrow> (mem8 \<times> console option) option" where
  "vprintf ns m buf fmt ap = vfprintf ns m buf Stdout fmt ap"

definition printf :: "nat \<Rightarrow> mem8 \<Rightarrow> nat \<Rightarrow> u8 list option \<Rightarrow> u64 list \<Rightarrow> (mem8 \<times> console option) option" where
  "printf ns m buf fmt ap = vprintf ns m buf fmt ap"

text \<open>
  \<^verbatim>\<open>vasprintf\<close>: a first run without a buffer gives the length. \<open>alloc\<close> is \<^verbatim>\<open>malloc\<close>. The result is the
  memory and the pointer stored with the length, or \<open>None\<close> in place of \<^verbatim>\<open>-1\<close>.
\<close>

definition vasprintf ::
  "(mem8 \<Rightarrow> nat \<Rightarrow> mem8 \<times> nat) \<Rightarrow> nat \<Rightarrow> mem8 \<Rightarrow> u8 list option \<Rightarrow> u64 list \<Rightarrow> (mem8 \<times> (nat \<times> nat) option) option" where
  "vasprintf alloc ns m fmt ap =
     do {
       (m0, l) \<leftarrow> vsnprintf ns m 0 0 fmt ap;
       let (m1, s) = alloc m0 (l + 1);
       if s = 0 then Some (m1, None)
       else do {
         (m2, r) \<leftarrow> vsnprintf ns m1 s (l + 1) fmt ap;
         Some (m2, Some (s, r))
       }
     }"

definition asprintf ::
  "(mem8 \<Rightarrow> nat \<Rightarrow> mem8 \<times> nat) \<Rightarrow> nat \<Rightarrow> mem8 \<Rightarrow> u8 list option \<Rightarrow> u64 list \<Rightarrow> (mem8 \<times> (nat \<times> nat) option) option" where
  "asprintf alloc ns m fmt ap = vasprintf alloc ns m fmt ap"

end
