(* ===== verification/NlStdlibOk.thy ===== *)
theory NlStdlibOk
  imports NlStdlib NlStringOk
begin

text \<open>
  The conversions of strings to numbers compute the value of the digits, or saturate. The character
  table is checked against the ranges of ASCII first.
\<close>

section \<open>The character table\<close>

lemma u8_all:
  assumes "list_all (\<lambda>n. P (of_nat n)) [0..<256]"
  shows "P (c::u8)"
proof -
  have "unat c < 256" by (rule unat_lt_8)
  moreover have "\<forall>n < 256. P (of_nat n)" using assms by (simp add: list_all_iff)
  ultimately have "P (of_nat (unat c))" by blast
  then show ?thesis by simp
qed

definition digit_of :: "u8 \<Rightarrow> nat option" where
  "digit_of c =
     (let n = unat c in
      if 48 \<le> n \<and> n \<le> 57 then Some (n - 48)
      else if 65 \<le> n \<and> n \<le> 90 then Some (n - 55)
      else if 97 \<le> n \<and> n \<le> 122 then Some (n - 87)
      else None)"

definition char_digit :: "u8 \<Rightarrow> u8 option" where
  "char_digit c =
     (if \<not> isascii c then None
      else if isdigit c then Some (c - 0x30)
      else if isalpha c then Some (c - (if isupper c then 0x41 - 10 else 0x61 - 10))
      else None)"

lemma char_digit_eq: "map_option unat (char_digit c) = digit_of c"
  by (rule u8_all) code_simp

lemma strto_digit_eq: "map_option unat (strto_digit r c) = (case digit_of c of None \<Rightarrow> None | Some v \<Rightarrow> if v < r then Some v else None)"
proof -
  have "strto_digit r c = (case char_digit c of None \<Rightarrow> None | Some v \<Rightarrow> if r \<le> unat v then None else Some v)"
    by (simp add: strto_digit_def char_digit_def Let_def)
  then show ?thesis using char_digit_eq [of c, symmetric] by (cases "char_digit c") auto
qed

lemma strto_digit_None: "strto_digit r c = None \<longleftrightarrow> (case digit_of c of None \<Rightarrow> True | Some v \<Rightarrow> r \<le> v)"
  using strto_digit_eq [of r c] by (cases "strto_digit r c") (auto split: option.splits if_splits)

lemma strto_digit_Some:
  assumes "digit_of c = Some d" "d < r"
  obtains v where "strto_digit r c = Some v" "unat v = d"
  using strto_digit_eq [of r c] assms by auto

lemma isspace_iff: "isspace c \<longleftrightarrow> unat c \<in> {9, 10, 11, 12, 13, 32, 160}"
  by (rule u8_all) code_simp

lemma digit_not_space: "digit_of c = Some d \<Longrightarrow> \<not> isspace c \<and> c \<noteq> 0x2d \<and> c \<noteq> 0x2b \<and> c \<noteq> 0"
  by (auto simp: isspace_iff digit_of_def Let_def split: if_splits)

section \<open>Values of digit sequences\<close>

definition num_val :: "nat \<Rightarrow> nat list \<Rightarrow> nat" where
  "num_val r ds = foldl (\<lambda>a d. a * r + d) 0 ds"

lemma num_val_snoc [simp]: "num_val r [] = 0" "num_val r (ds @ [d]) = num_val r ds * r + d"
  by (simp_all add: num_val_def)

lemma num_val_mono: "0 < r \<Longrightarrow> num_val r ds \<le> num_val r (ds @ es)"
proof (induction es rule: rev_induct)
  case (snoc e es)
  have "num_val r (ds @ es) \<le> num_val r (ds @ es) * r + e" using snoc.prems by (cases r) auto
  then show ?case using snoc by (simp add: append_assoc [symmetric] del: append_assoc)
qed simp

lemma cut_test:
  assumes "0 < (r::nat)" "d < r"
  shows "a > L div r \<or> (a = L div r \<and> d > L mod r) \<longleftrightarrow> a * r + d > L"
proof -
  have L: "L = L div r * r + L mod r" by simp
  consider "a < L div r" | "a = L div r" | "a > L div r" by linarith
  then show ?thesis
  proof cases
    case 1
    then have "Suc a * r \<le> L div r * r" by (intro mult_le_mono1) simp
    then have "a * r + d < L div r * r" using assms(2) by simp
    then have "a * r + d \<le> L" using L by linarith
    then show ?thesis using 1 by simp
  next
    case 2
    have "a * r = L div r * r" using 2 by simp
    then show ?thesis using 2 L by linarith
  next
    case 3
    then have "Suc (L div r) * r \<le> a * r" by (intro mult_le_mono1) simp
    then have "r + L div r * r \<le> a * r" by simp
    moreover have "L mod r < r" using assms(1) by simp
    ultimately have "L < a * r" using L by linarith
    then show ?thesis using 3 by simp
  qed
qed

section \<open>The loop\<close>

text \<open>The digits \<open>ds\<close> stand at \<open>q\<close> and no further digit follows.\<close>

definition digits_at :: "mem8 \<Rightarrow> nat \<Rightarrow> nat \<Rightarrow> nat list \<Rightarrow> bool" where
  "digits_at m r q ds \<longleftrightarrow>
     (\<forall>i < length ds. digit_of (m (q + i)) = Some (ds ! i) \<and> ds ! i < r) \<and> strto_digit r (m (q + length ds)) = None"

lemma digits_at_Cons:
  "digits_at m r q (d # ds) \<longleftrightarrow> digit_of (m q) = Some d \<and> d < r \<and> digits_at m r (q + 1) ds"
  using All_less_Suc2 [of "length ds" "\<lambda>i. digit_of (m (q + i)) = Some ((d # ds) ! i) \<and> (d # ds) ! i < r"]
  by (auto simp: digits_at_def)

lemma unat_ucast_u8: "unat (ucast (v::u8) :: u64) = unat v"
  using unat_lt_8 [of v] by (simp add: unsigned_ucast_eq take_bit_nat_eq_self)

text \<open>What the loop has after the digits \<open>es\<close>: their value, or the overflow mark.\<close>

definition loop_at :: "nat \<Rightarrow> nat \<Rightarrow> nat list \<Rightarrow> u64 \<Rightarrow> int \<Rightarrow> bool" where
  "loop_at L r es acc any \<longleftrightarrow>
     (if num_val r es \<le> L then unat acc = num_val r es \<and> any = (if es = [] then 0 else 1) else any = - 1)"

lemma loop_at_step:
  assumes r: "2 \<le> r" "r \<le> 36" and L: "L < 2 ^ 64" and v: "unat v < r" and at: "loop_at L r es acc any"
  defines "ovf \<equiv> any < 0 \<or> acc > of_nat (L div r) \<or> (acc = of_nat (L div r) \<and> ucast (v::u8) > (of_nat (L mod r) :: u64))"
  shows "ovf \<Longrightarrow> loop_at L r (es @ [unat v]) acc (- 1)"
    and "\<not> ovf \<Longrightarrow> loop_at L r (es @ [unat v]) (acc * of_nat r + ucast v) 1"
proof -
  let ?V = "num_val r es"
  have un: "unat (of_nat n :: u64) = n" if "n < 2 ^ 64" for n using that by (simp add: unat_of_nat take_bit_nat_eq_self)
  have q: "unat (of_nat (L div r) :: u64) = L div r" "unat (of_nat (L mod r) :: u64) = L mod r"
    using L by (auto intro!: un le_less_trans [OF div_le_dividend] le_less_trans [OF mod_less_eq_dividend])
  have mono: "?V \<le> ?V * r + unat v" using r by (cases r) auto
  have ov: "ovf \<longleftrightarrow> ?V * r + unat v > L"
  proof (cases "?V \<le> L")
    case True
    then have a: "unat acc = ?V" "\<not> any < 0" using at by (auto simp: loop_at_def)
    have "ovf \<longleftrightarrow> ?V > L div r \<or> (?V = L div r \<and> unat v > L mod r)"
      using a by (simp add: ovf_def word_less_nat_alt word_unat_eq_iff q unat_ucast_u8)
    then show ?thesis using cut_test [of r "unat v" L ?V] r v by simp
  next
    case False
    then show ?thesis using at mono by (auto simp: ovf_def loop_at_def)
  qed
  show "loop_at L r (es @ [unat v]) acc (- 1)" if ovf using that ov by (auto simp: loop_at_def)
  show "loop_at L r (es @ [unat v]) (acc * of_nat r + ucast v) 1" if "\<not> ovf"
  proof -
    have le: "?V * r + unat v \<le> L" using that ov by simp
    then have "?V \<le> L" using mono by simp
    then have a: "unat acc = ?V" using at by (auto simp: loop_at_def)
    have rr: "unat (of_nat r :: u64) = r" using r by (intro un) simp
    have "unat (acc * of_nat r :: u64) = ?V * r" using a rr le L by (subst unat_mult_lem [THEN iffD1]) auto
    then have "unat (acc * of_nat r + ucast v) = ?V * r + unat v"
      using le L by (subst unat_add_64) (auto simp: unat_ucast_u8)
    then show ?thesis using le by (simp add: loop_at_def)
  qed
qed

lemma strto_loop_ok:
  assumes r: "2 \<le> r" "r \<le> 36" and L: "L < 2 ^ 64" and ds: "digits_at m r q ds" and at: "loop_at L r es acc any"
  shows "\<exists>acc' any'. strto_loop m r (of_nat (L div r)) (of_nat (L mod r)) (q + 1) (m q) acc any =
      Some (q + length ds + 1, acc', any') \<and> loop_at L r (es @ ds) acc' any'"
  using ds at
proof (induction ds arbitrary: q es acc any)
  case Nil
  then show ?case by (subst strto_loop.simps) (simp add: digits_at_def)
next
  case (Cons d ds)
  have d: "digit_of (m q) = Some d" "d < r" "digits_at m r (q + 1) ds" using Cons.prems(1) by (auto simp: digits_at_Cons)
  obtain v where v: "strto_digit r (m q) = Some v" "unat v = d" using strto_digit_Some [OF d(1,2)] .
  note st = loop_at_step [OF r L _ Cons.prems(2), of v]
  have vr: "unat v < r" using v(2) d(2) by simp
  show ?case
  proof (cases "any < 0 \<or> acc > of_nat (L div r) \<or> (acc = of_nat (L div r) \<and> ucast v > (of_nat (L mod r) :: u64))")
    case True
    then show ?thesis using Cons.IH [OF d(3) st(1) [OF vr True]] v
      by (subst strto_loop.simps) simp
  next
    case False
    then show ?thesis using Cons.IH [OF d(3) st(2) [OF vr False]] v
      by (subst strto_loop.simps) (simp del: de_Morgan_disj)
  qed
qed

section \<open>The conversions\<close>

text \<open>
  A string that starts with a number in base \<open>r\<close>: white space, a sign, digits, and something that is
  not a digit. In base 16 the digits are not those of a prefix \<^verbatim>\<open>0x\<close>.
\<close>

definition number_string :: "nat \<Rightarrow> u8 list \<Rightarrow> u8 list \<Rightarrow> u8 list \<Rightarrow> u8 list \<Rightarrow> bool" where
  "number_string r ws sg cs rest \<longleftrightarrow>
     (\<forall>b \<in> set ws. isspace b) \<and> sg \<in> {[], [0x2b], [0x2d]} \<and> cs \<noteq> [] \<and>
     (\<forall>b \<in> set cs. case digit_of b of None \<Rightarrow> False | Some d \<Rightarrow> d < r) \<and>
     (case rest of [] \<Rightarrow> True | b # _ \<Rightarrow> (case digit_of b of None \<Rightarrow> True | Some d \<Rightarrow> r \<le> d)) \<and>
     (r = 16 \<longrightarrow> take 2 (cs @ rest) \<notin> {[0x30, 0x78], [0x30, 0x58]})"

definition digits_of :: "u8 list \<Rightarrow> nat list" where
  "digits_of cs = map (\<lambda>b. the (digit_of b)) cs"

lemma string_at:
  assumes "c_string m p (xs @ y # ys)"
  shows "m (p + length xs) = y"
  using assms by (auto simp: c_string_def nth_append dest: spec [of _ "length xs"])

lemma strto_skip_ok:
  assumes "c_string m p (ws @ xs)" "\<forall>b \<in> set ws. isspace b" "xs \<noteq> []" "\<not> isspace (hd xs)"
  shows "strto_skip m p = Some (hd xs, p + length ws + 1)"
  using assms
proof (induction ws arbitrary: p)
  case Nil
  then show ?case by (cases xs) (subst strto_skip.simps, auto simp: Let_def)+
next
  case (Cons w ws)
  then show ?case by (subst strto_skip.simps) (auto simp: Let_def)
qed

lemma number_prefix:
  assumes s: "c_string m p (ws @ sg @ cs @ rest)" and n: "number_string r ws sg cs rest" and r: "2 \<le> r" "r \<le> 36"
  defines "q \<equiv> p + length ws + length sg"
  obtains c s' c' s'' where "strto_skip m p = Some (c, s')" "strto_sign m c s' = (sg = [0x2d], c', s'')"
    "strto_radix m r c' s'' = (r, m q, q + 1)" "digits_at m r q (digits_of cs)"
proof -
  obtain c0 ct where cs: "cs = c0 # ct" using n by (cases cs) (auto simp: number_string_def)
  have dg: "\<And>b. b \<in> set cs \<Longrightarrow> \<exists>d. digit_of b = Some d \<and> d < r" and sg: "sg \<in> {[], [0x2b], [0x2d]}"
    using n by (auto simp: number_string_def split: option.splits)
  have sp: "\<not> isspace 0x2b" "\<not> isspace 0x2d" by (simp_all add: isspace_iff)
  have c0: "\<not> isspace c0" "c0 \<noteq> 0x2d" "c0 \<noteq> 0x2b" using dg [of c0] cs digit_not_space by auto
  have "hd (sg @ cs @ rest) \<in> {c0, 0x2b, 0x2d}" using sg cs by auto
  then have sk: "strto_skip m p = Some (hd (sg @ cs @ rest), p + length ws + 1)"
    using n sp c0 cs by (intro strto_skip_ok [OF s]) (auto simp: number_string_def)
  have mq: "m q = c0" using string_at [of m p "ws @ sg" c0 "ct @ rest"] s cs by (simp add: q_def add.assoc)
  have sgn: "strto_sign m (hd (sg @ cs @ rest)) (p + length ws + 1) = (sg = [0x2d], m q, q + 1)"
    using sg c0 cs mq by (auto simp: strto_sign_def q_def)
  have nx: "m (q + 1) = (case ct @ rest of [] \<Rightarrow> 0 | b # _ \<Rightarrow> b)"
  proof (cases "ct @ rest")
    case Nil
    then show ?thesis using s cs by (simp add: c_string_def q_def add.assoc)
  next
    case (Cons b bs)
    then show ?thesis using string_at [of m p "ws @ sg @ [c0]" b bs] s cs by (simp add: q_def add.assoc)
  qed
  have "m (q + 1) \<noteq> 0x78 \<and> m (q + 1) \<noteq> 0x58" if "r = 16" "c0 = 0x30"
  proof (cases "ct @ rest")
    case Nil
    then show ?thesis using nx by simp
  next
    case (Cons b bs)
    then have "take 2 (cs @ rest) = [c0, b]" using cs by (simp add: numeral_2_eq_2)
    then show ?thesis using n that nx Cons by (auto simp: number_string_def)
  qed
  then have rad: "strto_radix m r (m q) (q + 1) = (r, m q, q + 1)"
    using r mq by (auto simp: strto_radix_def)
  have at: "m (q + i) = cs ! i" if "i < length cs" for i
    using s that by (auto simp: c_string_def q_def add.assoc nth_append dest!: spec [of _ "length ws + (length sg + i)"])
  have "strto_digit r (m (q + length cs)) = None"
  proof (cases rest)
    case Nil
    then have "m (q + length cs) = 0" using s by (simp add: c_string_def q_def add.assoc)
    then show ?thesis by (simp add: strto_digit_None digit_of_def)
  next
    case (Cons b bs)
    then have "m (q + length cs) = b" using string_at [of m p "ws @ sg @ cs" b bs] s by (simp add: q_def add.assoc)
    then show ?thesis using n Cons by (simp add: strto_digit_None number_string_def)
  qed
  then have "digits_at m r q (digits_of cs)"
    using at dg [OF nth_mem] by (auto simp: digits_at_def digits_of_def) (metis option.sel)+
  then show thesis using that sk sgn rad by blast
qed

lemma loop_at_0: "loop_at L r [] 0 0"
  by (simp add: loop_at_def)

lemma digits_of_Nil: "digits_of cs = [] \<longleftrightarrow> cs = []"
  by (simp add: digits_of_def)

lemma number_loop:
  assumes s: "c_string m p (ws @ sg @ cs @ rest)" and n: "number_string r ws sg cs rest" and r: "2 \<le> r" "r \<le> 36"
    and L: "L < 2 ^ 64"
  defines "V \<equiv> num_val r (digits_of cs)" and "q \<equiv> p + length ws + length sg"
  obtains c s' c' s'' acc any where "strto_skip m p = Some (c, s')" "strto_sign m c s' = (sg = [0x2d], c', s'')"
    "strto_radix m r c' s'' = (r, m q, Suc q)"
    "strto_loop m r (of_nat (L div r)) (of_nat (L mod r)) (Suc q) (m q) 0 0 = Some (Suc (q + length cs), acc, any)"
    "if V \<le> L then unat acc = V \<and> any = 1 else any = - 1"
proof -
  obtain c s' c' s'' where pre: "strto_skip m p = Some (c, s')" "strto_sign m c s' = (sg = [0x2d], c', s'')"
    "strto_radix m r c' s'' = (r, m q, q + 1)" "digits_at m r q (digits_of cs)"
    using number_prefix [OF s n r] unfolding q_def by blast
  obtain acc any where lp: "strto_loop m r (of_nat (L div r)) (of_nat (L mod r)) (Suc q) (m q) 0 0 =
      Some (Suc (q + length cs), acc, any)" "loop_at L r (digits_of cs) acc any"
    using strto_loop_ok [OF r L pre(4) loop_at_0] by (auto simp: digits_of_def)
  have "cs \<noteq> []" using n by (simp add: number_string_def)
  then have "if V \<le> L then unat acc = V \<and> any = 1 else any = - 1"
    using lp(2) by (auto simp: loop_at_def V_def digits_of_Nil split: if_splits)
  then show thesis using that pre lp(1) by simp
qed

lemma cut_words:
  assumes "2 \<le> r" "r \<le> 36"
  shows "M div of_nat r = (of_nat (unat (M::u64) div r) :: u64)" "M mod of_nat r = (of_nat (unat M mod r) :: u64)"
proof -
  have rr: "unat (of_nat r :: u64) = r" using assms by (simp add: unat_of_nat take_bit_nat_eq_self)
  have "unat M div r < 2 ^ 64" "unat M mod r < 2 ^ 64"
    using unat_lt_64 [of M] by (auto intro: le_less_trans [OF div_le_dividend] le_less_trans [OF mod_less_eq_dividend])
  then show "M div of_nat r = (of_nat (unat M div r) :: u64)" "M mod of_nat r = (of_nat (unat M mod r) :: u64)"
    using rr by (simp_all add: word_unat_eq_iff unat_div unat_mod unat_of_nat take_bit_nat_eq_self)
qed

lemma strtoul_number:
  assumes s: "c_string m p (ws @ sg @ cs @ rest)" and n: "number_string r ws sg cs rest" and r: "2 \<le> r" "r \<le> 36"
  defines "V \<equiv> num_val r (digits_of cs)" and "e \<equiv> p + length ws + length sg + length cs"
  shows "strtoul m p (int r) =
    Some (if V < 2 ^ 64 then (if sg = [0x2d] then - of_nat V else of_nat V, e, None) else (ULONG_MAX, e, Some ERANGE_no))"
proof -
  define q where "q = p + length ws + length sg"
  define M where "M = ULONG_MAX"
  have e: "e = q + length cs" by (simp add: e_def q_def)
  obtain c s' c' s'' acc any where lp: "strto_skip m p = Some (c, s')" "strto_sign m c s' = (sg = [0x2d], c', s'')"
    "strto_radix m r c' s'' = (r, m q, Suc q)"
    "strto_loop m r (of_nat (unat M div r)) (of_nat (unat M mod r)) (Suc q) (m q) 0 0 =
       Some (Suc (q + length cs), acc, any)"
    and any: "if V \<le> unat M then unat acc = V \<and> any = 1 else any = - 1"
    using number_loop [OF s n r unat_lt_64 [of M]] unfolding V_def q_def by metis
  have "strtoul m p (int r) = Some (if any < 0 then (ULONG_MAX, e, Some ERANGE_no)
      else if sg = [0x2d] then (- acc, e, None) else (acc, e, None))"
    using r any by (simp add: strtoul_def lp(1-3) Let_def M_def [symmetric] cut_words lp(4) e split: if_splits)
  then show ?thesis using any by (auto simp: word_unat_eq_iff M_def unat_max_64 split: if_splits)
qed

lemma strtol_number:
  assumes s: "c_string m p (ws @ sg @ cs @ rest)" and n: "number_string r ws sg cs rest" and r: "2 \<le> r" "r \<le> 36"
  defines "V \<equiv> num_val r (digits_of cs)" and "e \<equiv> p + length ws + length sg + length cs"
  defines "L \<equiv> if sg = [0x2d] then 2 ^ 63 else 2 ^ 63 - 1"
  shows "strtol m p (int r) =
    Some (if V \<le> L then (if sg = [0x2d] then - of_nat V else of_nat V, e, None)
          else (if sg = [0x2d] then LONG_MIN else LONG_MAX, e, Some ERANGE_no))"
proof -
  define q where "q = p + length ws + length sg"
  define M where "M = (if sg = [0x2d] then LONG_MAX - (LONG_MIN + LONG_MAX) else LONG_MAX)"
  have e: "e = q + length cs" by (simp add: e_def q_def)
  have M: "unat M = L" by (simp add: M_def L_def)
  obtain c s' c' s'' acc any where lp: "strto_skip m p = Some (c, s')" "strto_sign m c s' = (sg = [0x2d], c', s'')"
    "strto_radix m r c' s'' = (r, m q, Suc q)"
    "strto_loop m r (of_nat (unat M div r)) (of_nat (unat M mod r)) (Suc q) (m q) 0 0 =
       Some (Suc (q + length cs), acc, any)"
    and any: "if V \<le> unat M then unat acc = V \<and> any = 1 else any = - 1"
    using number_loop [OF s n r unat_lt_64 [of M]] unfolding V_def q_def by metis
  have "strtol m p (int r) = Some (if any < 0 then (if sg = [0x2d] then LONG_MIN else LONG_MAX, e, Some ERANGE_no)
      else if sg = [0x2d] then (- acc, e, None) else (acc, e, None))"
    using r any by (simp add: strtol_def lp(1-3) Let_def M_def [symmetric] cut_words lp(4) e split: if_splits)
  then show ?thesis using any by (auto simp: word_unat_eq_iff M split: if_splits)
qed

lemma strtoull_eq: "strtoull = strtoul" "strtoll = strtol"
  by (simp_all add: fun_eq_iff strtoul_def strtoull_def strtol_def strtoll_def)

end
