(* ===== verification/NlStdioOk.thy ===== *)
theory NlStdioOk
  imports NlStdio NlStdlibOk
begin

text \<open>
  What formatted output leaves in memory: whatever the format and the arguments are, the characters put
  out are cut to the buffer. Numbers are printed as their digits.
\<close>

section \<open>Output cut to a buffer\<close>

text \<open>The state of the output after the characters \<open>out\<close>.\<close>

definition emitted :: "mem8 \<Rightarrow> nat \<Rightarrow> nat \<Rightarrow> u8 list \<Rightarrow> pst" where
  "emitted m str sz out =
     (let k = min (length out) (sz - 1) in
      \<lparr>pmem = (\<lambda>x. if str \<le> x \<and> x < str + k then out ! (x - str) else m x),
       pstr = str + k, psize = sz - k, retval = length out\<rparr>)"

lemma emitted_Nil: "emitted m str sz [] = \<lparr>pmem = m, pstr = str, psize = sz, retval = 0\<rparr>"
  by (auto simp: emitted_def fun_eq_iff)

lemma PCHAR_emitted [simp]: "PCHAR c (emitted m str sz out) = emitted m str sz (out @ [c])"
proof (cases "Suc (length out) \<le> sz - 1")
  case True
  then have "2 \<le> sz - length out" "min (length out) (sz - 1) = length out" "min (Suc (length out)) (sz - 1) = Suc (length out)"
    by auto
  moreover have "(\<lambda>x. if str \<le> x \<and> x < str + length out then out ! (x - str) else m x)(str + length out := c) =
      (\<lambda>x. if str \<le> x \<and> x < str + Suc (length out) then (out @ [c]) ! (x - str) else m x)"
    by (rule ext) (auto simp: nth_append)
  ultimately show ?thesis by (simp add: PCHAR_def emitted_def Let_def)
next
  case False
  then have "\<not> 2 \<le> sz - min (length out) (sz - 1)" "min (Suc (length out)) (sz - 1) = min (length out) (sz - 1)" by auto
  moreover have "(\<lambda>x. if str \<le> x \<and> x < str + min (length out) (sz - 1) then out ! (x - str) else m x) =
      (\<lambda>x. if str \<le> x \<and> x < str + min (length out) (sz - 1) then (out @ [c]) ! (x - str) else m x)"
    by (rule ext) (auto simp: nth_append)
  ultimately show ?thesis by (simp add: PCHAR_def emitted_def Let_def)
qed

lemma pchar_rep_emitted [simp]: "pchar_rep n c (emitted m str sz out) = emitted m str sz (out @ replicate n c)"
  by (induction n arbitrary: out) simp_all

lemma pchar_list_emitted [simp]: "pchar_list cs (emitted m str sz out) = emitted m str sz (out @ cs)"
  by (induction cs arbitrary: out) simp_all

definition extends :: "mem8 \<Rightarrow> nat \<Rightarrow> nat \<Rightarrow> u8 list \<Rightarrow> pst \<Rightarrow> bool" where
  "extends m str sz out st \<longleftrightarrow> (\<exists>out'. st = emitted m str sz (out @ out'))"

named_theorems extends_intro

lemma extends_refl [extends_intro]: "extends m str sz out (emitted m str sz out)"
  unfolding extends_def by (intro exI [of _ "[]"]) simp

lemma extends_PCHAR [extends_intro]: "extends m str sz out st \<Longrightarrow> extends m str sz out (PCHAR c st)"
  by (auto simp: extends_def)

lemma extends_rep [extends_intro]: "extends m str sz out st \<Longrightarrow> extends m str sz out (pchar_rep n c st)"
  by (auto simp: extends_def)

lemma extends_list [extends_intro]: "extends m str sz out st \<Longrightarrow> extends m str sz out (pchar_list cs st)"
  by (auto simp: extends_def)

lemma extends_str [extends_intro]: "extends m str sz out st \<Longrightarrow> extends m str sz out (pchar_str n p st)"
  by (induction n arbitrary: p st) (auto intro: extends_PCHAR)

lemma extends_num [extends_intro]: "extends m str sz out st \<Longrightarrow> extends m str sz out (pchar_num nbuf n st)"
  by (induction n arbitrary: st) (auto intro: extends_PCHAR)

lemma extends_if [extends_intro]:
  "extends m str sz out st \<Longrightarrow> extends m str sz out st' \<Longrightarrow> extends m str sz out (if b then st else st')"
  by simp

lemma put_number_extends:
  assumes "put_number f num radix st = Some st'" "extends m str sz out st"
  shows "extends m str sz out st'"
proof -
  have "extends m str sz out (put_digits f neg num' radix nbuf n st)" for neg num' nbuf n
    unfolding put_digits_def Let_def using assms(2) by (intro extends_intro)
  then show ?thesis using assms(1) by (auto simp: put_number_def Let_def bind_eq_Some_conv)
qed

lemma put_string_extends: "extends m str sz out st \<Longrightarrow> extends m str sz out (put_string ns f p st)"
  unfolding put_string_def Let_def by (intro extends_intro)

lemma arg_conv_extends:
  assumes "arg_conv ns f ch a st = Some st'" "ch \<noteq> 0x6e" "extends m str sz out st"
  shows "extends m str sz out st'"
  using assms put_number_extends [OF _ assms(3)] put_string_extends [OF assms(3)]
  by (auto simp: arg_conv_def intro: extends_intro split: if_splits option.splits)

lemma spec_char_extends:
  assumes "spec_char ns percent f ap ch fmt st = Some (Done st' ap' rest stop)" "ch \<noteq> 0x6e" "extends m str sz out st"
  shows "extends m str sz out st'"
  using assms arg_conv_extends [OF _ assms(2,3)]
  by (auto simp: spec_char_def bind_eq_Some_conv intro: extends_intro split: option.splits if_splits list.splits)

lemma fmt_num_subset: "fmt_num n ch fmt = Some (n', rest) \<Longrightarrow> set rest \<subseteq> set fmt"
  by (induction n ch fmt rule: fmt_num.induct) (auto simp: Let_def split: if_splits)

lemma spec_char_subset:
  "spec_char ns percent f ap ch fmt st = Some (Again f' ap' rest) \<Longrightarrow> set rest \<subseteq> set fmt"
  by (auto simp: spec_char_def bind_eq_Some_conv dest: fmt_num_subset split: option.splits if_splits list.splits)

lemma fmt_spec_extends:
  assumes "fmt_spec ns percent f ap fmt st = Some (st', ap', rest, stop)" "0x6e \<notin> set fmt" "extends m str sz out st"
  shows "extends m str sz out st' \<and> set rest \<subseteq> set fmt"
  using assms
proof (induction ns percent f ap fmt st rule: fmt_spec.induct)
  case (2 ns percent f ap ch fmt st)
  show ?case
  proof (cases "spec_char ns percent f ap ch fmt st")
    case (Some r)
    show ?thesis
    proof (cases r)
      case (Again f' ap1 rest1)
      then have "set rest1 \<subseteq> set fmt" using spec_char_subset Some by blast
      then show ?thesis using 2 Some Again by auto
    next
      case (Done st1 ap1 rest1 stop1)
      then show ?thesis using 2(2-4) Some spec_char_extends [of ns percent f ap ch fmt st] by (auto dest: spec_char_Done)
    qed
  qed (use 2 in auto)
qed simp

text \<open>The terminator that ends the output.\<close>

definition ended :: "pst \<Rightarrow> pst" where
  "ended st = (if 1 \<le> psize st then st\<lparr>pmem := (pmem st)(pstr st := 0)\<rparr> else st)"

lemma vsn_loop_extends:
  assumes "vsn_loop ns st ap fmt stop = Some st'" "0x6e \<notin> set fmt" "extends m str sz out st"
  shows "\<exists>st1. st' = ended st1 \<and> extends m str sz out st1"
  using assms
proof (induction ns st ap fmt stop rule: vsn_loop.induct)
  case (2 ns st ap ch fmt stop)
  show ?case
  proof (cases "ch \<noteq> 0x25 \<or> stop")
    case True
    show ?thesis
    proof (cases "ch = 0")
      case True
      then show ?thesis using 2(3,5) by (intro exI [of _ st]) (simp add: ended_def)
    next
      case False
      then have "vsn_loop ns (PCHAR ch st) ap fmt stop = Some st'" using 2(3) True by simp
      then show ?thesis using 2(4,5) True False by (intro 2(1)) (auto intro: extends_intro)
    qed
  next
    case False
    then obtain st1 ap1 fmt1 stop1 where sp: "fmt_spec ns (ch # fmt) pflags_init ap fmt st = Some (st1, ap1, fmt1, stop1)"
      "vsn_loop ns st1 ap1 fmt1 stop1 = Some st'"
      using 2(3) by (auto split: option.splits)
    have "0x6e \<notin> set fmt" using 2(4) by simp
    then have "extends m str sz out st1" "0x6e \<notin> set fmt1" using fmt_spec_extends [OF sp(1) _ 2(5)] by auto
    then show ?thesis using False sp 2(2) [OF False sp(1)] by simp
  qed
qed simp

lemma vsnprintf_cut:
  assumes "vsnprintf ns m str sz (Some fmt) ap = Some (m', ret)" "0x6e \<notin> set fmt"
  shows "\<exists>out. length out = ret \<and>
    m' = (\<lambda>x. if str \<le> x \<and> x < str + min ret (sz - 1) then out ! (x - str)
              else if x = str + min ret (sz - 1) \<and> 0 < sz then 0 else m x)"
proof -
  obtain st where st: "vsn_loop ns (emitted m str sz []) ap fmt False = Some st" "m' = pmem st" "ret = retval st"
    using assms(1) by (auto simp: vsnprintf_def emitted_Nil bind_eq_Some_conv)
  obtain out where o: "st = ended (emitted m str sz out)"
    using vsn_loop_extends [OF st(1) assms(2) extends_refl] by (auto simp: extends_def)
  have p: "1 \<le> psize (emitted m str sz out) \<longleftrightarrow> 0 < sz" by (auto simp: emitted_def Let_def)
  have r: "ret = length out" using st(3) o by (simp add: ended_def emitted_def Let_def)
  have "m' = (\<lambda>x. if str \<le> x \<and> x < str + min ret (sz - 1) then out ! (x - str)
              else if x = str + min ret (sz - 1) \<and> 0 < sz then 0 else m x)"
  proof
    fix x
    show "m' x = (if str \<le> x \<and> x < str + min ret (sz - 1) then out ! (x - str)
              else if x = str + min ret (sz - 1) \<and> 0 < sz then 0 else m x)"
      unfolding st(2) o ended_def p r by (auto simp: emitted_def Let_def)
  qed
  then show ?thesis using r by blast
qed

end
