(* ===== verification/NlStdioNum.thy ===== *)
theory NlStdioNum
  imports NlStdioOk
begin

text \<open>Printed numbers: the digits, how many there are, and reading them back.\<close>

section \<open>Digits\<close>

text \<open>The digits of a number, the least significant one first.\<close>

function digs :: "nat \<Rightarrow> nat \<Rightarrow> nat list" where
  "digs r n = (if n < r \<or> r < 2 then [n] else n mod r # digs r (n div r))"
  by pat_completeness auto
termination
  by (relation "measure snd") auto

declare digs.simps [simp del]

definition digit_char :: "bool \<Rightarrow> nat \<Rightarrow> u8" where
  "digit_char up d = (let c = hex2ascii_data ! d in if up then toupper c else c)"

lemma digs_less: "2 \<le> r \<Longrightarrow> d \<in> set (digs r n) \<Longrightarrow> d < r"
proof (induction r n rule: digs.induct)
  case (1 r n)
  then show ?case by (subst (asm) (2) digs.simps) (auto split: if_splits)
qed

lemma digs_length: "2 \<le> r \<Longrightarrow> n < r ^ Suc k \<Longrightarrow> length (digs r n) \<le> Suc k"
proof (induction k arbitrary: n)
  case 0
  then show ?case by (subst digs.simps) simp
next
  case (Suc k)
  then have "n div r < r ^ Suc k" by (simp add: less_mult_imp_div_less mult.commute)
  then show ?case using Suc by (subst digs.simps) auto
qed

lemma digs_val: "2 \<le> r \<Longrightarrow> num_val r (rev (digs r n)) = n"
proof (induction r n rule: digs.induct)
  case (1 r n)
  then show ?case by (subst digs.simps) (auto simp: num_val_def)
qed

lemma digs_ne: "digs r n \<noteq> []"
  by (subst digs.simps) simp

lemma digit_char_ok:
  assumes "d < 36"
  shows "digit_of (digit_char up d) = Some d"
proof -
  have "list_all (\<lambda>d. digit_of (digit_char True d) = Some d \<and> digit_of (digit_char False d) = Some d) [0..<36]"
    by code_simp
  then show ?thesis using assms by (cases up) (auto simp: list_all_iff)
qed

lemma digit_char_nz: "d < 36 \<Longrightarrow> digit_char up d \<noteq> 0"
  using digit_char_ok [of d up] digit_not_space by blast

lemma ksprintn_loop_ok:
  assumes "2 \<le> r" "r \<le> 36"
  shows "ksprintn_loop nbuf num (of_nat r) up = Some (nbuf @ map (digit_char up) (digs r (unat num)))"
proof (induction "unat num" arbitrary: num nbuf rule: less_induct)
  case less
  have r: "unat (of_nat r :: u64) = r" using assms by (simp add: unat_of_nat take_bit_nat_eq_self)
  have q: "unat (num div of_nat r) = unat num div r" "unat (num mod of_nat r) = unat num mod r"
    by (simp_all only: unat_div unat_mod r)
  have z: "num div of_nat r = 0 \<longleftrightarrow> unat num < r"
    using q(1) assms by (simp add: word_unat_eq_iff div_eq_0_iff)
  show ?case
  proof (cases "unat num < r")
    case True
    then show ?thesis using z q assms
      by (subst ksprintn_loop.simps, subst digs.simps) (simp add: Let_def digit_char_def)
  next
    case False
    then have "unat (num div of_nat r) < unat num" using q(1) assms by simp
    note IH = less [OF this]
    show ?thesis using False z assms
      by (subst ksprintn_loop.simps, subst digs.simps) (simp add: Let_def digit_char_def IH q)
  qed
qed

lemma ksprintn_ok:
  assumes "2 \<le> r" "r \<le> 36"
  shows "ksprintn num (of_nat r) up = Some (0 # map (digit_char up) (digs r (unat num)), length (digs r (unat num)))"
  by (simp add: ksprintn_def ksprintn_loop_ok [OF assms])

lemma digs_length_64: "2 \<le> r \<Longrightarrow> length (digs r (unat (num::u64))) \<le> 64"
proof -
  assume r: "2 \<le> r"
  have "(2::nat) ^ Suc 63 \<le> r ^ Suc 63" using r by (intro power_mono) auto
  moreover have "unat num < 2 ^ Suc 63" using unat_lt_64 [of num] by simp
  ultimately have "unat num < r ^ Suc 63" by linarith
  then show ?thesis using digs_length [OF r, of "unat num" 63] by simp
qed

section \<open>Printing\<close>

lemma pchar_num_digits:
  assumes "0 \<notin> set cs" "k \<le> length cs"
  shows "pchar_num (0 # cs) k (emitted m str sz out) = emitted m str sz (out @ rev (take k cs))"
  using assms(2)
proof (induction k arbitrary: out)
  case (Suc k)
  then have "cs ! k \<noteq> 0" using assms(1) by (metis Suc_le_lessD nth_mem)
  then show ?case using Suc by (simp add: take_Suc_conv_app_nth)
qed simp

lemma put_number_plain:
  assumes "2 \<le> r" "r \<le> 36"
  shows "put_number (pflags_init\<lparr>lflag := True, sign := False, upper := up\<rparr>) num (of_nat r) (emitted m str sz out) =
    Some (emitted m str sz (out @ rev (map (digit_char up) (digs r (unat num)))))"
proof -
  have "0 \<notin> set (map (digit_char up) (digs r (unat num)))"
    using digs_less [OF assms(1)] assms(2) digit_char_nz by fastforce
  then show ?thesis using pchar_num_digits [of "map (digit_char up) (digs r (unat num))" "length (digs r (unat num))" m str sz out]
    by (simp add: put_number_def put_digits_def Let_def ksprintn_ok [OF assms] pflags_init_def)
qed

text \<open>The conversions \<^verbatim>\<open>lu\<close>, \<^verbatim>\<open>lo\<close>, \<^verbatim>\<open>lx\<close> and \<^verbatim>\<open>lX\<close>.\<close>

definition plain_conv :: "u8 \<Rightarrow> (nat \<times> bool) option" where
  "plain_conv c =
     (if c = 0x75 then Some (10, False) else if c = 0x6f then Some (8, False)
      else if c = 0x78 then Some (16, False) else if c = 0x58 then Some (16, True) else None)"

lemma vsnprintf_plain:
  assumes "plain_conv c = Some (r, up)"
  shows "vsnprintf ns m str sz (Some [0x25, 0x6c, c, 0]) [num] =
    (let e = ended (emitted m str sz (rev (map (digit_char up) (digs r (unat num))))) in Some (pmem e, retval e))"
proof -
  have r: "2 \<le> r" "r \<le> 36" using assms by (auto simp: plain_conv_def split: if_splits)
  have fs: "fmt_spec ns (0x25 # [0x6c, c, 0]) pflags_init [num] [0x6c, c, 0] (emitted m str sz []) =
      Some (emitted m str sz (rev (map (digit_char up) (digs r (unat num)))), [], [0], False)"
    using assms put_number_plain [OF r, of up num m str sz "[]"]
    by (auto simp: plain_conv_def spec_char_def flag_char_def takes_arg_def arg_conv_def number_conv_def arg_nosign_def
        pflags_init_def split: if_splits)
  show ?thesis by (simp add: vsnprintf_def emitted_Nil [symmetric] fs Let_def ended_def del: fmt_spec.simps)
qed

lemma ended_string:
  assumes "0 \<notin> set out" "length out < sz"
  shows "c_string (pmem (ended (emitted m str sz out))) str out" "retval (ended (emitted m str sz out)) = length out"
  using assms by (auto simp: ended_def emitted_def Let_def c_string_def)

lemma print_parse:
  assumes c: "plain_conv c = Some (r, up)" and sz: "64 < sz"
  obtains m' n where "vsnprintf ns m str sz (Some [0x25, 0x6c, c, 0]) [num] = Some (m', n)"
    "strtoul m' str (int r) = Some (num, str + n, None)"
proof -
  let ?ds = "digs r (unat num)" and ?cs = "rev (map (digit_char up) (digs r (unat num)))"
  have r: "2 \<le> r" "r \<le> 36" using c by (auto simp: plain_conv_def split: if_splits)
  have d: "\<And>d. d \<in> set ?ds \<Longrightarrow> d < r \<and> d < 36" using digs_less [OF r(1)] r(2) by fastforce
  have nz: "0 \<notin> set ?cs" using d digit_char_nz by fastforce
  have l: "length ?cs < sz" using digs_length_64 [OF r(1), of num] sz by simp
  note e = ended_string [OF nz l, of m str]
  have dg: "digits_of ?cs = rev ?ds" using d by (auto simp: digits_of_def rev_map [symmetric] digit_char_ok intro!: nth_equalityI)
  have dc: "\<exists>v. digit_of b = Some v \<and> v < r" if "b \<in> set ?cs" for b using that d digit_char_ok by fastforce
  have "r \<le> 16" using c by (auto simp: plain_conv_def split: if_splits)
  then have "0x78 \<notin> set ?cs" "0x58 \<notin> set ?cs" using dc [of "0x78"] dc [of "0x58"] by (auto simp: digit_of_def)
  then have "take 2 ?cs \<noteq> [0x30, 0x78]" "take 2 ?cs \<noteq> [0x30, 0x58]"
    by (metis in_set_takeD list.set_intros(1) list.set_intros(2))+
  moreover have "\<forall>b \<in> set ?cs. case digit_of b of None \<Rightarrow> False | Some d \<Rightarrow> d < r" using dc by fastforce
  ultimately have "number_string r [] [] ?cs []"
    using digs_ne [of r "unat num"] by (auto simp: number_string_def)
  moreover have "c_string (pmem (ended (emitted m str sz ?cs))) str ([] @ [] @ ?cs @ [])" using e(1) by simp
  ultimately have "strtoul (pmem (ended (emitted m str sz ?cs))) str (int r) = Some (num, str + length ?cs, None)"
    using strtoul_number [of "pmem (ended (emitted m str sz ?cs))" str "[]" "[]" ?cs "[]" r] r digs_val [OF r(1)] unat_lt_64 [of num]
    by (simp add: dg)
  then show thesis using that vsnprintf_plain [OF c] e(2) by (simp add: Let_def)
qed

end
