(* ===== verification/NlStdioTop.thy ===== *)
theory NlStdioTop
  imports NlStdioNum
begin

text \<open>Properties of the number conversions and of formatted output.\<close>

section \<open>Reading numbers\<close>

text \<open>
  \<^verbatim>\<open>strtoul\<close> on a string that starts with a number (white space, sign, digits of the base) returns its
  value, negated for a minus sign, when that fits 64 bits, and otherwise the largest value with
  \<^verbatim>\<open>ERANGE\<close>; \<^verbatim>\<open>endptr\<close> is set behind the last digit.
\<close>

theorem strtoul_correct:
  assumes "c_string m p (ws @ sg @ cs @ rest)" "number_string r ws sg cs rest" "2 \<le> r" "r \<le> 36"
  shows "strtoul m p (int r) =
    (let V = num_val r (digits_of cs); e = p + length ws + length sg + length cs in
     Some (if V < 2 ^ 64 then (if sg = [0x2d] then - of_nat V else of_nat V, e, None)
           else (ULONG_MAX, e, Some ERANGE_no)))"
  using strtoul_number [OF assms] by (simp add: Let_def)

definition num_mem :: mem8 where
  "num_mem = (\<lambda>_. 0)(0x10 := 0x20, 0x11 := 0x2d, 0x12 := 0x34, 0x13 := 0x32)"

lemma num_string: "c_string num_mem 0x10 ([0x20] @ [0x2d] @ [0x34, 0x32] @ [])" "number_string 10 [0x20] [0x2d] [0x34, 0x32] []"
  by (simp_all add: num_mem_def number_string_def isspace_iff digit_of_def)

theorem strtoul_correct_witness: "strtoul num_mem 0x10 10 = Some (- 42, 0x14, None)"
  using strtoul_correct [OF num_string] by (simp add: num_val_def digits_of_def digit_of_def)

text \<open>
  \<^verbatim>\<open>strtol\<close> returns the signed value, and the smallest or largest \<^verbatim>\<open>long\<close> with \<^verbatim>\<open>ERANGE\<close> exactly when it is
  out of range.
\<close>

theorem strtol_correct:
  assumes "c_string m p (ws @ sg @ cs @ rest)" "number_string r ws sg cs rest" "2 \<le> r" "r \<le> 36"
  defines "V \<equiv> (if sg = [0x2d] then - int (num_val r (digits_of cs)) else int (num_val r (digits_of cs)))"
  shows "\<exists>v e. strtol m p (int r) = Some (v, p + length ws + length sg + length cs, e) \<and>
    sint v = max (- (2 ^ 63)) (min (2 ^ 63 - 1) V) \<and>
    (e = (if - (2 ^ 63) \<le> V \<and> V < 2 ^ 63 then None else Some ERANGE_no))"
proof -
  let ?N = "num_val r (digits_of cs)"
  have small: "sint (word_of_int k :: u64) = k" if "- (2 ^ 63) \<le> k" "k < 2 ^ 63" for k
    using that by (simp add: signed_of_int signed_take_bit_int_eq_self)
  have mx: "sint LONG_MAX = 2 ^ 63 - 1" "sint LONG_MIN = - (2 ^ 63)" by simp_all
  note st = strtol_number [OF assms(1-4)]
  show ?thesis
  proof (cases "?N \<le> (if sg = [0x2d] then 2 ^ 63 else 2 ^ 63 - 1)")
    case True
    then have "- (2 ^ 63) \<le> V" "V < 2 ^ 63" by (auto simp: V_def split: if_splits)
    moreover have "strtol m p (int r) = Some (word_of_int V, p + length ws + length sg + length cs, None)"
      using st True by (simp add: V_def)
    ultimately show ?thesis using small by auto
  next
    case False
    then have "\<not> (- (2 ^ 63) \<le> V \<and> V < 2 ^ 63)" by (auto simp: V_def split: if_splits)
    moreover have "strtol m p (int r) = Some (if sg = [0x2d] then LONG_MIN else LONG_MAX,
        p + length ws + length sg + length cs, Some ERANGE_no)"
      using st False by simp
    moreover have "if sg = [0x2d] then V < - (2 ^ 63) else 2 ^ 63 - 1 < V" using False by (auto simp: V_def split: if_splits)
    ultimately show ?thesis using mx by (auto split: if_splits)
  qed
qed

theorem strtol_correct_witness: "\<exists>v. strtol num_mem 0x10 10 = Some (v, 0x14, None) \<and> sint v = - 42"
  using strtol_correct [OF num_string] by (auto simp: num_val_def digits_of_def digit_of_def)

section \<open>Formatted output\<close>

text \<open>
  A format in which every conversion is complete before the terminator; in the first argument, whether
  the position is inside one.
\<close>

definition flagish :: "u8 \<Rightarrow> bool" where
  "flagish c \<longleftrightarrow> c \<in> {0x2e, 0x23, 0x2b, 0x2d, 0x2a, 0x68, 0x6a, 0x6c, 0x71, 0x74, 0x7a} \<or> 0x30 \<le> c \<and> c \<le> 0x39"

fun fmt_closed :: "bool \<Rightarrow> u8 list \<Rightarrow> bool" where
  "fmt_closed inside [] = False"
| "fmt_closed False (c # xs) = (c = 0 \<or> fmt_closed (c = 0x25) xs)"
| "fmt_closed True (c # xs) =
     (c \<noteq> 0 \<and> (if flagish c then fmt_closed True xs
               else if takes_arg c \<or> c = 0x25 then fmt_closed False xs else 0 \<in> set xs))"

lemma fmt_num_returns:
  "fmt_closed True fmt \<Longrightarrow> \<exists>n' rest. fmt_num n ch fmt = Some (n', rest) \<and> fmt_closed True rest \<and> length rest \<le> length fmt"
proof (induction n ch fmt rule: fmt_num.induct)
  case (2 n ch c fmt)
  show ?case
  proof (cases "c < 0x30 \<or> c > 0x39")
    case True
    then show ?thesis using "2.prems" by simp
  next
    case False
    then have "0x30 \<le> c" "c \<le> 0x39" by (simp_all add: not_less)
    then have "fmt_closed True fmt" using "2.prems" by (simp add: flagish_def)
    then show ?thesis using "2.IH" False by (auto simp: Let_def)
  qed
qed simp

lemma arg_conv_returns: "takes_arg ch \<Longrightarrow> \<exists>st'. arg_conv ns f ch a st = Some st'"
proof -
  assume t: "takes_arg ch"
  have "put_number f' num 10 st \<noteq> None" "put_number f' num 8 st \<noteq> None" "put_number f' num 16 st \<noteq> None" for f' num
    using ksprintn_ok [of 10] ksprintn_ok [of 8] ksprintn_ok [of 16] by (simp_all add: put_number_def Let_def)
  then have "arg_conv ns f ch a st \<noteq> None"
    using t by (auto simp: takes_arg_def arg_conv_def number_conv_def)
  then show ?thesis by blast
qed

definition spec_cont :: "spec_result \<Rightarrow> bool" where
  "spec_cont r \<longleftrightarrow>
     (case r of
        Again f ap rest \<Rightarrow> fmt_closed True rest \<and> length rest \<le> length ap
      | Done st ap rest stop \<Rightarrow> (if stop then 0 \<in> set rest else fmt_closed False rest) \<and> length rest \<le> length ap)"

lemma flag_char_flagish: "flag_char f ch = Some f' \<Longrightarrow> flagish ch"
  by (auto simp: flag_char_def flagish_def split: if_splits)

lemma flagish_cases: "flagish ch \<Longrightarrow> flag_char f ch = None \<Longrightarrow> ch = 0x2a \<or> 0x30 \<le> ch \<and> ch \<le> 0x39"
  by (auto simp: flag_char_def flagish_def split: if_splits)

lemma spec_char_returns:
  assumes "fmt_closed True (ch # fmt)" "length (ch # fmt) \<le> length ap"
  shows "\<exists>r. spec_char ns percent f ap ch fmt st = Some r \<and> spec_cont r"
proof -
  obtain a ap1 where ap: "ap = a # ap1" using assms(2) by (cases ap) auto
  show ?thesis
  proof (cases "flag_char f ch")
    case (Some f')
    then show ?thesis using assms flag_char_flagish [OF Some] by (simp add: spec_char_def spec_cont_def)
  next
    case None
    show ?thesis
    proof (cases "flagish ch")
      case True
      then have cl: "fmt_closed True fmt" using assms(1) by simp
      show ?thesis
      proof (cases "ch = 0x2a")
        case True
        then show ?thesis using cl assms(2) None by (simp add: spec_char_def spec_cont_def ap)
      next
        case False
        then have "0x30 \<le> ch" "ch \<le> 0x39" "ch \<noteq> 0x25" using flagish_cases [OF True None] by auto
        then show ?thesis using fmt_num_returns [OF cl, of 0 ch] assms(2) None False
          by (auto simp: spec_char_def spec_cont_def)
      qed
    next
      case False
      then have nf: "ch \<noteq> 0x2a" "\<not> (0x30 \<le> ch \<and> ch \<le> 0x39)" by (auto simp: flagish_def)
      show ?thesis
      proof (cases "takes_arg ch \<and> ch \<noteq> 0x25")
        case True
        obtain st' where "arg_conv ns f ch a st = Some st'" using arg_conv_returns True by blast
        then show ?thesis using True False assms None nf
          by (auto simp: spec_char_def spec_cont_def ap)
      next
        case False
        then show ?thesis using \<open>\<not> flagish ch\<close> assms None nf by (auto simp: spec_char_def spec_cont_def)
      qed
    qed
  qed
qed

lemma fmt_spec_returns:
  assumes "fmt_closed True fmt" "length fmt \<le> length ap"
  shows "\<exists>st' ap' rest stop. fmt_spec ns percent f ap fmt st = Some (st', ap', rest, stop) \<and> spec_cont (Done st' ap' rest stop)"
  using assms
proof (induction ns percent f ap fmt st rule: fmt_spec.induct)
  case (2 ns percent f ap ch fmt st)
  obtain r where r: "spec_char ns percent f ap ch fmt st = Some r" "spec_cont r"
    using spec_char_returns [OF 2(2,3)] by blast
  show ?case using r 2(1) by (cases r) (auto simp: spec_cont_def)
qed simp

lemma vsn_loop_returns:
  assumes "if stop then 0 \<in> set fmt else fmt_closed False fmt" "length fmt \<le> length ap"
  shows "\<exists>st'. vsn_loop ns st ap fmt stop = Some st'"
  using assms
proof (induction ns st ap fmt stop rule: vsn_loop.induct)
  case (2 ns st ap ch fmt stop)
  show ?case
  proof (cases "ch \<noteq> 0x25 \<or> stop")
    case True
    then show ?thesis using 2 by (cases "ch = 0") (auto split: if_splits)
  next
    case False
    then have c: "fmt_closed True fmt" "length fmt \<le> length ap" using 2(3,4) by auto
    obtain st1 ap1 rest1 stop1 where sp: "fmt_spec ns (ch # fmt) pflags_init ap fmt st = Some (st1, ap1, rest1, stop1)"
      "spec_cont (Done st1 ap1 rest1 stop1)" using fmt_spec_returns [OF c] by metis
    show ?thesis using 2(2) [OF False sp(1)] sp False by (simp add: spec_cont_def)
  qed
qed (simp split: if_splits)



text \<open>
  C38: An unsigned number printed by \<^verbatim>\<open>%lu\<close>, \<^verbatim>\<open>%lo\<close>, \<^verbatim>\<open>%lx\<close> or \<^verbatim>\<open>%lX\<close> into a buffer of at least 65 bytes is read back
  by \<^verbatim>\<open>strtoul\<close> in the same base.
\<close>

theorem print_parse_roundtrip:
  assumes "plain_conv c = Some (r, up)" "64 < sz"
  shows "\<exists>m' n. vsnprintf ns m str sz (Some [0x25, 0x6c, c, 0]) [num] = Some (m', n) \<and>
    strtoul m' str (int r) = Some (num, str + n, None)"
  using print_parse [OF assms] by metis

theorem print_parse_roundtrip_witness:
  "\<exists>m' n. vsnprintf 0 (\<lambda>_. 0) 0x100 80 (Some [0x25, 0x6c, 0x78, 0]) [0xbeef] = Some (m', n) \<and>
    strtoul m' 0x100 16 = Some (0xbeef, 0x100 + n, None)"
  using print_parse_roundtrip [of "0x78" 16 False 80 0 "\<lambda>_. 0" "0x100" "0xbeef"] by (simp add: plain_conv_def)

text \<open>
  The digits of a number in any base from 2 to 36 fit the buffer of 65 bytes that \<^verbatim>\<open>ksprintn\<close> is given.
\<close>

theorem ksprintn_fits:
  assumes "2 \<le> r" "r \<le> 36"
  shows "\<exists>nbuf n. ksprintn num (of_nat r) up = Some (nbuf, n) \<and> length nbuf \<le> 65 \<and> n < length nbuf"
  using ksprintn_ok [OF assms] digs_length_64 [OF assms(1), of num] by auto

theorem ksprintn_fits_witness: "\<exists>nbuf n. ksprintn 255 2 False = Some (nbuf, n) \<and> length nbuf \<le> 65 \<and> n < length nbuf"
  using ksprintn_fits [of 2 255 False] by simp

section \<open>Text beyond the buffer\<close>

lemma vsn_loop_text:
  assumes "0 \<notin> set xs" "0x25 \<notin> set xs"
  shows "vsn_loop ns (emitted m str sz out) ap (xs @ [0]) stop = Some (ended (emitted m str sz (out @ xs)))"
  using assms by (induction xs arbitrary: out) (simp_all add: ended_def)

text \<open>
  \<^verbatim>\<open>vfprintf\<close> hands the console the length of the whole output, although its buffer holds at most 1023
  characters of it: for a longer text the console reads beyond the buffer.
\<close>

theorem vfprintf_overread:
  assumes "0 \<notin> set xs" "0x25 \<notin> set xs" "1024 < length xs"
  shows "\<exists>m'. vfprintf ns m buf Stdout (Some (xs @ [0])) ap = Some (m', Some (Coutk buf (length xs)))"
  using vsn_loop_text [OF assms(1,2), of ns m buf 1024 "[]" ap False]
  by (simp add: vfprintf_def vsnprintf_def emitted_Nil [symmetric]) (simp add: ended_def emitted_def Let_def)

theorem vfprintf_overread_witness:
  "\<exists>m'. vfprintf 0 (\<lambda>_. 0) 0x1000 Stdout (Some (replicate 2000 0x61 @ [0])) [] = Some (m', Some (Coutk 0x1000 2000))"
  using vfprintf_overread [of "replicate 2000 0x61" 0 "\<lambda>_. 0" "0x1000" "[]"] by simp

text \<open>A format that ends in a per cent sign is read beyond its terminator.\<close>

lemma vsnprintf_lone_percent: "vsnprintf ns m str sz (Some [0x25, 0]) ap = None"
  by (simp add: vsnprintf_def spec_char_def flag_char_def takes_arg_def)

end
