(* ===== verification/NlStrerror.thy ===== *)
theory NlStrerror
  imports NlStdioNum
begin

text \<open>
  The error numbers of \<^verbatim>\<open>lib/nolibc/include/errno.h\<close> and their messages, \<^verbatim>\<open>strerror_r\<close> and \<^verbatim>\<open>strerror\<close> of
  \<^verbatim>\<open>lib/nolibc/string.c\<close>. The cases of the \<^verbatim>\<open>switch\<close> are a list of names and messages. Where the messages lie
  in memory is a parameter \<open>lit\<close>.
\<close>

section \<open>The functions\<close>

definition errno_h :: "(string \<times> int) list" where
  "errno_h =
     [(''EPERM'', 1), (''ENOENT'', 2), (''ESRCH'', 3), (''EINTR'', 4), (''EIO'', 5), (''ENXIO'', 6),
      (''E2BIG'', 7), (''ENOEXEC'', 8), (''EBADF'', 9), (''ECHILD'', 10), (''EDEADLK'', 11), (''ENOMEM'', 12),
      (''EACCES'', 13), (''EFAULT'', 14), (''ENOTBLK'', 15), (''EBUSY'', 16), (''EEXIST'', 17), (''EXDEV'', 18),
      (''ENODEV'', 19), (''ENOTDIR'', 20), (''EISDIR'', 21), (''EINVAL'', 22), (''ENFILE'', 23), (''EMFILE'', 24),
      (''ENOTTY'', 25), (''ETXTBSY'', 26), (''EFBIG'', 27), (''ENOSPC'', 28), (''ESPIPE'', 29), (''EROFS'', 30),
      (''EMLINK'', 31), (''EPIPE'', 32), (''EDOM'', 33), (''ERANGE'', 34), (''EAGAIN'', 35), (''EINPROGRESS'', 36),
      (''EALREADY'', 37), (''ENOTSOCK'', 38), (''EDESTADDRREQ'', 39), (''EMSGSIZE'', 40), (''EPROTOTYPE'', 41),
      (''ENOPROTOOPT'', 42), (''EPROTONOSUPPORT'', 43), (''ESOCKTNOSUPPORT'', 44), (''EOPNOTSUPP'', 45),
      (''EPFNOSUPPORT'', 46), (''EAFNOSUPPORT'', 47), (''EADDRINUSE'', 48), (''EADDRNOTAVAIL'', 49),
      (''ENETDOWN'', 50), (''ENETUNREACH'', 51), (''ENETRESET'', 52), (''ECONNABORTED'', 53), (''ECONNRESET'', 54),
      (''ENOBUFS'', 55), (''EISCONN'', 56), (''ENOTCONN'', 57), (''ESHUTDOWN'', 58), (''ETIMEDOUT'', 60),
      (''ECONNREFUSED'', 61), (''ELOOP'', 62), (''ENAMETOOLONG'', 63), (''EHOSTDOWN'', 64), (''EHOSTUNREACH'', 65),
      (''ENOTEMPTY'', 66), (''EPROCLIM'', 67), (''EUSERS'', 68), (''EDQUOT'', 69), (''ESTALE'', 70),
      (''EBADRPC'', 72), (''ERPCMISMATCH'', 73), (''EPROGUNAVAIL'', 74), (''EPROGMISMATCH'', 75),
      (''EPROCUNAVAIL'', 76), (''ENOLCK'', 77), (''ENOSYS'', 78), (''EFTYPE'', 79), (''EAUTH'', 80),
      (''ENEEDAUTH'', 81), (''EIDRM'', 82), (''ENOMSG'', 83), (''EOVERFLOW'', 84), (''ECANCELED'', 85),
      (''EILSEQ'', 86), (''ENOATTR'', 87), (''EDOOFUS'', 88), (''EBADMSG'', 89), (''EMULTIHOP'', 90),
      (''ENOLINK'', 91), (''EPROTO'', 92), (''ENOTCAPABLE'', 93), (''ECAPMODE'', 94), (''ENOTRECOVERABLE'', 95),
      (''EOWNERDEAD'', 96), (''ENOTSUP'', 97)]"

definition strerr_low :: "(string \<times> string) list" where
  "strerr_low =
     [(''EPERM'', ''Operation not permitted''), (''ENOENT'', ''No such file or directory''),
      (''ESRCH'', ''No such process''), (''EINTR'', ''Interrupted system call''),
      (''EIO'', ''Input/output error''), (''ENXIO'', ''Device not configured''),
      (''E2BIG'', ''Argument list too long''), (''ENOEXEC'', ''Exec format error''),
      (''EBADF'', ''Bad file descriptor''), (''ECHILD'', ''No child processes''),
      (''EDEADLK'', ''Resource deadlock avoided''), (''ENOMEM'', ''Cannot allocate memory''),
      (''EACCES'', ''Permission denied''), (''EFAULT'', ''Bad address''), (''ENOTBLK'', ''Block device required''),
      (''EBUSY'', ''Device busy''), (''EEXIST'', ''File exists''), (''EXDEV'', ''Cross-device link''),
      (''ENODEV'', ''Operation not supported by device''), (''ENOTDIR'', ''Not a directory''),
      (''EISDIR'', ''Is a directory''), (''EINVAL'', ''Invalid argument''),
      (''ENFILE'', ''Too many open files in system''), (''EMFILE'', ''Too many open files''),
      (''ENOTTY'', ''Inappropriate ioctl for device''), (''ETXTBSY'', ''Text file busy''),
      (''EFBIG'', ''File too large''), (''ENOSPC'', ''No space left on device''), (''ESPIPE'', ''Illegal seek''),
      (''EROFS'', ''Read-only file system''), (''EMLINK'', ''Too many links''), (''EPIPE'', ''Broken pipe''),
      (''EDOM'', ''Numerical argument out of domain''), (''ERANGE'', ''Result too large''),
      (''EAGAIN'', ''Resource temporarily unavailable''), (''EINPROGRESS'', ''Operation now in progress''),
      (''EALREADY'', ''Operation already in progress''), (''ENOTSOCK'', ''Socket operation on non-socket''),
      (''EDESTADDRREQ'', ''Destination address required''), (''EMSGSIZE'', ''Message too long''),
      (''EPROTOTYPE'', ''Protocol wrong type for socket''), (''ENOPROTOOPT'', ''Protocol not available''),
      (''EPROTONOSUPPORT'', ''Protocol not supported''), (''ESOCKTNOSUPPORT'', ''Socket type not supported''),
      (''EOPNOTSUPP'', ''Operation not supported on socket''),
      (''EPFNOSUPPORT'', ''Protocol family not supported''),
      (''EAFNOSUPPORT'', ''Address family not supported by protocol family''),
      (''EADDRINUSE'', ''Address already in use''),
      (''EADDRNOTAVAIL'', ''Can'' @ [CHR 0x27] @ ''t assign requested address'')]"

definition strerr_high :: "(string \<times> string) list" where
  "strerr_high =
     [(''ENETDOWN'', ''Network is down''), (''ENETUNREACH'', ''Network is unreachable''),
      (''ENETRESET'', ''Network dropped connection on reset''),
      (''ECONNABORTED'', ''Software caused connection abort''), (''ECONNRESET'', ''Connection reset by peer''),
      (''ENOBUFS'', ''No buffer space available''), (''EISCONN'', ''Socket is already connected''),
      (''ENOTCONN'', ''Socket is not connected''),
      (''ESHUTDOWN'', ''Can'' @ [CHR 0x27] @ ''t send after socket shutdown''),
      (''ETIMEDOUT'', ''Operation timed out''), (''ECONNREFUSED'', ''Connection refused''),
      (''ELOOP'', ''Too many levels of symbolic links''), (''ENAMETOOLONG'', ''File name too long''),
      (''EHOSTDOWN'', ''Host is down''), (''EHOSTUNREACH'', ''No route to host''),
      (''ENOTEMPTY'', ''Directory not empty''), (''EPROCLIM'', ''Too many processes''),
      (''EUSERS'', ''Too many users''), (''EDQUOT'', ''Disc quota exceeded''),
      (''ESTALE'', ''Stale NFS file handle''), (''EBADRPC'', ''RPC struct is bad''),
      (''ERPCMISMATCH'', ''RPC version wrong''), (''EPROGUNAVAIL'', ''RPC prog''),
      (''EPROGMISMATCH'', ''Program version wrong''), (''EPROCUNAVAIL'', ''Bad procedure for program''),
      (''ENOLCK'', ''No locks available''), (''ENOSYS'', ''Function not implemented''),
      (''EFTYPE'', ''Inappropriate file type or format''), (''EAUTH'', ''Authentication error''),
      (''ENEEDAUTH'', ''Need authenticator''), (''EIDRM'', ''Identifier removed''),
      (''ENOMSG'', ''No message of desired type''), (''EOVERFLOW'', ''Value too large to be stored in data type''),
      (''ECANCELED'', ''Operation canceled''), (''EILSEQ'', ''Illegal byte sequence''),
      (''ENOATTR'', ''Attribute not found''), (''EDOOFUS'', ''Programming error''), (''EBADMSG'', ''Bad message''),
      (''EMULTIHOP'', ''Multihop attempted''), (''ENOLINK'', ''Link has been severed''),
      (''EPROTO'', ''Protocol error''), (''ENOTCAPABLE'', ''Capabilities insufficient''),
      (''ECAPMODE'', ''Not permitted in capability mode''), (''ENOTRECOVERABLE'', ''State not recoverable''),
      (''EOWNERDEAD'', ''Previous owner died''), (''ENOTSUP'', ''Not supported'')]"

definition strerr_msg :: "int \<Rightarrow> string option" where
  "strerr_msg errnum = map_option snd (find (\<lambda>(name, msg). map_of errno_h name = Some errnum) (strerr_low @ strerr_high))"

definition c_bytes :: "string \<Rightarrow> u8 list" where
  "c_bytes s = map of_char s"

definition unknown_fmt :: "u8 list" where
  "unknown_fmt = c_bytes ''Unknown error %d'' @ [0]"

text \<open>The result is the memory, \<^verbatim>\<open>errno\<close> and the pointer returned.\<close>

definition strerror_r :: "nat \<Rightarrow> (string \<Rightarrow> nat) \<Rightarrow> mem8 \<Rightarrow> int \<Rightarrow> int \<Rightarrow> nat \<Rightarrow> nat \<Rightarrow> (mem8 \<times> int \<times> nat) option" where
  "strerror_r ns lit m errno errnum buf buflen =
     (let strerr = strerr_msg errnum;
          errno = (if strerr = None then EINVAL_no else errno)
      in if buflen = 0 then Some (m, errno, buf)
         else do {
           m1 \<leftarrow> (case strerr of
                    Some msg \<Rightarrow> Some (strncpy m buf (lit msg) buflen)
                  | None \<Rightarrow> map_option fst (snprintf ns m buf buflen (Some unknown_fmt) [word_of_int errnum]));
           Some (m1(buf + buflen - 1 := 0), errno, buf)
         })"

definition strerror :: "nat \<Rightarrow> (string \<Rightarrow> nat) \<Rightarrow> mem8 \<Rightarrow> int \<Rightarrow> int \<Rightarrow> nat \<Rightarrow> (mem8 \<times> int \<times> nat) option" where
  "strerror ns lit m errno errnum buf = strerror_r ns lit m errno errnum buf 64"

section \<open>The messages\<close>

text \<open>The case labels are the error numbers, all different, and every message fits.\<close>

definition msg_ok :: "string \<Rightarrow> bool" where
  "msg_ok msg \<longleftrightarrow> msg \<noteq> [] \<and> length msg < 64 \<and> list_all (\<lambda>c. (of_char c :: u8) \<noteq> 0) msg"

lemma strerr_labels:
  "map fst (strerr_low @ strerr_high) = map fst errno_h" "distinct (map fst errno_h)" "distinct (map snd errno_h)"
  by code_simp+

lemma strerr_msg_None_iff: "strerr_msg e = None \<longleftrightarrow> e \<notin> set (map snd errno_h)"
proof -
  have "strerr_msg e = None \<longleftrightarrow> (\<forall>name \<in> set (map fst (strerr_low @ strerr_high)). map_of errno_h name \<noteq> Some e)"
    unfolding strerr_msg_def option.map_disc_iff find_None_iff set_map ball_simps(9) by (simp add: case_prod_beta' Ball_def) blast
  also have "\<dots> \<longleftrightarrow> e \<notin> set (map snd errno_h)"
    unfolding strerr_labels(1) using strerr_labels(2) by (force dest: map_of_SomeD)
  finally show ?thesis .
qed

lemma strerr_msgs: "list_all (\<lambda>(name, msg). msg_ok msg) (strerr_low @ strerr_high)"
  by code_simp

lemma strerr_msg_ok: "strerr_msg e = Some msg \<Longrightarrow> msg_ok msg"
proof -
  assume "strerr_msg e = Some msg"
  then obtain name where "(name, msg) \<in> set (strerr_low @ strerr_high)"
    unfolding strerr_msg_def map_option_eq_Some find_Some_iff by (metis nth_mem prod.collapse)
  then show ?thesis using strerr_msgs by (auto simp: list_all_iff)
qed

lemma c_bytes_ok: "msg_ok msg \<Longrightarrow> c_bytes msg \<noteq> [] \<and> length (c_bytes msg) < 64 \<and> 0 \<notin> set (c_bytes msg)"
  by (auto simp: msg_ok_def c_bytes_def list_all_iff)

lemma strncpy_string:
  assumes s: "c_string m src xs" "0 < src" and l: "xs \<noteq> []" "length xs < len" and d: "dst \<le> src \<or> src + length xs \<le> dst"
  shows "strncpy m dst src len = (copied m dst src (length xs))(dst + length xs := 0)"
proof -
  have n: "strnlen m src len = length xs" using strnlen_string [OF s] l by simp
  have c: "memcpy m dst src (length xs) = copied m dst src (length xs)" using d by (rule memcpy_eq)
  have "length xs - 1 < length xs" using l by (cases xs) auto
  then have "xs ! (length xs - 1) \<noteq> 0" "m (src + (length xs - 1)) = xs ! (length xs - 1)"
    using s(1) unfolding c_string_def by (metis nth_mem, blast)
  moreover have "src + (dst + length xs - 1 - dst) = src + (length xs - 1)" "dst \<le> dst + length xs - 1" "dst + length xs - 1 < dst + length xs"
    using l by (cases xs; simp)+
  ultimately have "copied m dst src (length xs) (dst + length xs - 1) \<noteq> 0" by (simp add: copied_def)
  then show ?thesis using l by (simp add: strncpy_def Let_def n c)
qed

lemma copied_string:
  assumes "c_string m src xs"
  shows "c_string ((copied m dst src (length xs))(dst + length xs := 0)) dst xs"
  using assms by (auto simp: c_string_def copied_def)

section \<open>Unknown numbers\<close>

definition dec_text :: "int \<Rightarrow> u8 list" where
  "dec_text e = (if e < 0 then [0x2d] else []) @ rev (map (digit_char False) (digs 10 (nat \<bar>e\<bar>)))"

lemma unat_word_of_int: "0 \<le> k \<Longrightarrow> k < 2 ^ 64 \<Longrightarrow> unat (word_of_int k :: u64) = nat k"
  by (simp add: unsigned_of_int take_bit_int_eq_self)

lemma sint_word_of_int:
  assumes "- (2 ^ 31) \<le> e" "e < 2 ^ 31"
  shows "sint (word_of_int e :: u64) = e" "sint (ucast (word_of_int e :: u64) :: u32) = e"
proof -
  show "sint (word_of_int e :: u64) = e" using assms by (simp add: signed_of_int signed_take_bit_int_eq_self)
  have "(ucast (word_of_int e :: u64) :: u32) = word_of_int e" by (rule bit_word_eqI) (simp add: bit_simps)
  then show "sint (ucast (word_of_int e :: u64) :: u32) = e" using assms by (simp add: signed_of_int signed_take_bit_int_eq_self)
qed

lemma dec_text_ok:
  assumes "- (2 ^ 31) \<le> e" "e < 2 ^ 31"
  shows "0 \<notin> set (dec_text e)" "length (dec_text e) \<le> 11"
proof -
  have "nat \<bar>e\<bar> < 10 ^ Suc 9" using assms by simp
  then show "length (dec_text e) \<le> 11" using digs_length [of 10 "nat \<bar>e\<bar>" 9] by (auto simp: dec_text_def)
  show "0 \<notin> set (dec_text e)" using digs_less [of 10 _ "nat \<bar>e\<bar>"] digit_char_nz [of _ False] by (fastforce simp: dec_text_def)
qed

lemma put_number_dec:
  assumes "- (2 ^ 31) \<le> e" "e < 2 ^ 31"
  shows "put_number (pflags_init\<lparr>sign := True\<rparr>) (word_of_int e) 10 (emitted m str sz out) = Some (emitted m str sz (out @ dec_text e))"
proof -
  note s = sint_word_of_int(1) [OF assms]
  let ?n = "if e < 0 then - word_of_int e else word_of_int e :: u64"
  have n: "unat ?n = nat \<bar>e\<bar>"
  proof (cases "e < 0")
    case True
    then have "?n = word_of_int (- e)" by simp
    then show ?thesis using True assms unat_word_of_int [of "- e"] by simp
  qed (use assms unat_word_of_int [of e] in simp)
  let ?cs = "map (digit_char False) (digs 10 (nat \<bar>e\<bar>))"
  have nz: "0 \<notin> set ?cs" using digs_less [of 10] digit_char_nz by fastforce
  have "(of_nat 10 :: u64) = 10" by simp
  note k = ksprintn_ok [of 10 ?n False, unfolded n this]
  show ?thesis using pchar_num_digits [OF nz, of "length (digs 10 (nat \<bar>e\<bar>))" m str sz] k s
    by (auto simp: put_number_def put_digits_def Let_def pflags_init_def dec_text_def)
qed

definition strerror_text :: "int \<Rightarrow> u8 list" where
  "strerror_text e = (case strerr_msg e of Some msg \<Rightarrow> c_bytes msg | None \<Rightarrow> c_bytes ''Unknown error '' @ dec_text e)"

lemma vsn_loop_prefix:
  assumes "0 \<notin> set xs" "0x25 \<notin> set xs"
  shows "vsn_loop ns (emitted m str sz out) ap (xs @ ys) False = vsn_loop ns (emitted m str sz (out @ xs)) ap ys False"
  using assms by (induction xs arbitrary: out) simp_all

lemma snprintf_unknown:
  assumes "- (2 ^ 31) \<le> e" "e < 2 ^ 31"
  shows "snprintf ns m str sz (Some unknown_fmt) [word_of_int e] =
    (let st = ended (emitted m str sz (c_bytes ''Unknown error '' @ dec_text e)) in Some (pmem st, retval st))"
proof -
  let ?pre = "c_bytes ''Unknown error ''"
  have pre: "0 \<notin> set ?pre" "0x25 \<notin> set ?pre" by (simp_all add: c_bytes_def)
  have arg: "arg_sign pflags_init (word_of_int e) = word_of_int e"
    using sint_word_of_int(2) [OF assms] by (simp add: arg_sign_def pflags_init_def scast_eq)
  have fs: "fmt_spec ns [0x25, 0x64, 0] pflags_init [word_of_int e] [0x64, 0] (emitted m str sz ?pre) =
      Some (emitted m str sz (?pre @ dec_text e), [], [0], False)"
    using put_number_dec [OF assms, of m str sz ?pre]
    by (simp add: spec_char_def flag_char_def takes_arg_def arg_conv_def number_conv_def arg)
  have u: "unknown_fmt = ?pre @ [0x25, 0x64, 0]" by (simp add: unknown_fmt_def c_bytes_def)
  have "vsn_loop ns (emitted m str sz []) [word_of_int e] unknown_fmt False =
      Some (ended (emitted m str sz (?pre @ dec_text e)))"
    unfolding u vsn_loop_prefix [OF pre] by (simp add: fs ended_def del: fmt_spec.simps)
  then show ?thesis by (simp add: snprintf_def vsnprintf_def emitted_Nil [symmetric] Let_def)
qed

section \<open>What \<open>strerror\<close> returns\<close>

lemma emitted_outside: "x < str \<or> str + sz \<le> x \<Longrightarrow> 0 < sz \<Longrightarrow> pmem (ended (emitted m str sz out)) x = m x"
  by (auto simp: ended_def emitted_def Let_def)

lemma c_string_last:
  assumes "c_string m a xs" "length xs < k"
  shows "c_string (m(a + k - 1 := 0)) a xs"
  using assms by (auto simp: c_string_def)

text \<open>
  \<^verbatim>\<open>strerror\<close> of every 32-bit number returns its static buffer, holding the message of the number
  whole, or \<^verbatim>\<open>"Unknown error "\<close> and the number in decimal with \<^verbatim>\<open>errno\<close> set to \<^verbatim>\<open>EINVAL\<close>; memory outside the buffer of
  64 bytes is as before. The hypotheses place the messages in memory, outside the buffer.
\<close>

theorem strerror_correct:
  assumes "- (2 ^ 31) \<le> e" "e < 2 ^ 31"
    and "\<And>msg. strerr_msg e = Some msg \<Longrightarrow> c_string m (lit msg) (c_bytes msg) \<and> 0 < lit msg \<and>
      (lit msg + length msg < buf \<or> buf + 64 \<le> lit msg)"
  shows "\<exists>m'. strerror ns lit m errno e buf = Some (m', if strerr_msg e = None then 22 else errno, buf) \<and>
    c_string m' buf (strerror_text e) \<and> (\<forall>x. x < buf \<or> buf + 64 \<le> x \<longrightarrow> m' x = m x)"
proof (cases "strerr_msg e")
  case None
  let ?t = "c_bytes ''Unknown error '' @ dec_text e"
  have t: "0 \<notin> set ?t" "length ?t < 64" using dec_text_ok [OF assms(1,2)] by (auto simp: c_bytes_def)
  have "strerror ns lit m errno e buf = Some ((pmem (ended (emitted m buf 64 ?t)))(buf + 64 - 1 := 0), 22, buf)"
    using None snprintf_unknown [OF assms(1,2), of ns m buf 64] by (simp add: strerror_def strerror_r_def Let_def)
  moreover have "c_string ((pmem (ended (emitted m buf 64 ?t)))(buf + 64 - 1 := 0)) buf ?t"
    using c_string_last [OF ended_string(1) [OF t] t(2)] .
  ultimately show ?thesis using None emitted_outside [of _ buf 64 m ?t] by (auto simp: strerror_text_def)
next
  case (Some msg)
  let ?t = "c_bytes msg"
  have l: "length ?t = length msg" by (simp add: c_bytes_def)
  note h = assms(3) [OF Some] and b = c_bytes_ok [OF strerr_msg_ok [OF Some]]
  let ?m = "(copied m buf (lit msg) (length ?t))(buf + length ?t := 0)"
  have "strncpy m buf (lit msg) 64 = ?m" using h b l by (intro strncpy_string) auto
  then have "strerror ns lit m errno e buf = Some (?m(buf + 64 - 1 := 0), errno, buf)"
    using Some by (simp add: strerror_def strerror_r_def Let_def)
  moreover have "c_string (?m(buf + 64 - 1 := 0)) buf ?t" using c_string_last [OF copied_string] h b by blast
  ultimately show ?thesis using Some b by (auto simp: strerror_text_def copied_def)
qed

theorem strerror_correct_witness:
  "\<exists>m'. strerror 0 (\<lambda>_. 0) (\<lambda>_. 0) 0 59 0x100 = Some (m', 22, 0x100) \<and> c_string m' 0x100 (c_bytes ''Unknown error 59'')"
proof -
  have n: "strerr_msg 59 = None" unfolding strerr_msg_None_iff by code_simp
  have "dec_text 59 = c_bytes ''59''"
    by (simp add: dec_text_def digs.simps digit_char_def hex2ascii_data_def c_bytes_def)
  then have t: "strerror_text 59 = c_bytes ''Unknown error 59''" by (simp add: strerror_text_def n c_bytes_def)
  show ?thesis using strerror_correct [of 59 "\<lambda>_. 0" "\<lambda>_. 0" "0x100" 0 0] by (auto simp: n t)
qed

end
