(* ===== verification/Qsort.thy ===== *)
theory Qsort
  imports UkPrelude "HOL-Library.Multiset"
begin

text \<open>
  \<^verbatim>\<open>lib/nolibc/qsort.c\<close>. The array is a list of elements and a pointer into it an index, so that adding the
  element size \<^verbatim>\<open>es\<close> is adding 1; the copying of an element word by word or byte by byte in
  \<^verbatim>\<open>swapfunc\<close> is one exchange of two elements. The differences of pointers that the code keeps in an
  \<^verbatim>\<open>int\<close> are kept exactly: the array is shorter than 2 GB.
\<close>

section \<open>Exchanges and medians\<close>

definition swap :: "'a list \<Rightarrow> nat \<Rightarrow> nat \<Rightarrow> 'a list" where
  "swap arr a b = (let t = arr ! a; arr = arr[a := arr ! b] in arr[b := t])"

fun vecswap :: "'a list \<Rightarrow> nat \<Rightarrow> nat \<Rightarrow> nat \<Rightarrow> 'a list" where
  "vecswap xs i j 0 = xs"
| "vecswap xs i j (Suc n) = vecswap (swap xs i j) (i + 1) (j + 1) n"

definition med3 :: "('a \<Rightarrow> 'a \<Rightarrow> int) \<Rightarrow> 'a list \<Rightarrow> nat \<Rightarrow> nat \<Rightarrow> nat \<Rightarrow> nat" where
  "med3 cmp xs a b c =
     (if cmp (xs ! a) (xs ! b) < 0
      then (if cmp (xs ! b) (xs ! c) < 0 then b else if cmp (xs ! a) (xs ! c) < 0 then c else a)
      else (if cmp (xs ! b) (xs ! c) > 0 then b else if cmp (xs ! a) (xs ! c) < 0 then a else c))"

section \<open>Insertion sort\<close>

fun ins_inner :: "('a \<Rightarrow> 'a \<Rightarrow> int) \<Rightarrow> nat \<Rightarrow> 'a list \<Rightarrow> nat \<Rightarrow> 'a list" where
  "ins_inner cmp a xs 0 = xs"
| "ins_inner cmp a xs (Suc pl) =
     (if Suc pl > a \<and> cmp (xs ! pl) (xs ! Suc pl) > 0
      then ins_inner cmp a (swap xs (Suc pl) pl) pl else xs)"

function ins_outer :: "('a \<Rightarrow> 'a \<Rightarrow> int) \<Rightarrow> nat \<Rightarrow> nat \<Rightarrow> 'a list \<Rightarrow> nat \<Rightarrow> 'a list" where
  "ins_outer cmp a n xs pm = (if pm < a + n then ins_outer cmp a n (ins_inner cmp a xs pm) (pm + 1) else xs)"
  by pat_completeness auto
termination
  by (relation "measure (\<lambda>(cmp, a, n, xs, pm). a + n - pm)") auto

section \<open>Partition\<close>

record 'a part =
  arr :: "'a list"
  pa :: nat
  pb :: nat
  pc :: nat
  pd :: nat
  swap_cnt :: bool

definition lo_cond :: "('a \<Rightarrow> 'a \<Rightarrow> int) \<Rightarrow> nat \<Rightarrow> 'a part \<Rightarrow> bool" where
  "lo_cond cmp a s \<longleftrightarrow> pb s \<le> pc s \<and> cmp (arr s ! pb s) (arr s ! a) \<le> 0"

definition lo_step :: "('a \<Rightarrow> 'a \<Rightarrow> int) \<Rightarrow> nat \<Rightarrow> 'a part \<Rightarrow> 'a part" where
  "lo_step cmp a s =
     (if cmp (arr s ! pb s) (arr s ! a) = 0
      then s\<lparr>swap_cnt := True, arr := swap (arr s) (pa s) (pb s), pa := pa s + 1, pb := pb s + 1\<rparr>
      else s\<lparr>pb := pb s + 1\<rparr>)"

lemma lo_step_fields [simp]:
  "pc (lo_step cmp a s) = pc s" "pd (lo_step cmp a s) = pd s" "pb (lo_step cmp a s) = pb s + 1"
  "pa s \<le> pa (lo_step cmp a s)"
  by (simp_all add: lo_step_def)

function part_lo :: "('a \<Rightarrow> 'a \<Rightarrow> int) \<Rightarrow> nat \<Rightarrow> 'a part \<Rightarrow> 'a part" where
  "part_lo cmp a s = (if lo_cond cmp a s then part_lo cmp a (lo_step cmp a s) else s)"
  by pat_completeness auto
termination
  by (relation "measure (\<lambda>(cmp, a, s). Suc (pc s) - pb s)") (auto simp: lo_cond_def)

text \<open>In every call \<^verbatim>\<open>pb\<close> is behind the first element, so that the test \<open>0 < pc s\<close> is implied by \<open>pb s \<le> pc s\<close>; it
  makes the recursion on natural numbers end.\<close>

definition hi_cond :: "('a \<Rightarrow> 'a \<Rightarrow> int) \<Rightarrow> nat \<Rightarrow> 'a part \<Rightarrow> bool" where
  "hi_cond cmp a s \<longleftrightarrow> pb s \<le> pc s \<and> 0 < pc s \<and> cmp (arr s ! pc s) (arr s ! a) \<ge> 0"

definition hi_step :: "('a \<Rightarrow> 'a \<Rightarrow> int) \<Rightarrow> nat \<Rightarrow> 'a part \<Rightarrow> 'a part" where
  "hi_step cmp a s =
     (if cmp (arr s ! pc s) (arr s ! a) = 0
      then s\<lparr>swap_cnt := True, arr := swap (arr s) (pc s) (pd s), pd := pd s - 1, pc := pc s - 1\<rparr>
      else s\<lparr>pc := pc s - 1\<rparr>)"

lemma hi_step_fields [simp]:
  "pb (hi_step cmp a s) = pb s" "pa (hi_step cmp a s) = pa s" "pc (hi_step cmp a s) = pc s - 1"
  "pd (hi_step cmp a s) \<le> pd s"
  by (simp_all add: hi_step_def)

function part_hi :: "('a \<Rightarrow> 'a \<Rightarrow> int) \<Rightarrow> nat \<Rightarrow> 'a part \<Rightarrow> 'a part" where
  "part_hi cmp a s = (if hi_cond cmp a s then part_hi cmp a (hi_step cmp a s) else s)"
  by pat_completeness auto
termination
  by (relation "measure (\<lambda>(cmp, a, s). pc s)") (auto simp: hi_cond_def)

declare part_lo.simps [simp del] part_hi.simps [simp del]

text \<open>The rules of the two inner loops: what the step keeps holds at the end, where the condition fails.\<close>

lemma part_lo_inv:
  assumes "I s" "\<And>s. I s \<Longrightarrow> lo_cond cmp a s \<Longrightarrow> I (lo_step cmp a s)"
  shows "I (part_lo cmp a s) \<and> \<not> lo_cond cmp a (part_lo cmp a s)"
  using assms
proof (induction cmp a s rule: part_lo.induct)
  case (1 cmp a s)
  show ?case
  proof (cases "lo_cond cmp a s")
    case True
    then have "part_lo cmp a s = part_lo cmp a (lo_step cmp a s)" by (simp add: part_lo.simps [of cmp a s])
    then show ?thesis using 1 True by simp
  next
    case False
    then have "part_lo cmp a s = s" by (simp add: part_lo.simps)
    then show ?thesis using False "1.prems"(1) by simp
  qed
qed

lemma part_hi_inv:
  assumes "I s" "\<And>s. I s \<Longrightarrow> hi_cond cmp a s \<Longrightarrow> I (hi_step cmp a s)"
  shows "I (part_hi cmp a s) \<and> \<not> hi_cond cmp a (part_hi cmp a s)"
  using assms
proof (induction cmp a s rule: part_hi.induct)
  case (1 cmp a s)
  show ?case
  proof (cases "hi_cond cmp a s")
    case True
    then have "part_hi cmp a s = part_hi cmp a (hi_step cmp a s)" by (simp add: part_hi.simps [of cmp a s])
    then show ?thesis using 1 True by simp
  next
    case False
    then have "part_hi cmp a s = s" by (simp add: part_hi.simps)
    then show ?thesis using False "1.prems"(1) by simp
  qed
qed

definition swap_ends :: "'a part \<Rightarrow> 'a part" where
  "swap_ends s = s\<lparr>arr := swap (arr s) (pb s) (pc s), swap_cnt := True, pb := pb s + 1, pc := pc s - 1\<rparr>"

lemma part_lo_bounds:
  "pc (part_lo cmp a s) = pc s \<and> pd (part_lo cmp a s) = pd s \<and> pb s \<le> pb (part_lo cmp a s)"
proof -
  let ?I = "\<lambda>t. pc t = pc s \<and> pd t = pd s \<and> pb s \<le> pb t"
  have "?I (part_lo cmp a s) \<and> \<not> lo_cond cmp a (part_lo cmp a s)" by (rule part_lo_inv) auto
  then show ?thesis by simp
qed

lemma part_hi_bounds: "pb (part_hi cmp a s) = pb s \<and> pc (part_hi cmp a s) \<le> pc s"
proof -
  let ?I = "\<lambda>t. pb t = pb s \<and> pc t \<le> pc s"
  have "?I (part_hi cmp a s) \<and> \<not> hi_cond cmp a (part_hi cmp a s)" by (rule part_hi_inv) auto
  then show ?thesis by simp
qed

function part_loop :: "('a \<Rightarrow> 'a \<Rightarrow> int) \<Rightarrow> nat \<Rightarrow> 'a part \<Rightarrow> 'a part" where
  "part_loop cmp a s =
     (let s1 = part_lo cmp a s; s2 = part_hi cmp a s1 in
      if pb s2 > pc s2 then s2 else part_loop cmp a (swap_ends s2))"
  by pat_completeness auto
termination
proof (relation "measure (\<lambda>(cmp, a, s). Suc (pc s) - pb s)", goal_cases)
  case (2 cmp a s s1 s2)
  then have "pb s \<le> pb s2" "pc s2 \<le> pc s" "pb s2 \<le> pc s2"
    using part_lo_bounds [of cmp a s] part_hi_bounds [of cmp a s1] by simp_all
  then have "Suc (pc s2 - 1) - (pb s2 + 1) < Suc (pc s) - pb s" by arith
  then show ?case by (simp add: swap_ends_def)
qed simp

declare part_loop.simps [simp del] ins_outer.simps [simp del]

lemma part_loop_inv:
  assumes I: "I s" and lo: "\<And>s. I s \<Longrightarrow> lo_cond cmp a s \<Longrightarrow> I (lo_step cmp a s)"
    and hi: "\<And>s. I s \<Longrightarrow> \<not> lo_cond cmp a s \<Longrightarrow> hi_cond cmp a s \<Longrightarrow> I (hi_step cmp a s) \<and> \<not> lo_cond cmp a (hi_step cmp a s)"
    and ends: "\<And>s. I s \<Longrightarrow> pb s \<le> pc s \<Longrightarrow> \<not> lo_cond cmp a s \<Longrightarrow> \<not> hi_cond cmp a s \<Longrightarrow> I (swap_ends s)"
  shows "I (part_loop cmp a s) \<and> pc (part_loop cmp a s) < pb (part_loop cmp a s)"
  using I
proof (induction "Suc (pc s) - pb s" arbitrary: s rule: less_induct)
  case less
  define s1 where "s1 = part_lo cmp a s"
  define s2 where "s2 = part_hi cmp a s1"
  have i1: "I s1 \<and> \<not> lo_cond cmp a s1" unfolding s1_def by (rule part_lo_inv [OF less.prems lo])
  have i2: "(I s2 \<and> \<not> lo_cond cmp a s2) \<and> \<not> hi_cond cmp a s2"
    unfolding s2_def using part_hi_inv [of "\<lambda>t. I t \<and> \<not> lo_cond cmp a t" s1 cmp a] i1 hi by blast
  have eq: "part_loop cmp a s = (if pb s2 > pc s2 then s2 else part_loop cmp a (swap_ends s2))"
    by (subst part_loop.simps) (simp only: Let_def s1_def s2_def)
  show ?case
  proof (cases "pb s2 > pc s2")
    case True
    then show ?thesis using i2 by (simp add: eq)
  next
    case False
    have "pb s \<le> pb s2" "pc s2 \<le> pc s"
      using part_lo_bounds [of cmp a s] part_hi_bounds [of cmp a s1] by (simp_all add: s1_def s2_def)
    then have "Suc (pc s2 - 1) - (pb s2 + 1) < Suc (pc s) - pb s" using False by arith
    then have "Suc (pc (swap_ends s2)) - pb (swap_ends s2) < Suc (pc s) - pb s" by (simp add: swap_ends_def)
    then show ?thesis using less.hyps False i2 ends by (simp add: eq)
  qed
qed

text \<open>The indices stay in the segment, whatever the comparison function does.\<close>

definition part_in :: "nat \<Rightarrow> nat \<Rightarrow> 'a part \<Rightarrow> bool" where
  "part_in a n s \<longleftrightarrow>
     a < pa s \<and> pa s \<le> pb s \<and> pb s \<le> a + n \<and> a \<le> pc s \<and> pc s \<le> pd s \<and> pd s < a + n"

lemma part_in_steps:
  assumes "part_in a n s"
  shows "lo_cond cmp a s \<Longrightarrow> part_in a n (lo_step cmp a s)" "hi_cond cmp a s \<Longrightarrow> part_in a n (hi_step cmp a s)"
    "pb s \<le> pc s \<Longrightarrow> part_in a n (swap_ends s)"
  using assms by (auto simp: part_in_def lo_cond_def lo_step_def hi_cond_def hi_step_def swap_ends_def)

lemma hi_keeps_lo:
  assumes "part_in a n s" "\<not> lo_cond cmp a s" "hi_cond cmp a s"
  shows "\<not> lo_cond cmp a (hi_step cmp a s)"
  using assms by (auto simp: part_in_def lo_cond_def hi_cond_def hi_step_def swap_def Let_def nth_list_update split: if_splits)

lemma part_loop_in:
  assumes "part_in a n s"
  shows "part_in a n (part_loop cmp a s)"
  using part_loop_inv [of "part_in a n" s cmp a] assms part_in_steps hi_keeps_lo by blast

section \<open>Quicksort\<close>

definition pivot :: "('a \<Rightarrow> 'a \<Rightarrow> int) \<Rightarrow> 'a list \<Rightarrow> nat \<Rightarrow> nat \<Rightarrow> nat" where
  "pivot cmp xs a n =
     (let pm = a + n div 2 in
      if n > 7
      then (let pl = a; pn = a + (n - 1); d = n div 8;
                (pl, pm, pn) =
                  (if n > 40
                   then (med3 cmp xs pl (pl + d) (pl + 2 * d), med3 cmp xs (pm - d) pm (pm + d),
                         med3 cmp xs (pn - 2 * d) (pn - d) pn)
                   else (pl, pm, pn))
            in med3 cmp xs pl pm pn)
      else pm)"

definition part_start :: "('a \<Rightarrow> 'a \<Rightarrow> int) \<Rightarrow> 'a list \<Rightarrow> nat \<Rightarrow> nat \<Rightarrow> 'a part" where
  "part_start cmp xs a n =
     \<lparr>arr = swap xs a (pivot cmp xs a n), pa = a + 1, pb = a + 1, pc = a + (n - 1), pd = a + (n - 1), swap_cnt = False\<rparr>"

lemma part_start_in: "7 \<le> n \<Longrightarrow> part_in a n (part_start cmp xs a n)"
  by (auto simp: part_in_def part_start_def)

text \<open>The equal elements are moved from both ends to the middle.\<close>

definition part_finish :: "nat \<Rightarrow> nat \<Rightarrow> 'a part \<Rightarrow> 'a list" where
  "part_finish a n s =
     (let pn = a + n;
          r = min (pa s - a) (pb s - pa s);
          xs = vecswap (arr s) a (pb s - r) r;
          r = min (pd s - pc s) (pn - pd s - 1)
      in vecswap xs (pb s) (pn - r) r)"

function qsort :: "('a \<Rightarrow> 'a \<Rightarrow> int) \<Rightarrow> 'a list \<Rightarrow> nat \<Rightarrow> nat \<Rightarrow> 'a list" where
  "qsort cmp xs a n =
     (if n < 7 then ins_outer cmp a n xs (a + 1)
      else
        let s = part_loop cmp a (part_start cmp xs a n) in
        if \<not> swap_cnt s then ins_outer cmp a n (arr s) (a + 1)
        else
          let xs = part_finish a n s;
              r = pb s - pa s;
              xs = (if r > 1 then qsort cmp xs a r else xs);
              r = pd s - pc s
          in if r > 1 then qsort cmp xs (a + n - r) r else xs)"
  by pat_completeness auto
termination
proof (relation "measure (\<lambda>(cmp, xs, a, n). n)", goal_cases)
  case (2 cmp xs a n s xs' r)
  then have "part_in a n s" using part_loop_in part_start_in by (metis not_less)
  then show ?case using 2 by (auto simp: part_in_def)
next
  case (3 cmp xs a n s xs' r xs'' r')
  then have "part_in a n s" using part_loop_in part_start_in by (metis not_less)
  then show ?case using 3 by (auto simp: part_in_def)
qed simp

declare qsort.simps [simp del]

end
