(* ===== verification/QsortOk.thy ===== *)
theory QsortOk
  imports Qsort
begin

text \<open>\<^verbatim>\<open>qsort\<close> sorts: the parts of the algorithm permute their segment, and order it.\<close>

section \<open>Orders and permutations of a segment\<close>

definition cmp_ok :: "('a \<Rightarrow> 'a \<Rightarrow> int) \<Rightarrow> bool" where
  "cmp_ok cmp \<longleftrightarrow> (\<forall>x y. cmp x y > 0 \<longleftrightarrow> cmp y x < 0) \<and> (\<forall>x y z. cmp x y \<le> 0 \<longrightarrow> cmp y z \<le> 0 \<longrightarrow> cmp x z \<le> 0)"

lemma cmp_okD:
  assumes "cmp_ok cmp"
  shows "cmp x x = 0" "cmp x y > 0 \<longleftrightarrow> cmp y x < 0" "cmp x y = 0 \<longleftrightarrow> cmp y x = 0"
    "cmp x y \<le> 0 \<Longrightarrow> cmp y z \<le> 0 \<Longrightarrow> cmp x z \<le> 0"
  using assms unfolding cmp_ok_def by (metis linorder_neqE_linordered_idom less_asym not_less)+

definition sorted_in :: "('a \<Rightarrow> 'a \<Rightarrow> int) \<Rightarrow> nat \<Rightarrow> nat \<Rightarrow> 'a list \<Rightarrow> bool" where
  "sorted_in cmp a b xs \<longleftrightarrow> (\<forall>i j. a \<le> i \<and> i < j \<and> j < b \<longrightarrow> cmp (xs ! i) (xs ! j) \<le> 0)"

definition perm_in :: "nat \<Rightarrow> nat \<Rightarrow> 'a list \<Rightarrow> 'a list \<Rightarrow> bool" where
  "perm_in a b xs ys \<longleftrightarrow>
     length ys = length xs \<and> mset ys = mset xs \<and> (\<forall>i. i < a \<or> b \<le> i \<longrightarrow> ys ! i = xs ! i)"

lemma perm_in_refl [simp]: "perm_in a b xs xs"
  by (simp add: perm_in_def)

lemma perm_in_trans: "perm_in a b xs ys \<Longrightarrow> perm_in a b ys zs \<Longrightarrow> perm_in a b xs zs"
  by (auto simp: perm_in_def)

lemma perm_in_wider: "perm_in a' b' xs ys \<Longrightarrow> a \<le> a' \<Longrightarrow> b' \<le> b \<Longrightarrow> perm_in a b xs ys"
  by (auto simp: perm_in_def)

lemma nth_swap:
  assumes "max p q < length vs"
  shows "swap vs p q ! k = (if k = p then vs ! q else if k = q then vs ! p else vs ! k)"
  using assms unfolding swap_def Let_def by (simp add: nth_list_update)

lemma swap_length [simp]: "length (swap vs p q) = length vs"
  unfolding swap_def Let_def by simp

lemma perm_in_swap: "a \<le> i \<Longrightarrow> i < b \<Longrightarrow> a \<le> j \<Longrightarrow> j < b \<Longrightarrow> b \<le> length xs \<Longrightarrow> perm_in a b xs (swap xs i j)"
  by (auto simp: perm_in_def nth_swap) (auto simp: swap_def Let_def mset_swap)

lemma perm_in_seg:
  assumes "perm_in a b xs ys" "a \<le> b" "b \<le> length xs" "a \<le> i" "i < b"
  shows "\<exists>j. a \<le> j \<and> j < b \<and> ys ! i = xs ! j"
proof -
  let ?s = "\<lambda>zs :: 'a list. take (b - a) (drop a zs)"
  have split: "mset zs = mset (take a zs) + mset (?s zs) + mset (drop b zs)" if "length zs = length xs" for zs :: "'a list"
  proof -
    have "zs = take a zs @ ?s zs @ drop b zs" using assms(2) by (metis append_take_drop_id drop_drop le_add_diff_inverse2)
    then show ?thesis by (metis mset_append add.assoc)
  qed
  have l: "length ys = length xs" using assms(1) by (simp add: perm_in_def)
  have "take a ys = take a xs" "drop b ys = drop b xs"
    using assms(1,2,3) by (auto simp: perm_in_def intro!: nth_equalityI)
  then have "mset (?s ys) = mset (?s xs)" using split [of ys] split [of xs] l assms(1) by (simp add: perm_in_def)
  then have "set (?s ys) = set (?s xs)" by (metis set_mset_mset)
  moreover have "ys ! i = ?s ys ! (i - a)" "i - a < length (?s ys)" using assms l by auto
  ultimately have "ys ! i \<in> set (?s xs)" by (metis nth_mem)
  then obtain k where "k < length (?s xs)" "?s xs ! k = ys ! i" by (auto simp: in_set_conv_nth)
  then show ?thesis using assms(2,3) by (intro exI [of _ "a + k"]) auto
qed

section \<open>Insertion sort\<close>

lemma ins_inner_perm: "a \<le> pl \<Longrightarrow> pl < b \<Longrightarrow> b \<le> length xs \<Longrightarrow> perm_in a b xs (ins_inner cmp a xs pl)"
proof (induction pl arbitrary: xs)
  case (Suc pl)
  show ?case
  proof (cases "Suc pl > a \<and> cmp (xs ! pl) (xs ! Suc pl) > 0")
    case True
    then have "perm_in a b xs (swap xs (Suc pl) pl)" using Suc.prems by (intro perm_in_swap) auto
    moreover have "perm_in a b (swap xs (Suc pl) pl) (ins_inner cmp a (swap xs (Suc pl) pl) pl)"
      using True Suc.prems by (intro Suc.IH) auto
    ultimately show ?thesis using True by (auto intro: perm_in_trans)
  qed auto
qed simp

text \<open>Ordered but for the element at \<open>pl\<close>, which is not above those behind it.\<close>

definition gap_sorted :: "('a \<Rightarrow> 'a \<Rightarrow> int) \<Rightarrow> nat \<Rightarrow> nat \<Rightarrow> nat \<Rightarrow> 'a list \<Rightarrow> bool" where
  "gap_sorted cmp a b pl xs \<longleftrightarrow>
     (\<forall>i j. a \<le> i \<and> i < j \<and> j < b \<and> i \<noteq> pl \<and> j \<noteq> pl \<longrightarrow> cmp (xs ! i) (xs ! j) \<le> 0) \<and>
     (\<forall>j. pl < j \<and> j < b \<longrightarrow> cmp (xs ! pl) (xs ! j) \<le> 0)"

lemma gap_sorted_step:
  assumes c: "cmp_ok cmp" and g: "gap_sorted cmp a b (Suc pl) xs" and l: "a \<le> pl" "Suc pl < b" "b \<le> length xs"
    and gt: "cmp (xs ! pl) (xs ! Suc pl) > 0"
  shows "gap_sorted cmp a b pl (swap xs (Suc pl) pl)"
proof -
  have n: "swap xs (Suc pl) pl ! k = (if k = Suc pl then xs ! pl else if k = pl then xs ! Suc pl else xs ! k)" for k
    using l by (simp add: nth_swap)
  have g1: "\<And>i j. a \<le> i \<Longrightarrow> i < j \<Longrightarrow> j < b \<Longrightarrow> i \<noteq> Suc pl \<Longrightarrow> j \<noteq> Suc pl \<Longrightarrow> cmp (xs ! i) (xs ! j) \<le> 0"
    and g2: "\<And>j. Suc pl < j \<Longrightarrow> j < b \<Longrightarrow> cmp (xs ! Suc pl) (xs ! j) \<le> 0" using g by (auto simp: gap_sorted_def)
  have lt: "cmp (xs ! Suc pl) (xs ! pl) \<le> 0" using gt cmp_okD(2) [OF c, of "xs ! pl" "xs ! Suc pl"] by simp
  show ?thesis
    unfolding gap_sorted_def
  proof (intro conjI allI impI)
    fix i j assume ij: "a \<le> i \<and> i < j \<and> j < b \<and> i \<noteq> pl \<and> j \<noteq> pl"
    show "cmp (swap xs (Suc pl) pl ! i) (swap xs (Suc pl) pl ! j) \<le> 0"
      using ij g1 [of i j] g1 [of i pl] g1 [of pl j] l by (auto simp: n)
  next
    fix j assume "pl < j \<and> j < b"
    then show "cmp (swap xs (Suc pl) pl ! pl) (swap xs (Suc pl) pl ! j) \<le> 0" using lt g2 [of j] by (auto simp: n)
  qed
qed

lemma gap_sorted_done:
  assumes c: "cmp_ok cmp" and g: "gap_sorted cmp a b pl xs" and ok: "pl = a \<or> a < pl \<and> cmp (xs ! (pl - 1)) (xs ! pl) \<le> 0" and l: "pl < b"
  shows "sorted_in cmp a b xs"
  unfolding sorted_in_def
proof (intro allI impI)
  fix i j assume ij: "a \<le> i \<and> i < j \<and> j < b"
  have g1: "i \<noteq> pl \<Longrightarrow> j \<noteq> pl \<Longrightarrow> cmp (xs ! i) (xs ! j) \<le> 0" and g2: "i = pl \<Longrightarrow> cmp (xs ! i) (xs ! j) \<le> 0"
    using g ij by (auto simp: gap_sorted_def)
  show "cmp (xs ! i) (xs ! j) \<le> 0"
  proof (cases "j = pl")
    case True
    then have p: "a < pl" "cmp (xs ! (pl - 1)) (xs ! pl) \<le> 0" using ij ok by auto
    show ?thesis
    proof (cases "i = pl - 1")
      case False
      then have "i < pl - 1" "pl - 1 < b" "pl - 1 \<noteq> pl" "i \<noteq> pl" using ij True p(1) by auto
      then have "cmp (xs ! i) (xs ! (pl - 1)) \<le> 0" using g ij unfolding gap_sorted_def by blast
      then show ?thesis using p(2) True cmp_okD(4) [OF c] by blast
    qed (use p True in simp)
  qed (use g1 g2 in blast)
qed

lemma ins_inner_sorted:
  assumes "cmp_ok cmp"
  shows "gap_sorted cmp a b pl xs \<Longrightarrow> a \<le> pl \<Longrightarrow> pl < b \<Longrightarrow> b \<le> length xs \<Longrightarrow> sorted_in cmp a b (ins_inner cmp a xs pl)"
proof (induction pl arbitrary: xs)
  case 0
  then show ?case using gap_sorted_done [OF assms, of a b 0 xs] by simp
next
  case (Suc pl)
  show ?case
  proof (cases "Suc pl > a \<and> cmp (xs ! pl) (xs ! Suc pl) > 0")
    case True
    then show ?thesis using Suc gap_sorted_step [OF assms, of a b pl xs] by simp
  next
    case False
    then have "Suc pl = a \<or> a < Suc pl \<and> cmp (xs ! (Suc pl - 1)) (xs ! Suc pl) \<le> 0" using Suc.prems(2) by auto
    then show ?thesis using False gap_sorted_done [OF assms Suc.prems(1)] Suc.prems by auto
  qed
qed

lemma ins_outer_ok:
  assumes "cmp_ok cmp" "b = a + n" "b \<le> length xs" "a < pm" "sorted_in cmp a pm xs"
  shows "perm_in a b xs (ins_outer cmp a n xs pm) \<and> (pm \<le> b \<longrightarrow> sorted_in cmp a b (ins_outer cmp a n xs pm))"
  using assms(3-5)
proof (induction "b - pm" arbitrary: pm xs)
  case 0
  then have "ins_outer cmp a n xs pm = xs" by (simp add: ins_outer.simps assms(2))
  then show ?case using 0 by auto
next
  case (Suc k)
  then have lt: "pm < b" by simp
  have eq: "ins_outer cmp a n xs pm = ins_outer cmp a n (ins_inner cmp a xs pm) (pm + 1)"
    using lt by (simp add: ins_outer.simps [of cmp a n xs pm] assms(2))
  have p: "perm_in a b xs (ins_inner cmp a xs pm)" using Suc.prems lt by (intro ins_inner_perm) auto
  have "gap_sorted cmp a (Suc pm) pm xs" using Suc.prems(3) by (auto simp: gap_sorted_def sorted_in_def)
  then have "sorted_in cmp a (Suc pm) (ins_inner cmp a xs pm)"
    using Suc.prems lt by (intro ins_inner_sorted [OF assms(1)]) auto
  then have "perm_in a b (ins_inner cmp a xs pm) (ins_outer cmp a n (ins_inner cmp a xs pm) (pm + 1)) \<and>
      (pm + 1 \<le> b \<longrightarrow> sorted_in cmp a b (ins_outer cmp a n (ins_inner cmp a xs pm) (pm + 1)))"
    using Suc.hyps(2) Suc.prems p by (intro Suc.hyps(1)) (auto simp: perm_in_def)
  then show ?case using eq p lt by (auto intro: perm_in_trans)
qed

lemma insertion_ok:
  assumes "cmp_ok cmp" "a + n \<le> length xs"
  shows "perm_in a (a + n) xs (ins_outer cmp a n xs (a + 1)) \<and> sorted_in cmp a (a + n) (ins_outer cmp a n xs (a + 1))"
proof (cases "n = 0")
  case True
  then show ?thesis by (simp add: ins_outer.simps sorted_in_def)
next
  case False
  then show ?thesis using ins_outer_ok [OF assms(1) refl assms(2), of "a + 1"] by (auto simp: sorted_in_def)
qed

section \<open>Partition\<close>

definition pinv :: "('a \<Rightarrow> 'a \<Rightarrow> int) \<Rightarrow> nat \<Rightarrow> nat \<Rightarrow> 'a list \<Rightarrow> 'a \<Rightarrow> 'a part \<Rightarrow> bool" where
  "pinv cmp a n xs v s \<longleftrightarrow>
     part_in a n s \<and> pb s \<le> Suc (pc s) \<and> a + n \<le> length xs \<and> perm_in a (a + n) xs (arr s) \<and> arr s ! a = v \<and>
     (\<forall>i. a \<le> i \<and> i < pa s \<longrightarrow> cmp (arr s ! i) v = 0) \<and> (\<forall>i. pa s \<le> i \<and> i < pb s \<longrightarrow> cmp (arr s ! i) v < 0) \<and>
     (\<forall>i. pc s < i \<and> i \<le> pd s \<longrightarrow> cmp (arr s ! i) v > 0) \<and> (\<forall>i. pd s < i \<and> i < a + n \<longrightarrow> cmp (arr s ! i) v = 0)"

lemma pinvD:
  assumes "pinv cmp a n xs v s"
  shows "a < pa s" "pa s \<le> pb s" "pb s \<le> Suc (pc s)" "pc s \<le> pd s" "pd s < a + n" "a + n \<le> length (arr s)"
    "perm_in a (a + n) xs (arr s)" "arr s ! a = v" "a + n \<le> length xs" "part_in a n s"
    "\<And>i. a \<le> i \<Longrightarrow> i < pa s \<Longrightarrow> cmp (arr s ! i) v = 0" "\<And>i. pa s \<le> i \<Longrightarrow> i < pb s \<Longrightarrow> cmp (arr s ! i) v < 0"
    "\<And>i. pc s < i \<Longrightarrow> i \<le> pd s \<Longrightarrow> cmp (arr s ! i) v > 0" "\<And>i. pd s < i \<Longrightarrow> i < a + n \<Longrightarrow> cmp (arr s ! i) v = 0"
  using assms by (auto simp: pinv_def part_in_def perm_in_def)

lemma pinv_swap:
  assumes p: "pinv cmp a n xs v s" and i: "a < i" "i < a + n" "a < j" "j < a + n"
  shows "perm_in a (a + n) xs (swap (arr s) i j)" "swap (arr s) i j ! a = v"
    "swap (arr s) i j ! k = (if k = i then arr s ! j else if k = j then arr s ! i else arr s ! k)"
proof -
  note d = pinvD [OF p]
  show "perm_in a (a + n) xs (swap (arr s) i j)"
    using perm_in_swap [of a i "a + n" j "arr s"] d(6,7) i by (auto intro: perm_in_trans)
  show n: "swap (arr s) i j ! k = (if k = i then arr s ! j else if k = j then arr s ! i else arr s ! k)" for k
    using d(6) i by (intro nth_swap) auto
  show "swap (arr s) i j ! a = v" using n [of a] d(8) i by simp
qed

lemma pinv_lo:
  assumes p: "pinv cmp a n xs v s" and c: "lo_cond cmp a s"
  shows "pinv cmp a n xs v (lo_step cmp a s)"
proof -
  note d = pinvD [OF p]
  have pb: "pb s \<le> pc s" "cmp (arr s ! pb s) v \<le> 0" using c d(8) by (auto simp: lo_cond_def)
  have inn: "part_in a n (lo_step cmp a s)" by (rule part_in_steps(1) [OF d(10) c])
  show ?thesis
  proof (cases "cmp (arr s ! pb s) v = 0")
    case True
    note w = pinv_swap [OF p, of "pa s" "pb s"]
    have le: "pa s < a + n" "a < pb s" "pb s < a + n" using d pb by auto
    have "lo_step cmp a s = s\<lparr>swap_cnt := True, arr := swap (arr s) (pa s) (pb s), pa := pa s + 1, pb := pb s + 1\<rparr>"
      using True d(8) by (simp add: lo_step_def)
    then show ?thesis using inn d w(1,2) [OF d(1) le] pb(1) True
      by (auto simp: pinv_def w(3) [OF d(1) le] less_Suc_eq)
  next
    case False
    then have "lo_step cmp a s = s\<lparr>pb := pb s + 1\<rparr>" using d(8) by (simp add: lo_step_def)
    then show ?thesis using inn d pb False by (auto simp: pinv_def less_Suc_eq)
  qed
qed

lemma pinv_hi:
  assumes p: "pinv cmp a n xs v s" and c: "hi_cond cmp a s"
  shows "pinv cmp a n xs v (hi_step cmp a s)"
proof -
  note d = pinvD [OF p]
  have pc: "pb s \<le> pc s" "cmp (arr s ! pc s) v \<ge> 0" "0 < pc s" using c d(8) by (auto simp: hi_cond_def)
  have inn: "part_in a n (hi_step cmp a s)" by (rule part_in_steps(2) [OF d(10) c])
  have sp: "k - Suc 0 < i \<longleftrightarrow> k < i \<or> k = i" if "0 < k" for k i :: nat using that by auto
  show ?thesis
  proof (cases "cmp (arr s ! pc s) v = 0")
    case True
    note w = pinv_swap [OF p, of "pc s" "pd s"]
    have le: "a < pc s" "pc s < a + n" "a < pd s" "pd s < a + n" using d pc by auto
    have "hi_step cmp a s = s\<lparr>swap_cnt := True, arr := swap (arr s) (pc s) (pd s), pd := pd s - 1, pc := pc s - 1\<rparr>"
      using True d(8) by (simp add: hi_step_def)
    then show ?thesis using inn d w(1,2) [OF le] pc True le
      by (auto simp: pinv_def w(3) [OF le] sp)
  next
    case False
    then have "hi_step cmp a s = s\<lparr>pc := pc s - 1\<rparr>" using d(8) by (simp add: hi_step_def)
    then show ?thesis using inn d pc False by (auto simp: pinv_def sp)
  qed
qed

lemma pinv_ends:
  assumes p: "pinv cmp a n xs v s" and le: "pb s \<le> pc s" and c: "\<not> lo_cond cmp a s" "\<not> hi_cond cmp a s"
  shows "pinv cmp a n xs v (swap_ends s)"
proof -
  note d = pinvD [OF p]
  have gt: "cmp (arr s ! pb s) v > 0" using c(1) le d(8) by (auto simp: lo_cond_def)
  have lt: "cmp (arr s ! pc s) v < 0" using c(2) le d(1,2,8) by (auto simp: hi_cond_def)
  have ne: "pb s < pc s" using gt lt le by (cases "pb s = pc s") auto
  note w = pinv_swap [OF p, of "pb s" "pc s"]
  have b: "a < pb s" "pb s < a + n" "a < pc s" "pc s < a + n" using d ne by auto
  have inn: "part_in a n (swap_ends s)" by (rule part_in_steps(3) [OF d(10) le])
  have sp: "k - Suc 0 < i \<longleftrightarrow> k < i \<or> k = i" if "0 < k" for k i :: nat using that by auto
  show ?thesis using inn d w(1,2) [OF b] ne gt lt b
    by (auto simp: pinv_def swap_ends_def w(3) [OF b] sp less_Suc_eq)
qed

lemma pinv_hi_lo:
  assumes "pinv cmp a n xs v s" "\<not> lo_cond cmp a s" "hi_cond cmp a s"
  shows "pinv cmp a n xs v (hi_step cmp a s) \<and> \<not> lo_cond cmp a (hi_step cmp a s)"
  using pinv_hi [OF assms(1,3)] hi_keeps_lo [OF pinvD(10) [OF assms(1)] assms(2,3)] by blast

lemma part_loop_ok:
  assumes "pinv cmp a n xs v s"
  shows "pinv cmp a n xs v (part_loop cmp a s) \<and> pb (part_loop cmp a s) = Suc (pc (part_loop cmp a s))"
proof -
  have "pinv cmp a n xs v (part_loop cmp a s) \<and> pc (part_loop cmp a s) < pb (part_loop cmp a s)"
    using part_loop_inv [of "pinv cmp a n xs v" s cmp a, OF assms pinv_lo pinv_hi_lo pinv_ends] .
  then show ?thesis using pinvD(3) [of cmp a n xs v "part_loop cmp a s"] by auto
qed

section \<open>Moving the equal elements to the middle\<close>

lemma length_vecswap [simp]: "length (vecswap xs i j r) = length xs"
  by (induction xs i j r rule: vecswap.induct) simp_all

lemma nth_vecswap:
  assumes "i + r \<le> j" "j + r \<le> length xs"
  shows "vecswap xs i j r ! k =
    (if i \<le> k \<and> k < i + r then xs ! (j + (k - i)) else if j \<le> k \<and> k < j + r then xs ! (i + (k - j)) else xs ! k)"
  using assms
proof (induction r arbitrary: xs i j)
  case (Suc r)
  have sw: "swap xs i j ! q = (if q = i then xs ! j else if q = j then xs ! i else xs ! q)" for q
    using Suc.prems by (intro nth_swap) auto
  have IH: "vecswap (swap xs i j) (i + 1) (j + 1) r ! k =
      (if i + 1 \<le> k \<and> k < i + 1 + r then swap xs i j ! (j + 1 + (k - (i + 1)))
       else if j + 1 \<le> k \<and> k < j + 1 + r then swap xs i j ! (i + 1 + (k - (j + 1))) else swap xs i j ! k)"
    using Suc.prems by (intro Suc.IH) auto
  consider "k = i" | "k = j" | "i < k" "k < i + Suc r" | "j < k" "k < j + Suc r"
    | "k < i \<or> i + Suc r \<le> k" "k < j \<or> j + Suc r \<le> k" by linarith
  then show ?case
  proof cases
    case 1
    show ?thesis unfolding vecswap.simps IH sw using 1 Suc.prems by auto
  next
    case 2
    show ?thesis unfolding vecswap.simps IH sw using 2 Suc.prems by auto
  next
    case 3
    then have "j + 1 + (k - (i + 1)) = j + (k - i)" by simp
    then show ?thesis unfolding vecswap.simps IH sw using 3 Suc.prems by auto
  next
    case 4
    then have "i + 1 + (k - (j + 1)) = i + (k - j)" by simp
    then show ?thesis unfolding vecswap.simps IH sw using 4 Suc.prems by auto
  next
    case 5
    have c: "\<not> (i \<le> k \<and> k < i + Suc r)" "\<not> (j \<le> k \<and> k < j + Suc r)" "\<not> (i + 1 \<le> k \<and> k < i + 1 + r)"
      "\<not> (j + 1 \<le> k \<and> k < j + 1 + r)" "k \<noteq> i" "k \<noteq> j" using 5 by arith+
    show ?thesis by (simp only: vecswap.simps IH sw c if_False simp_thms)
  qed
qed auto

lemma perm_in_vecswap:
  assumes "a \<le> i" "i + r \<le> b" "a \<le> j" "j + r \<le> b" "b \<le> length xs"
  shows "perm_in a b xs (vecswap xs i j r)"
  using assms
proof (induction r arbitrary: xs i j)
  case (Suc r)
  have "perm_in a b xs (swap xs i j)" using Suc.prems by (intro perm_in_swap) auto
  moreover have "perm_in a b (swap xs i j) (vecswap (swap xs i j) (i + 1) (j + 1) r)" using Suc.prems by (intro Suc.IH) auto
  ultimately show ?case by (auto intro: perm_in_trans)
qed simp

text \<open>Exchanging the shorter of two neighbouring blocks with the other end of the longer one exchanges the blocks.\<close>

lemma block_exchange:
  assumes le: "a \<le> p" "p \<le> q" "q \<le> length xs" and P: "\<forall>i. a \<le> i \<and> i < p \<longrightarrow> P (xs ! i)" and Q: "\<forall>i. p \<le> i \<and> i < q \<longrightarrow> Q (xs ! i)"
  defines "r \<equiv> min (p - a) (q - p)"
  defines "ys \<equiv> vecswap xs a (q - r) r"
  shows "\<And>i. a \<le> i \<Longrightarrow> i < a + (q - p) \<Longrightarrow> Q (ys ! i)" "\<And>i. a + (q - p) \<le> i \<Longrightarrow> i < q \<Longrightarrow> P (ys ! i)"
    "\<And>i. i < a \<or> q \<le> i \<Longrightarrow> ys ! i = xs ! i" "perm_in a q xs ys"
proof -
  have r: "r \<le> p - a" "r \<le> q - p" "r = p - a \<or> r = q - p" by (auto simp: r_def min_def)
  have n: "ys ! k = (if a \<le> k \<and> k < a + r then xs ! (q - r + (k - a))
      else if q - r \<le> k \<and> k < q - r + r then xs ! (a + (k - (q - r))) else xs ! k)" for k
    unfolding ys_def using r le by (intro nth_vecswap) auto
  show "Q (ys ! i)" if "a \<le> i" "i < a + (q - p)" for i
  proof (cases "i < a + r")
    case True
    then have "p \<le> q - r + (i - a)" "q - r + (i - a) < q" using r le that by auto
    then show ?thesis using Q True that by (simp add: n)
  next
    case False
    then have "r = p - a" "p \<le> i" "i < q - r" using r that le by auto
    then show ?thesis using Q False that by (simp add: n)
  qed
  show "P (ys ! i)" if "a + (q - p) \<le> i" "i < q" for i
  proof (cases "q - r \<le> i")
    case True
    then have "a \<le> a + (i - (q - r))" "a + (i - (q - r)) < p" "\<not> i < a + r" using r le that by auto
    then show ?thesis using P [rule_format, of "a + (i - (q - r))"] True that r le by (simp only: n) simp
  next
    case False
    then have "r = q - p" "a \<le> i" "i < p" "\<not> i < a + r" using r that le by auto
    then show ?thesis using P False by (simp add: n)
  qed
  show "ys ! i = xs ! i" if "i < a \<or> q \<le> i" for i using that r le by (auto simp: n)
  show "perm_in a q xs ys" unfolding ys_def using r le by (intro perm_in_vecswap) auto
qed

text \<open>The segment after a partition: \<open>l\<close> elements below the pivot, equal ones, \<open>g\<close> above.\<close>

definition three_parts :: "('a \<Rightarrow> 'a \<Rightarrow> int) \<Rightarrow> nat \<Rightarrow> nat \<Rightarrow> nat \<Rightarrow> nat \<Rightarrow> 'a \<Rightarrow> 'a list \<Rightarrow> bool" where
  "three_parts cmp a b l g v ys \<longleftrightarrow>
     a + l \<le> b - g \<and> g \<le> b \<and> (\<forall>i. a \<le> i \<and> i < a + l \<longrightarrow> cmp (ys ! i) v < 0) \<and>
     (\<forall>i. a + l \<le> i \<and> i < b - g \<longrightarrow> cmp (ys ! i) v = 0) \<and> (\<forall>i. b - g \<le> i \<and> i < b \<longrightarrow> cmp (ys ! i) v > 0)"

lemma part_finish_ok:
  assumes p: "pinv cmp a n xs v s" and x: "pb s = Suc (pc s)"
  shows "perm_in a (a + n) xs (part_finish a n s)"
    "three_parts cmp a (a + n) (pb s - pa s) (pd s - pc s) v (part_finish a n s)"
proof -
  note d = pinvD [OF p]
  define r1 where "r1 = min (pa s - a) (pb s - pa s)"
  define ys where "ys = vecswap (arr s) a (pb s - r1) r1"
  define pn where "pn = a + n"
  have e1: "a \<le> pa s" "pa s \<le> pb s" "pb s \<le> length (arr s)" using d x by auto
  have eqs: "\<forall>i. a \<le> i \<and> i < pa s \<longrightarrow> cmp (arr s ! i) v = 0" "\<forall>i. pa s \<le> i \<and> i < pb s \<longrightarrow> cmp (arr s ! i) v < 0"
    using d(11,12) by auto
  note b1 = block_exchange [of a "pa s" "pb s" "arr s" "\<lambda>y. cmp y v = 0" "\<lambda>y. cmp y v < 0", OF e1 eqs, folded r1_def, folded ys_def]
  have e2: "pb s \<le> Suc (pd s)" "Suc (pd s) \<le> pn" "pn \<le> length ys" using d x by (auto simp: ys_def pn_def)
  have hi: "\<forall>i. pb s \<le> i \<and> i < Suc (pd s) \<longrightarrow> cmp (ys ! i) v > 0" "\<forall>i. Suc (pd s) \<le> i \<and> i < pn \<longrightarrow> cmp (ys ! i) v = 0"
    using b1(3) d(13,14) x d(4) by (simp_all add: pn_def)
  define r2 where "r2 = min (Suc (pd s) - pb s) (pn - Suc (pd s))"
  define zs where "zs = vecswap ys (pb s) (pn - r2) r2"
  note b2 = block_exchange [of "pb s" "Suc (pd s)" pn ys "\<lambda>y. cmp y v > 0" "\<lambda>y. cmp y v = 0", OF e2 hi, folded r2_def, folded zs_def]
  have r2: "r2 = min (pd s - pc s) (pn - pd s - 1)" using x by (simp add: r2_def)
  have z: "part_finish a n s = zs" by (simp add: part_finish_def Let_def zs_def ys_def r1_def r2 pn_def)
  have "perm_in a pn (arr s) ys" "perm_in a pn ys zs"
    using perm_in_wider [OF b1(4), of a pn] perm_in_wider [OF b2(4), of a pn] d x e2 by (auto simp: pn_def)
  then show "perm_in a (a + n) xs (part_finish a n s)" using d(7) z by (auto simp: pn_def intro: perm_in_trans)
  have g: "pb s + (pn - Suc (pd s)) = pn - (pd s - pc s)" "pn - (pd s - pc s) \<ge> pb s" using d x by (auto simp: pn_def)
  have le3: "a + (pb s - pa s) \<le> pn - (pd s - pc s)" "pd s - pc s \<le> pn" using g(2) d(1,2) e2 by arith+
  have m: "cmp (zs ! i) v = 0" if "a + (pb s - pa s) \<le> i" "i < pn - (pd s - pc s)" for i
  proof (cases "i < pb s")
    case True
    then show ?thesis using b2(3) [of i] b1(2) [of i] that by simp
  next
    case False
    then show ?thesis using b2(1) [of i] that g by simp
  qed
  have lo: "cmp (zs ! i) v < 0" if "a \<le> i" "i < a + (pb s - pa s)" for i
  proof -
    have "i < pb s" using that d(1,2) by arith
    then show ?thesis using b2(3) [of i] b1(1) [OF that] by simp
  qed
  have up: "cmp (zs ! i) v > 0" if "pn - (pd s - pc s) \<le> i" "i < pn" for i
    using b2(2) [of i] that g by simp
  show "three_parts cmp a (a + n) (pb s - pa s) (pd s - pc s) v (part_finish a n s)"
    using m lo up le3 unfolding three_parts_def z pn_def by blast
qed

section \<open>The whole\<close>

lemma med3_in: "P a \<Longrightarrow> P b \<Longrightarrow> P c \<Longrightarrow> P (med3 cmp xs a b c)"
  by (simp add: med3_def)

lemma pivot_in: "7 \<le> n \<Longrightarrow> a \<le> pivot cmp xs a n \<and> pivot cmp xs a n < a + n"
proof -
  assume "7 \<le> n"
  then have "7 < n \<Longrightarrow> a \<le> med3 cmp xs pl pm pn \<and> med3 cmp xs pl pm pn < a + n"
    if "a \<le> pl \<and> pl < a + n" "a \<le> pm \<and> pm < a + n" "a \<le> pn \<and> pn < a + n" for pl pm pn
    using that by (intro med3_in [where P = "\<lambda>i. a \<le> i \<and> i < a + n"])
  moreover have "a \<le> med3 cmp xs a (a + n div 8) (a + 2 * (n div 8)) \<and> med3 cmp xs a (a + n div 8) (a + 2 * (n div 8)) < a + n"
    using \<open>7 \<le> n\<close> by (intro med3_in [where P = "\<lambda>i. a \<le> i \<and> i < a + n"]) auto
  moreover have "a \<le> med3 cmp xs (a + n div 2 - n div 8) (a + n div 2) (a + n div 2 + n div 8) \<and>
      med3 cmp xs (a + n div 2 - n div 8) (a + n div 2) (a + n div 2 + n div 8) < a + n"
    using \<open>7 \<le> n\<close> by (intro med3_in [where P = "\<lambda>i. a \<le> i \<and> i < a + n"]) auto
  moreover have "a \<le> med3 cmp xs (a + (n - 1) - 2 * (n div 8)) (a + (n - 1) - n div 8) (a + (n - 1)) \<and>
      med3 cmp xs (a + (n - 1) - 2 * (n div 8)) (a + (n - 1) - n div 8) (a + (n - 1)) < a + n"
    using \<open>7 \<le> n\<close> by (intro med3_in [where P = "\<lambda>i. a \<le> i \<and> i < a + n"]) auto
  ultimately show ?thesis using \<open>7 \<le> n\<close> by (auto simp: pivot_def Let_def split: prod.splits)
qed

lemma part_start_ok:
  assumes "cmp_ok cmp" "7 \<le> n" "a + n \<le> length xs"
  shows "pinv cmp a n xs (xs ! pivot cmp xs a n) (part_start cmp xs a n)"
proof -
  note pv = pivot_in [OF assms(2), of a cmp xs]
  have "perm_in a (a + n) xs (swap xs a (pivot cmp xs a n))" using pv assms by (intro perm_in_swap) auto
  moreover have "swap xs a (pivot cmp xs a n) ! a = xs ! pivot cmp xs a n" using pv assms by (simp add: nth_swap)
  ultimately show ?thesis
    using part_start_in [OF assms(2), of a cmp xs] assms(3) cmp_okD(1) [OF assms(1)]
    by (auto simp: pinv_def part_start_def less_Suc_eq)
qed

lemma sorted_three_parts:
  assumes c: "cmp_ok cmp" and t: "three_parts cmp a b l g v ys"
    and s: "sorted_in cmp a (a + l) ys" "sorted_in cmp (b - g) b ys"
  shows "sorted_in cmp a b ys"
  unfolding sorted_in_def
proof (intro allI impI)
  fix i j assume ij: "a \<le> i \<and> i < j \<and> j < b"
  have le: "cmp (ys ! i) v \<le> 0" if "i < b - g" using t ij that by (cases "i < a + l") (auto simp: three_parts_def intro: less_imp_le)
  have ge: "cmp v (ys ! j) \<le> 0" if "a + l \<le> j"
  proof (cases "j < b - g")
    case True
    then have "cmp (ys ! j) v = 0" using t that by (auto simp: three_parts_def)
    then show ?thesis using cmp_okD(3) [OF c] by (metis order_refl)
  next
    case False
    then have "cmp (ys ! j) v > 0" using t ij by (auto simp: three_parts_def)
    then show ?thesis using cmp_okD(2) [OF c, of "ys ! j" v] by simp
  qed
  show "cmp (ys ! i) (ys ! j) \<le> 0"
  proof (cases "j < a + l")
    case True
    then show ?thesis using s(1) ij by (auto simp: sorted_in_def)
  next
    case False
    show ?thesis
    proof (cases "b - g \<le> i")
      case True
      then show ?thesis using s(2) ij by (auto simp: sorted_in_def)
    next
      case nge: False
      then show ?thesis using le ge False cmp_okD(4) [OF c, of "ys ! i" v "ys ! j"] by simp
    qed
  qed
qed

text \<open>Permuting inside the low or the high part keeps the three parts.\<close>

lemma three_parts_perm:
  assumes t: "three_parts cmp a b l g v ys" and b: "b \<le> length ys"
    and p: "perm_in a (a + l) ys zs \<or> perm_in (b - g) b ys zs"
  shows "three_parts cmp a b l g v zs"
proof -
  note th = t [unfolded three_parts_def]
  from p show ?thesis
  proof
    assume q: "perm_in a (a + l) ys zs"
    have "cmp (zs ! i) v < 0" if i: "a \<le> i" "i < a + l" for i
      using perm_in_seg [OF q, of i] th b i by fastforce
    then show ?thesis using th q by (auto simp: three_parts_def perm_in_def)
  next
    assume q: "perm_in (b - g) b ys zs"
    have "cmp (zs ! i) v > 0" if i: "b - g \<le> i" "i < b" for i
      using perm_in_seg [OF q, of i] th b i by fastforce
    then show ?thesis using th q by (auto simp: three_parts_def perm_in_def)
  qed
qed

lemma sorted_in_outside: "perm_in a b ys zs \<Longrightarrow> d \<le> a \<or> b \<le> c \<Longrightarrow> sorted_in cmp c d ys \<Longrightarrow> sorted_in cmp c d zs"
  by (auto simp: sorted_in_def perm_in_def)

lemma sorted_in_short: "d \<le> Suc c \<Longrightarrow> sorted_in cmp c d ys"
  by (auto simp: sorted_in_def)

lemma qsort_ok:
  assumes "cmp_ok cmp" "a + n \<le> length xs"
  shows "perm_in a (a + n) xs (qsort cmp xs a n) \<and> sorted_in cmp a (a + n) (qsort cmp xs a n)"
  using assms
proof (induction cmp xs a n rule: qsort.induct)
  case (1 cmp xs a n)
  define s where "s = part_loop cmp a (part_start cmp xs a n)"
  show ?case
  proof (cases "n < 7")
    case True
    then show ?thesis using insertion_ok [OF "1.prems"] by (simp add: qsort.simps)
  next
    case n7: False
    obtain v where pl: "pinv cmp a n xs v s" "pb s = Suc (pc s)"
      using part_loop_ok [OF part_start_ok [OF "1.prems"(1) _ "1.prems"(2)]] n7 by (metis s_def not_less)
    show ?thesis
    proof (cases "swap_cnt s")
      case False
      have "perm_in a (a + n) xs (arr s)" "a + n \<le> length (arr s)" using pinvD [OF pl(1)] by auto
      then show ?thesis using insertion_ok [OF "1.prems"(1), of a n "arr s"] n7 False
        by (auto simp: qsort.simps [of cmp xs] s_def [symmetric] Let_def intro: perm_in_trans)
    next
      case True
      define ys where "ys = part_finish a n s"
      define l where "l = pb s - pa s"
      define zs where "zs = (if l > 1 then qsort cmp ys a l else ys)"
      define g where "g = pd s - pc s"
      note f = part_finish_ok [OF pl, folded ys_def l_def g_def]
      have len: "a + n \<le> length ys" using f(1) "1.prems"(2) by (simp add: perm_in_def)
      have lg: "a + l \<le> a + n - g" "g \<le> a + n" using f(2) by (auto simp: three_parts_def)
      have z: "perm_in a (a + l) ys zs \<and> sorted_in cmp a (a + l) zs"
      proof (cases "l > 1")
        case l1: True
        have "perm_in a (a + l) ys (qsort cmp ys a l) \<and> sorted_in cmp a (a + l) (qsort cmp ys a l)"
          using "1.IH"(1) [OF n7 s_def _ ys_def l_def] True l1 "1.prems"(1) len lg by auto
        then show ?thesis using l1 by (simp add: zs_def)
      qed (simp add: zs_def sorted_in_short)
      define ws where "ws = (if g > 1 then qsort cmp zs (a + n - g) g else zs)"
      have lz: "a + n \<le> length zs" using z len by (simp add: perm_in_def)
      have e: "a + n - g + g = a + n" using lg(2) by simp
      have w: "perm_in (a + n - g) (a + n) zs ws \<and> sorted_in cmp (a + n - g) (a + n) ws"
      proof (cases "g > 1")
        case g1: True
        have "perm_in (a + n - g) (a + n - g + g) zs (qsort cmp zs (a + n - g) g) \<and>
            sorted_in cmp (a + n - g) (a + n - g + g) (qsort cmp zs (a + n - g) g)"
          using "1.IH"(2) [OF n7 s_def _ ys_def l_def zs_def g_def] True g1 "1.prems"(1) lz e by auto
        then show ?thesis using g1 e by (simp add: ws_def)
      qed (simp add: ws_def sorted_in_short)
      have eq: "qsort cmp xs a n = ws"
        unfolding qsort.simps [of cmp xs] ws_def zs_def g_def l_def ys_def s_def Let_def using n7 True by (simp add: s_def)
      have "three_parts cmp a (a + n) l g v zs" using three_parts_perm [OF f(2) len] z by blast
      then have "three_parts cmp a (a + n) l g v ws" using three_parts_perm [OF _ lz] w by blast
      then have "sorted_in cmp a (a + n) ws"
        using sorted_three_parts [OF "1.prems"(1)] w z sorted_in_outside [of "a + n - g" "a + n" zs ws "a + l" a cmp] lg(1) by blast
      moreover have "perm_in a (a + n) ys zs" "perm_in a (a + n) zs ws"
        using z w lg perm_in_wider [of a "a + l" ys zs a "a + n"] perm_in_wider [of "a + n - g" "a + n" zs ws a "a + n"] by auto
      ultimately show ?thesis using f(1) eq by (auto intro: perm_in_trans)
    qed
  qed
qed



end
