(* ===== verification/Refcount.thy ===== *)
theory Refcount
  imports UkPrelude
begin

text \<open>
  Reference counters, \<^verbatim>\<open>include/uk/refcount.h\<close>. The counter has 32 bits, the instructions \<^verbatim>\<open>incw\<close> and \<^verbatim>\<open>decw\<close>
  work on its lower 16 bits. A failed assertion is \<open>None\<close>. In the two compare-and-exchange loops \<open>seen n\<close>
  is the value the counter has at the \<open>n\<close>-th attempt, which other processors may have changed.
\<close>

section \<open>The operations\<close>

abbreviation U32_MAX :: u32 where "U32_MAX \<equiv> - 1"

definition incw :: "u32 \<Rightarrow> u32" where
  "incw c = (c AND 0xffff0000) OR ucast (ucast c + 1 :: u16)"

definition decw :: "u32 \<Rightarrow> u32" where
  "decw c = (c AND 0xffff0000) OR ucast (ucast c - 1 :: u16)"

definition uk_refcount_init :: "u32 \<Rightarrow> u32" where
  "uk_refcount_init v = v"

definition uk_refcount_acquire :: "u32 \<Rightarrow> u32 option" where
  "uk_refcount_acquire c = do { uk_assert (c < U32_MAX); Some (incw c) }"

definition uk_refcount_release :: "u32 \<Rightarrow> (u32 \<times> bool) option" where
  "uk_refcount_release c = do { uk_assert (c > 0); Some (decw c, \<not> c > 1) }"

definition uk_refcount_read :: "u32 \<Rightarrow> u32" where
  "uk_refcount_read c = c"

partial_function (option) acquire_loop :: "(nat \<Rightarrow> u32) \<Rightarrow> u32 \<Rightarrow> nat \<Rightarrow> (nat \<times> bool) option" where
  "acquire_loop seen old n =
     (if old = 0 then Some (n, False)
      else if seen n = old then Some (n, True)
      else acquire_loop seen old (n + 1))"

definition uk_refcount_acquire_if_not_zero :: "(nat \<Rightarrow> u32) \<Rightarrow> u32 \<Rightarrow> (u32 \<times> bool) option" where
  "uk_refcount_acquire_if_not_zero seen c =
     do {
       uk_assert (c < U32_MAX);
       (n, ok) \<leftarrow> acquire_loop seen c 0;
       Some (if ok then c + 1 else seen n, ok)
     }"

partial_function (option) release_loop :: "(nat \<Rightarrow> u32) \<Rightarrow> u32 \<Rightarrow> nat \<Rightarrow> (nat \<times> bool) option" where
  "release_loop seen old n =
     (if old = 1 then Some (n, False)
      else if seen n = old then Some (n, True)
      else release_loop seen old (n + 1))"

definition uk_refcount_release_if_not_last :: "(nat \<Rightarrow> u32) \<Rightarrow> u32 \<Rightarrow> (u32 \<times> bool) option" where
  "uk_refcount_release_if_not_last seen c =
     do {
       (n, ok) \<leftarrow> release_loop seen c 0;
       Some (if ok then c - 1 else seen n, ok)
     }"

section \<open>Counting references\<close>

lemma low_half: "unat (c::u32) < 65536 \<Longrightarrow> c AND 0xffff0000 = 0"
proof -
  assume "unat c < 65536"
  then have "unat (c AND NOT (mask 16)) = 0" by (simp add: unat_and_not_mask)
  moreover have "(0xffff0000 :: u32) = NOT (mask 16)" by (simp add: mask_eq_exp_minus_1)
  ultimately show ?thesis by (metis unat_eq_zero)
qed

lemma ucast_small: "unat (c::u32) < 65536 \<Longrightarrow> unat (ucast c :: u16) = unat c"
  by (simp add: unsigned_ucast_eq take_bit_nat_eq_self)

lemma incw_small: "unat c < 65535 \<Longrightarrow> unat (incw c) = Suc (unat c)"
  using ucast_small [of c] by (simp add: incw_def low_half unat_word_ariths unsigned_ucast_eq take_bit_nat_eq_self)

lemma incw_wraps: "incw 65535 = 0"
  by (simp add: incw_def)

lemma decw_small: "0 < unat c \<Longrightarrow> unat c < 65536 \<Longrightarrow> unat (decw c) = unat c - 1"
  using ucast_small [of c]
  by (simp add: decw_def low_half unsigned_ucast_eq unat_sub_no_ovf take_bit_nat_eq_self)

text \<open>Users that take and give up references, one after the other; \<open>refs\<close> is how many there are.\<close>

datatype refop = Acquire | Release

fun refs_after :: "nat \<Rightarrow> refop list \<Rightarrow> nat" where
  "refs_after n [] = n"
| "refs_after n (Acquire # ops) = refs_after (Suc n) ops"
| "refs_after n (Release # ops) = refs_after (n - 1) ops"

text \<open>Every prefix leaves between 1 and 65535 references, the last release none.\<close>

fun refs_ok :: "nat \<Rightarrow> refop list \<Rightarrow> bool" where
  "refs_ok n [] = True"
| "refs_ok n (Acquire # ops) = (0 < n \<and> n < 65535 \<and> refs_ok (Suc n) ops)"
| "refs_ok n (Release # ops) = (0 < n \<and> refs_ok (n - 1) ops)"

fun ref_run :: "u32 \<Rightarrow> refop list \<Rightarrow> (u32 \<times> bool list) option" where
  "ref_run c [] = Some (c, [])"
| "ref_run c (Acquire # ops) = do { c \<leftarrow> uk_refcount_acquire c; ref_run c ops }"
| "ref_run c (Release # ops) = do { (c, last) \<leftarrow> uk_refcount_release c; (c, bs) \<leftarrow> ref_run c ops; Some (c, last # bs) }"

text \<open>What the releases should report: whether the reference was the last.\<close>

fun refs_last :: "nat \<Rightarrow> refop list \<Rightarrow> bool list" where
  "refs_last n [] = []"
| "refs_last n (Acquire # ops) = refs_last (Suc n) ops"
| "refs_last n (Release # ops) = (n = 1) # refs_last (n - 1) ops"

lemma acquire_small: "unat c < 65535 \<Longrightarrow> uk_refcount_acquire c = Some (incw c)"
proof -
  assume "unat c < 65535"
  moreover have "unat U32_MAX = 2 ^ 32 - 1" by (simp add: unsigned_minus_1_eq_mask mask_eq_exp_minus_1)
  ultimately have "c < U32_MAX" by (simp add: word_less_nat_alt)
  then show ?thesis by (simp add: uk_refcount_acquire_def)
qed

lemma release_pos: "0 < unat c \<Longrightarrow> uk_refcount_release c = Some (decw c, unat c = 1)"
  by (auto simp: uk_refcount_release_def word_less_nat_alt)

lemma ref_run_ok:
  "unat c = n \<Longrightarrow> n \<le> 65535 \<Longrightarrow> refs_ok n ops \<Longrightarrow>
   \<exists>c'. ref_run c ops = Some (c', refs_last n ops) \<and> unat c' = refs_after n ops"
proof (induction n ops arbitrary: c rule: refs_ok.induct)
  case (2 n ops)
  then show ?case using acquire_small [of c] incw_small [of c] by auto
next
  case (3 n ops)
  then show ?case using release_pos [of c] decw_small [of c] by fastforce
qed simp

text \<open>
  C40: A counter that starts with one reference and never has more than 65535 counts them exactly: no
  assertion fails, its value is the number of references left, and a release reports the last
  reference exactly when it gives up the only one.
\<close>

theorem refcount_exact:
  assumes "refs_ok 1 ops"
  shows "\<exists>c. ref_run (uk_refcount_init 1) ops = Some (c, refs_last 1 ops) \<and> unat (uk_refcount_read c) = refs_after 1 ops"
  using ref_run_ok [of 1 1 ops] assms by (simp add: uk_refcount_init_def uk_refcount_read_def)

theorem refcount_exact_witness:
  "\<exists>c. ref_run (uk_refcount_init 1) [Acquire, Release, Release] = Some (c, [False, True]) \<and> unat (uk_refcount_read c) = 0"
  using refcount_exact [of "[Acquire, Release, Release]"] by simp

text \<open>With one reference more the counter reads 0, although the assertion allows for 32 bits.\<close>

lemma refcount_wraps: "uk_refcount_acquire 65535 = Some 0"
  by (simp add: uk_refcount_acquire_def incw_wraps word_less_nat_alt unsigned_minus_1_eq_mask mask_eq_exp_minus_1)

section \<open>The compare-and-exchange loops\<close>

text \<open>The loops do not read the counter again: they return only if it has the old value at some attempt.\<close>

lemma acquire_loop_returns:
  assumes "acquire_loop seen old n = Some r" "old \<noteq> 0"
  shows "\<exists>k \<ge> n. seen k = old"
proof -
  have "old \<noteq> 0 \<longrightarrow> (\<exists>k \<ge> n. seen k = old)"
    by (rule acquire_loop.raw_induct [OF _ assms(1), of "\<lambda>seen old n r. old \<noteq> 0 \<longrightarrow> (\<exists>k \<ge> n. seen k = old)"])
      (auto split: if_splits, meson Suc_leD)
  then show ?thesis using assms(2) by simp
qed

lemma acquire_if_not_zero_stuck:
  assumes "c \<noteq> 0" "\<And>n. seen n \<noteq> c"
  shows "uk_refcount_acquire_if_not_zero seen c = None"
proof -
  have "acquire_loop seen c 0 = None" using acquire_loop_returns [of seen c 0] assms by (cases "acquire_loop seen c 0") auto
  then show ?thesis by (simp add: uk_refcount_acquire_if_not_zero_def)
qed

end
