(* ===== verification/Sglist.thy ===== *)
theory Sglist
  imports Refcount
begin

text \<open>
  Scatter/gather lists, \<^verbatim>\<open>lib/uksglist/sglist.c\<close> and \<^verbatim>\<open>sglist.h\<close>. The array of segments is a list, of which the first
  \<^verbatim>\<open>sg_nseg\<close> are in use; a pointer to a segment is its index, and an access outside the array is \<open>None\<close>.
  \<open>v2p\<close> is the platform's \<^verbatim>\<open>ukplat_virt_to_phys\<close>, \<open>malloc\<close> and \<open>free\<close> are those of the allocator passed, \<open>uninit\<close> is
  what a fresh array holds. \<^verbatim>\<open>memmove\<close> is the C library's: it copies the old contents of the source.
\<close>

section \<open>Lists of segments\<close>

record uk_sglist_seg =
  ss_paddr :: u64
  ss_len :: u64

record uk_sglist =
  sg_segs :: "uk_sglist_seg list"
  sg_refs :: u32
  sg_nseg :: nat
  sg_maxseg :: nat

definition uk_sglist_init :: "nat \<Rightarrow> uk_sglist_seg list \<Rightarrow> uk_sglist" where
  "uk_sglist_init maxsegs segs =
     \<lparr>sg_segs = segs, sg_refs = uk_refcount_init 1, sg_nseg = 0, sg_maxseg = maxsegs mod 65536\<rparr>"

definition uk_sglist_reset :: "uk_sglist \<Rightarrow> uk_sglist" where
  "uk_sglist_reset sg = sg\<lparr>sg_nseg := 0\<rparr>"

definition seg_page_off :: "u64 \<Rightarrow> u64" where
  "seg_page_off x = x AND (PAGE_SIZE - 1)"

definition trunc_page :: "u64 \<Rightarrow> u64" where
  "trunc_page x = x AND NOT (PAGE_SIZE - 1)"

text \<open>The number of segments and the length of the last one.\<close>

type_synonym sgsave = "nat \<times> u64"

definition SGLIST_SAVE :: "uk_sglist \<Rightarrow> sgsave" where
  "SGLIST_SAVE sg = (sg_nseg sg, if sg_nseg sg > 0 then ss_len (sg_segs sg ! (sg_nseg sg - 1)) else 0)"

definition SGLIST_RESTORE :: "uk_sglist \<Rightarrow> sgsave \<Rightarrow> uk_sglist" where
  "SGLIST_RESTORE sg save =
     (let sg = sg\<lparr>sg_nseg := fst save\<rparr> in
      if fst save > 0
      then sg\<lparr>sg_segs := (sg_segs sg)[fst save - 1 := (sg_segs sg ! (fst save - 1))\<lparr>ss_len := snd save\<rparr>]\<rparr>
      else sg)"

section \<open>Appending\<close>

definition sglist_append_range ::
  "uk_sglist \<Rightarrow> int \<Rightarrow> u64 \<Rightarrow> u64 \<Rightarrow> (uk_sglist \<times> int \<times> (errno + unit)) option" where
  "sglist_append_range sg ss paddr len =
     (if ss < 0 \<or> length (sg_segs sg) \<le> nat ss then None
      else let s = sg_segs sg ! nat ss in
        if ss_paddr s + ss_len s = paddr
        then Some (sg\<lparr>sg_segs := (sg_segs sg)[nat ss := s\<lparr>ss_len := ss_len s + len\<rparr>]\<rparr>, ss, Inr ())
        else if sg_nseg sg = sg_maxseg sg then Some (sg, ss, Inl EFBIG)
        else if length (sg_segs sg) \<le> nat (ss + 1) then None
        else Some (sg\<lparr>sg_segs := (sg_segs sg)[nat (ss + 1) := \<lparr>ss_paddr = paddr, ss_len = len\<rparr>],
                     sg_nseg := sg_nseg sg + 1\<rparr>, ss + 1, Inr ()))"

function append_pages ::
  "(u64 \<Rightarrow> u64) \<Rightarrow> uk_sglist \<Rightarrow> int \<Rightarrow> u64 \<Rightarrow> u64 \<Rightarrow> (uk_sglist \<times> (errno + unit)) option" where
  "append_pages v2p sg ss vaddr len =
     (if len > 0
      then let seglen = min len PAGE_SIZE in
        (case sglist_append_range sg ss (v2p vaddr) seglen of
           None \<Rightarrow> None
         | Some (sg, ss, Inl e) \<Rightarrow> Some (sg, Inl e)
         | Some (sg, ss, Inr u) \<Rightarrow> append_pages v2p sg ss (vaddr + seglen) (len - seglen))
      else Some (sg, Inr ()))"
  by pat_completeness auto
termination
proof (relation "measure (\<lambda>(v2p, sg, ss, vaddr, len). unat len)")
  fix len :: u64 assume len: "0 < len"
  have "0 < unat (min len PAGE_SIZE)" "min len PAGE_SIZE \<le> len" using len by (auto simp: min_def word_less_nat_alt)
  then have "unat (len - min len PAGE_SIZE) < unat len" using len by (simp add: unat_sub word_less_nat_alt)
  then show "((v2p, sg', ss', vaddr + seglen, len - seglen), v2p, sg, ss, vaddr, len) \<in> measure (\<lambda>(v2p, sg, ss, vaddr, len). unat len)"
    if "seglen = min len PAGE_SIZE" for v2p :: "u64 \<Rightarrow> u64" and sg sg' :: uk_sglist and ss ss' :: int and vaddr seglen
    using that by simp
qed auto

declare append_pages.simps [simp del]

definition sglist_append_buf ::
  "(u64 \<Rightarrow> u64) \<Rightarrow> uk_sglist \<Rightarrow> u64 \<Rightarrow> u64 \<Rightarrow> (uk_sglist \<times> (errno + unit)) option" where
  "sglist_append_buf v2p sg buf len =
     (if len = 0 then Some (sg, Inr ())
      else
        let offset = seg_page_off buf;
            paddr = v2p buf;
            seglen = min len (PAGE_SIZE - offset)
        in if sg_nseg sg = 0
           then if sg_segs sg = [] then None
             else append_pages v2p (sg\<lparr>sg_segs := (sg_segs sg)[0 := \<lparr>ss_paddr = paddr, ss_len = seglen\<rparr>], sg_nseg := 1\<rparr>) 0
               (buf + seglen) (len - seglen)
           else
             (case sglist_append_range sg (int (sg_nseg sg) - 1) paddr seglen of
                None \<Rightarrow> None
              | Some (sg, ss, Inl e) \<Rightarrow> Some (sg, Inl e)
              | Some (sg, ss, Inr u) \<Rightarrow> append_pages v2p sg ss (buf + seglen) (len - seglen)))"

text \<open>The loop of \<^verbatim>\<open>uk_sglist_count\<close> does not end if the range reaches into the last page of the address space.\<close>

partial_function (option) count_loop :: "(u64 \<Rightarrow> u64) \<Rightarrow> u64 \<Rightarrow> u64 \<Rightarrow> u64 \<Rightarrow> nat \<Rightarrow> nat option" where
  "count_loop v2p vaddr vendaddr lastaddr nsegs =
     (if vaddr < vendaddr
      then let paddr = v2p vaddr in
        count_loop v2p (vaddr + PAGE_SIZE) vendaddr paddr (if lastaddr + PAGE_SIZE \<noteq> paddr then nsegs + 1 else nsegs)
      else Some nsegs)"

definition uk_sglist_count :: "(u64 \<Rightarrow> u64) \<Rightarrow> u64 \<Rightarrow> u64 \<Rightarrow> nat option" where
  "uk_sglist_count v2p buf len =
     (if len = 0 then Some 0
      else
        let vaddr = trunc_page buf;
            vendaddr = buf + len;
            lastaddr = v2p vaddr
        in count_loop v2p (vaddr + PAGE_SIZE) vendaddr lastaddr 1)"

definition uk_sglist_append ::
  "(u64 \<Rightarrow> u64) \<Rightarrow> uk_sglist \<Rightarrow> u64 \<Rightarrow> u64 \<Rightarrow> (uk_sglist \<times> (errno + unit)) option" where
  "uk_sglist_append v2p sg buf len =
     (if sg_maxseg sg = 0 then Some (sg, Inl EINVAL)
      else
        let save = SGLIST_SAVE sg in
        do {
          (sg, err) \<leftarrow> sglist_append_buf v2p sg buf len;
          Some (case err of Inl e \<Rightarrow> (SGLIST_RESTORE sg save, Inl e) | Inr u \<Rightarrow> (sg, Inr ()))
        })"

text \<open>The loop over the segments of \<open>source\<close>; the result is the list, what is left of \<open>length\<close> and the error.\<close>

fun append_segs ::
  "uk_sglist \<Rightarrow> int \<Rightarrow> uk_sglist_seg list \<Rightarrow> u64 \<Rightarrow> u64 \<Rightarrow> (errno + unit) \<Rightarrow> (uk_sglist \<times> u64 \<times> (errno + unit)) option" where
  "append_segs sg ss [] offset len err = Some (sg, len, err)"
| "append_segs sg ss (s # segs) offset len err =
     (if offset \<ge> ss_len s then append_segs sg ss segs (offset - ss_len s) len err
      else
        let seglen = (if ss_len s - offset > len then len else ss_len s - offset) in
        case sglist_append_range sg ss (ss_paddr s + offset) seglen of
          None \<Rightarrow> None
        | Some (sg, ss, Inl e) \<Rightarrow> Some (sg, len, Inl e)
        | Some (sg, ss, Inr u) \<Rightarrow>
            if len - seglen = 0 then Some (sg, 0, Inr ()) else append_segs sg ss segs 0 (len - seglen) (Inr ()))"

definition uk_sglist_append_sglist ::
  "uk_sglist \<Rightarrow> uk_sglist \<Rightarrow> u64 \<Rightarrow> u64 \<Rightarrow> (uk_sglist \<times> (errno + unit)) option" where
  "uk_sglist_append_sglist sg source offset len =
     (if sg_maxseg sg = 0 \<or> len = 0 then Some (sg, Inl EINVAL)
      else
        let save = SGLIST_SAVE sg in
        do {
          (sg, rest, err) \<leftarrow> append_segs sg (int (sg_nseg sg) - 1) (take (sg_nseg source) (sg_segs source)) offset len (Inl EINVAL);
          let err = (if rest \<noteq> 0 then Inl EINVAL else err);
          Some (case err of Inl e \<Rightarrow> (SGLIST_RESTORE sg save, Inl e) | Inr u \<Rightarrow> (sg, Inr ()))
        })"

definition uk_sglist_length :: "uk_sglist \<Rightarrow> u64" where
  "uk_sglist_length sg = fold (\<lambda>s space. space + ss_len s) (take (sg_nseg sg) (sg_segs sg)) 0"

section \<open>Whole lists\<close>

text \<open>Copying \<open>n\<close> entries from the front of \<open>src\<close> over those of \<open>dst\<close> from index \<open>i\<close> on.\<close>

definition move_segs :: "uk_sglist_seg list \<Rightarrow> nat \<Rightarrow> uk_sglist_seg list \<Rightarrow> nat \<Rightarrow> uk_sglist_seg list" where
  "move_segs dst i src n = take i dst @ take n src @ drop (i + n) dst"

definition uk_sglist_join :: "uk_sglist \<Rightarrow> uk_sglist \<Rightarrow> uk_sglist \<times> uk_sglist \<times> (errno + unit)" where
  "uk_sglist_join first second =
     (if sg_nseg second = 0 then (first, second, Inr ())
      else
        let sfirst = sg_segs second ! 0;
            flast = sg_segs first ! (sg_nseg first - 1);
            append = (if sg_nseg first \<noteq> 0 \<and> ss_paddr flast + ss_len flast = ss_paddr sfirst then 1 else 0)
        in if sg_nseg first + sg_nseg second - append > sg_maxseg first then (first, second, Inl EFBIG)
           else
             let first = (if append = 1
                          then first\<lparr>sg_segs := (sg_segs first)[sg_nseg first - 1 := flast\<lparr>ss_len := ss_len flast + ss_len sfirst\<rparr>]\<rparr>
                          else first);
                 n = sg_nseg second - append;
                 second = second\<lparr>sg_segs := move_segs (sg_segs second) append (drop (sg_nseg first) (sg_segs first)) n\<rparr>
             in (first\<lparr>sg_nseg := sg_nseg first + n\<rparr>, uk_sglist_reset second, Inr ()))"

definition uk_sglist_alloc ::
  "('h \<Rightarrow> u64 \<Rightarrow> 'h \<times> u64) \<Rightarrow> (nat \<Rightarrow> uk_sglist_seg) \<Rightarrow> 'h \<Rightarrow> nat \<Rightarrow> 'h \<times> (u64 \<times> uk_sglist) option" where
  "uk_sglist_alloc malloc uninit h nsegs =
     (let (h, p) = malloc h (16 + of_nat nsegs * 16) in
      if p = 0 then (h, None) else (h, Some (p, uk_sglist_init nsegs (map uninit [0..<nsegs]))))"

definition uk_sglist_free :: "('h \<Rightarrow> u64 \<Rightarrow> 'h) \<Rightarrow> 'h \<Rightarrow> u64 \<Rightarrow> uk_sglist \<Rightarrow> ('h \<times> uk_sglist) option" where
  "uk_sglist_free free h p sg =
     do {
       (refs, last) \<leftarrow> uk_refcount_release (sg_refs sg);
       Some (if last then free h p else h, sg\<lparr>sg_refs := refs\<rparr>)
     }"

definition uk_sglist_build ::
  "('h \<Rightarrow> u64 \<Rightarrow> 'h \<times> u64) \<Rightarrow> ('h \<Rightarrow> u64 \<Rightarrow> 'h) \<Rightarrow> (nat \<Rightarrow> uk_sglist_seg) \<Rightarrow> (u64 \<Rightarrow> u64) \<Rightarrow> 'h \<Rightarrow> u64 \<Rightarrow> u64 \<Rightarrow>
   ('h \<times> (u64 \<times> uk_sglist) option) option" where
  "uk_sglist_build malloc free uninit v2p h buf len =
     (if len = 0 then Some (h, None)
      else do {
        nsegs \<leftarrow> uk_sglist_count v2p buf len;
        uk_assert (nsegs > 0);
        case uk_sglist_alloc malloc uninit h nsegs of
          (h, None) \<Rightarrow> Some (h, None)
        | (h, Some (p, sg)) \<Rightarrow> do {
            (sg, err) \<leftarrow> uk_sglist_append v2p sg buf len;
            case err of
              Inl e \<Rightarrow> do { (h, sg) \<leftarrow> uk_sglist_free free h p sg; Some (h, None) }
            | Inr u \<Rightarrow> Some (h, Some (p, sg))
          }
      })"

definition uk_sglist_clone ::
  "('h \<Rightarrow> u64 \<Rightarrow> 'h \<times> u64) \<Rightarrow> (nat \<Rightarrow> uk_sglist_seg) \<Rightarrow> 'h \<Rightarrow> uk_sglist \<Rightarrow> 'h \<times> (u64 \<times> uk_sglist) option" where
  "uk_sglist_clone malloc uninit h sg =
     (case uk_sglist_alloc malloc uninit h (sg_maxseg sg) of
        (h, None) \<Rightarrow> (h, None)
      | (h, Some (p, new)) \<Rightarrow>
          (h, Some (p, new\<lparr>sg_nseg := sg_nseg sg, sg_segs := move_segs (sg_segs new) 0 (sg_segs sg) (sg_nseg sg)\<rparr>)))"

text \<open>The list a caller passes, or a fresh one; it must have room for \<open>count\<close> segments and be empty.\<close>

definition target_list ::
  "('h \<Rightarrow> u64 \<Rightarrow> 'h \<times> u64) \<Rightarrow> (nat \<Rightarrow> uk_sglist_seg) \<Rightarrow> 'h \<Rightarrow> (u64 \<times> uk_sglist) option \<Rightarrow> nat \<Rightarrow> 'h \<times> (errno + (u64 \<times> uk_sglist))" where
  "target_list malloc uninit h given count =
     (case given of
        None \<Rightarrow> (case uk_sglist_alloc malloc uninit h count of (h, None) \<Rightarrow> (h, Inl ENOMEM) | (h, Some (p, sg)) \<Rightarrow> (h, Inr (p, sg)))
      | Some (p, sg) \<Rightarrow>
          if sg_maxseg sg < count then (h, Inl EFBIG)
          else if sg_nseg sg \<noteq> 0 then (h, Inl EINVAL)
          else (h, Inr (p, sg)))"

text \<open>The scan of \<^verbatim>\<open>uk_sglist_split\<close>: \<^verbatim>\<open>count\<close> and \<^verbatim>\<open>split\<close>.\<close>

fun split_scan :: "u64 \<Rightarrow> uk_sglist_seg list \<Rightarrow> u64 \<Rightarrow> nat \<Rightarrow> nat \<times> u64" where
  "split_scan len [] space count = (count, 0)"
| "split_scan len (s # segs) space count =
     (let space = space + ss_len s; count = count + 1 in
      if space \<ge> len then (count, space - len) else split_scan len segs space count)"

definition uk_sglist_split ::
  "('h \<Rightarrow> u64 \<Rightarrow> 'h \<times> u64) \<Rightarrow> (nat \<Rightarrow> uk_sglist_seg) \<Rightarrow> 'h \<Rightarrow> uk_sglist \<Rightarrow> (u64 \<times> uk_sglist) option \<Rightarrow> u64 \<Rightarrow>
   'h \<times> uk_sglist \<times> (u64 \<times> uk_sglist) option \<times> (errno + unit)" where
  "uk_sglist_split malloc uninit h original head len =
     (if uk_refcount_read (sg_refs original) > 1 then (h, original, head, Inl EDOOFUS)
      else
        let (count, split) = split_scan len (take (sg_nseg original) (sg_segs original)) 0 0 in
        if count = 0 then (h, original, head, Inr ())
        else case target_list malloc uninit h head count of
          (h, Inl e) \<Rightarrow> (h, original, head, Inl e)
        | (h, Inr (p, sg)) \<Rightarrow>
            let sg = sg\<lparr>sg_segs := move_segs (sg_segs sg) 0 (sg_segs original) count, sg_nseg := count\<rparr>;
                (count, sg, original) =
                  (if split \<noteq> 0
                   then let count = count - 1;
                            s = sg_segs sg ! count;
                            sg = sg\<lparr>sg_segs := (sg_segs sg)[count := s\<lparr>ss_len := ss_len s - split\<rparr>]\<rparr>
                        in (count, sg, original\<lparr>sg_segs := (sg_segs original)[count := \<lparr>ss_paddr = ss_paddr s + split, ss_len = split\<rparr>]\<rparr>)
                   else (count, sg, original));
                original = original\<lparr>sg_nseg := sg_nseg original - count,
                  sg_segs := move_segs (sg_segs original) 0 (drop count (sg_segs original)) count\<rparr>
            in (h, original, Some (p, sg), Inr ()))"

text \<open>The scan of \<^verbatim>\<open>uk_sglist_slice\<close>: \<^verbatim>\<open>space\<close>, \<^verbatim>\<open>count\<close>, \<^verbatim>\<open>fseg\<close>, \<^verbatim>\<open>foffs\<close> and \<^verbatim>\<open>loffs\<close>.\<close>

fun slice_scan :: "u64 \<Rightarrow> u64 \<Rightarrow> uk_sglist_seg list \<Rightarrow> nat \<Rightarrow> u64 \<Rightarrow> nat \<Rightarrow> nat \<Rightarrow> u64 \<Rightarrow> u64 \<times> nat \<times> nat \<times> u64 \<times> u64" where
  "slice_scan offset fin [] i space count fseg foffs = (space, count, fseg, foffs, 0)"
| "slice_scan offset fin (s # segs) i space count fseg foffs =
     (let space = space + ss_len s in
      if space > offset
      then let (fseg, foffs) = (if count = 0 then (i, offset - (space - ss_len s)) else (fseg, foffs));
               count = count + 1
           in if space \<ge> fin then (space, count, fseg, foffs, space - fin)
              else slice_scan offset fin segs (i + 1) space count fseg foffs
      else slice_scan offset fin segs (i + 1) space count fseg foffs)"

definition uk_sglist_slice ::
  "('h \<Rightarrow> u64 \<Rightarrow> 'h \<times> u64) \<Rightarrow> (nat \<Rightarrow> uk_sglist_seg) \<Rightarrow> 'h \<Rightarrow> uk_sglist \<Rightarrow> (u64 \<times> uk_sglist) option \<Rightarrow> u64 \<Rightarrow> u64 \<Rightarrow>
   'h \<times> (u64 \<times> uk_sglist) option \<times> (errno + unit)" where
  "uk_sglist_slice malloc uninit h original given offset len =
     (if len = 0 then (h, given, Inr ())
      else
        let fin = offset + len;
            (space, count, fseg, foffs, loffs) = slice_scan offset fin (take (sg_nseg original) (sg_segs original)) 0 0 0 0 0
        in if space < fin then (h, given, Inl EINVAL)
           else case target_list malloc uninit h given count of
             (h, Inl e) \<Rightarrow> (h, given, Inl e)
           | (h, Inr (p, sg)) \<Rightarrow>
               let segs = move_segs (sg_segs sg) 0 (drop fseg (sg_segs original)) count;
                   segs = (if foffs \<noteq> 0
                           then segs[0 := \<lparr>ss_paddr = ss_paddr (segs ! 0) + foffs, ss_len = ss_len (segs ! 0) - foffs\<rparr>] else segs);
                   segs = (if loffs \<noteq> 0
                           then segs[count - 1 := (segs ! (count - 1))\<lparr>ss_len := ss_len (segs ! (count - 1)) - loffs\<rparr>] else segs)
               in (h, Some (p, sg\<lparr>sg_segs := segs, sg_nseg := count\<rparr>), Inr ()))"

text \<open>
  A chain of network buffers, each with the address and the length of its data. \<^verbatim>\<open>len\<close> adds up in an
  \<^verbatim>\<open>int\<close>, here without a bound.
\<close>

fun append_netbufs ::
  "(u64 \<Rightarrow> u64) \<Rightarrow> sgsave \<Rightarrow> uk_sglist \<Rightarrow> (u64 \<times> u16) list \<Rightarrow> nat \<Rightarrow> (uk_sglist \<times> (errno + nat)) option" where
  "append_netbufs v2p save sg [] len = Some (sg, Inr len)"
| "append_netbufs v2p save sg ((data, n) # nbs) len =
     (if n > 0
      then (case uk_sglist_append v2p sg data (ucast n) of
              None \<Rightarrow> None
            | Some (sg, Inl e) \<Rightarrow> Some (SGLIST_RESTORE sg save, Inl e)
            | Some (sg, Inr u) \<Rightarrow> append_netbufs v2p save sg nbs (len + unat n))
      else append_netbufs v2p save sg nbs len)"

definition uk_sglist_append_netbuf ::
  "(u64 \<Rightarrow> u64) \<Rightarrow> uk_sglist \<Rightarrow> (u64 \<times> u16) list \<Rightarrow> (uk_sglist \<times> (errno + nat)) option" where
  "uk_sglist_append_netbuf v2p sg chain =
     (if sg_maxseg sg = 0 then Some (sg, Inl EINVAL)
      else append_netbufs v2p (SGLIST_SAVE sg) sg chain 0)"

end
