(* ===== verification/SglistOk.thy ===== *)
theory SglistOk
  imports Sglist
begin

text \<open>The physical addresses a scatter/gather list describes, and what the operations do to them.\<close>

section \<open>Addresses\<close>

definition addrs :: "u64 \<Rightarrow> nat \<Rightarrow> u64 list" where
  "addrs p n = map (\<lambda>i. p + of_nat i) [0..<n]"

definition seg_bytes :: "uk_sglist_seg \<Rightarrow> u64 list" where
  "seg_bytes s = addrs (ss_paddr s) (unat (ss_len s))"

definition segs_bytes :: "uk_sglist_seg list \<Rightarrow> u64 list" where
  "segs_bytes segs = concat (map seg_bytes segs)"

definition sg_bytes :: "uk_sglist \<Rightarrow> u64 list" where
  "sg_bytes sg = segs_bytes (take (sg_nseg sg) (sg_segs sg))"

text \<open>The type invariant: the segments in use fit the array.\<close>

definition sg_wf :: "uk_sglist \<Rightarrow> bool" where
  "sg_wf sg \<longleftrightarrow> sg_nseg sg \<le> sg_maxseg sg \<and> sg_maxseg sg \<le> length (sg_segs sg) \<and> sg_maxseg sg < 65536"

lemma length_addrs [simp]: "length (addrs p n) = n"
  by (simp add: addrs_def)

lemma addrs_0 [simp]: "addrs p 0 = []"
  by (simp add: addrs_def)

lemma nth_addrs: "i < n \<Longrightarrow> addrs p n ! i = p + of_nat i"
  by (simp add: addrs_def)

lemma addrs_append: "addrs p (a + b) = addrs p a @ addrs (p + of_nat a) b"
  by (rule nth_equalityI) (auto simp: nth_append nth_addrs add.assoc of_nat_diff simp flip: of_nat_add)

lemma drop_addrs: "drop k (addrs p n) = addrs (p + of_nat k) (n - k)"
  by (rule nth_equalityI) (auto simp: nth_addrs add.assoc)

lemma take_addrs: "take k (addrs p n) = addrs p (min n k)"
  by (rule nth_equalityI) (auto simp: nth_addrs)

lemma length_seg_bytes [simp]: "length (seg_bytes s) = unat (ss_len s)"
  by (simp add: seg_bytes_def)

lemma segs_bytes_append [simp]: "segs_bytes (xs @ ys) = segs_bytes xs @ segs_bytes ys"
  by (simp add: segs_bytes_def)

lemma segs_bytes_simps [simp]: "segs_bytes [] = []" "segs_bytes (s # xs) = seg_bytes s @ segs_bytes xs"
  by (simp_all add: segs_bytes_def)

lemma sg_bytes_snoc: "0 < sg_nseg sg \<Longrightarrow> sg_nseg sg \<le> length (sg_segs sg) \<Longrightarrow>
  sg_bytes sg = segs_bytes (take (sg_nseg sg - 1) (sg_segs sg)) @ seg_bytes (sg_segs sg ! (sg_nseg sg - 1))"
  using take_Suc_conv_app_nth [of "sg_nseg sg - 1" "sg_segs sg"] by (simp add: sg_bytes_def)

section \<open>Growing and restoring\<close>

text \<open>\<open>sg'\<close> comes from \<open>sg\<close> by extending the last segment and adding others.\<close>

definition grown :: "uk_sglist \<Rightarrow> uk_sglist \<Rightarrow> bool" where
  "grown sg sg' \<longleftrightarrow> sg_wf sg' \<and> sg_nseg sg \<le> sg_nseg sg' \<and> sg_maxseg sg' = sg_maxseg sg \<and> sg_refs sg' = sg_refs sg \<and>
     length (sg_segs sg') = length (sg_segs sg) \<and> (\<forall>i < sg_nseg sg - 1. sg_segs sg' ! i = sg_segs sg ! i) \<and>
     (0 < sg_nseg sg \<longrightarrow> ss_paddr (sg_segs sg' ! (sg_nseg sg - 1)) = ss_paddr (sg_segs sg ! (sg_nseg sg - 1)))"

text \<open>\<open>sg'\<close> is the same list as \<open>sg\<close>; the segments not in use may differ.\<close>

definition same_list :: "uk_sglist \<Rightarrow> uk_sglist \<Rightarrow> bool" where
  "same_list sg sg' \<longleftrightarrow> sg_nseg sg' = sg_nseg sg \<and> sg_maxseg sg' = sg_maxseg sg \<and> sg_refs sg' = sg_refs sg \<and>
     length (sg_segs sg') = length (sg_segs sg) \<and> take (sg_nseg sg) (sg_segs sg') = take (sg_nseg sg) (sg_segs sg)"

lemma grown_refl [simp]: "sg_wf sg \<Longrightarrow> grown sg sg"
  by (simp add: grown_def)

lemma grown_trans: "grown sg sg' \<Longrightarrow> grown sg' sg'' \<Longrightarrow> grown sg sg''"
  unfolding grown_def by (cases "sg_nseg sg' = sg_nseg sg") auto

lemma same_list_refl [simp]: "same_list sg sg"
  by (simp add: same_list_def)

lemma same_list_bytes: "same_list sg sg' \<Longrightarrow> sg_bytes sg' = sg_bytes sg"
  by (simp add: same_list_def sg_bytes_def)

lemma same_list_wf: "same_list sg sg' \<Longrightarrow> sg_wf sg \<Longrightarrow> sg_wf sg'"
  by (simp add: same_list_def sg_wf_def)

lemma restore_same:
  assumes "sg_wf sg" "grown sg sg'"
  shows "same_list sg (SGLIST_RESTORE sg' (SGLIST_SAVE sg))"
proof (cases "sg_nseg sg = 0")
  case True
  then show ?thesis using assms by (simp add: same_list_def SGLIST_RESTORE_def SGLIST_SAVE_def grown_def)
next
  case False
  let ?n = "sg_nseg sg - 1"
  have len: "?n < length (sg_segs sg)" "length (sg_segs sg') = length (sg_segs sg)" using assms False by (auto simp: sg_wf_def grown_def)
  have eq: "(sg_segs sg' ! ?n)\<lparr>ss_len := ss_len (sg_segs sg ! ?n)\<rparr> = sg_segs sg ! ?n"
    using assms(2) False by (simp add: grown_def)
  have "take (sg_nseg sg) ((sg_segs sg')[?n := sg_segs sg ! ?n]) = take (sg_nseg sg) (sg_segs sg)"
    using assms(2) len False by (intro nth_equalityI) (auto simp: grown_def nth_list_update)
  moreover have "SGLIST_RESTORE sg' (SGLIST_SAVE sg) = sg'\<lparr>sg_nseg := sg_nseg sg, sg_segs := (sg_segs sg')[?n := sg_segs sg ! ?n]\<rparr>"
    using False eq by (simp add: SGLIST_RESTORE_def SGLIST_SAVE_def)
  ultimately show ?thesis using assms(2) len by (simp add: same_list_def grown_def)
qed

section \<open>Appending a range\<close>

text \<open>The address after the last segment.\<close>

definition sg_end :: "uk_sglist \<Rightarrow> u64" where
  "sg_end sg = (let s = sg_segs sg ! (sg_nseg sg - 1) in ss_paddr s + ss_len s)"

definition range_added :: "uk_sglist \<Rightarrow> u64 \<Rightarrow> u64 \<Rightarrow> uk_sglist \<Rightarrow> bool" where
  "range_added sg paddr len sg' \<longleftrightarrow> grown sg sg' \<and> 0 < sg_nseg sg' \<and> sg_bytes sg' = sg_bytes sg @ addrs paddr (unat len) \<and>
     sg_end sg' = paddr + len \<and> sg_nseg sg' = sg_nseg sg + (if sg_end sg = paddr then 0 else 1)"

lemma append_range_ok:
  assumes wf: "sg_wf sg" and n: "0 < sg_nseg sg" and l: "length (sg_bytes sg) + unat len < 2 ^ 64"
  shows "sglist_append_range sg (int (sg_nseg sg) - 1) paddr len = Some (sg, int (sg_nseg sg) - 1, Inl EFBIG) \<and>
      sg_nseg sg = sg_maxseg sg \<and> sg_end sg \<noteq> paddr \<or>
    (\<exists>sg'. sglist_append_range sg (int (sg_nseg sg) - 1) paddr len = Some (sg', int (sg_nseg sg') - 1, Inr ()) \<and>
      range_added sg paddr len sg')"
proof -
  define k where "k = sg_nseg sg - 1"
  define s where "s = sg_segs sg ! k"
  have k: "nat (int (sg_nseg sg) - 1) = k" "nat (int (sg_nseg sg)) = Suc k" "k < length (sg_segs sg)" "sg_nseg sg = Suc k"
    using n wf by (auto simp: k_def sg_wf_def)
  have b: "sg_bytes sg = segs_bytes (take k (sg_segs sg)) @ seg_bytes s"
    using sg_bytes_snoc [of sg] k by (simp add: s_def)
  have e: "sg_end sg = ss_paddr s + ss_len s" by (simp add: sg_end_def s_def k_def Let_def)
  show ?thesis
  proof (cases "ss_paddr s + ss_len s = paddr")
    case True
    let ?t = "s\<lparr>ss_len := ss_len s + len\<rparr>" and ?sg = "sg\<lparr>sg_segs := (sg_segs sg)[k := s\<lparr>ss_len := ss_len s + len\<rparr>]\<rparr>"
    have "unat (ss_len s + len) = unat (ss_len s) + unat len" using l b by (intro unat_add_64) simp
    then have "seg_bytes ?t = seg_bytes s @ addrs paddr (unat len)" using True by (simp add: seg_bytes_def addrs_append)
    moreover have "sg_bytes ?sg = segs_bytes (take k (sg_segs sg)) @ seg_bytes ?t"
      using sg_bytes_snoc [of ?sg] k by simp
    ultimately have "range_added sg paddr len ?sg"
      using wf k True b by (auto simp: range_added_def grown_def sg_wf_def sg_end_def s_def Let_def nth_list_update)
    then show ?thesis using True k by (intro disjI2 exI [of _ ?sg]) (simp add: sglist_append_range_def s_def Let_def)
  next
    case False
    show ?thesis
    proof (cases "sg_nseg sg = sg_maxseg sg")
      case True
      then show ?thesis using False k e by (simp add: sglist_append_range_def s_def Let_def)
    next
      case nm: False
      let ?t = "\<lparr>ss_paddr = paddr, ss_len = len\<rparr>"
      let ?sg = "sg\<lparr>sg_segs := (sg_segs sg)[Suc k := ?t], sg_nseg := Suc (Suc k)\<rparr>"
      have k2: "Suc k < length (sg_segs sg)" using wf nm k by (auto simp: sg_wf_def)
      have "sg_bytes ?sg = sg_bytes sg @ addrs paddr (unat len)"
        using sg_bytes_snoc [of ?sg] k k2 by (simp add: sg_bytes_def seg_bytes_def)
      then have "range_added sg paddr len ?sg"
        using wf k k2 nm False e by (auto simp: range_added_def grown_def sg_wf_def sg_end_def Let_def)
      moreover have "nat (int k + 1) = Suc k" by simp
      ultimately show ?thesis using False nm k k2
        by (intro disjI2 exI [of _ ?sg]) (simp add: sglist_append_range_def s_def Let_def)
    qed
  qed
qed

section \<open>Appending a buffer\<close>

text \<open>What the code relies on: a translation is linear inside a page.\<close>

definition v2p_pages :: "(u64 \<Rightarrow> u64) \<Rightarrow> bool" where
  "v2p_pages v2p \<longleftrightarrow> (\<forall>v i. unat v mod 4096 + i < 4096 \<longrightarrow> v2p (v + of_nat i) = v2p v + of_nat i)"

definition buf_addrs :: "(u64 \<Rightarrow> u64) \<Rightarrow> u64 \<Rightarrow> nat \<Rightarrow> u64 list" where
  "buf_addrs v2p v n = map (\<lambda>i. v2p (v + of_nat i)) [0..<n]"

lemma length_buf_addrs [simp]: "length (buf_addrs v2p v n) = n"
  by (simp add: buf_addrs_def)

lemma buf_addrs_0 [simp]: "buf_addrs v2p v 0 = []"
  by (simp add: buf_addrs_def)

lemma buf_addrs_append: "buf_addrs v2p v (a + b) = buf_addrs v2p v a @ buf_addrs v2p (v + of_nat a) b"
  by (rule nth_equalityI) (auto simp: buf_addrs_def nth_append add.assoc of_nat_diff simp flip: of_nat_add)

lemma buf_addrs_page:
  assumes "v2p_pages v2p" "unat v mod 4096 + n \<le> 4096"
  shows "buf_addrs v2p v n = addrs (v2p v) n"
  using assms by (auto simp: v2p_pages_def buf_addrs_def addrs_def)

text \<open>One page of a buffer: how the addresses and lengths go on.\<close>

lemma page_step:
  assumes "0 < len" "unat v mod 4096 = 0" "unat v + unat len \<le> 2 ^ 64"
  defines "n \<equiv> min len PAGE_SIZE"
  shows "unat n = min (unat len) 4096" "unat (len - n) = unat len - unat n" "n \<le> len" "0 < unat n"
    "len - n \<noteq> 0 \<Longrightarrow> unat (v + n) = unat v + 4096" "len - n \<noteq> 0 \<Longrightarrow> n = PAGE_SIZE"
proof -
  show n: "unat n = min (unat len) 4096" by (simp add: n_def min_def word_le_nat_alt)
  show le: "n \<le> len" by (simp add: n_def)
  then show s: "unat (len - n) = unat len - unat n" by (simp add: unat_sub)
  show "0 < unat n" using n assms(1) by (simp add: word_less_nat_alt)
  assume nz: "len - n \<noteq> 0"
  then show eq: "n = PAGE_SIZE" by (auto simp: n_def min_def split: if_splits)
  have "unat len > 4096" using s n nz eq by (auto simp: word_unat_eq_iff)
  then show "unat (v + n) = unat v + 4096" using eq assms(3) by (simp add: unat_add_64)
qed

lemma append_pages_ok:
  assumes "v2p_pages v2p" "sg_wf sg" "0 < sg_nseg sg" "length (sg_bytes sg) + unat len < 2 ^ 64" "unat v mod 4096 = 0" "unat v + unat len \<le> 2 ^ 64"
  shows "\<exists>sg' r. append_pages v2p sg (int (sg_nseg sg) - 1) v len = Some (sg', r) \<and> grown sg sg' \<and>
    (case r of Inl e \<Rightarrow> e = EFBIG | Inr u \<Rightarrow> sg_bytes sg' = sg_bytes sg @ buf_addrs v2p v (unat len))"
  using assms(2-)
proof (induction "unat len" arbitrary: sg v len rule: less_induct)
  case less
  show ?case
  proof (cases "len > 0")
    case False
    then have "len = 0" by (simp add: word_gt_0)
    then show ?thesis using less.prems by (subst append_pages.simps) simp
  next
    case True
    define n where "n = min len PAGE_SIZE"
    note st = page_step [OF True less.prems(4,5), folded n_def]
    have l: "length (sg_bytes sg) + unat n < 2 ^ 64" using less.prems(3) st(1) by simp
    have ap: "append_pages v2p sg (int (sg_nseg sg) - 1) v len =
        (case sglist_append_range sg (int (sg_nseg sg) - 1) (v2p v) n of
           None \<Rightarrow> None | Some (sg, ss, Inl e) \<Rightarrow> Some (sg, Inl e)
         | Some (sg, ss, Inr u) \<Rightarrow> append_pages v2p sg ss (v + n) (len - n))"
      using True by (subst append_pages.simps) (simp only: n_def Let_def if_True)
    have b1: "addrs (v2p v) (unat n) = buf_addrs v2p v (unat n)"
      using buf_addrs_page [OF assms(1), of v "unat n"] less.prems(4) st(1) by simp
    from append_range_ok [OF less.prems(1,2) l, of "v2p v"] show ?thesis
    proof (elim disjE exE conjE)
      fix sg1 assume s1: "sglist_append_range sg (int (sg_nseg sg) - 1) (v2p v) n = Some (sg1, int (sg_nseg sg1) - 1, Inr ())"
        and ra: "range_added sg (v2p v) n sg1"
      note r = ra [unfolded range_added_def]
      have "\<exists>sg' r. append_pages v2p sg1 (int (sg_nseg sg1) - 1) (v + n) (len - n) = Some (sg', r) \<and> grown sg1 sg' \<and>
          (case r of Inl e \<Rightarrow> e = EFBIG | Inr u \<Rightarrow> sg_bytes sg' = sg_bytes sg1 @ buf_addrs v2p (v + n) (unat (len - n)))"
      proof (cases "len - n = 0")
        case True
        then show ?thesis using r by (subst append_pages.simps) (simp add: grown_def)
      next
        case False
        have "unat (len - n) < unat len" "length (sg_bytes sg1) + unat (len - n) < 2 ^ 64"
          "unat (v + n) mod 4096 = 0" "unat (v + n) + unat (len - n) \<le> 2 ^ 64"
          using st False less.prems r b1 by auto
        then show ?thesis using r by (intro less.hyps) (auto simp: grown_def)
      qed
      then obtain sg' r' where x: "append_pages v2p sg1 (int (sg_nseg sg1) - 1) (v + n) (len - n) = Some (sg', r')" "grown sg1 sg'"
        "case r' of Inl e \<Rightarrow> e = EFBIG | Inr u \<Rightarrow> sg_bytes sg' = sg_bytes sg1 @ buf_addrs v2p (v + n) (unat (len - n))" by blast
      have "buf_addrs v2p v (unat len) = buf_addrs v2p v (unat n) @ buf_addrs v2p (v + n) (unat (len - n))"
        using buf_addrs_append [of v2p v "unat n" "unat (len - n)"] unat_mono st(2,3) by (simp add: word_le_nat_alt)
      then show ?thesis using ap s1 x r b1 grown_trans [of sg sg1 sg'] by (auto split: sum.splits)
    qed (use ap less.prems in auto)
  qed
qed

text \<open>The first page, which the buffer may enter in the middle.\<close>

lemma unat_page_off: "unat (seg_page_off x) = unat x mod 4096"
proof -
  have "(PAGE_SIZE - 1 :: u64) = mask 12" by (simp add: mask_eq_exp_minus_1)
  then have "seg_page_off x = take_bit 12 x" by (simp only: seg_page_off_def take_bit_eq_mask)
  then show ?thesis by (simp only: unsigned_take_bit_eq) (simp add: take_bit_eq_mod)
qed

lemma first_step:
  assumes "len \<noteq> 0" "unat v + unat len \<le> 2 ^ 64"
  defines "n \<equiv> min len (PAGE_SIZE - seg_page_off v)"
  shows "unat n = min (unat len) (4096 - unat v mod 4096)" "unat (len - n) = unat len - unat n" "n \<le> len" "0 < unat n"
    "len - n \<noteq> 0 \<Longrightarrow> unat (v + n) = unat v + unat n" "len - n \<noteq> 0 \<Longrightarrow> unat n = 4096 - unat v mod 4096"
    "len - n \<noteq> 0 \<Longrightarrow> unat (v + n) mod 4096 = 0"
proof -
  have m: "unat v mod 4096 < 4096" by simp
  have "unat (PAGE_SIZE - seg_page_off v) = 4096 - unat v mod 4096"
    using m by (subst unat_sub) (simp_all add: unat_page_off word_le_nat_alt)
  then show n: "unat n = min (unat len) (4096 - unat v mod 4096)" by (simp add: n_def min_def word_le_nat_alt)
  show le: "n \<le> len" by (simp add: n_def)
  then show s: "unat (len - n) = unat len - unat n" by (simp add: unat_sub)
  show "0 < unat n" using n m assms(1) by (simp add: unat_gt_0)
  assume nz: "len - n \<noteq> 0"
  then have "unat len > unat n" using s n by (metis unat_gt_0 zero_less_diff)
  then show eq: "unat n = 4096 - unat v mod 4096" using n by simp
  show add: "unat (v + n) = unat v + unat n" using \<open>unat len > unat n\<close> assms(2) by (intro unat_add_64) simp
  have "unat v + unat n = unat v div 4096 * 4096 + 4096" using eq m div_mult_mod_eq [of "unat v" 4096] by linarith
  then show "unat (v + n) mod 4096 = 0" using add by simp
qed

text \<open>The segment for the first page, in an empty list or after the last segment.\<close>

definition first_append :: "uk_sglist \<Rightarrow> u64 \<Rightarrow> u64 \<Rightarrow> (uk_sglist \<times> int \<times> (errno + unit)) option" where
  "first_append sg paddr n =
     (if sg_nseg sg = 0
      then if sg_segs sg = [] then None
        else Some (sg\<lparr>sg_segs := (sg_segs sg)[0 := \<lparr>ss_paddr = paddr, ss_len = n\<rparr>], sg_nseg := 1\<rparr>, 0, Inr ())
      else sglist_append_range sg (int (sg_nseg sg) - 1) paddr n)"

definition first_added :: "uk_sglist \<Rightarrow> u64 \<Rightarrow> u64 \<Rightarrow> uk_sglist \<Rightarrow> bool" where
  "first_added sg paddr len sg' \<longleftrightarrow> grown sg sg' \<and> 0 < sg_nseg sg' \<and> sg_bytes sg' = sg_bytes sg @ addrs paddr (unat len) \<and>
     sg_end sg' = paddr + len \<and> sg_nseg sg' \<le> sg_nseg sg + 1"

lemma append_buf_first:
  "len \<noteq> 0 \<Longrightarrow> sglist_append_buf v2p sg buf len =
   (let n = min len (PAGE_SIZE - seg_page_off buf) in
    case first_append sg (v2p buf) n of
      None \<Rightarrow> None | Some (sg, ss, Inl e) \<Rightarrow> Some (sg, Inl e)
    | Some (sg, ss, Inr u) \<Rightarrow> append_pages v2p sg ss (buf + n) (len - n))"
  by (simp add: sglist_append_buf_def first_append_def Let_def)

lemma first_append_ok:
  assumes wf: "sg_wf sg" "0 < sg_maxseg sg" and l: "length (sg_bytes sg) + unat n < 2 ^ 64"
  shows "first_append sg paddr n = Some (sg, int (sg_nseg sg) - 1, Inl EFBIG) \<and> sg_nseg sg = sg_maxseg sg \<or>
    (\<exists>sg'. first_append sg paddr n = Some (sg', int (sg_nseg sg') - 1, Inr ()) \<and> first_added sg paddr n sg')"
proof (cases "sg_nseg sg = 0")
  case True
  let ?sg = "sg\<lparr>sg_segs := (sg_segs sg)[0 := \<lparr>ss_paddr = paddr, ss_len = n\<rparr>], sg_nseg := 1\<rparr>"
  have ne: "sg_segs sg \<noteq> []" using wf by (auto simp: sg_wf_def)
  then obtain x xs where "sg_segs sg = x # xs" by (cases "sg_segs sg") auto
  then have "first_added sg paddr n ?sg"
    using wf True by (simp add: first_added_def grown_def sg_wf_def sg_end_def sg_bytes_def seg_bytes_def Let_def)
  then show ?thesis using True ne by (intro disjI2 exI [of _ ?sg]) (simp add: first_append_def)
next
  case False
  then have "first_append sg paddr n = sglist_append_range sg (int (sg_nseg sg) - 1) paddr n" by (simp add: first_append_def)
  then show ?thesis using append_range_ok [OF wf(1) _ l, of paddr] False by (auto simp: range_added_def first_added_def)
qed

lemma append_buf_ok:
  assumes v: "v2p_pages v2p" and wf: "sg_wf sg" "0 < sg_maxseg sg"
    and l: "length (sg_bytes sg) + unat len < 2 ^ 64" "unat buf + unat len \<le> 2 ^ 64"
  shows "\<exists>sg' r. sglist_append_buf v2p sg buf len = Some (sg', r) \<and> grown sg sg' \<and>
    (case r of Inl e \<Rightarrow> e = EFBIG | Inr u \<Rightarrow> sg_bytes sg' = sg_bytes sg @ buf_addrs v2p buf (unat len))"
proof (cases "len = 0")
  case True
  then show ?thesis using wf by (simp add: sglist_append_buf_def)
next
  case False
  define n where "n = min len (PAGE_SIZE - seg_page_off buf)"
  note st = first_step [OF False l(2), folded n_def]
  have ln: "length (sg_bytes sg) + unat n < 2 ^ 64" using l(1) st(1) by simp
  have "unat buf mod 4096 + unat n \<le> 4096" using st(1) mod_less_divisor [of 4096 "unat buf"] by simp
  then have b1: "addrs (v2p buf) (unat n) = buf_addrs v2p buf (unat n)" using buf_addrs_page [OF v] by simp
  note eq = append_buf_first [OF False, of v2p sg buf, unfolded Let_def, folded n_def]
  from first_append_ok [OF wf ln, of "v2p buf"] show ?thesis
  proof (elim disjE exE conjE)
    fix sg1 assume s1: "first_append sg (v2p buf) n = Some (sg1, int (sg_nseg sg1) - 1, Inr ())" and fa: "first_added sg (v2p buf) n sg1"
    note f = fa [unfolded first_added_def]
    have wf1: "sg_wf sg1" using f by (simp add: grown_def)
    have "\<exists>sg' r. append_pages v2p sg1 (int (sg_nseg sg1) - 1) (buf + n) (len - n) = Some (sg', r) \<and> grown sg1 sg' \<and>
        (case r of Inl e \<Rightarrow> e = EFBIG | Inr u \<Rightarrow> sg_bytes sg' = sg_bytes sg1 @ buf_addrs v2p (buf + n) (unat (len - n)))"
    proof (cases "len - n = 0")
      case True
      then show ?thesis using wf1 by (subst append_pages.simps) simp
    next
      case False
      have "length (sg_bytes sg1) + unat (len - n) < 2 ^ 64" "unat (buf + n) + unat (len - n) \<le> 2 ^ 64"
        using l f b1 st(2,5) False unat_mono [of n len] st(3) by (auto simp: word_le_nat_alt)
      then show ?thesis using f st(7) False by (intro append_pages_ok [OF v wf1]) auto
    qed
    then obtain sg' r' where x: "append_pages v2p sg1 (int (sg_nseg sg1) - 1) (buf + n) (len - n) = Some (sg', r')" "grown sg1 sg'"
      "case r' of Inl e \<Rightarrow> e = EFBIG | Inr u \<Rightarrow> sg_bytes sg' = sg_bytes sg1 @ buf_addrs v2p (buf + n) (unat (len - n))" by blast
    have "buf_addrs v2p buf (unat len) = buf_addrs v2p buf (unat n) @ buf_addrs v2p (buf + n) (unat (len - n))"
      using buf_addrs_append [of v2p buf "unat n" "unat (len - n)"] st(2,3) by (simp add: word_le_nat_alt)
    then show ?thesis using eq s1 x f b1 grown_trans [of sg sg1 sg'] by (auto split: sum.splits)
  qed (use eq wf in auto)
qed

lemma sglist_append_ok:
  assumes "v2p_pages v2p" "sg_wf sg" "0 < sg_maxseg sg" "length (sg_bytes sg) + unat len < 2 ^ 64" "unat buf + unat len \<le> 2 ^ 64"
  shows "\<exists>sg' r. uk_sglist_append v2p sg buf len = Some (sg', r) \<and> sg_wf sg' \<and>
    (case r of Inl e \<Rightarrow> e = EFBIG \<and> same_list sg sg'
     | Inr u \<Rightarrow> sg_bytes sg' = sg_bytes sg @ buf_addrs v2p buf (unat len) \<and> grown sg sg')"
proof -
  obtain sg1 r where x: "sglist_append_buf v2p sg buf len = Some (sg1, r)" "grown sg sg1"
    "case r of Inl e \<Rightarrow> e = EFBIG | Inr u \<Rightarrow> sg_bytes sg1 = sg_bytes sg @ buf_addrs v2p buf (unat len)"
    using append_buf_ok [OF assms] by blast
  note rs = restore_same [OF assms(2) x(2)]
  show ?thesis using x assms(2,3) rs same_list_wf [OF rs]
    by (cases r) (auto simp: uk_sglist_append_def Let_def grown_def)
qed

section \<open>Counting and building\<close>

text \<open>The segments that \<open>n\<close> pages from \<open>v\<close> on need after a page at \<open>prev\<close>.\<close>

fun segs_needed :: "(u64 \<Rightarrow> u64) \<Rightarrow> u64 \<Rightarrow> u64 \<Rightarrow> nat \<Rightarrow> nat" where
  "segs_needed v2p prev v 0 = 0"
| "segs_needed v2p prev v (Suc n) = (if prev + PAGE_SIZE \<noteq> v2p v then 1 else 0) + segs_needed v2p (v2p v) (v + PAGE_SIZE) n"

abbreviation npages :: "nat \<Rightarrow> nat" where "npages len \<equiv> (len + 4095) div 4096"

lemma npages_step: "0 < len \<Longrightarrow> npages len = Suc (npages (len - 4096))"
proof (cases "len \<le> 4096")
  case False
  then have "len + 4095 = (len - 4096 + 4095) + 4096" by simp
  then show ?thesis by (metis add_diff_cancel_right' div_add_self2 plus_1_eq_Suc add.commute zero_neq_numeral)
qed (auto simp: div_eq_0_iff intro!: div_nat_eqI)

lemma count_loop_ok:
  assumes "unat v + len + 4096 \<le> 2 ^ 64" "unat e = unat v + len"
  shows "count_loop v2p v e prev c = Some (c + segs_needed v2p prev v (npages len))"
  using assms
proof (induction len arbitrary: v prev c rule: less_induct)
  case (less len)
  show ?case
  proof (cases "len = 0")
    case True
    then have "\<not> v < e" using less.prems by (simp add: word_less_nat_alt)
    then show ?thesis using True by (subst count_loop.simps) simp
  next
    case False
    then have lt: "v < e" using less.prems by (simp add: word_less_nat_alt)
    have v: "unat (v + PAGE_SIZE) = unat v + 4096" using less.prems False by (simp add: unat_add_64)
    let ?c = "if prev + PAGE_SIZE \<noteq> v2p v then c + 1 else c"
    have "count_loop v2p (v + PAGE_SIZE) e (v2p v) ?c = Some (?c + segs_needed v2p (v2p v) (v + PAGE_SIZE) (npages (len - 4096)))"
    proof (cases "len \<le> 4096")
      case True
      then have "\<not> v + PAGE_SIZE < e" using less.prems v by (simp add: word_less_nat_alt)
      then show ?thesis using True by (subst count_loop.simps) simp
    next
      case l: False
      then show ?thesis using less.prems v by (intro less.IH) auto
    qed
    then show ?thesis using lt npages_step [of len] False by (subst count_loop.simps) (simp add: Let_def)
  qed
qed

lemma append_pages_needed:
  assumes "v2p_pages v2p" "sg_wf sg" "0 < sg_nseg sg" "length (sg_bytes sg) + unat len < 2 ^ 64" "unat v mod 4096 = 0" "unat v + unat len \<le> 2 ^ 64"
    and "0 < len \<Longrightarrow> sg_end sg = prev + PAGE_SIZE" "sg_nseg sg + segs_needed v2p prev v (npages (unat len)) \<le> sg_maxseg sg"
  shows "\<exists>sg'. append_pages v2p sg (int (sg_nseg sg) - 1) v len = Some (sg', Inr ()) \<and>
    sg_nseg sg' = sg_nseg sg + segs_needed v2p prev v (npages (unat len))"
  using assms(2-)
proof (induction "unat len" arbitrary: sg v len prev rule: less_induct)
  case less
  show ?case
  proof (cases "len > 0")
    case False
    then have "len = 0" by (simp add: word_gt_0)
    then show ?thesis by (subst append_pages.simps) simp
  next
    case True
    define n where "n = min len PAGE_SIZE"
    note st = page_step [OF True less.prems(4,5), folded n_def]
    have l: "length (sg_bytes sg) + unat n < 2 ^ 64" using less.prems(3) st(1) by simp
    have np: "npages (unat len) = Suc (npages (unat (len - n)))"
      using npages_step [of "unat len"] True st(1,2) by (auto simp: word_less_nat_alt min_def)
    have ap: "append_pages v2p sg (int (sg_nseg sg) - 1) v len =
        (case sglist_append_range sg (int (sg_nseg sg) - 1) (v2p v) n of
           None \<Rightarrow> None | Some (sg, ss, Inl e) \<Rightarrow> Some (sg, Inl e)
         | Some (sg, ss, Inr u) \<Rightarrow> append_pages v2p sg ss (v + n) (len - n))"
      using True by (subst append_pages.simps) (simp only: n_def Let_def if_True)
    have need: "segs_needed v2p prev v (npages (unat len)) =
        (if sg_end sg \<noteq> v2p v then 1 else 0) + segs_needed v2p (v2p v) (v + PAGE_SIZE) (npages (unat (len - n)))"
      using np less.prems(6) True by simp
    then obtain sg1 where s1: "sglist_append_range sg (int (sg_nseg sg) - 1) (v2p v) n = Some (sg1, int (sg_nseg sg1) - 1, Inr ())"
      and ra: "range_added sg (v2p v) n sg1"
      using append_range_ok [OF less.prems(1,2) l, of "v2p v"] less.prems(7) by auto
    note r = ra [unfolded range_added_def]
    have need1: "sg_nseg sg1 + segs_needed v2p (v2p v) (v + PAGE_SIZE) (npages (unat (len - n))) =
        sg_nseg sg + segs_needed v2p prev v (npages (unat len))" using need r by simp
    have mx: "sg_maxseg sg1 = sg_maxseg sg" "sg_wf sg1" using r by (auto simp: grown_def)
    have "\<exists>sg'. append_pages v2p sg1 (int (sg_nseg sg1) - 1) (v + n) (len - n) = Some (sg', Inr ()) \<and>
        sg_nseg sg' = sg_nseg sg1 + segs_needed v2p (v2p v) (v + PAGE_SIZE) (npages (unat (len - n)))"
    proof (cases "len - n = 0")
      case True
      then show ?thesis by (subst append_pages.simps) simp
    next
      case False
      note n = st(5,6) [OF False]
      have "unat n \<le> unat len" using st(3) by (simp add: word_le_nat_alt)
      then have x: "unat (len - n) < unat len" "length (sg_bytes sg1) + unat (len - n) < 2 ^ 64"
        "unat (v + n) mod 4096 = 0" "unat (v + n) + unat (len - n) \<le> 2 ^ 64"
        using st(2,4) n less.prems(3,4,5) r by simp_all
      have y: "sg_end sg1 = v2p v + PAGE_SIZE" using r n(2) by simp
      show ?thesis unfolding n(2) [symmetric]
        by (rule less.hyps [OF x(1) mx(2) _ x(2,3,4)]) (use r y need1 less.prems(7) mx n(2) in auto)
    qed
    then show ?thesis using ap s1 need1 by auto
  qed
qed

lemma unat_trunc: "unat (trunc_page x) = unat x div 4096 * 4096"
proof -
  have "(PAGE_SIZE - 1 :: u64) = mask 12" by (simp add: mask_eq_exp_minus_1)
  then have "trunc_page x = x AND NOT (mask 12)" by (simp only: trunc_page_def)
  then show ?thesis by (simp add: unat_and_not_mask)
qed

text \<open>The segments a buffer needs in an empty list.\<close>

definition buf_segs :: "(u64 \<Rightarrow> u64) \<Rightarrow> u64 \<Rightarrow> nat \<Rightarrow> nat" where
  "buf_segs v2p buf len =
     Suc (segs_needed v2p (v2p (trunc_page buf)) (trunc_page buf + PAGE_SIZE) (npages (unat buf mod 4096 + len - 4096)))"

lemma sglist_count_ok:
  assumes "len \<noteq> 0" "unat buf + unat len + 4096 \<le> 2 ^ 64"
  shows "uk_sglist_count v2p buf len = Some (buf_segs v2p buf (unat len))"
proof -
  define t where "t = trunc_page buf"
  have t: "unat t + unat buf mod 4096 = unat buf" by (simp add: t_def unat_trunc)
  have tp: "unat (t + PAGE_SIZE) = unat t + 4096" using t assms unat_gt_0 [of len] by (simp add: unat_add_64)
  have e: "unat (buf + len) = unat buf + unat len" using assms by (intro unat_add_64) auto
  have "count_loop v2p (t + PAGE_SIZE) (buf + len) (v2p t) 1 =
      Some (1 + segs_needed v2p (v2p t) (t + PAGE_SIZE) (npages (unat buf mod 4096 + unat len - 4096)))"
  proof (cases "unat buf mod 4096 + unat len \<le> 4096")
    case True
    then have "\<not> t + PAGE_SIZE < buf + len" using tp e t by (simp add: word_less_nat_alt)
    then show ?thesis using True by (subst count_loop.simps) simp
  next
    case False
    then show ?thesis using tp e t assms(2) by (intro count_loop_ok) auto
  qed
  then show ?thesis using assms(1) by (simp add: uk_sglist_count_def buf_segs_def t_def Let_def)
qed

lemma append_empty_fits:
  assumes v: "v2p_pages v2p" and wf: "sg_wf sg" "sg_nseg sg = 0" and m: "buf_segs v2p buf (unat len) \<le> sg_maxseg sg"
    and l: "len \<noteq> 0" "unat buf + unat len + 4096 \<le> 2 ^ 64"
  shows "\<exists>sg'. sglist_append_buf v2p sg buf len = Some (sg', Inr ()) \<and> sg_nseg sg' = buf_segs v2p buf (unat len)"
proof -
  define n where "n = min len (PAGE_SIZE - seg_page_off buf)"
  define t where "t = trunc_page buf"
  have le: "unat buf + unat len \<le> 2 ^ 64" using l by simp
  note st = first_step [OF l(1) le, folded n_def]
  note eq = append_buf_first [OF l(1), of v2p sg buf, unfolded Let_def, folded n_def]
  have t: "unat t + unat buf mod 4096 = unat buf" by (simp add: t_def unat_trunc)
  have b0: "sg_bytes sg = []" using wf by (simp add: sg_bytes_def)
  have pos: "0 < sg_maxseg sg" using m by (simp add: buf_segs_def)
  have ln: "length (sg_bytes sg) + unat n < 2 ^ 64" using st(1) l unat_lt_64 [of len] b0 by simp
  obtain sg1 where s1: "first_append sg (v2p buf) n = Some (sg1, int (sg_nseg sg1) - 1, Inr ())" "first_added sg (v2p buf) n sg1"
    using first_append_ok [OF wf(1) pos ln, of "v2p buf"] wf(2) pos by auto
  note f = s1(2) [unfolded first_added_def]
  have one: "sg_nseg sg1 = 1" using f wf(2) by simp
  have wf1: "sg_wf sg1" "sg_maxseg sg1 = sg_maxseg sg" using f by (auto simp: grown_def)
  have bt: "of_nat (unat buf mod 4096) + t = buf" using arg_cong [OF t, of "of_nat :: nat \<Rightarrow> u64"] by (simp add: add.commute)
  have "\<exists>sg'. append_pages v2p sg1 (int (sg_nseg sg1) - 1) (buf + n) (len - n) = Some (sg', Inr ()) \<and>
      sg_nseg sg' = buf_segs v2p buf (unat len)"
  proof (cases "len - n = 0")
    case True
    then have "unat len \<le> 4096 - unat buf mod 4096" using st(1) by auto
    then have "npages (unat buf mod 4096 + unat len - 4096) = 0" using mod_less_divisor [of 4096 "unat buf"] by simp
    then show ?thesis using True one by (subst append_pages.simps) (simp add: buf_segs_def)
  next
    case False
    note n = st(5,6,7) [OF False]
    have m4: "unat buf mod 4096 < 4096" by simp
    have nw: "n = PAGE_SIZE - of_nat (unat buf mod 4096)" using n(2) m4 by (simp add: word_unat_eq_iff unat_sub_no_ovf unat_of_nat)
    have bn: "buf + n = t + PAGE_SIZE" unfolding nw using bt by (simp add: algebra_simps)
    have "v2p (t + of_nat (unat buf mod 4096)) = v2p t + of_nat (unat buf mod 4096)"
      using v m4 by (auto simp: v2p_pages_def t_def unat_trunc)
    then have en: "sg_end sg1 = v2p t + PAGE_SIZE" using f bt nw by (simp add: algebra_simps)
    have np: "unat (len - n) = unat buf mod 4096 + unat len - 4096" using st(2) n(2) m4 by simp
    have "length (sg_bytes sg1) + unat (len - n) < 2 ^ 64" using f b0 st(2,3) l by (simp add: word_le_nat_alt)
    moreover have "unat (buf + n) + unat (len - n) \<le> 2 ^ 64" using n(1) st(2,3) l(2) unfolding word_le_nat_alt by arith
    moreover have "sg_nseg sg1 + segs_needed v2p (v2p t) (buf + n) (npages (unat (len - n))) = buf_segs v2p buf (unat len)"
      using one np bn by (simp add: buf_segs_def t_def)
    ultimately show ?thesis
      using append_pages_needed [OF v wf1(1) _ _ n(3), of "len - n" "v2p t"] en m wf1(2) f by auto
  qed
  then show ?thesis using eq s1 by simp
qed

end
