(* ===== verification/SglistSlice.thy ===== *)
theory SglistSlice
  imports SglistOk
begin

text \<open>Slices of scatter/gather lists and appending a part of one list to another.\<close>

section \<open>Trimming segments\<close>

definition seg_front :: "u64 \<Rightarrow> uk_sglist_seg \<Rightarrow> uk_sglist_seg" where
  "seg_front f s = \<lparr>ss_paddr = ss_paddr s + f, ss_len = ss_len s - f\<rparr>"

definition seg_back :: "u64 \<Rightarrow> uk_sglist_seg \<Rightarrow> uk_sglist_seg" where
  "seg_back l s = s\<lparr>ss_len := ss_len s - l\<rparr>"

lemma seg_eta [simp]: "\<lparr>ss_paddr = ss_paddr s, ss_len = ss_len s\<rparr> = (s :: uk_sglist_seg)"
  by (cases s) simp

lemma seg_trim_0 [simp]: "seg_front 0 s = s" "seg_back 0 s = s"
  by (simp_all add: seg_front_def seg_back_def)

lemma seg_front_bytes: "unat f \<le> unat (ss_len s) \<Longrightarrow> seg_bytes (seg_front f s) = drop (unat f) (seg_bytes s)"
  by (simp add: seg_bytes_def seg_front_def drop_addrs unat_sub_no_ovf)

lemma seg_back_bytes:
  "unat l \<le> unat (ss_len s) \<Longrightarrow> seg_bytes (seg_back l s) = take (unat (ss_len s) - unat l) (seg_bytes s)"
  by (simp add: seg_bytes_def seg_back_def take_addrs unat_sub_no_ovf)

lemma segs_front:
  assumes "xs \<noteq> []" "unat f \<le> unat (ss_len (xs ! 0))"
  shows "segs_bytes (xs[0 := seg_front f (xs ! 0)]) = drop (unat f) (segs_bytes xs)"
  using assms by (cases xs) (simp_all add: seg_front_bytes)

lemma segs_back:
  assumes "xs \<noteq> []" "unat l \<le> unat (ss_len (xs ! (length xs - 1)))"
  shows "segs_bytes (xs[length xs - 1 := seg_back l (xs ! (length xs - 1))]) = take (length (segs_bytes xs) - unat l) (segs_bytes xs)"
  using assms by (cases xs rule: rev_cases) (simp_all add: seg_back_bytes)

lemma segs_trim:
  assumes "xs \<noteq> []" "unat f \<le> unat (ss_len (xs ! 0))" "unat l \<le> unat (ss_len (xs ! (length xs - 1)))"
    and "length xs = 1 \<Longrightarrow> unat f + unat l \<le> unat (ss_len (xs ! 0))"
  defines "ys \<equiv> xs[0 := seg_front f (xs ! 0)]"
  shows "segs_bytes (ys[length xs - 1 := seg_back l (ys ! (length xs - 1))]) =
    take (length (segs_bytes xs) - unat f - unat l) (drop (unat f) (segs_bytes xs))"
proof -
  have "unat l \<le> unat (ss_len (ys ! (length ys - 1)))"
  proof (cases "length xs = 1")
    case True
    then show ?thesis using assms(1,2,4) by (cases xs) (simp_all add: ys_def seg_front_def unat_sub_no_ovf)
  next
    case False
    then have "length xs - 1 \<noteq> 0" using assms(1) by (cases xs) auto
    then show ?thesis using assms(3) by (simp add: ys_def)
  qed
  moreover have "ys \<noteq> []" using assms(1) by (simp add: ys_def)
  ultimately have "segs_bytes (ys[length ys - 1 := seg_back l (ys ! (length ys - 1))]) =
      take (length (segs_bytes ys) - unat l) (segs_bytes ys)" by (intro segs_back)
  then show ?thesis using segs_front [OF assms(1,2)] by (simp add: ys_def)
qed

section \<open>The scan\<close>

abbreviation blen :: "uk_sglist_seg list \<Rightarrow> nat \<Rightarrow> nat" where
  "blen xs k \<equiv> length (segs_bytes (take k xs))"

lemma blen_Suc: "k < length xs \<Longrightarrow> blen xs (Suc k) = blen xs k + unat (ss_len (xs ! k))"
  by (simp add: take_Suc_conv_app_nth)

lemma blen_mono: "j \<le> k \<Longrightarrow> blen xs j \<le> blen xs k"
proof -
  assume "j \<le> k"
  then have "take k xs = take j xs @ take (k - j) (drop j xs)" by (metis le_add_diff_inverse take_add)
  then show ?thesis by simp
qed

definition first_at :: "uk_sglist_seg list \<Rightarrow> u64 \<Rightarrow> nat \<Rightarrow> u64 \<Rightarrow> bool" where
  "first_at xs offset fseg foffs \<longleftrightarrow>
     blen xs fseg \<le> unat offset \<and> unat offset < blen xs (Suc fseg) \<and> unat foffs = unat offset - blen xs fseg"

definition scan_found :: "uk_sglist_seg list \<Rightarrow> u64 \<Rightarrow> u64 \<Rightarrow> u64 \<times> nat \<times> nat \<times> u64 \<times> u64 \<Rightarrow> bool" where
  "scan_found xs offset fin r \<longleftrightarrow>
     (case r of (space, count, fseg, foffs, loffs) \<Rightarrow>
        0 < count \<and> fseg + count \<le> length xs \<and> first_at xs offset fseg foffs \<and>
        blen xs (fseg + count - 1) < unat fin \<and> unat fin \<le> blen xs (fseg + count) \<and>
        unat space = blen xs (fseg + count) \<and> unat loffs = blen xs (fseg + count) - unat fin)"

lemma scan_foundD:
  assumes "scan_found xs offset fin (space, count, fseg, foffs, loffs)"
  shows "0 < count" "fseg + count \<le> length xs" "blen xs fseg \<le> unat offset" "unat offset < blen xs (Suc fseg)"
    "unat foffs = unat offset - blen xs fseg" "blen xs (fseg + count - 1) < unat fin" "unat fin \<le> blen xs (fseg + count)"
    "unat space = blen xs (fseg + count)" "unat loffs = blen xs (fseg + count) - unat fin"
  using assms by (auto simp: scan_found_def first_at_def)

lemma slice_scan_ok:
  assumes "blen xs (length xs) < 2 ^ 64" "unat offset < unat fin" "i \<le> length xs" "unat space = blen xs i"
    and "count = 0 \<and> blen xs i \<le> unat offset \<or> 0 < count \<and> fseg + count = i \<and> first_at xs offset fseg foffs \<and> blen xs i < unat fin"
  shows "if unat fin \<le> blen xs (length xs) then scan_found xs offset fin (slice_scan offset fin (drop i xs) i space count fseg foffs)
    else unat (fst (slice_scan offset fin (drop i xs) i space count fseg foffs)) = blen xs (length xs)"
  using assms(3-)
proof (induction "length xs - i" arbitrary: i space count fseg foffs)
  case 0
  then show ?case using assms(2) by auto
next
  case (Suc n)
  then have i: "i < length xs" by simp
  let ?s = "xs ! i"
  have sp: "unat (space + ss_len ?s) = blen xs (Suc i)"
    using blen_Suc [OF i] blen_mono [of "Suc i" "length xs" xs] i Suc.prems(2) assms(1) by (subst unat_add_64) simp_all
  have d: "drop i xs = ?s # drop (Suc i) xs" using i by (simp add: Cons_nth_drop_Suc)
  show ?case
  proof (cases "unat offset < blen xs (Suc i)")
    case False
    then have c0: "count = 0" using Suc.prems(3) blen_mono [of "Suc fseg" "Suc i" xs] by (auto simp: first_at_def)
    have "slice_scan offset fin (drop i xs) i space count fseg foffs = slice_scan offset fin (drop (Suc i) xs) (Suc i) (space + ss_len ?s) count fseg foffs"
      using False sp by (simp add: d word_less_nat_alt Let_def)
    moreover have "blen xs (Suc i) \<le> unat offset" using False by simp
    ultimately show ?thesis using Suc.hyps(1) [of "Suc i" "space + ss_len ?s" count fseg foffs] Suc.hyps(2) i sp unfolding c0
      by (simp del: take_all_iff)
  next
    case True
    define fs where "fs = (if count = 0 then i else fseg)"
    define fo where "fo = (if count = 0 then offset - space else foffs)"
    have fa: "first_at xs offset fs fo"
      using Suc.prems(2,3) True by (auto simp: first_at_def fs_def fo_def unat_sub_no_ovf)
    have fc: "fs + Suc count = Suc i" using Suc.prems(3) by (auto simp: fs_def)
    have lt: "blen xs i < unat fin" using Suc.prems(3) assms(2) by auto
    have "slice_scan offset fin (drop i xs) i space count fseg foffs =
        (if space + ss_len ?s \<ge> fin then (space + ss_len ?s, Suc count, fs, fo, space + ss_len ?s - fin)
         else slice_scan offset fin (drop (Suc i) xs) (Suc i) (space + ss_len ?s) (Suc count) fs fo)"
      using True sp by (simp add: d word_less_nat_alt Let_def fs_def fo_def)
    moreover have "scan_found xs offset fin (space + ss_len ?s, Suc count, fs, fo, space + ss_len ?s - fin)"
      if "unat fin \<le> blen xs (Suc i)"
      using that fa fc lt sp i by (simp add: scan_found_def unat_sub_no_ovf)
    moreover have "unat fin \<le> blen xs (length xs)" if "unat fin \<le> blen xs (Suc i)"
      using that blen_mono [of "Suc i" "length xs" xs] i by simp
    ultimately show ?thesis
      using Suc.hyps(1) [of "Suc i" "space + ss_len ?s" "Suc count" fs fo] Suc.hyps(2) i sp fa fc
      by (auto simp: word_le_nat_alt)
  qed
qed

text \<open>The segments found, trimmed, describe the range.\<close>

lemma scan_bytes:
  assumes f: "scan_found xs offset fin (space, count, fseg, foffs, loffs)" and o: "unat offset < unat fin"
  defines "ys \<equiv> take count (drop fseg xs)"
  defines "zs \<equiv> ys[0 := seg_front foffs (ys ! 0)]"
  shows "segs_bytes (zs[count - 1 := seg_back loffs (zs ! (count - 1))]) = take (unat fin - unat offset) (drop (unat offset) (segs_bytes xs))"
proof -
  note s = scan_foundD [OF f]
  have len: "length ys = count" using s by (simp add: ys_def)
  have y0: "ys ! 0 = xs ! fseg" "ys ! (count - 1) = xs ! (fseg + count - 1)" using s by (auto simp: ys_def)
  have b1: "blen xs (Suc fseg) = blen xs fseg + unat (ss_len (xs ! fseg))" using s by (intro blen_Suc) auto
  have b2: "blen xs (fseg + count) = blen xs (fseg + count - 1) + unat (ss_len (xs ! (fseg + count - 1)))"
    using s(1,2) blen_Suc [of "fseg + count - 1" xs] by simp
  have B: "segs_bytes ys = take (blen xs (fseg + count) - blen xs fseg) (drop (blen xs fseg) (segs_bytes xs))"
  proof -
    have "take (fseg + count) xs = take fseg xs @ ys" by (simp add: ys_def take_add)
    then have "segs_bytes ys = drop (blen xs fseg) (segs_bytes (take (fseg + count) xs))" by simp
    moreover have "segs_bytes xs = segs_bytes (take (fseg + count) xs) @ segs_bytes (drop (fseg + count) xs)"
      by (metis append_take_drop_id segs_bytes_append)
    ultimately show ?thesis by simp
  qed
  have lb: "length (segs_bytes ys) = blen xs (fseg + count) - blen xs fseg"
    by (simp add: ys_def take_add)
  have "segs_bytes (zs[length ys - 1 := seg_back loffs (zs ! (length ys - 1))]) =
      take (length (segs_bytes ys) - unat foffs - unat loffs) (drop (unat foffs) (segs_bytes ys))"
    unfolding zs_def
  proof (rule segs_trim)
    show "ys \<noteq> []" using len s by auto
    show "unat foffs \<le> unat (ss_len (ys ! 0))" using s b1 y0 by simp
    show "unat loffs \<le> unat (ss_len (ys ! (length ys - 1)))" unfolding len y0(2) s(9) b2 using s(6) by arith
    show "unat foffs + unat loffs \<le> unat (ss_len (ys ! 0))" if "length ys = 1" using that s b1 y0 len o by simp
  qed
  also have "\<dots> = take (unat fin - unat offset) (drop (unat offset) (segs_bytes xs))"
  proof -
    have "blen xs (fseg + count) - blen xs fseg - unat foffs - unat loffs = unat fin - unat offset"
      "unat foffs + blen xs fseg = unat offset" "unat fin - unat offset \<le> blen xs (fseg + count) - blen xs fseg - unat foffs"
      using s o by auto
    then show ?thesis unfolding lb unfolding B by (simp add: drop_take min_absorb2 min.absorb1)
  qed
  finally show ?thesis by (simp add: len)
qed

section \<open>Slices\<close>

lemma alloc_target:
  assumes "count < 65536" "uk_sglist_alloc malloc uninit h count = (h', Some (p, sg))"
  shows "sg_wf sg" "sg_nseg sg = 0" "sg_maxseg sg = count" "sg_refs sg = 1"
  using assms by (auto simp: uk_sglist_alloc_def uk_sglist_init_def uk_refcount_init_def sg_wf_def split: prod.splits if_splits)

lemma alloc_None: "uk_sglist_alloc malloc uninit h count = (h', None) \<Longrightarrow> \<exists>n. snd (malloc h n) = 0"
  by (auto simp: uk_sglist_alloc_def split: prod.splits if_splits) (metis snd_conv)

lemma target_list_ok:
  assumes "target_list malloc uninit h given count = (h', Inr (p, sg))" "count < 65536" "\<forall>q s. given = Some (q, s) \<longrightarrow> sg_wf s"
  shows "sg_wf sg" "count \<le> sg_maxseg sg" "sg_nseg sg = 0"
  using assms(1,3) alloc_target [OF assms(2), of malloc uninit h]
  by (auto simp: target_list_def split: option.splits prod.splits if_splits)

lemma move_segs_front: "n \<le> length src \<Longrightarrow> n \<le> length dst \<Longrightarrow> take n (move_segs dst 0 src n) = take n src \<and> length (move_segs dst 0 src n) = length dst"
  by (auto simp: move_segs_def)

lemma take_list_update2: "i < n \<Longrightarrow> take n (xs[i := v]) = (take n xs)[i := v]"
  by (simp add: take_update_swap)

text \<open>What the fixed-up copy of the segments describes.\<close>

lemma slice_segs_bytes:
  assumes f: "scan_found xs offset fin (space, count, fseg, foffs, loffs)" and o: "unat offset < unat fin"
    and x: "xs = take nseg all" and d: "count \<le> length dst"
  defines "segs \<equiv> move_segs dst 0 (drop fseg all) count"
  defines "segs1 \<equiv> (if foffs \<noteq> 0 then segs[0 := \<lparr>ss_paddr = ss_paddr (segs ! 0) + foffs, ss_len = ss_len (segs ! 0) - foffs\<rparr>] else segs)"
  defines "segs2 \<equiv> (if loffs \<noteq> 0 then segs1[count - 1 := (segs1 ! (count - 1))\<lparr>ss_len := ss_len (segs1 ! (count - 1)) - loffs\<rparr>] else segs1)"
  shows "segs_bytes (take count segs2) = take (unat fin - unat offset) (drop (unat offset) (segs_bytes xs))" "length segs2 = length dst"
proof -
  note s = scan_foundD [OF f]
  let ?ys = "take count (drop fseg xs)"
  have c: "fseg + count \<le> length all" "fseg + count \<le> nseg" using s x by auto
  have m: "take count segs = ?ys" "length segs = length dst"
    using move_segs_front [of count "drop fseg all" dst] c d by (auto simp: segs_def x take_drop min_def)
  have nth0: "segs ! 0 = ?ys ! 0" using m(1) s(1) by (metis nth_take)
  have e1: "segs1 = segs[0 := seg_front foffs (?ys ! 0)]" by (simp add: segs1_def seg_front_def nth0 [symmetric])
  have t1: "take count segs1 = ?ys[0 := seg_front foffs (?ys ! 0)]" using m(1) s(1) by (simp add: e1 take_list_update2)
  have nthc: "segs1 ! (count - 1) = ?ys[0 := seg_front foffs (?ys ! 0)] ! (count - 1)"
    using t1 s(1) by (metis diff_less nth_take zero_less_one)
  have e2: "segs2 = segs1[count - 1 := seg_back loffs (segs1 ! (count - 1))]" by (simp add: segs2_def seg_back_def)
  have "take count segs2 = (?ys[0 := seg_front foffs (?ys ! 0)])[count - 1 := seg_back loffs (?ys[0 := seg_front foffs (?ys ! 0)] ! (count - 1))]"
    using t1 s(1) nthc by (simp add: e2 take_list_update2)
  then show "segs_bytes (take count segs2) = take (unat fin - unat offset) (drop (unat offset) (segs_bytes xs))"
    using scan_bytes [OF f o] by simp
  show "length segs2 = length dst" using m(2) by (simp add: e2 e1)
qed

text \<open>A slice that lies inside the list.\<close>

lemma sglist_slice_ok:
  assumes wf: "sg_wf original" and l: "length (sg_bytes original) < 2 ^ 64" and ne: "len \<noteq> 0"
    and le: "unat offset + unat len \<le> length (sg_bytes original)" and g: "\<forall>q s. given = Some (q, s) \<longrightarrow> sg_wf s"
  shows "case uk_sglist_slice malloc uninit h original given offset len of
      (h', out, Inl e) \<Rightarrow> out = given \<and> e \<in> {ENOMEM, EFBIG, EINVAL} \<and> (given = None \<longrightarrow> e = ENOMEM \<and> (\<exists>n. snd (malloc h n) = 0))
    | (h', out, Inr u) \<Rightarrow> \<exists>p sg. out = Some (p, sg) \<and> sg_wf sg \<and> sg_bytes sg = take (unat len) (drop (unat offset) (sg_bytes original))"
proof -
  define xs where "xs = take (sg_nseg original) (sg_segs original)"
  define fin where "fin = offset + len"
  have fin: "unat fin = unat offset + unat len" using le l by (simp add: fin_def unat_add_64)
  then have o: "unat offset < unat fin" using ne by (simp add: unat_gt_0)
  have b: "sg_bytes original = segs_bytes xs" by (simp add: sg_bytes_def xs_def)
  obtain space count fseg foffs loffs where sc: "slice_scan offset fin xs 0 0 0 0 0 = (space, count, fseg, foffs, loffs)"
    by (metis prod_cases5)
  have f: "scan_found xs offset fin (space, count, fseg, foffs, loffs)"
    using slice_scan_ok [of xs offset fin 0 0 0 0 0] l b o fin le sc by simp
  note s = scan_foundD [OF f]
  have "\<not> space < fin" using s by (simp add: word_less_nat_alt)
  have c: "count < 65536" using s(2) wf by (simp add: xs_def sg_wf_def)
  show ?thesis
  proof (cases "target_list malloc uninit h given count")
    case (Pair h' r)
    show ?thesis
    proof (cases r)
      case (Inl e)
      have "uk_sglist_slice malloc uninit h original given offset len = (h', given, Inl e)"
        using ne sc \<open>\<not> space < fin\<close> Pair Inl by (simp add: uk_sglist_slice_def fin_def [symmetric] xs_def [symmetric] Let_def)
      then show ?thesis using Pair Inl by (auto simp: target_list_def dest: alloc_None split: option.splits prod.splits if_splits)
    next
      case (Inr ps)
      obtain p sg where ps: "ps = (p, sg)" by (cases ps) blast
      note t = target_list_ok [OF Pair [unfolded Inr ps] c g]
      have d: "count \<le> length (sg_segs sg)" using t by (simp add: sg_wf_def)
      note sb = slice_segs_bytes [OF f o xs_def d]
      show ?thesis using ne sc \<open>\<not> space < fin\<close> Pair Inr ps t sb fin b
        by (simp add: uk_sglist_slice_def fin_def [symmetric] xs_def [symmetric] Let_def sg_wf_def sg_bytes_def)
    qed
  qed
qed

section \<open>Appending a part of a list\<close>

lemma append_segs_ok:
  assumes "sg_wf sg" "0 < sg_nseg sg" "length (sg_bytes sg) + unat len < 2 ^ 64" "len \<noteq> 0"
  shows "\<exists>sg' rest err. append_segs sg (int (sg_nseg sg) - 1) segs offset len e0 = Some (sg', rest, err) \<and> grown sg sg' \<and>
    (rest = 0 \<longrightarrow> err = Inr () \<and> unat offset + unat len \<le> length (segs_bytes segs) \<and>
       sg_bytes sg' = sg_bytes sg @ take (unat len) (drop (unat offset) (segs_bytes segs))) \<and>
    (unat offset + unat len \<le> length (segs_bytes segs) \<and> sg_nseg sg + length segs \<le> sg_maxseg sg \<longrightarrow> rest = 0)"
  using assms
proof (induction segs arbitrary: sg offset len e0)
  case Nil
  then show ?case by (auto simp: unat_gt_0 intro!: grown_refl)
next
  case (Cons s segs)
  show ?case
  proof (cases "offset \<ge> ss_len s")
    case True
    then have u: "unat (offset - ss_len s) = unat offset - unat (ss_len s)" "unat (ss_len s) \<le> unat offset"
      by (simp_all add: unat_sub word_le_nat_alt)
    then have "append_segs sg (int (sg_nseg sg) - 1) (s # segs) offset len e0 = append_segs sg (int (sg_nseg sg) - 1) segs (offset - ss_len s) len e0"
      using True by simp
    then show ?thesis using Cons.IH [OF Cons.prems, of "offset - ss_len s" e0] u by auto
  next
    case False
    then have lt: "unat offset < unat (ss_len s)" by (simp add: word_le_nat_alt not_le)
    define n where "n = (if ss_len s - offset > len then len else ss_len s - offset)"
    have n: "unat n = min (unat len) (unat (ss_len s) - unat offset)" "n \<le> len"
      using lt by (auto simp: n_def min_def word_less_nat_alt word_le_nat_alt unat_sub_no_ovf)
    have ln: "unat (len - n) = unat len - unat n" "unat n \<le> unat len" using n(2) by (simp_all add: unat_sub word_le_nat_alt)
    have l: "length (sg_bytes sg) + unat n < 2 ^ 64" using n(1) Cons.prems(3) by simp
    have eq: "append_segs sg (int (sg_nseg sg) - 1) (s # segs) offset len e0 =
        (case sglist_append_range sg (int (sg_nseg sg) - 1) (ss_paddr s + offset) n of
           None \<Rightarrow> None | Some (sg, ss, Inl e) \<Rightarrow> Some (sg, len, Inl e)
         | Some (sg, ss, Inr u) \<Rightarrow> if len - n = 0 then Some (sg, 0, Inr ()) else append_segs sg ss segs 0 (len - n) (Inr ()))"
      using False by (simp only: append_segs.simps if_False n_def Let_def)
    have ad: "addrs (ss_paddr s + offset) (unat n) = take (unat n) (drop (unat offset) (seg_bytes s))"
      using n(1) by (simp add: seg_bytes_def drop_addrs take_addrs min.commute)
    from append_range_ok [OF Cons.prems(1,2) l, of "ss_paddr s + offset"] show ?thesis
    proof (elim disjE exE conjE)
      fix sg1 assume s1: "sglist_append_range sg (int (sg_nseg sg) - 1) (ss_paddr s + offset) n = Some (sg1, int (sg_nseg sg1) - 1, Inr ())"
        and ra: "range_added sg (ss_paddr s + offset) n sg1"
      note rg = ra [unfolded range_added_def]
      have wf1: "sg_wf sg1" "sg_maxseg sg1 = sg_maxseg sg" "grown sg sg1" "0 < sg_nseg sg1" "sg_nseg sg1 \<le> Suc (sg_nseg sg)"
        using rg by (auto simp: grown_def)
      show ?thesis
      proof (cases "len - n = 0")
        case True
        then have e: "unat len = unat n" by simp
        have "unat offset + unat n \<le> unat (ss_len s)" using n(1) lt by simp
        then have "take (unat n) (drop (unat offset) (segs_bytes (s # segs))) = take (unat n) (drop (unat offset) (seg_bytes s))"
          "unat offset + unat n \<le> length (segs_bytes (s # segs))" by simp_all
        moreover have "append_segs sg (int (sg_nseg sg) - 1) (s # segs) offset len e0 = Some (sg1, 0, Inr ())" using eq s1 True by (simp del: append_segs.simps)
        ultimately show ?thesis using wf1(3) rg ad unfolding e by simp
      next
        case False
        then have "unat (len - n) \<noteq> 0" using unat_gt_0 by blast
        then have un: "unat n < unat len" "unat n = unat (ss_len s) - unat offset" using n(1) ln by simp_all
        have l1: "length (sg_bytes sg1) + unat (len - n) < 2 ^ 64" using rg ln Cons.prems(3) by simp
        from Cons.IH [OF wf1(1,4) l1 False, of 0 "Inr ()"] obtain sg' rest err where
          x: "append_segs sg1 (int (sg_nseg sg1) - 1) segs 0 (len - n) (Inr ()) = Some (sg', rest, err)" "grown sg1 sg'"
          "rest = 0 \<longrightarrow> err = Inr () \<and> unat (len - n) \<le> length (segs_bytes segs) \<and>
             sg_bytes sg' = sg_bytes sg1 @ take (unat (len - n)) (segs_bytes segs)"
          "unat (len - n) \<le> length (segs_bytes segs) \<and> sg_nseg sg1 + length segs \<le> sg_maxseg sg1 \<longrightarrow> rest = 0" by auto
        have tk: "take (unat len) (drop (unat offset) (segs_bytes (s # segs))) =
            take (unat n) (drop (unat offset) (seg_bytes s)) @ take (unat (len - n)) (segs_bytes segs)"
          using un ln lt by simp
        have le: "unat offset + unat len \<le> length (segs_bytes (s # segs)) \<longleftrightarrow> unat (len - n) \<le> length (segs_bytes segs)"
          using un ln lt by auto
        have "append_segs sg (int (sg_nseg sg) - 1) (s # segs) offset len e0 = Some (sg', rest, err)" using eq s1 False x(1) by (simp del: append_segs.simps)
        moreover have "sg_bytes sg' = sg_bytes sg @ take (unat len) (drop (unat offset) (segs_bytes (s # segs)))" if "rest = 0"
          using x(3) that rg ad unfolding tk by simp
        moreover have "rest = 0" if "unat (len - n) \<le> length (segs_bytes segs)" "sg_nseg sg + length (s # segs) \<le> sg_maxseg sg"
          using x(4) that wf1(2,5) by simp
        ultimately show ?thesis using x(3) grown_trans [OF wf1(3) x(2)] unfolding le
          by (intro exI [of _ sg'] exI [of _ rest] exI [of _ err]) blast
      qed
    qed (use eq Cons.prems in \<open>auto simp: unat_gt_0\<close>)
  qed
qed

end
