(* ===== verification/SglistTop.thy ===== *)
theory SglistTop
  imports SglistSlice
begin

text \<open>The properties of scatter/gather lists.\<close>

section \<open>Building and appending\<close>

text \<open>
  C31: \<^verbatim>\<open>uk_sglist_append\<close> keeps the list within its array. It appends the physical addresses of the buffer,
  page by page and merging neighbours, or returns \<^verbatim>\<open>EFBIG\<close> with the list as it was. The hypothesis on the
  platform is that addresses are translated by pages.
\<close>

theorem sglist_append_correct:
  assumes "v2p_pages v2p" "sg_wf sg" "0 < sg_maxseg sg" "length (sg_bytes sg) + unat len < 2 ^ 64" "unat buf + unat len \<le> 2 ^ 64"
  shows "\<exists>sg' r. uk_sglist_append v2p sg buf len = Some (sg', r) \<and> sg_wf sg' \<and>
    (case r of Inl e \<Rightarrow> e = EFBIG \<and> same_list sg sg' | Inr u \<Rightarrow> sg_bytes sg' = sg_bytes sg @ buf_addrs v2p buf (unat len))"
  using sglist_append_ok [OF assms] by (auto split: sum.splits)

definition kvm_virt_to_phys :: "u64 \<Rightarrow> u64" where
  "kvm_virt_to_phys address = address"

lemma kvm_pages: "v2p_pages kvm_virt_to_phys"
  by (simp add: v2p_pages_def kvm_virt_to_phys_def)

definition seg0 :: uk_sglist_seg where "seg0 = \<lparr>ss_paddr = 0, ss_len = 0\<rparr>"

theorem sglist_append_correct_witness:
  "\<exists>sg' r. uk_sglist_append kvm_virt_to_phys (uk_sglist_init 4 (replicate 4 seg0)) 0x2100 0x3000 = Some (sg', r) \<and> sg_wf sg'"
  using sglist_append_correct [OF kvm_pages, of "uk_sglist_init 4 (replicate 4 seg0)" "0x3000" "0x2100"]
  by (auto simp: uk_sglist_init_def sg_wf_def sg_bytes_def)

text \<open>
  C32: \<^verbatim>\<open>uk_sglist_build\<close> of a buffer returns a list with exactly the physical addresses of the buffer, in
  order, whenever the allocator has memory: the segments counted beforehand are the segments needed.
\<close>

theorem sglist_build_correct:
  assumes "v2p_pages v2p" "len \<noteq> 0" "unat buf + unat len + 4096 \<le> 2 ^ 64" "buf_segs v2p buf (unat len) < 65536"
    and "malloc h (16 + of_nat (buf_segs v2p buf (unat len)) * 16) = (h', p)" "p \<noteq> 0"
  shows "\<exists>sg. uk_sglist_build malloc free uninit v2p h buf len = Some (h', Some (p, sg)) \<and> sg_wf sg \<and>
    sg_bytes sg = buf_addrs v2p buf (unat len) \<and> sg_nseg sg = sg_maxseg sg"
proof -
  define sg0 where "sg0 = uk_sglist_init (buf_segs v2p buf (unat len)) (map uninit [0..<buf_segs v2p buf (unat len)])"
  have al: "uk_sglist_alloc malloc uninit h (buf_segs v2p buf (unat len)) = (h', Some (p, sg0))"
    using assms(5,6) by (simp add: uk_sglist_alloc_def sg0_def)
  note t = alloc_target [OF assms(4) al]
  have pos: "0 < buf_segs v2p buf (unat len)" by (simp add: buf_segs_def)
  have b0: "sg_bytes sg0 = []" using t by (simp add: sg_bytes_def)
  have le: "length (sg_bytes sg0) + unat len < 2 ^ 64" "unat buf + unat len \<le> 2 ^ 64" using b0 unat_lt_64 [of len] assms(3) by auto
  obtain sg1 where a: "sglist_append_buf v2p sg0 buf len = Some (sg1, Inr ())" "sg_nseg sg1 = buf_segs v2p buf (unat len)"
    using append_empty_fits [OF assms(1) t(1,2) _ assms(2,3)] t(3) by auto
  have ok: "sg_bytes sg1 = buf_addrs v2p buf (unat len)" "grown sg0 sg1"
    using append_buf_ok [OF assms(1) t(1) _ le] pos t(3) a b0 by auto
  have "uk_sglist_append v2p sg0 buf len = Some (sg1, Inr ())" using a pos t(3) by (simp add: uk_sglist_append_def Let_def)
  then show ?thesis using sglist_count_ok [OF assms(2,3), of v2p] al pos assms(2) ok a t(3)
    by (simp add: uk_sglist_build_def grown_def)
qed

theorem sglist_build_correct_witness:
  "\<exists>sg. uk_sglist_build (\<lambda>h n. (h, 0x9000)) (\<lambda>h p. h) (\<lambda>i. seg0) kvm_virt_to_phys () 0x2100 0x100 = Some ((), Some (0x9000, sg)) \<and>
    sg_bytes sg = buf_addrs kvm_virt_to_phys 0x2100 0x100"
  using sglist_build_correct [OF kvm_pages, of "0x100" "0x2100" "\<lambda>h n. (h, 0x9000)" "()" "()" "0x9000" "\<lambda>h p. h" "\<lambda>i. seg0"]
  by (auto simp: buf_segs_def)

section \<open>Parts of lists\<close>


definition two_segs :: uk_sglist where
  "two_segs = \<lparr>sg_segs = [\<lparr>ss_paddr = 0x1000, ss_len = 4\<rparr>, \<lparr>ss_paddr = 0x3000, ss_len = 4\<rparr>, seg0], sg_refs = 1, sg_nseg = 2, sg_maxseg = 3\<rparr>"

lemma two_segs_ok: "sg_wf two_segs" "length (sg_bytes two_segs) = 8"
  by (simp_all add: two_segs_def sg_wf_def sg_bytes_def)


text \<open>
  \<^verbatim>\<open>uk_sglist_append_sglist\<close> on a list that is not empty appends the addresses of the range, or leaves the
  list as it was and returns \<^verbatim>\<open>EINVAL\<close>; it succeeds if the range lies in the source and there is room for
  all segments of the source.
\<close>

theorem sglist_append_sglist_correct:
  assumes "sg_wf sg" "0 < sg_nseg sg" "length (sg_bytes sg) + unat len < 2 ^ 64" "len \<noteq> 0"
  shows "\<exists>sg' r. uk_sglist_append_sglist sg source offset len = Some (sg', r) \<and> sg_wf sg' \<and>
    (case r of
       Inl e \<Rightarrow> e = EINVAL \<and> same_list sg sg' \<and>
         \<not> (unat offset + unat len \<le> length (sg_bytes source) \<and> sg_nseg sg + sg_nseg source \<le> sg_maxseg sg)
     | Inr u \<Rightarrow> sg_bytes sg' = sg_bytes sg @ take (unat len) (drop (unat offset) (sg_bytes source)))"
proof -
  have m: "sg_maxseg sg \<noteq> 0" using assms(1,2) by (simp add: sg_wf_def)
  let ?segs = "take (sg_nseg source) (sg_segs source)"
  obtain sg1 rest err where x: "append_segs sg (int (sg_nseg sg) - 1) ?segs offset len (Inl EINVAL) = Some (sg1, rest, err)" "grown sg sg1"
    "rest = 0 \<longrightarrow> err = Inr () \<and> sg_bytes sg1 = sg_bytes sg @ take (unat len) (drop (unat offset) (segs_bytes ?segs))"
    "unat offset + unat len \<le> length (segs_bytes ?segs) \<and> sg_nseg sg + length ?segs \<le> sg_maxseg sg \<longrightarrow> rest = 0"
    using append_segs_ok [OF assms, of ?segs offset "Inl EINVAL"] by blast
  note rs = restore_same [OF assms(1) x(2)]
  show ?thesis
  proof (cases "rest = 0")
    case True
    then show ?thesis using x m assms(4) by (simp add: uk_sglist_append_sglist_def sg_bytes_def grown_def)
  next
    case False
    then show ?thesis using x m assms(4) rs same_list_wf [OF rs assms(1)]
      by (auto simp: uk_sglist_append_sglist_def sg_bytes_def min_def split: if_splits)
  qed
qed

theorem sglist_append_sglist_correct_witness:
  "\<exists>sg' r. uk_sglist_append_sglist two_segs two_segs 1 3 = Some (sg', r) \<and> sg_wf sg'"
  using sglist_append_sglist_correct [OF two_segs_ok(1), of 3 two_segs 1] two_segs_ok(2) by (auto simp: two_segs_def)

section \<open>What goes wrong\<close>

text \<open>An empty list: the segment before the array is read.\<close>

lemma append_sglist_empty:
  "uk_sglist_append_sglist (uk_sglist_init 3 [seg0, seg0, seg0]) two_segs 0 4 = None"
  by (simp add: uk_sglist_append_sglist_def uk_sglist_init_def two_segs_def sglist_append_range_def)

text \<open>\<^verbatim>\<open>uk_sglist_join\<close> copies the wrong way: the list that should grow takes up what its array held before.\<close>

lemma join_loses:
  "uk_sglist_join \<lparr>sg_segs = [\<lparr>ss_paddr = 0x1000, ss_len = 4\<rparr>, seg0, seg0], sg_refs = 1, sg_nseg = 1, sg_maxseg = 3\<rparr>
     \<lparr>sg_segs = [\<lparr>ss_paddr = 0x3000, ss_len = 4\<rparr>], sg_refs = 1, sg_nseg = 1, sg_maxseg = 1\<rparr> =
   (\<lparr>sg_segs = [\<lparr>ss_paddr = 0x1000, ss_len = 4\<rparr>, seg0, seg0], sg_refs = 1, sg_nseg = 2, sg_maxseg = 3\<rparr>,
    \<lparr>sg_segs = [seg0], sg_refs = 1, sg_nseg = 0, sg_maxseg = 1\<rparr>, Inr ())"
  by (simp add: uk_sglist_join_def Let_def move_segs_def uk_sglist_reset_def)

text \<open>
  \<^verbatim>\<open>uk_sglist_split\<close> inside a segment: the rest of the segment starts at the number of bytes that remain, not
  at the number of bytes taken away.
\<close>

lemma split_wrong_address:
  "uk_sglist_split malloc uninit h
     \<lparr>sg_segs = [\<lparr>ss_paddr = 0x1000, ss_len = 8\<rparr>], sg_refs = 1, sg_nseg = 1, sg_maxseg = 1\<rparr>
     (Some (p, \<lparr>sg_segs = [seg0], sg_refs = 1, sg_nseg = 0, sg_maxseg = 1\<rparr>)) 2 =
   (h, \<lparr>sg_segs = [\<lparr>ss_paddr = 0x1006, ss_len = 6\<rparr>], sg_refs = 1, sg_nseg = 1, sg_maxseg = 1\<rparr>,
    Some (p, \<lparr>sg_segs = [\<lparr>ss_paddr = 0x1000, ss_len = 2\<rparr>], sg_refs = 1, sg_nseg = 1, sg_maxseg = 1\<rparr>), Inr ())"
  by (simp add: uk_sglist_split_def uk_refcount_read_def target_list_def Let_def move_segs_def)

end
