(* ===== verification/Sched.thy ===== *)
theory Sched
  imports UkPrelude
begin

text \<open>
  Threads and the cooperative scheduler, \<^verbatim>\<open>lib/uksched/thread.c\<close>, \<^verbatim>\<open>sched.h\<close> and \<^verbatim>\<open>lib/ukschedcoop/schedcoop.c\<close>.
  Threads are numbers. The three lists of threads share one link field, so removing a thread from a list
  it is not on is \<open>None\<close>, like a failed assertion. Times are integers without bound.
  Sections with interrupts disabled are single steps; what interrupt handlers do while the processor is
  halted is a parameter of the scheduling loop.
\<close>

section \<open>State\<close>

record uk_thread =
  runnable :: bool
  exited :: bool
  queueable :: bool
  wakeup_time :: int
  detached :: bool
  waiting_threads :: "nat list"

record uk_sched =
  thr :: "nat \<Rightarrow> uk_thread"
  thread_list :: "nat list"
  sleeping_threads :: "nat list"
  exited_threads :: "nat list"
  current :: nat

definition uk_thread_init :: uk_thread where
  "uk_thread_init =
     \<lparr>runnable = False, exited = False, queueable = False, wakeup_time = 0, detached = False, waiting_threads = []\<rparr>"

definition upd_thread :: "uk_sched \<Rightarrow> nat \<Rightarrow> (uk_thread \<Rightarrow> uk_thread) \<Rightarrow> uk_sched" where
  "upd_thread s t f = s\<lparr>thr := (thr s)(t := f (thr s t))\<rparr>"

definition tailq_remove :: "nat \<Rightarrow> nat list \<Rightarrow> nat list option" where
  "tailq_remove t xs = (if t \<in> set xs then Some (remove1 t xs) else None)"

section \<open>Blocking and waking\<close>

definition schedcoop_thread_blocked :: "uk_sched \<Rightarrow> nat \<Rightarrow> uk_sched option" where
  "schedcoop_thread_blocked s t =
     do {
       l \<leftarrow> (if t \<noteq> current s then tailq_remove t (thread_list s) else Some (thread_list s));
       let s = s\<lparr>thread_list := l\<rparr>;
       Some (if wakeup_time (thr s t) > 0 then s\<lparr>sleeping_threads := sleeping_threads s @ [t]\<rparr> else s)
     }"

definition schedcoop_thread_woken :: "uk_sched \<Rightarrow> nat \<Rightarrow> uk_sched option" where
  "schedcoop_thread_woken s t =
     do {
       l \<leftarrow> (if wakeup_time (thr s t) > 0 then tailq_remove t (sleeping_threads s) else Some (sleeping_threads s));
       let s = s\<lparr>sleeping_threads := l\<rparr>;
       Some (if t \<noteq> current s \<or> queueable (thr s t)
             then upd_thread (s\<lparr>thread_list := thread_list s @ [t]\<rparr>) t (queueable_update (\<lambda>_. False))
             else s)
     }"

definition uk_thread_block_until :: "uk_sched \<Rightarrow> nat \<Rightarrow> int \<Rightarrow> uk_sched option" where
  "uk_thread_block_until s t until =
     schedcoop_thread_blocked (upd_thread s t (\<lambda>th. th\<lparr>wakeup_time := until, runnable := False\<rparr>)) t"

definition uk_thread_block_timeout :: "uk_sched \<Rightarrow> nat \<Rightarrow> int \<Rightarrow> int \<Rightarrow> uk_sched option" where
  "uk_thread_block_timeout s t now nsec = uk_thread_block_until s t (now + nsec)"

definition uk_thread_block :: "uk_sched \<Rightarrow> nat \<Rightarrow> uk_sched option" where
  "uk_thread_block s t = uk_thread_block_until s t 0"

definition uk_thread_wake :: "uk_sched \<Rightarrow> nat \<Rightarrow> uk_sched option" where
  "uk_thread_wake s t =
     (if \<not> runnable (thr s t)
      then do {
        s \<leftarrow> schedcoop_thread_woken s t;
        Some (upd_thread s t (\<lambda>th. th\<lparr>wakeup_time := 0, runnable := True\<rparr>))
      }
      else Some s)"

fun uk_waitq_wake_up :: "uk_sched \<Rightarrow> nat list \<Rightarrow> uk_sched option" where
  "uk_waitq_wake_up s [] = Some s"
| "uk_waitq_wake_up s (t # wq) = do { s \<leftarrow> uk_thread_wake s t; uk_waitq_wake_up s wq }"

definition uk_thread_exit :: "uk_sched \<Rightarrow> nat \<Rightarrow> uk_sched option" where
  "uk_thread_exit s t =
     (let s = upd_thread s t (exited_update (\<lambda>_. True)) in
      if \<not> detached (thr s t) then uk_waitq_wake_up s (waiting_threads (thr s t)) else Some s)"

definition uk_thread_detach :: "uk_sched \<Rightarrow> nat \<Rightarrow> uk_sched" where
  "uk_thread_detach s t = upd_thread s t (detached_update (\<lambda>_. True))"

section \<open>Scheduling\<close>

text \<open>The threads whose time has come are woken; the other result is when the next one is due.\<close>

fun wake_sleepers :: "uk_sched \<Rightarrow> int \<Rightarrow> nat list \<Rightarrow> int \<Rightarrow> (uk_sched \<times> int) option" where
  "wake_sleepers s now [] min_wakeup_time = Some (s, min_wakeup_time)"
| "wake_sleepers s now (t # ts) min_wakeup_time =
     (if wakeup_time (thr s t) \<noteq> 0 \<and> wakeup_time (thr s t) \<le> now
      then do { s \<leftarrow> uk_thread_wake s t; wake_sleepers s now ts min_wakeup_time }
      else wake_sleepers s now ts
        (if wakeup_time (thr s t) < min_wakeup_time then wakeup_time (thr s t) else min_wakeup_time))"

text \<open>Switching to the head of the list.\<close>

definition switch_to_next :: "uk_sched \<Rightarrow> nat \<Rightarrow> nat \<Rightarrow> uk_sched option" where
  "switch_to_next s prev nxt =
     do {
       uk_assert (nxt \<noteq> prev);
       uk_assert (runnable (thr s nxt));
       uk_assert (\<not> exited (thr s nxt));
       l \<leftarrow> tailq_remove nxt (thread_list s);
       let s = s\<lparr>thread_list := l\<rparr>;
       let s = (if runnable (thr s prev) then s\<lparr>thread_list := thread_list s @ [prev]\<rparr>
                else upd_thread s prev (queueable_update (\<lambda>_. True)));
       let s = upd_thread s nxt (queueable_update (\<lambda>_. False));
       Some (s\<lparr>current := nxt\<rparr>)
     }"

text \<open>
  The loop. \<open>clock i\<close> is the time in the \<open>i\<close>-th round, \<open>irqs i\<close> are the threads that interrupt handlers wake
  while the processor is halted at its end.
\<close>

partial_function (option) schedule_loop ::
  "(nat \<Rightarrow> int) \<Rightarrow> (nat \<Rightarrow> nat list) \<Rightarrow> nat \<Rightarrow> uk_sched \<Rightarrow> nat \<Rightarrow> uk_sched option" where
  "schedule_loop clock irqs i s prev =
     do {
       (s, min_wakeup_time) \<leftarrow> wake_sleepers s (clock i) (sleeping_threads s) (clock i + 10 * 10 ^ 9);
       case thread_list s of
         nxt # _ \<Rightarrow> switch_to_next s prev nxt
       | [] \<Rightarrow>
           if runnable (thr s prev) then Some s
           else do {
             s \<leftarrow> uk_waitq_wake_up s (irqs i);
             schedule_loop clock irqs (i + 1) s prev
           }
     }"

declare schedule_loop.simps [code]

definition schedcoop_schedule :: "(nat \<Rightarrow> int) \<Rightarrow> (nat \<Rightarrow> nat list) \<Rightarrow> uk_sched \<Rightarrow> uk_sched option" where
  "schedcoop_schedule clock irqs s = schedule_loop clock irqs 0 s (current s)"

text \<open>
  What a thread does when the scheduler returns to it: exited threads that nobody waits for are
  destroyed.
\<close>

definition uk_sched_thread_destroy :: "uk_sched \<Rightarrow> nat \<Rightarrow> uk_sched option" where
  "uk_sched_thread_destroy s t =
     do {
       uk_assert (exited (thr s t));
       l \<leftarrow> tailq_remove t (exited_threads s);
       Some (upd_thread (s\<lparr>exited_threads := l\<rparr>) t (\<lambda>_. uk_thread_init))
     }"

fun reap_exited :: "uk_sched \<Rightarrow> nat \<Rightarrow> nat list \<Rightarrow> uk_sched option" where
  "reap_exited s prev [] = Some s"
| "reap_exited s prev (t # ts) =
     (if detached (thr s t) \<and> t \<noteq> prev
      then do { s \<leftarrow> uk_sched_thread_destroy s t; reap_exited s prev ts }
      else reap_exited s prev ts)"

definition schedule_return :: "uk_sched \<Rightarrow> uk_sched option" where
  "schedule_return s = reap_exited s (current s) (exited_threads s)"

section \<open>Adding and removing threads\<close>

definition schedcoop_thread_add :: "uk_sched \<Rightarrow> nat \<Rightarrow> uk_sched" where
  "schedcoop_thread_add s t =
     (let s = upd_thread s t (runnable_update (\<lambda>_. True)) in s\<lparr>thread_list := thread_list s @ [t]\<rparr>)"

definition uk_sched_thread_add :: "uk_sched \<Rightarrow> nat \<Rightarrow> bool option \<Rightarrow> uk_sched" where
  "uk_sched_thread_add s t attr_detached =
     schedcoop_thread_add
       (case attr_detached of None \<Rightarrow> s | Some d \<Rightarrow> upd_thread s t (detached_update (\<lambda>_. d))) t"

definition schedcoop_thread_remove :: "(nat \<Rightarrow> int) \<Rightarrow> (nat \<Rightarrow> nat list) \<Rightarrow> uk_sched \<Rightarrow> nat \<Rightarrow> uk_sched option" where
  "schedcoop_thread_remove clock irqs s t =
     do {
       l \<leftarrow> (if t \<noteq> current s then tailq_remove t (thread_list s) else Some (thread_list s));
       let s = upd_thread (s\<lparr>thread_list := l\<rparr>) t (runnable_update (\<lambda>_. False));
       s \<leftarrow> uk_thread_exit s t;
       let s = s\<lparr>exited_threads := t # exited_threads s\<rparr>;
       if t = current s then schedcoop_schedule clock irqs s else Some s
     }"

definition uk_sched_thread_kill :: "(nat \<Rightarrow> int) \<Rightarrow> (nat \<Rightarrow> nat list) \<Rightarrow> uk_sched \<Rightarrow> nat \<Rightarrow> uk_sched option" where
  "uk_sched_thread_kill clock irqs s t = schedcoop_thread_remove clock irqs s t"

definition uk_sched_thread_sleep :: "(nat \<Rightarrow> int) \<Rightarrow> (nat \<Rightarrow> nat list) \<Rightarrow> uk_sched \<Rightarrow> int \<Rightarrow> int \<Rightarrow> uk_sched option" where
  "uk_sched_thread_sleep clock irqs s now nsec =
     do { s \<leftarrow> uk_thread_block_timeout s (current s) now nsec; schedcoop_schedule clock irqs s }"

definition uk_sched_thread_exit :: "(nat \<Rightarrow> int) \<Rightarrow> (nat \<Rightarrow> nat list) \<Rightarrow> uk_sched \<Rightarrow> uk_sched option" where
  "uk_sched_thread_exit clock irqs s = schedcoop_thread_remove clock irqs s (current s)"

text \<open>The scheduler when the idle thread, number 0, has started: \<^verbatim>\<open>uk_schedcoop_init\<close>.\<close>

definition uk_schedcoop_init :: uk_sched where
  "uk_schedcoop_init =
     \<lparr>thr = (\<lambda>_. uk_thread_init), thread_list = [], sleeping_threads = [], exited_threads = [], current = 0\<rparr>"

section \<open>The list of schedulers\<close>

text \<open>The registered schedulers are linked from \<^verbatim>\<open>uk_sched_head\<close> on.\<close>

record sched_links =
  uk_sched_head :: "nat option"
  nxt_sched :: "nat \<Rightarrow> nat option"

partial_function (option) last_sched :: "sched_links \<Rightarrow> nat \<Rightarrow> nat option" where
  "last_sched l this = (case nxt_sched l this of None \<Rightarrow> Some this | Some n \<Rightarrow> last_sched l n)"

definition uk_sched_register :: "sched_links \<Rightarrow> nat \<Rightarrow> sched_links option" where
  "uk_sched_register l s =
     (case uk_sched_head l of
        None \<Rightarrow> Some (l\<lparr>uk_sched_head := Some s, nxt_sched := (nxt_sched l)(s := None)\<rparr>)
      | Some head \<Rightarrow> do {
          this \<leftarrow> last_sched l head;
          Some (l\<lparr>nxt_sched := (nxt_sched l)(this := Some s, s := None)\<rparr>)
        })"

definition uk_sched_get_default :: "sched_links \<Rightarrow> nat option" where
  "uk_sched_get_default l = uk_sched_head l"

text \<open>The loop looks for \<open>s\<close> behind \<open>this\<close>; the assignment \<^verbatim>\<open>head = this\<close> is to a local variable.\<close>

partial_function (option) set_default_loop :: "sched_links \<Rightarrow> nat \<Rightarrow> nat \<Rightarrow> nat \<Rightarrow> sched_links option" where
  "set_default_loop l head this s =
     (case nxt_sched l this of
        None \<Rightarrow> Some (l\<lparr>nxt_sched := (nxt_sched l)(s := Some head), uk_sched_head := Some s\<rparr>)
      | Some n \<Rightarrow>
          if s = n
          then let nx = (nxt_sched l)(this := nxt_sched l n);
                   nx = nx(n := nx head)
               in Some (l\<lparr>nxt_sched := nx\<rparr>)
          else set_default_loop l head n s)"

definition uk_sched_set_default :: "sched_links \<Rightarrow> nat \<Rightarrow> sched_links option" where
  "uk_sched_set_default l s =
     (case uk_sched_get_default l of
        None \<Rightarrow> Some (l\<lparr>uk_sched_head := Some s\<rparr>)
      | Some head \<Rightarrow> if s = head then Some l else set_default_loop l head head s)"

end
