(* ===== verification/SchedOk.thy ===== *)
theory SchedOk
  imports Sched
begin

text \<open>The invariant of the cooperative scheduler and what the operations do to it.\<close>

section \<open>Invariant\<close>

text \<open>
  A thread is on at most one list. The run queue holds exactly the runnable threads other than the
  current one, the list of sleeping threads those blocked with a time.
\<close>

definition sched_inv :: "uk_sched \<Rightarrow> bool" where
  "sched_inv s \<longleftrightarrow>
     distinct (thread_list s @ sleeping_threads s @ exited_threads s) \<and>
     (\<forall>t. t \<in> set (thread_list s) \<longleftrightarrow> t \<noteq> current s \<and> runnable (thr s t)) \<and>
     (\<forall>t. t \<in> set (sleeping_threads s) \<longleftrightarrow> \<not> runnable (thr s t) \<and> wakeup_time (thr s t) > 0) \<and>
     (\<forall>t. t \<in> set (exited_threads s) \<longleftrightarrow> exited (thr s t)) \<and>
     (\<forall>t. runnable (thr s t) \<longrightarrow> wakeup_time (thr s t) = 0 \<and> \<not> exited (thr s t) \<and> \<not> queueable (thr s t)) \<and>
     \<not> queueable (thr s (current s)) \<and>
     (\<forall>t u. u \<in> set (waiting_threads (thr s t)) \<longrightarrow> \<not> exited (thr s u))"

text \<open>What waking threads leaves alone.\<close>

definition same_frame :: "uk_sched \<Rightarrow> uk_sched \<Rightarrow> bool" where
  "same_frame s s' \<longleftrightarrow> current s' = current s \<and> exited_threads s' = exited_threads s \<and>
     (\<forall>u. exited (thr s' u) = exited (thr s u) \<and> detached (thr s' u) = detached (thr s u) \<and>
        waiting_threads (thr s' u) = waiting_threads (thr s u))"

lemma same_frame_refl [simp]: "same_frame s s"
  by (simp add: same_frame_def)

lemma same_frame_trans: "same_frame s s' \<Longrightarrow> same_frame s' s'' \<Longrightarrow> same_frame s s''"
  by (simp add: same_frame_def)

lemma sched_invD:
  assumes "sched_inv s"
  shows "distinct (thread_list s)" "distinct (sleeping_threads s)" "distinct (exited_threads s)"
    "set (thread_list s) \<inter> set (sleeping_threads s) = {}"
    "\<And>t. t \<in> set (thread_list s) \<longleftrightarrow> t \<noteq> current s \<and> runnable (thr s t)"
    "\<And>t. t \<in> set (sleeping_threads s) \<longleftrightarrow> \<not> runnable (thr s t) \<and> wakeup_time (thr s t) > 0"
    "\<And>t. t \<in> set (exited_threads s) \<longleftrightarrow> exited (thr s t)"
    "\<And>t. runnable (thr s t) \<Longrightarrow> wakeup_time (thr s t) = 0 \<and> \<not> exited (thr s t) \<and> \<not> queueable (thr s t)"
    "\<not> queueable (thr s (current s))"
    "\<And>t u. u \<in> set (waiting_threads (thr s t)) \<Longrightarrow> \<not> exited (thr s u)"
    "\<And>t. exited (thr s t) \<Longrightarrow> t \<notin> set (thread_list s) \<and> t \<notin> set (sleeping_threads s)"
  using assms unfolding sched_inv_def by auto

lemma sched_invI:
  assumes "distinct (thread_list s)" "distinct (sleeping_threads s)" "distinct (exited_threads s)"
    "\<And>t. t \<in> set (thread_list s) \<longleftrightarrow> t \<noteq> current s \<and> runnable (thr s t)"
    "\<And>t. t \<in> set (sleeping_threads s) \<longleftrightarrow> \<not> runnable (thr s t) \<and> wakeup_time (thr s t) > 0"
    "\<And>t. t \<in> set (exited_threads s) \<longleftrightarrow> exited (thr s t)"
    "\<And>t. runnable (thr s t) \<Longrightarrow> wakeup_time (thr s t) = 0 \<and> \<not> exited (thr s t) \<and> \<not> queueable (thr s t)"
    "\<And>t. exited (thr s t) \<Longrightarrow> wakeup_time (thr s t) \<le> 0"
    "\<not> queueable (thr s (current s))"
    "\<And>t u. u \<in> set (waiting_threads (thr s t)) \<Longrightarrow> \<not> exited (thr s u)"
  shows "sched_inv s"
proof -
  have "set (thread_list s) \<inter> set (sleeping_threads s) = {}" using assms(4,5) by auto
  moreover have "set (thread_list s) \<inter> set (exited_threads s) = {}" using assms(4,6,7) by auto
  moreover have "set (sleeping_threads s) \<inter> set (exited_threads s) = {}" using assms(5,6,8) by force
  ultimately have "distinct (thread_list s @ sleeping_threads s @ exited_threads s)" using assms(1-3) by auto
  moreover have "\<forall>t. runnable (thr s t) \<longrightarrow> wakeup_time (thr s t) = 0 \<and> \<not> exited (thr s t) \<and> \<not> queueable (thr s t)"
    "\<forall>t u. u \<in> set (waiting_threads (thr s t)) \<longrightarrow> \<not> exited (thr s u)"
    using assms(7,10) by blast+
  ultimately show ?thesis unfolding sched_inv_def using assms(4,5,6,9) by simp
qed

lemma exited_not_sleeping: "sched_inv s \<Longrightarrow> exited (thr s t) \<Longrightarrow> wakeup_time (thr s t) \<le> 0"
  using sched_invD(6,11) [of s t] sched_invD(8) [of s t] by fastforce

lemma init_inv: "sched_inv uk_schedcoop_init"
  by (simp add: sched_inv_def uk_schedcoop_init_def uk_thread_init_def)

section \<open>Waking\<close>

text \<open>\<open>s'\<close> is \<open>s\<close> with the threads \<open>ts\<close> woken, one after the other.\<close>

definition woken :: "uk_sched \<Rightarrow> nat list \<Rightarrow> uk_sched \<Rightarrow> bool" where
  "woken s ts s' \<longleftrightarrow> sched_inv s' \<and> same_frame s s' \<and> (\<forall>u. runnable (thr s' u) \<longleftrightarrow> u \<in> set ts \<or> runnable (thr s u)) \<and>
     (\<forall>u. u \<notin> set ts \<longrightarrow> thr s' u = thr s u) \<and> (\<exists>ys. thread_list s' = thread_list s @ ys)"

lemma woken_refl: "sched_inv s \<Longrightarrow> woken s [] s"
  by (simp add: woken_def)

lemma woken_trans: "woken s ts s' \<Longrightarrow> woken s' us s'' \<Longrightarrow> woken s (ts @ us) s''"
  unfolding woken_def by (auto intro: same_frame_trans)

lemma thread_wake_ok:
  assumes inv: "sched_inv s" and e: "\<not> exited (thr s t)"
  shows "\<exists>s'. uk_thread_wake s t = Some s' \<and> woken s [t] s'"
proof (cases "runnable (thr s t)")
  case True
  then show ?thesis using inv by (auto simp: uk_thread_wake_def woken_def)
next
  case False
  note d = sched_invD [OF inv]
  define sl where "sl = (if wakeup_time (thr s t) > 0 then remove1 t (sleeping_threads s) else sleeping_threads s)"
  define tl where "tl = (if t \<noteq> current s then thread_list s @ [t] else thread_list s)"
  define s' where "s' = s\<lparr>sleeping_threads := sl, thread_list := tl,
    thr := (thr s)(t := (if t = current s then thr s t else (thr s t)\<lparr>queueable := False\<rparr>)\<lparr>wakeup_time := 0, runnable := True\<rparr>)\<rparr>"
  have q: "queueable (thr s t) \<Longrightarrow> t \<noteq> current s" using d(9) by auto
  have sl: "set sl = set (sleeping_threads s) - {t}" "distinct sl"
    using d(2,6) by (auto simp: sl_def)
  have eq: "uk_thread_wake s t = Some s'"
    using False d(6,9)
    by (cases "t = current s")
      (simp_all add: uk_thread_wake_def schedcoop_thread_woken_def tailq_remove_def upd_thread_def s'_def sl_def tl_def)
  have "sched_inv s'"
  proof (rule sched_invI)
    show "distinct (thread_list s')" using d(1,5) False by (simp add: s'_def tl_def)
    show "u \<in> set (thread_list s') \<longleftrightarrow> u \<noteq> current s' \<and> runnable (thr s' u)" for u using d(5) by (auto simp: s'_def tl_def)
    show "u \<in> set (sleeping_threads s') \<longleftrightarrow> \<not> runnable (thr s' u) \<and> wakeup_time (thr s' u) > 0" for u
      using d(6) sl by (auto simp: s'_def)
    show "runnable (thr s' u) \<Longrightarrow> wakeup_time (thr s' u) = 0 \<and> \<not> exited (thr s' u) \<and> \<not> queueable (thr s' u)" for u
      using d(8) [of u] d(9) e by (auto simp: s'_def)
    show "exited (thr s' u) \<Longrightarrow> wakeup_time (thr s' u) \<le> 0" for u
      using exited_not_sleeping [OF inv, of u] e by (auto simp: s'_def split: if_splits)
    show "u \<in> set (waiting_threads (thr s' v)) \<Longrightarrow> \<not> exited (thr s' u)" for u v
      using d(10) [of u v] by (auto simp: s'_def split: if_splits)
  qed (use d(3,7,9) sl in \<open>auto simp: s'_def\<close>)
  then have "woken s [t] s'"
    unfolding woken_def same_frame_def by (auto simp: s'_def tl_def)
  then show ?thesis using eq by blast
qed

lemma woken_exited: "woken s ts s' \<Longrightarrow> exited (thr s' u) = exited (thr s u)"
  by (simp add: woken_def same_frame_def)

lemma waitq_wake_up_ok:
  assumes "sched_inv s" "\<forall>t \<in> set wq. \<not> exited (thr s t)"
  shows "\<exists>s'. uk_waitq_wake_up s wq = Some s' \<and> woken s wq s'"
  using assms
proof (induction wq arbitrary: s)
  case Nil
  then show ?case by (simp add: woken_refl)
next
  case (Cons t wq)
  obtain s1 where s1: "uk_thread_wake s t = Some s1" "woken s [t] s1" using thread_wake_ok [of s t] Cons.prems by auto
  have "sched_inv s1" "\<forall>t \<in> set wq. \<not> exited (thr s1 t)" using s1(2) Cons.prems(2) woken_exited [OF s1(2)] by (auto simp: woken_def)
  from Cons.IH [OF this] obtain s2 where "uk_waitq_wake_up s1 wq = Some s2" "woken s1 wq s2" by blast
  then show ?case using s1 woken_trans [OF s1(2), of wq s2] by auto
qed

lemma wake_sleepers_ok:
  assumes "sched_inv s" "set ts \<subseteq> set (sleeping_threads s)" "distinct ts"
  shows "\<exists>s' m'. wake_sleepers s now ts m = Some (s', m') \<and> woken s (filter (\<lambda>t. wakeup_time (thr s t) \<le> now) ts) s'"
  using assms
proof (induction ts arbitrary: s m)
  case Nil
  then show ?case by (simp add: woken_refl)
next
  case (Cons t ts)
  note d = sched_invD [OF Cons.prems(1)]
  have t: "\<not> runnable (thr s t)" "wakeup_time (thr s t) > 0" using d(6) Cons.prems(2) by auto
  have ne: "\<not> exited (thr s t)" using d(11) Cons.prems(2) by auto
  show ?case
  proof (cases "wakeup_time (thr s t) \<le> now")
    case False
    obtain s' m' where "wake_sleepers s now ts (if wakeup_time (thr s t) < m then wakeup_time (thr s t) else m) = Some (s', m')"
      "woken s (filter (\<lambda>t. wakeup_time (thr s t) \<le> now) ts) s'" using Cons.IH [OF Cons.prems(1)] Cons.prems(2,3) by (meson distinct.simps(2) set_subset_Cons subset_trans)
    then show ?thesis using False by auto
  next
    case True
    obtain s1 where s1: "uk_thread_wake s t = Some s1" "woken s [t] s1" using thread_wake_ok [OF Cons.prems(1) ne] by blast
    have same: "thr s1 u = thr s u" if "u \<in> set ts" for u using s1(2) that Cons.prems(3) by (auto simp: woken_def)
    have inv1: "sched_inv s1" using s1(2) by (simp add: woken_def)
    have "set ts \<subseteq> set (sleeping_threads s1)"
      using same sched_invD(6) [OF inv1] d(6) Cons.prems(2) by auto
    then obtain s' m' where x: "wake_sleepers s1 now ts m = Some (s', m')" "woken s1 (filter (\<lambda>t. wakeup_time (thr s1 t) \<le> now) ts) s'"
      using Cons.IH [OF inv1, of m] Cons.prems(3) by auto
    have f: "filter (\<lambda>t. wakeup_time (thr s1 t) \<le> now) ts = filter (\<lambda>t. wakeup_time (thr s t) \<le> now) ts"
      using same by (intro filter_cong) auto
    show ?thesis using True t s1 x woken_trans [OF s1(2) x(2)] f by auto
  qed
qed

section \<open>Switching\<close>

text \<open>A thread has been chosen: the head of the queue, or the same one because the queue is empty.\<close>

definition switched :: "uk_sched \<Rightarrow> uk_sched \<Rightarrow> bool" where
  "switched s s' \<longleftrightarrow> sched_inv s' \<and> runnable (thr s' (current s')) \<and> exited_threads s' = exited_threads s \<and>
     (\<forall>u. runnable (thr s' u) = runnable (thr s u)) \<and>
     (case thread_list s of
        [] \<Rightarrow> current s' = current s \<and> thread_list s' = []
      | t # ts \<Rightarrow> current s' = t \<and> thread_list s' = ts @ (if runnable (thr s (current s)) then [current s] else []))"

lemma switch_to_next_ok:
  assumes inv: "sched_inv s" and tl: "thread_list s = t # ts"
  shows "\<exists>s'. switch_to_next s (current s) t = Some s' \<and> switched s s'"
proof -
  note d = sched_invD [OF inv]
  have t: "t \<noteq> current s" "runnable (thr s t)" "\<not> exited (thr s t)" "\<not> queueable (thr s t)" "t \<notin> set ts" "distinct ts"
    using d(5) [of t] d(8) [of t] d(1) tl by auto
  let ?c = "current s"
  define s' where "s' = s\<lparr>thread_list := ts @ (if runnable (thr s ?c) then [?c] else []),
    thr := (thr s)(?c := (thr s ?c)\<lparr>queueable := \<not> runnable (thr s ?c)\<rparr>), current := t\<rparr>"
  have q: "(thr s t)\<lparr>queueable := False\<rparr> = thr s t" using t(4) by (cases "thr s t") auto
  have qc: "(thr s ?c)\<lparr>queueable := False\<rparr> = thr s ?c" using d(9) by (cases "thr s ?c") auto
  have eq: "switch_to_next s ?c t = Some s'"
    using t tl q qc
    by (cases "runnable (thr s ?c)") (auto simp: switch_to_next_def tailq_remove_def upd_thread_def s'_def fun_upd_twist fun_upd_idem)
  have ts: "u \<in> set ts \<longleftrightarrow> u \<noteq> ?c \<and> u \<noteq> t \<and> runnable (thr s u)" for u using d(5) [of u] tl t(5) by auto
  have fl: "runnable (thr s' u) = runnable (thr s u)" "wakeup_time (thr s' u) = wakeup_time (thr s u)" "exited (thr s' u) = exited (thr s u)"
    "waiting_threads (thr s' u) = waiting_threads (thr s u)" for u by (auto simp: s'_def)
  have "sched_inv s'"
  proof (rule sched_invI)
    show "distinct (thread_list s')" using t ts by (auto simp: s'_def)
    show "u \<in> set (thread_list s') \<longleftrightarrow> u \<noteq> current s' \<and> runnable (thr s' u)" for u
      unfolding fl using ts [of u] t(1) by (auto simp: s'_def)
    show "runnable (thr s' u) \<Longrightarrow> wakeup_time (thr s' u) = 0 \<and> \<not> exited (thr s' u) \<and> \<not> queueable (thr s' u)" for u
      using d(8) [of u] fl [of u] by (auto simp: s'_def)
    show "exited (thr s' u) \<Longrightarrow> wakeup_time (thr s' u) \<le> 0" for u unfolding fl by (rule exited_not_sleeping [OF inv])
    show "u \<in> set (waiting_threads (thr s' v)) \<Longrightarrow> \<not> exited (thr s' u)" for u v unfolding fl by (rule d(10))
    show "u \<in> set (sleeping_threads s') \<longleftrightarrow> \<not> runnable (thr s' u) \<and> wakeup_time (thr s' u) > 0" for u
      unfolding fl using d(6) by (simp add: s'_def)
    show "u \<in> set (exited_threads s') \<longleftrightarrow> exited (thr s' u)" for u unfolding fl using d(7) by (simp add: s'_def)
  qed (use d(2,3) t in \<open>auto simp: s'_def\<close>)
  moreover have "runnable (thr s' (current s'))" using t by (simp add: s'_def)
  ultimately have "switched s s'" unfolding switched_def by (simp add: s'_def tl)
  then show ?thesis using eq by blast
qed

section \<open>The scheduling loop\<close>

text \<open>One round: threads whose time has come are woken, then a thread is chosen or the processor halts.\<close>

lemma round_wakes:
  assumes "sched_inv s"
  obtains s1 m where "wake_sleepers s (clock i) (sleeping_threads s) (clock i + 10 * 10 ^ 9) = Some (s1, m)"
    "woken s (filter (\<lambda>t. wakeup_time (thr s t) \<le> clock i) (sleeping_threads s)) s1"
  using wake_sleepers_ok [OF assms, of "sleeping_threads s"] sched_invD(2) [OF assms] by blast

lemma schedule_loop_round:
  assumes inv: "sched_inv s"
    and w: "wake_sleepers s (clock i) (sleeping_threads s) (clock i + 10 * 10 ^ 9) = Some (s1, m)"
      "woken s (filter (\<lambda>t. wakeup_time (thr s t) \<le> clock i) (sleeping_threads s)) s1"
    and irq: "\<forall>t \<in> set (irqs i). \<not> exited (thr s t)"
  shows "(\<exists>s'. schedule_loop clock irqs i s (current s) = Some s' \<and> switched s1 s') \<or>
    thread_list s1 = [] \<and> \<not> runnable (thr s1 (current s)) \<and>
    (\<exists>s2. woken s1 (irqs i) s2 \<and> schedule_loop clock irqs i s (current s) = schedule_loop clock irqs (i + 1) s2 (current s2))"
proof -
  have inv1: "sched_inv s1" and c: "current s1 = current s" using w(2) by (auto simp: woken_def same_frame_def)
  show ?thesis
  proof (cases "thread_list s1")
    case (Cons t ts)
    then show ?thesis using switch_to_next_ok [OF inv1 Cons] w(1) c by (subst schedule_loop.simps) auto
  next
    case Nil
    show ?thesis
    proof (cases "runnable (thr s1 (current s))")
      case True
      then have "switched s1 s1" using Nil inv1 c by (simp add: switched_def)
      then show ?thesis using Nil w(1) True by (subst schedule_loop.simps) auto
    next
      case False
      have "\<forall>t \<in> set (irqs i). \<not> exited (thr s1 t)" using irq woken_exited [OF w(2)] by simp
      then obtain s2 where s2: "uk_waitq_wake_up s1 (irqs i) = Some s2" "woken s1 (irqs i) s2" using waitq_wake_up_ok [OF inv1] by blast
      then have "current s2 = current s" using c by (simp add: woken_def same_frame_def)
      then have "schedule_loop clock irqs i s (current s) = schedule_loop clock irqs (i + 1) s2 (current s2)"
        using Nil False w(1) s2(1) by (subst schedule_loop.simps) simp
      then show ?thesis using s2(2) False Nil by blast
    qed
  qed
qed

lemma schedule_loop_inv:
  assumes "schedule_loop clock irqs i s prev = Some s'" "sched_inv s" "prev = current s" "\<forall>i. \<forall>t \<in> set (irqs i). \<not> exited (thr s t)"
  shows "\<exists>s1 ws. woken s ws s1 \<and> switched s1 s'"
proof -
  have "sched_inv s \<longrightarrow> prev = current s \<longrightarrow> (\<forall>i. \<forall>t \<in> set (irqs i). \<not> exited (thr s t)) \<longrightarrow> (\<exists>s1 ws. woken s ws s1 \<and> switched s1 s')"
  proof (rule schedule_loop.raw_induct [OF _ assms(1),
        of "\<lambda>clock irqs i s prev s'. sched_inv s \<longrightarrow> prev = current s \<longrightarrow> (\<forall>i. \<forall>t \<in> set (irqs i). \<not> exited (thr s t)) \<longrightarrow> (\<exists>s1 ws. woken s ws s1 \<and> switched s1 s')"],
      intro impI)
    fix f :: "(nat \<Rightarrow> int) \<Rightarrow> (nat \<Rightarrow> nat list) \<Rightarrow> nat \<Rightarrow> uk_sched \<Rightarrow> nat \<Rightarrow> uk_sched option"
      and clock :: "nat \<Rightarrow> int" and irqs i s prev s'
    assume IH: "\<And>clock irqs i s prev s'. f clock irqs i s prev = Some s' \<Longrightarrow>
        sched_inv s \<longrightarrow> prev = current s \<longrightarrow> (\<forall>i. \<forall>t \<in> set (irqs i). \<not> exited (thr s t)) \<longrightarrow> (\<exists>s1 ws. woken s ws s1 \<and> switched s1 s')"
      and eq: "do { (s, m) \<leftarrow> wake_sleepers s (clock i) (sleeping_threads s) (clock i + 10 * 10 ^ 9);
          case thread_list s of [] \<Rightarrow> if runnable (thr s prev) then Some s else do { s \<leftarrow> uk_waitq_wake_up s (irqs i); f clock irqs (i + 1) s prev }
          | n # _ \<Rightarrow> switch_to_next s prev n } = Some s'"
      and inv: "sched_inv s" and pr: "prev = current s" and irq: "\<forall>i. \<forall>t \<in> set (irqs i). \<not> exited (thr s t)"
    obtain s1 m where w: "wake_sleepers s (clock i) (sleeping_threads s) (clock i + 10 * 10 ^ 9) = Some (s1, m)"
      "woken s (filter (\<lambda>t. wakeup_time (thr s t) \<le> clock i) (sleeping_threads s)) s1" by (rule round_wakes [where clock = clock and i = i, OF inv]) (rule that)
    have inv1: "sched_inv s1" and c: "current s1 = current s" using w(2) by (auto simp: woken_def same_frame_def)
    show "\<exists>s1 ws. woken s ws s1 \<and> switched s1 s'"
    proof (cases "thread_list s1")
      case (Cons n ns)
      then show ?thesis using eq w switch_to_next_ok [OF inv1 Cons] c pr by auto
    next
      case Nil
      show ?thesis
      proof (cases "runnable (thr s1 prev)")
        case True
        then have "switched s1 s1" using Nil inv1 c pr by (simp add: switched_def)
        then show ?thesis using eq w Nil True by auto
      next
        case False
        have "\<forall>t \<in> set (irqs i). \<not> exited (thr s1 t)" using irq woken_exited [OF w(2)] by simp
        then obtain s2 where s2: "uk_waitq_wake_up s1 (irqs i) = Some s2" "woken s1 (irqs i) s2" using waitq_wake_up_ok [OF inv1] by blast
        note w2 = woken_trans [OF w(2) s2(2)]
        have "f clock irqs (i + 1) s2 prev = Some s'" using eq w(1) Nil False s2(1) by simp
        moreover have "sched_inv s2" "prev = current s2" "\<forall>i. \<forall>t \<in> set (irqs i). \<not> exited (thr s2 t)"
          using w2 pr irq by (auto simp: woken_def same_frame_def)
        ultimately obtain s3 ws where "woken s2 ws s3" "switched s3 s'" using IH by blast
        then show ?thesis using woken_trans [OF w2] by blast
      qed
    qed
  qed
  then show ?thesis using assms(2-4) by blast
qed

text \<open>A round returns, or nothing could run and the handlers have woken their threads.\<close>

lemma schedule_round:
  assumes inv: "sched_inv s" and irq: "\<forall>i. \<forall>t \<in> set (irqs i). \<not> exited (thr s t)"
  obtains (ret) s' where "schedule_loop clock irqs i s (current s) = Some s'"
  | (halt) s2 where "woken s (irqs i) s2" "schedule_loop clock irqs i s (current s) = schedule_loop clock irqs (i + 1) s2 (current s2)"
      "\<forall>t. \<not> runnable (thr s t)" "\<forall>t \<in> set (sleeping_threads s). \<not> wakeup_time (thr s t) \<le> clock i"
proof -
  obtain s1 m where w: "wake_sleepers s (clock i) (sleeping_threads s) (clock i + 10 * 10 ^ 9) = Some (s1, m)"
    "woken s (filter (\<lambda>t. wakeup_time (thr s t) \<le> clock i) (sleeping_threads s)) s1" by (rule round_wakes [where clock = clock and i = i, OF inv]) (rule that)
  have "\<forall>t \<in> set (irqs i). \<not> exited (thr s t)" using irq by blast
  from schedule_loop_round [where irqs = irqs and clock = clock and i = i, OF inv w this]
  show thesis
  proof (elim disjE exE conjE)
    fix s' assume "schedule_loop clock irqs i s (current s) = Some s'"
    then show thesis by (rule ret)
  next
    fix s2
    assume e: "thread_list s1 = []" "\<not> runnable (thr s1 (current s))" "woken s1 (irqs i) s2"
      "schedule_loop clock irqs i s (current s) = schedule_loop clock irqs (i + 1) s2 (current s2)"
    have inv1: "sched_inv s1" "current s1 = current s" using w(2) by (auto simp: woken_def same_frame_def)
    have nr: "\<not> runnable (thr s1 t)" for t using sched_invD(5) [OF inv1(1), of t] e(1,2) inv1(2) by auto
    have due: "\<forall>t \<in> set (sleeping_threads s). \<not> wakeup_time (thr s t) \<le> clock i" using nr w(2) by (auto simp: woken_def)
    then have "filter (\<lambda>t. wakeup_time (thr s t) \<le> clock i) (sleeping_threads s) = []" by (simp add: filter_empty_conv)
    then have "woken s (irqs i) s2" using woken_trans [OF w(2) e(3)] by simp
    moreover have "\<forall>t. \<not> runnable (thr s t)" using nr w(2) by (auto simp: woken_def)
    ultimately show thesis using e(4) due halt by blast
  qed
qed

text \<open>The loop returns as soon as some thread can run.\<close>

definition ready :: "(nat \<Rightarrow> int) \<Rightarrow> (nat \<Rightarrow> nat list) \<Rightarrow> nat \<Rightarrow> uk_sched \<Rightarrow> bool" where
  "ready clock irqs k s \<longleftrightarrow> irqs k \<noteq> [] \<or> (\<exists>t \<in> set (sleeping_threads s). wakeup_time (thr s t) \<le> clock k) \<or> (\<exists>t. runnable (thr s t))"

lemma runnable_returns:
  assumes "sched_inv s" "\<forall>i. \<forall>t \<in> set (irqs i). \<not> exited (thr s t)" "runnable (thr s t)"
  shows "\<exists>s'. schedule_loop clock irqs i s (current s) = Some s'"
  using schedule_round [OF assms(1,2), of clock i] assms(3) by metis

lemma woken_env: "woken s ws s2 \<Longrightarrow> \<forall>i. \<forall>t \<in> set (irqs i). \<not> exited (thr s t) \<Longrightarrow> \<forall>i. \<forall>t \<in> set (irqs i). \<not> exited (thr s2 t)"
  by (simp add: woken_def same_frame_def)

lemma schedule_loop_returns:
  assumes "sched_inv s" "\<forall>i. \<forall>t \<in> set (irqs i). \<not> exited (thr s t)" "ready clock irqs k s" "i \<le> k"
  shows "\<exists>s'. schedule_loop clock irqs i s (current s) = Some s'"
  using assms
proof (induction "k - i" arbitrary: i s)
  case 0
  from 0(2,3) show ?case
  proof (cases rule: schedule_round [of s irqs clock i])
    case (halt s2)
    then have "irqs k \<noteq> []" using 0(1,4,5) by (auto simp: ready_def)
    then obtain t where "runnable (thr s2 t)" using halt(1) 0(1,5) by (cases "irqs k") (auto simp: woken_def)
    moreover have "sched_inv s2" using halt(1) by (simp add: woken_def)
    ultimately show ?thesis using runnable_returns [of s2 irqs t clock "i + 1"] woken_env [OF halt(1) 0(3)] halt(2) by auto
  qed blast
next
  case (Suc n)
  from Suc(3,4) show ?case
  proof (cases rule: schedule_round [of s irqs clock i])
    case (halt s2)
    have inv2: "sched_inv s2" using halt(1) by (simp add: woken_def)
    note env2 = woken_env [OF halt(1) Suc(4)]
    show ?thesis
    proof (cases "\<exists>t. runnable (thr s2 t)")
      case True
      then show ?thesis using runnable_returns [OF inv2 env2] halt(2) by metis
    next
      case False
      then have "irqs i = []" using halt(1) by (cases "irqs i") (auto simp: woken_def)
      then have "thr s2 = thr s" using halt(1) by (auto simp: woken_def)
      then have "ready clock irqs k s2" using Suc(5) halt(3) sched_invD(6) [OF inv2] sched_invD(6) [OF Suc(3)]
        by (auto simp: ready_def)
      then show ?thesis using Suc(1) [of "i + 1" s2] Suc(2) inv2 env2 halt(2) by auto
    qed
  qed blast
qed

end
