(* ===== verification/SchedTop.thy ===== *)
theory SchedTop
  imports SchedOk
begin

text \<open>
  The scheduler as a whole: everything threads and interrupt handlers can do to it, and what holds in
  every state reached.
\<close>

section \<open>The other operations\<close>

lemma block_until_ok:
  assumes inv: "sched_inv s" and r: "runnable (thr s t)"
  shows "\<exists>s'. uk_thread_block_until s t until = Some s' \<and> sched_inv s' \<and> current s' = current s \<and> \<not> runnable (thr s' t) \<and>
    (\<forall>u. u \<noteq> t \<longrightarrow> thr s' u = thr s u) \<and> exited_threads s' = exited_threads s \<and>
    (\<forall>u. waiting_threads (thr s' u) = waiting_threads (thr s u) \<and> exited (thr s' u) = exited (thr s u)) \<and>
    thread_list s' = (if t = current s then thread_list s else remove1 t (thread_list s))"
proof -
  note d = sched_invD [OF inv]
  define sl where "sl = (if until > 0 then sleeping_threads s @ [t] else sleeping_threads s)"
  define s' where "s' = s\<lparr>thread_list := (if t = current s then thread_list s else remove1 t (thread_list s)),
    sleeping_threads := sl, thr := (thr s)(t := (thr s t)\<lparr>wakeup_time := until, runnable := False\<rparr>)\<rparr>"
  have eq: "uk_thread_block_until s t until = Some s'"
    using d(5) [of t] r
    by (auto simp: uk_thread_block_until_def schedcoop_thread_blocked_def upd_thread_def tailq_remove_def s'_def sl_def)
  have t: "t \<notin> set (sleeping_threads s)" "\<not> exited (thr s t)" using d(6) [of t] d(8) [OF r] r by auto
  have "sched_inv s'"
  proof (rule sched_invI)
    show "distinct (thread_list s')" using d(1) by (simp add: s'_def)
    show "distinct (sleeping_threads s')" using d(2) t by (simp add: s'_def sl_def)
    show "u \<in> set (thread_list s') \<longleftrightarrow> u \<noteq> current s' \<and> runnable (thr s' u)" for u using d(1,5) by (auto simp: s'_def)
    show "u \<in> set (sleeping_threads s') \<longleftrightarrow> \<not> runnable (thr s' u) \<and> wakeup_time (thr s' u) > 0" for u
      using d(6) [of u] t(1) by (auto simp: s'_def sl_def)
    show "runnable (thr s' u) \<Longrightarrow> wakeup_time (thr s' u) = 0 \<and> \<not> exited (thr s' u) \<and> \<not> queueable (thr s' u)" for u
      using d(8) [of u] by (auto simp: s'_def split: if_splits)
    show "exited (thr s' u) \<Longrightarrow> wakeup_time (thr s' u) \<le> 0" for u
      using exited_not_sleeping [OF inv, of u] t(2) by (auto simp: s'_def split: if_splits)
    show "u \<in> set (waiting_threads (thr s' v)) \<Longrightarrow> \<not> exited (thr s' u)" for u v
      using d(10) [of u v] by (auto simp: s'_def split: if_splits)
    show "u \<in> set (exited_threads s') \<longleftrightarrow> exited (thr s' u)" for u using d(7) by (simp add: s'_def)
  qed (use d(3,9) in \<open>auto simp: s'_def\<close>)
  then show ?thesis using eq by (auto simp: s'_def)
qed

lemma thread_add_ok:
  assumes inv: "sched_inv s" and t: "thr s t = uk_thread_init" "t \<noteq> current s"
  shows "sched_inv (uk_sched_thread_add s t attr) \<and> current (uk_sched_thread_add s t attr) = current s \<and>
    thread_list (uk_sched_thread_add s t attr) = thread_list s @ [t]"
proof -
  note d = sched_invD [OF inv]
  define dt where "dt = (case attr of None \<Rightarrow> False | Some b \<Rightarrow> b)"
  have eq: "uk_sched_thread_add s t attr = s\<lparr>thread_list := thread_list s @ [t], thr := (thr s)(t := uk_thread_init\<lparr>runnable := True, detached := dt\<rparr>)\<rparr>"
    using t by (cases attr) (auto simp: uk_sched_thread_add_def schedcoop_thread_add_def upd_thread_def dt_def uk_thread_init_def Let_def)
  let ?s = "s\<lparr>thread_list := thread_list s @ [t], thr := (thr s)(t := uk_thread_init\<lparr>runnable := True, detached := dt\<rparr>)\<rparr>"
  have f: "\<not> runnable (thr s t)" "\<not> exited (thr s t)" "wakeup_time (thr s t) = 0" "waiting_threads (thr s t) = []"
    using t by (auto simp: uk_thread_init_def)
  have "sched_inv ?s"
  proof (rule sched_invI)
    show "distinct (thread_list ?s)" using d(1,5) f by simp
    show "u \<in> set (thread_list ?s) \<longleftrightarrow> u \<noteq> current ?s \<and> runnable (thr ?s u)" for u using d(5) t(2) by auto
    show "u \<in> set (sleeping_threads ?s) \<longleftrightarrow> \<not> runnable (thr ?s u) \<and> wakeup_time (thr ?s u) > 0" for u using d(6) [of u] f by auto
    show "runnable (thr ?s u) \<Longrightarrow> wakeup_time (thr ?s u) = 0 \<and> \<not> exited (thr ?s u) \<and> \<not> queueable (thr ?s u)" for u
      using d(8) [of u] by (auto simp: uk_thread_init_def)
    show "exited (thr ?s u) \<Longrightarrow> wakeup_time (thr ?s u) \<le> 0" for u
      using exited_not_sleeping [OF inv, of u] by (auto simp: uk_thread_init_def split: if_splits)
    show "u \<in> set (waiting_threads (thr ?s v)) \<Longrightarrow> \<not> exited (thr ?s u)" for u v
      using d(10) [of u v] by (auto simp: uk_thread_init_def split: if_splits)
    show "u \<in> set (exited_threads ?s) \<longleftrightarrow> exited (thr ?s u)" for u using d(7) [of u] f by (auto simp: uk_thread_init_def)
  qed (use d(2,3,9) t in auto)
  then show ?thesis by (simp add: eq)
qed

lemma detach_ok: "sched_inv s \<Longrightarrow> sched_inv (uk_thread_detach s t) \<and> thread_list (uk_thread_detach s t) = thread_list s \<and>
  current (uk_thread_detach s t) = current s"
  unfolding sched_inv_def uk_thread_detach_def upd_thread_def by (auto split: if_splits)

text \<open>The current thread enters the queue of threads that wait for the end of \<open>t\<close>, in \<^verbatim>\<open>uk_thread_wait\<close>.\<close>

definition join_enter :: "uk_sched \<Rightarrow> nat \<Rightarrow> uk_sched" where
  "join_enter s t = upd_thread s t (waiting_threads_update (\<lambda>w. w @ [current s]))"

lemma join_enter_ok: "sched_inv s \<Longrightarrow> \<not> exited (thr s (current s)) \<Longrightarrow> sched_inv (join_enter s t) \<and>
  thread_list (join_enter s t) = thread_list s \<and> current (join_enter s t) = current s"
  unfolding sched_inv_def join_enter_def upd_thread_def by (auto split: if_splits)

section \<open>The end of a thread\<close>

lemma wake_exited_list:
  "uk_thread_wake (s\<lparr>exited_threads := x\<rparr>) t = map_option (exited_threads_update (\<lambda>_. x)) (uk_thread_wake s t)"
  by (auto simp: uk_thread_wake_def schedcoop_thread_woken_def upd_thread_def tailq_remove_def)

lemma wake_up_exited_list:
  "uk_waitq_wake_up (s\<lparr>exited_threads := x\<rparr>) wq = map_option (exited_threads_update (\<lambda>_. x)) (uk_waitq_wake_up s wq)"
proof (induction wq arbitrary: s)
  case (Cons t wq)
  then show ?case by (cases "uk_thread_wake s t") (simp_all add: wake_exited_list)
qed simp

text \<open>The state in which a thread is about to leave: no longer runnable, marked and on the list.\<close>

definition leaving :: "uk_sched \<Rightarrow> nat \<Rightarrow> uk_sched" where
  "leaving s t = s\<lparr>thread_list := (if t = current s then thread_list s else remove1 t (thread_list s)),
     thr := (thr s)(t := (thr s t)\<lparr>runnable := False, exited := True\<rparr>), exited_threads := t # exited_threads s\<rparr>"

lemma leaving_inv:
  assumes inv: "sched_inv s" and r: "runnable (thr s t)" and w: "\<forall>u. t \<notin> set (waiting_threads (thr s u))"
  shows "sched_inv (leaving s t)"
proof -
  note d = sched_invD [OF inv]
  have t: "wakeup_time (thr s t) = 0" "t \<notin> set (sleeping_threads s)" "t \<notin> set (exited_threads s)"
    using d(6,7) [of t] d(8) [OF r] r by auto
  show ?thesis
  proof (rule sched_invI)
    show "distinct (thread_list (leaving s t))" using d(1) by (simp add: leaving_def)
    show "distinct (exited_threads (leaving s t))" using d(3) t by (simp add: leaving_def)
    show "u \<in> set (thread_list (leaving s t)) \<longleftrightarrow> u \<noteq> current (leaving s t) \<and> runnable (thr (leaving s t) u)" for u
      using d(1,5) by (auto simp: leaving_def)
    show "u \<in> set (sleeping_threads (leaving s t)) \<longleftrightarrow> \<not> runnable (thr (leaving s t) u) \<and> wakeup_time (thr (leaving s t) u) > 0" for u
      using d(6) [of u] t by (auto simp: leaving_def)
    show "runnable (thr (leaving s t) u) \<Longrightarrow>
        wakeup_time (thr (leaving s t) u) = 0 \<and> \<not> exited (thr (leaving s t) u) \<and> \<not> queueable (thr (leaving s t) u)" for u
      using d(8) [of u] by (auto simp: leaving_def split: if_splits)
    show "exited (thr (leaving s t) u) \<Longrightarrow> wakeup_time (thr (leaving s t) u) \<le> 0" for u
      using exited_not_sleeping [OF inv, of u] t by (auto simp: leaving_def split: if_splits)
    show "u \<in> set (waiting_threads (thr (leaving s t) v)) \<Longrightarrow> \<not> exited (thr (leaving s t) u)" for u v
      using d(10) [of u v] w by (auto simp: leaving_def split: if_splits)
    show "u \<in> set (exited_threads (leaving s t)) \<longleftrightarrow> exited (thr (leaving s t) u)" for u using d(7) by (auto simp: leaving_def)
  qed (use d(2,9) in \<open>auto simp: leaving_def\<close>)
qed

lemma thread_remove_ok:
  assumes inv: "sched_inv s" and r: "runnable (thr s t)" and w: "\<forall>u. t \<notin> set (waiting_threads (thr s u))"
  shows "\<exists>s1 ws. woken (leaving s t) ws s1 \<and>
    schedcoop_thread_remove clock irqs s t = (if t = current s then schedcoop_schedule clock irqs s1 else Some s1)"
proof -
  note d = sched_invD [OF inv]
  note li = leaving_inv [OF assms]
  define ws where "ws = (if detached (thr s t) then [] else waiting_threads (thr s t))"
  have "\<forall>u \<in> set ws. \<not> exited (thr (leaving s t) u)" using d(10) [of _ t] w by (auto simp: ws_def leaving_def)
  then obtain s1 where s1: "uk_waitq_wake_up (leaving s t) ws = Some s1" "woken (leaving s t) ws s1" using waitq_wake_up_ok [OF li] by blast
  let ?s0 = "(leaving s t)\<lparr>exited_threads := exited_threads s\<rparr>"
  have l0: "leaving s t = ?s0\<lparr>exited_threads := t # exited_threads s\<rparr>" by (simp add: leaving_def)
  obtain s2 where s2: "uk_waitq_wake_up ?s0 ws = Some s2" "s1 = s2\<lparr>exited_threads := t # exited_threads s\<rparr>"
    using s1(1) wake_up_exited_list [of "t # exited_threads s" ?s0 ws] l0
    by (cases "uk_waitq_wake_up ?s0 ws") auto
  have e2: "exited_threads s2 = exited_threads s" using s2(1) wake_up_exited_list [of "exited_threads s" "leaving s t" ws] by auto
  have c: "current s1 = current s" "current s2 = current s" using s1(2) s2(2) by (auto simp: woken_def same_frame_def leaving_def)
  have ex: "uk_thread_exit (upd_thread (s\<lparr>thread_list := thread_list ?s0\<rparr>) t (runnable_update (\<lambda>_. False))) t = Some s2"
    using s2(1) by (auto simp: uk_thread_exit_def upd_thread_def Let_def ws_def leaving_def)
  have "schedcoop_thread_remove clock irqs s t = (if t = current s then schedcoop_schedule clock irqs s1 else Some s1)"
    using d(5) [of t] r ex c e2 s2(2) by (auto simp: schedcoop_thread_remove_def tailq_remove_def leaving_def Let_def)
  then show ?thesis using s1(2) by blast
qed

lemma thread_destroy_ok:
  assumes inv: "sched_inv s" and e: "exited (thr s t)" and c: "t \<noteq> current s"
  shows "\<exists>s'. uk_sched_thread_destroy s t = Some s' \<and> sched_inv s' \<and> current s' = current s \<and> thread_list s' = thread_list s \<and>
    (\<forall>u. u \<noteq> t \<longrightarrow> thr s' u = thr s u)"
proof -
  note d = sched_invD [OF inv]
  let ?s = "s\<lparr>exited_threads := remove1 t (exited_threads s), thr := (thr s)(t := uk_thread_init)\<rparr>"
  have t: "\<not> runnable (thr s t)" "wakeup_time (thr s t) \<le> 0" using d(8) [of t] e exited_not_sleeping [OF inv e] by auto
  have eq: "uk_sched_thread_destroy s t = Some ?s"
    using d(7) [of t] e by (simp add: uk_sched_thread_destroy_def tailq_remove_def upd_thread_def)
  have "sched_inv ?s"
  proof (rule sched_invI)
    show "u \<in> set (thread_list ?s) \<longleftrightarrow> u \<noteq> current ?s \<and> runnable (thr ?s u)" for u using d(5) [of u] t by (auto simp: uk_thread_init_def)
    show "u \<in> set (sleeping_threads ?s) \<longleftrightarrow> \<not> runnable (thr ?s u) \<and> wakeup_time (thr ?s u) > 0" for u
      using d(6) [of u] t by (auto simp: uk_thread_init_def)
    show "u \<in> set (exited_threads ?s) \<longleftrightarrow> exited (thr ?s u)" for u using d(3,7) by (auto simp: uk_thread_init_def)
    show "runnable (thr ?s u) \<Longrightarrow> wakeup_time (thr ?s u) = 0 \<and> \<not> exited (thr ?s u) \<and> \<not> queueable (thr ?s u)" for u
      using d(8) [of u] by (auto simp: uk_thread_init_def)
    show "exited (thr ?s u) \<Longrightarrow> wakeup_time (thr ?s u) \<le> 0" for u
      using exited_not_sleeping [OF inv, of u] by (auto simp: uk_thread_init_def split: if_splits)
    show "u \<in> set (waiting_threads (thr ?s v)) \<Longrightarrow> \<not> exited (thr ?s u)" for u v
      using d(10) [of u v] by (auto simp: uk_thread_init_def split: if_splits)
  qed (use d(1,2,3,9) c in auto)
  then show ?thesis using eq by auto
qed

lemma reap_exited_ok:
  assumes "sched_inv s" "set ts \<subseteq> set (exited_threads s)" "distinct ts"
  shows "\<exists>s'. reap_exited s (current s) ts = Some s' \<and> sched_inv s' \<and> current s' = current s \<and> thread_list s' = thread_list s \<and>
    (\<forall>u. \<not> exited (thr s u) \<longrightarrow> thr s' u = thr s u)"
  using assms
proof (induction ts arbitrary: s)
  case (Cons t ts)
  show ?case
  proof (cases "detached (thr s t) \<and> t \<noteq> current s")
    case True
    have "exited (thr s t)" using sched_invD(7) [OF Cons.prems(1)] Cons.prems(2) by auto
    then obtain s1 where s1: "uk_sched_thread_destroy s t = Some s1" "sched_inv s1" "current s1 = current s" "thread_list s1 = thread_list s"
      "\<forall>u. u \<noteq> t \<longrightarrow> thr s1 u = thr s u" using thread_destroy_ok [OF Cons.prems(1)] True by blast
    have "set ts \<subseteq> set (exited_threads s1)"
    proof
      fix u assume u: "u \<in> set ts"
      then have "u \<noteq> t" using Cons.prems(3) by auto
      then show "u \<in> set (exited_threads s1)" using u s1(2,5) Cons.prems(1,2) sched_invD(7) by (metis list.set_intros(2) subsetD)
    qed
    moreover have "\<not> exited (thr s u) \<Longrightarrow> u \<noteq> t" for u using \<open>exited (thr s t)\<close> by auto
    ultimately show ?thesis using Cons.IH [OF s1(2)] Cons.prems(3) s1 True by auto
  next
    case False
    have eq: "reap_exited s (current s) (t # ts) = reap_exited s (current s) ts" by (simp only: reap_exited.simps False if_False)
    show ?thesis unfolding eq by (rule Cons.IH) (use Cons.prems in auto)
  qed
qed simp

section \<open>Reachable states\<close>

text \<open>
  The steps of the current thread and of interrupt handlers. Only threads that wait for nobody's end
  are killed, and only while they are runnable; handlers wake no thread that has ended.
\<close>

datatype sched_act = Switch | Kill nat | Local

inductive sched_step :: "sched_act \<Rightarrow> uk_sched \<Rightarrow> uk_sched \<Rightarrow> bool" where
  wake: "\<not> exited (thr s t) \<Longrightarrow> uk_thread_wake s t = Some s' \<Longrightarrow> sched_step Local s s'"
| block: "runnable (thr s (current s)) \<Longrightarrow> uk_thread_block_until s (current s) until = Some s' \<Longrightarrow> sched_step Local s s'"
| add: "thr s t = uk_thread_init \<Longrightarrow> t \<noteq> current s \<Longrightarrow> sched_step Local s (uk_sched_thread_add s t attr)"
| detach: "sched_step Local s (uk_thread_detach s t)"
| join: "\<not> exited (thr s (current s)) \<Longrightarrow> sched_step Local s (join_enter s t)"
| reap: "schedule_return s = Some s' \<Longrightarrow> sched_step Local s s'"
| kill: "t \<noteq> current s \<Longrightarrow> runnable (thr s t) \<Longrightarrow> \<forall>u. t \<notin> set (waiting_threads (thr s u)) \<Longrightarrow>
    uk_sched_thread_kill clock irqs s t = Some s' \<Longrightarrow> sched_step (Kill t) s s'"
| yield: "\<forall>i. \<forall>t \<in> set (irqs i). \<not> exited (thr s t) \<Longrightarrow> schedcoop_schedule clock irqs s = Some s' \<Longrightarrow> sched_step Switch s s'"
| leave: "runnable (thr s (current s)) \<Longrightarrow> \<forall>u. current s \<notin> set (waiting_threads (thr s u)) \<Longrightarrow>
    \<forall>i. \<forall>t \<in> set (irqs i). \<not> exited (thr (leaving s (current s)) t) \<Longrightarrow>
    uk_sched_thread_exit clock irqs s = Some s' \<Longrightarrow> sched_step Switch s s'"

inductive_cases sched_stepE: "sched_step a s s'"

text \<open>What a step does to the run queue: \<open>s0\<close> is the state in which a switch takes the head of the queue.\<close>

definition queue_step :: "sched_act \<Rightarrow> uk_sched \<Rightarrow> uk_sched \<Rightarrow> bool" where
  "queue_step a s s' \<longleftrightarrow>
     (case a of
        Switch \<Rightarrow> \<exists>s0. (\<exists>ys. thread_list s0 = thread_list s @ ys) \<and> current s0 = current s \<and> switched s0 s'
      | Kill t \<Rightarrow> current s' = current s \<and> (\<exists>ys. thread_list s' = remove1 t (thread_list s) @ ys)
      | Local \<Rightarrow> current s' = current s \<and> (\<exists>ys. thread_list s' = thread_list s @ ys))"

lemma schedule_step:
  assumes "sched_inv s" "\<forall>i. \<forall>t \<in> set (irqs i). \<not> exited (thr s t)" "schedcoop_schedule clock irqs s = Some s'"
  shows "\<exists>s0. (\<exists>ys. thread_list s0 = thread_list s @ ys) \<and> current s0 = current s \<and> switched s0 s'"
  using schedule_loop_inv [OF assms(3) [unfolded schedcoop_schedule_def] assms(1) refl assms(2)]
  by (auto simp: woken_def same_frame_def)

lemma remove_step:
  assumes "sched_inv s" "runnable (thr s t)" "\<forall>u. t \<notin> set (waiting_threads (thr s u))"
    "t = current s \<longrightarrow> (\<forall>i. \<forall>u \<in> set (irqs i). \<not> exited (thr (leaving s t) u))" "schedcoop_thread_remove clock irqs s t = Some s'"
  shows "sched_inv s' \<and> queue_step (if t = current s then Switch else Kill t) s s'"
proof -
  obtain s1 ws where s1: "woken (leaving s t) ws s1"
    "schedcoop_thread_remove clock irqs s t = (if t = current s then schedcoop_schedule clock irqs s1 else Some s1)"
    using thread_remove_ok [OF assms(1-3)] by blast
  have tl: "\<exists>ys. thread_list s1 = thread_list (leaving s t) @ ys" "current s1 = current s" "sched_inv s1"
    using s1(1) by (auto simp: woken_def same_frame_def leaving_def)
  show ?thesis
  proof (cases "t = current s")
    case True
    have "\<forall>i. \<forall>u \<in> set (irqs i). \<not> exited (thr s1 u)" using assms(4) True woken_exited [OF s1(1)] by simp
    then obtain s0 where s0: "\<exists>ys. thread_list s0 = thread_list s1 @ ys" "current s0 = current s1" "switched s0 s'"
      using schedule_step [OF tl(3), of irqs clock s'] s1(2) True assms(5) by auto
    then have "\<exists>ys. thread_list s0 = thread_list s @ ys" using True tl(1) by (auto simp: leaving_def)
    moreover have "sched_inv s'" using s0(3) by (simp add: switched_def)
    ultimately show ?thesis using True s0(2,3) tl(2) unfolding queue_step_def by auto
  next
    case False
    then show ?thesis using s1(2) assms(5) tl by (auto simp: queue_step_def leaving_def)
  qed
qed

lemma sched_step_ok:
  assumes "sched_step a s s'" "sched_inv s"
  shows "sched_inv s' \<and> queue_step a s s'"
  using assms
proof (cases rule: sched_step.cases)
  case (wake t)
  then show ?thesis using thread_wake_ok [OF assms(2), of t] by (auto simp: queue_step_def woken_def same_frame_def)
next
  case (block until)
  then show ?thesis using block_until_ok [OF assms(2), of "current s" until] by (auto simp: queue_step_def)
next
  case (add t attr)
  then show ?thesis using thread_add_ok [OF assms(2), of t attr] by (auto simp: queue_step_def)
next
  case (detach t)
  then show ?thesis using detach_ok [OF assms(2), of t] by (auto simp: queue_step_def)
next
  case (join t)
  then show ?thesis using join_enter_ok [OF assms(2), of t] by (auto simp: queue_step_def)
next
  case reap
  then show ?thesis using reap_exited_ok [OF assms(2), of "exited_threads s"] sched_invD(3) [OF assms(2)]
    by (auto simp: queue_step_def schedule_return_def)
next
  case (kill t clock irqs)
  then show ?thesis using remove_step [OF assms(2), of t irqs clock s'] by (auto simp: uk_sched_thread_kill_def)
next
  case (yield irqs clock)
  then show ?thesis using schedule_step [OF assms(2), of irqs clock s'] by (auto simp: queue_step_def switched_def)
next
  case (leave irqs clock)
  then show ?thesis using remove_step [OF assms(2), of "current s" irqs clock s'] by (auto simp: uk_sched_thread_exit_def)
qed

inductive sched_reach :: "uk_sched \<Rightarrow> bool" where
  init: "sched_reach uk_schedcoop_init"
| step: "sched_reach s \<Longrightarrow> sched_step a s s' \<Longrightarrow> sched_reach s'"

lemma reach_inv: "sched_reach s \<Longrightarrow> sched_inv s"
  by (induction rule: sched_reach.induct) (use init_inv sched_step_ok in blast)+

section \<open>Properties\<close>





text \<open>Runs in which thread \<open>t\<close> is never current and not killed; \<open>n\<close> counts the switches.\<close>

inductive passed_over :: "nat \<Rightarrow> nat \<Rightarrow> uk_sched \<Rightarrow> uk_sched \<Rightarrow> bool" where
  none: "passed_over t 0 s s"
| step: "passed_over t n s s1 \<Longrightarrow> sched_step a s1 s2 \<Longrightarrow> a \<noteq> Kill t \<Longrightarrow> current s2 \<noteq> t \<Longrightarrow>
    passed_over t (if a = Switch then Suc n else n) s s2"

definition position :: "nat \<Rightarrow> nat list \<Rightarrow> nat" where
  "position t xs = length (takeWhile (\<lambda>u. u \<noteq> t) xs)"

lemma position_append: "t \<in> set xs \<Longrightarrow> position t (xs @ ys) = position t xs"
  by (simp add: position_def)

lemma position_remove1: "u \<noteq> t \<Longrightarrow> t \<in> set xs \<Longrightarrow> position t (remove1 u xs) \<le> position t xs"
  by (induction xs) (auto simp: position_def)

lemma position_step:
  assumes inv: "sched_inv s" and st: "sched_step a s s'" "a \<noteq> Kill t" "current s' \<noteq> t" and t: "t \<in> set (thread_list s)"
  shows "t \<in> set (thread_list s') \<and> position t (thread_list s') + (if a = Switch then 1 else 0) \<le> position t (thread_list s)"
proof -
  have q: "queue_step a s s'" using sched_step_ok [OF st(1) inv] by blast
  show ?thesis
  proof (cases a)
    case Switch
    then obtain s0 ys where s0: "thread_list s0 = thread_list s @ ys" "switched s0 s'" using q by (auto simp: queue_step_def)
    then obtain h rest where h: "thread_list s = h # rest" using t by (cases "thread_list s") auto
    then have c: "current s' = h" "thread_list s' = rest @ ys @ (if runnable (thr s0 (current s0)) then [current s0] else [])"
      using s0 by (auto simp: switched_def)
    then have "h \<noteq> t" "t \<in> set rest" using st(3) t h by auto
    then show ?thesis using c(2) h Switch position_append [of t rest] by (simp add: position_def)
  next
    case (Kill u)
    then show ?thesis using q t st(2) position_append [of t "remove1 u (thread_list s)"] position_remove1 [of u t "thread_list s"]
      by (auto simp: queue_step_def)
  next
    case Local
    then show ?thesis using q t position_append [of t "thread_list s"] by (auto simp: queue_step_def)
  qed
qed

text \<open>
  C13: Round robin: a thread in the run queue is passed over by at most as many switches as threads
  stand before it, whatever the other threads and the handlers do; unless it is killed, the next switch
  runs it.
\<close>

theorem sched_bounded_wait:
  assumes "sched_reach s" "t \<in> set (thread_list s)" "passed_over t n s s'"
  shows "t \<in> set (thread_list s') \<and> n + position t (thread_list s') \<le> position t (thread_list s)"
proof -
  have "sched_reach s' \<and> t \<in> set (thread_list s') \<and> n + position t (thread_list s') \<le> position t (thread_list s)"
    using assms(3,1,2)
  proof (induction rule: passed_over.induct)
    case (step t n s s1 a s2)
    then have s1: "sched_reach s1" "t \<in> set (thread_list s1)" "n + position t (thread_list s1) \<le> position t (thread_list s)" by auto
    have "sched_reach s2" using s1(1) step.hyps(2) by (rule sched_reach.step)
    then show ?case using position_step [OF reach_inv [OF s1(1)] step.hyps(2-4) s1(2)] s1(3) by (auto split: if_splits)
  qed auto
  then show ?thesis by blast
qed

theorem sched_bounded_wait_witness:
  "1 \<in> set (thread_list (uk_sched_thread_add uk_schedcoop_init 1 None)) \<and>
   position 1 (thread_list (uk_sched_thread_add uk_schedcoop_init 1 None)) \<le> 0"
proof -
  have r: "sched_reach (uk_sched_thread_add uk_schedcoop_init 1 None)"
    by (rule sched_reach.step [OF sched_reach.init], rule sched_step.add) (simp_all add: uk_schedcoop_init_def)
  have l: "thread_list (uk_sched_thread_add uk_schedcoop_init 1 None) = [1]"
    by (simp add: uk_sched_thread_add_def schedcoop_thread_add_def upd_thread_def uk_schedcoop_init_def)
  show ?thesis using sched_bounded_wait [OF r _ passed_over.none, of 1] l by (simp add: position_def)
qed

section \<open>What goes wrong\<close>

text \<open>Killing a thread that is blocked takes it off the run queue, on which it is not.\<close>

lemma kill_blocked:
  assumes "sched_inv s" "t \<noteq> current s" "\<not> runnable (thr s t)"
  shows "uk_sched_thread_kill clock irqs s t = None"
  using sched_invD(5) [OF assms(1), of t] assms(2,3)
  by (simp add: uk_sched_thread_kill_def schedcoop_thread_remove_def tailq_remove_def)

text \<open>Making a registered scheduler the default drops it from the list and leaves the default as it was.\<close>

lemma set_default_drops:
  "uk_sched_set_default \<lparr>uk_sched_head = Some 1, nxt_sched = [1 \<mapsto> 2]\<rparr> 2 = Some \<lparr>uk_sched_head = Some 1, nxt_sched = Map.empty\<rparr>"
  by (simp add: uk_sched_set_default_def uk_sched_get_default_def set_default_loop.simps Let_def fun_eq_iff)

end
