(* ===== verification/Lock.thy ===== *)
theory Lock
  imports SchedTop
begin

text \<open>
  Wait queues, semaphores and mutexes: \<^verbatim>\<open>lib/uksched/include/uk/wait.h\<close>, \<^verbatim>\<open>lib/uklock/include/uk/semaphore.h\<close> and
  \<^verbatim>\<open>mutex.h\<close>, on the cooperative scheduler. A thread inside \<^verbatim>\<open>uk_waitq_wait_event\<close> has a program counter; what
  happens with interrupts disabled is one step, and between two steps an interrupt handler may run.
  The resource of a lock (the count of a semaphore, holder and depth of a mutex) is a type parameter of
  the wait queue. Counts are integers without bound.
\<close>

section \<open>Waiting for an event\<close>

text \<open>
  The places in the code: the first test, the section that enters the queue and blocks, the second test,
  the call of the scheduler, its return, the section that leaves the queue, and the section after the
  macro that takes the resource.
\<close>

datatype wait_pc = Idle | Check | Enqueue | Recheck | Yield | Return | Leave | Take

record 'r lock =
  sch :: uk_sched
  res :: 'r
  wait :: "nat list"
  pc :: "nat \<Rightarrow> wait_pc"
  deadline :: "nat \<Rightarrow> int"

abbreviation cur :: "'r lock \<Rightarrow> nat" where "cur s \<equiv> current (sch s)"

definition set_pc :: "'r lock \<Rightarrow> nat \<Rightarrow> wait_pc \<Rightarrow> 'r lock" where
  "set_pc s t p = s\<lparr>pc := (pc s)(t := p)\<rparr>"

definition uk_waitq_add :: "nat list \<Rightarrow> nat \<Rightarrow> nat list" where
  "uk_waitq_add wq t = (if t \<notin> set wq then wq @ [t] else wq)"

definition uk_waitq_remove :: "nat list \<Rightarrow> nat \<Rightarrow> nat list" where
  "uk_waitq_remove wq t = (if t \<in> set wq then remove1 t wq else wq)"

definition uk_waitq_empty :: "nat list \<Rightarrow> bool" where
  "uk_waitq_empty wq \<longleftrightarrow> wq = []"

text \<open>One step of the current thread inside the macro; \<open>cond\<close> is its condition, \<open>now\<close> the clock.\<close>

definition expired :: "'r lock \<Rightarrow> int \<Rightarrow> bool" where
  "expired s now \<longleftrightarrow> deadline s (cur s) \<noteq> 0 \<and> now \<ge> deadline s (cur s)"

definition wait_step ::
  "('r \<Rightarrow> nat \<Rightarrow> bool) \<Rightarrow> (nat \<Rightarrow> int) \<Rightarrow> (nat \<Rightarrow> nat list) \<Rightarrow> int \<Rightarrow> 'r lock \<Rightarrow> 'r lock option" where
  "wait_step cond clock irqs now s =
     (case pc s (cur s) of
        Check \<Rightarrow> Some (set_pc s (cur s) (if cond (res s) (cur s) then Take else Enqueue))
      | Enqueue \<Rightarrow> do {
          sc \<leftarrow> uk_thread_block_until (sch s) (cur s) (deadline s (cur s));
          Some (set_pc (s\<lparr>sch := sc, wait := uk_waitq_add (wait s) (cur s)\<rparr>) (cur s) Recheck)
        }
      | Recheck \<Rightarrow> Some (set_pc s (cur s) (if cond (res s) (cur s) \<or> expired s now then Leave else Yield))
      | Yield \<Rightarrow> do { sc \<leftarrow> schedcoop_schedule clock irqs (sch s); Some (set_pc (s\<lparr>sch := sc\<rparr>) (cur s) Return) }
      | Return \<Rightarrow> do { sc \<leftarrow> schedule_return (sch s); Some (set_pc (s\<lparr>sch := sc\<rparr>) (cur s) Enqueue) }
      | Leave \<Rightarrow> do {
          sc \<leftarrow> uk_thread_wake (sch s) (cur s);
          Some (set_pc (s\<lparr>sch := sc, wait := uk_waitq_remove (wait s) (cur s)\<rparr>) (cur s) Take)
        }
      | _ \<Rightarrow> None)"

section \<open>Semaphores\<close>

definition sem_cond :: "int \<Rightarrow> nat \<Rightarrow> bool" where
  "sem_cond count t \<longleftrightarrow> count > 0"

definition uk_semaphore_init :: "int \<Rightarrow> int lock" where
  "uk_semaphore_init count = \<lparr>sch = uk_schedcoop_init, res = count, wait = [], pc = (\<lambda>_. Idle), deadline = (\<lambda>_. 0)\<rparr>"

text \<open>
  \<^verbatim>\<open>uk_semaphore_down\<close> (with deadline 0) and \<^verbatim>\<open>uk_semaphore_down_to\<close> begin, and their last section: the
  semaphore is taken, or the time is over, or the loop starts again.
\<close>

definition uk_semaphore_down :: "int lock \<Rightarrow> int \<Rightarrow> int lock" where
  "uk_semaphore_down s d = set_pc (s\<lparr>deadline := (deadline s)(cur s := d)\<rparr>) (cur s) Check"

datatype down_result = Again | Taken | TimedOut

definition semaphore_take :: "int \<Rightarrow> int lock \<Rightarrow> int lock \<times> down_result" where
  "semaphore_take now s =
     (if res s > 0 \<or> expired s now
      then if res s > 0 then (set_pc (s\<lparr>res := res s - 1\<rparr>) (cur s) Idle, Taken)
           else (set_pc s (cur s) Idle, TimedOut)
      else (set_pc s (cur s) Check, Again))"

definition uk_semaphore_down_try :: "int lock \<Rightarrow> int lock \<times> bool" where
  "uk_semaphore_down_try s = (if res s > 0 then (s\<lparr>res := res s - 1\<rparr>, True) else (s, False))"

definition uk_semaphore_up :: "int lock \<Rightarrow> int lock option" where
  "uk_semaphore_up s = do { sc \<leftarrow> uk_waitq_wake_up (sch s) (wait s); Some (s\<lparr>res := res s + 1, sch := sc\<rparr>) }"

section \<open>Mutexes\<close>

record mutex =
  lock_count :: int
  owner :: "nat option"

definition mutex_cond :: "mutex \<Rightarrow> nat \<Rightarrow> bool" where
  "mutex_cond m t \<longleftrightarrow> lock_count m = 0 \<or> owner m = Some t"

definition uk_mutex_init :: "mutex lock" where
  "uk_mutex_init = \<lparr>sch = uk_schedcoop_init, res = \<lparr>lock_count = 0, owner = None\<rparr>, wait = [], pc = (\<lambda>_. Idle), deadline = (\<lambda>_. 0)\<rparr>"

definition uk_mutex_lock :: "mutex lock \<Rightarrow> mutex lock" where
  "uk_mutex_lock s = set_pc (s\<lparr>deadline := (deadline s)(cur s := 0)\<rparr>) (cur s) Check"

definition mutex_take :: "mutex lock \<Rightarrow> mutex lock \<times> down_result" where
  "mutex_take s =
     (if mutex_cond (res s) (cur s)
      then (set_pc (s\<lparr>res := \<lparr>lock_count = lock_count (res s) + 1, owner = Some (cur s)\<rparr>\<rparr>) (cur s) Idle, Taken)
      else (set_pc s (cur s) Check, Again))"

definition uk_mutex_trylock :: "mutex lock \<Rightarrow> mutex lock \<times> bool" where
  "uk_mutex_trylock s =
     (if mutex_cond (res s) (cur s)
      then (s\<lparr>res := \<lparr>lock_count = lock_count (res s) + 1, owner = Some (cur s)\<rparr>\<rparr>, True)
      else (s, False))"

definition uk_mutex_is_locked :: "mutex lock \<Rightarrow> bool" where
  "uk_mutex_is_locked s \<longleftrightarrow> lock_count (res s) > 0"

definition uk_mutex_unlock :: "mutex lock \<Rightarrow> mutex lock option" where
  "uk_mutex_unlock s =
     do {
       uk_assert (lock_count (res s) > 0);
       let c = lock_count (res s) - 1;
       if c = 0
       then do { sc \<leftarrow> uk_waitq_wake_up (sch s) (wait s); Some (s\<lparr>res := \<lparr>lock_count = 0, owner = None\<rparr>, sch := sc\<rparr>) }
       else Some (s\<lparr>res := (res s)\<lparr>lock_count := c\<rparr>\<rparr>)
     }"

section \<open>The invariant of a wait queue\<close>

text \<open>
  Only the current thread is in the middle of the code; the others have called the scheduler. A thread
  that has gone to sleep and was not woken waits for a condition that does not hold.
\<close>

definition lock_inv :: "('r \<Rightarrow> nat \<Rightarrow> bool) \<Rightarrow> 'r lock \<Rightarrow> bool" where
  "lock_inv cond s \<longleftrightarrow> sched_inv (sch s) \<and> distinct (wait s) \<and>
     (\<forall>t. pc s t \<noteq> Idle \<longrightarrow> \<not> exited (thr (sch s) t)) \<and>
     (\<forall>t. pc s t \<noteq> Idle \<and> pc s t \<noteq> Return \<longrightarrow> t = cur s) \<and>
     (\<forall>t. pc s t \<in> {Check, Enqueue, Take} \<longrightarrow> runnable (thr (sch s) t)) \<and>
     (pc s (cur s) = Return \<longrightarrow> runnable (thr (sch s) (cur s))) \<and>
     (\<forall>t \<in> set (wait s). pc s t \<in> {Enqueue, Recheck, Yield, Return, Leave}) \<and>
     (\<forall>t. pc s t \<in> {Recheck, Yield, Return, Leave} \<longrightarrow> t \<in> set (wait s)) \<and>
     (\<forall>t. pc s t \<in> {Yield, Return} \<and> \<not> runnable (thr (sch s) t) \<longrightarrow> \<not> cond (res s) t)"

lemma lock_invD:
  assumes "lock_inv cond s"
  shows "sched_inv (sch s)" "distinct (wait s)" "\<And>t. pc s t \<noteq> Idle \<Longrightarrow> \<not> exited (thr (sch s) t)"
    "\<And>t. pc s t \<noteq> Idle \<Longrightarrow> pc s t \<noteq> Return \<Longrightarrow> t = cur s" "\<And>t. pc s t \<in> {Check, Enqueue, Take} \<Longrightarrow> runnable (thr (sch s) t)"
    "pc s (cur s) = Return \<Longrightarrow> runnable (thr (sch s) (cur s))" "\<And>t. t \<in> set (wait s) \<Longrightarrow> pc s t \<in> {Enqueue, Recheck, Yield, Return, Leave}"
    "\<And>t. pc s t \<in> {Recheck, Yield, Return, Leave} \<Longrightarrow> t \<in> set (wait s)"
    "\<And>t. pc s t \<in> {Yield, Return} \<Longrightarrow> \<not> runnable (thr (sch s) t) \<Longrightarrow> \<not> cond (res s) t"
  using assms unfolding lock_inv_def by blast+

lemma lock_invI:
  assumes "sched_inv (sch s)" "distinct (wait s)" "\<And>t. pc s t \<noteq> Idle \<Longrightarrow> \<not> exited (thr (sch s) t)"
    "\<And>t. pc s t \<noteq> Idle \<Longrightarrow> pc s t \<noteq> Return \<Longrightarrow> t = cur s" "\<And>t. pc s t \<in> {Check, Enqueue, Take} \<Longrightarrow> runnable (thr (sch s) t)"
    "pc s (cur s) = Return \<Longrightarrow> runnable (thr (sch s) (cur s))" "\<And>t. t \<in> set (wait s) \<Longrightarrow> pc s t \<in> {Enqueue, Recheck, Yield, Return, Leave}"
    "\<And>t. pc s t \<in> {Recheck, Yield, Return, Leave} \<Longrightarrow> t \<in> set (wait s)"
    "\<And>t. pc s t \<in> {Yield, Return} \<Longrightarrow> \<not> runnable (thr (sch s) t) \<Longrightarrow> \<not> cond (res s) t"
  shows "lock_inv cond s"
  using assms unfolding lock_inv_def by blast

lemma pc_set_pc [simp]: "pc (set_pc s t p) = (pc s)(t := p)" "sch (set_pc s t p) = sch s" "res (set_pc s t p) = res s"
  "wait (set_pc s t p) = wait s" "deadline (set_pc s t p) = deadline s"
  by (simp_all add: set_pc_def)

text \<open>Waking every waiting thread allows any change of the resource.\<close>

lemma signal_ok:
  assumes inv: "lock_inv cond s"
  shows "\<exists>sc. uk_waitq_wake_up (sch s) (wait s) = Some sc \<and> lock_inv cond (s\<lparr>res := r, sch := sc\<rparr>)"
proof -
  note d = lock_invD [OF inv]
  have "\<forall>t \<in> set (wait s). \<not> exited (thr (sch s) t)" using d(3,7) by fastforce
  then obtain sc where sc: "uk_waitq_wake_up (sch s) (wait s) = Some sc" "woken (sch s) (wait s) sc" using waitq_wake_up_ok [OF d(1)] by blast
  have w: "sched_inv sc" "current sc = cur s" "\<And>t. exited (thr sc t) = exited (thr (sch s) t)"
    "\<And>t. runnable (thr sc t) \<longleftrightarrow> t \<in> set (wait s) \<or> runnable (thr (sch s) t)" using sc(2) by (auto simp: woken_def same_frame_def)
  have "lock_inv cond (s\<lparr>res := r, sch := sc\<rparr>)"
  proof (rule lock_invI)
    fix t assume "pc (s\<lparr>res := r, sch := sc\<rparr>) t \<in> {Yield, Return}" "\<not> runnable (thr (sch (s\<lparr>res := r, sch := sc\<rparr>)) t)"
    then show "\<not> cond (res (s\<lparr>res := r, sch := sc\<rparr>)) t" using w(4) [of t] d(8) [of t] by auto
  qed (use d w in \<open>simp; blast\<close>)+
  then show ?thesis using sc(1) by blast
qed

text \<open>A change of the resource that enables no other thread needs no wake-up.\<close>

lemma quiet_ok:
  assumes inv: "lock_inv cond s" and p: "pc s (cur s) \<in> {Idle, Take}" "p \<in> {Idle, Check}" "p = Check \<longrightarrow> pc s (cur s) = Take"
    and c: "\<And>t. t \<noteq> cur s \<Longrightarrow> cond r t \<Longrightarrow> cond (res s) t"
  shows "lock_inv cond (set_pc (s\<lparr>res := r\<rparr>) (cur s) p)"
proof -
  note d = lock_invD [OF inv]
  have nw: "cur s \<notin> set (wait s)" using d(7) [of "cur s"] p(1) by auto
  show ?thesis
  proof (rule lock_invI)
    fix t assume "pc (set_pc (s\<lparr>res := r\<rparr>) (cur s) p) t \<in> {Yield, Return}" "\<not> runnable (thr (sch (set_pc (s\<lparr>res := r\<rparr>) (cur s) p)) t)"
    then show "\<not> cond (res (set_pc (s\<lparr>res := r\<rparr>) (cur s) p)) t" using p(2) d(9) [of t] c [of t] by (cases "t = cur s") auto
  next
    fix t assume "pc (set_pc (s\<lparr>res := r\<rparr>) (cur s) p) t \<in> {Check, Enqueue, Take}"
    then show "runnable (thr (sch (set_pc (s\<lparr>res := r\<rparr>) (cur s) p)) t)" using d(5) [of t] p by (cases "t = cur s") auto
  next
    fix t assume "pc (set_pc (s\<lparr>res := r\<rparr>) (cur s) p) t \<noteq> Idle"
    then show "\<not> exited (thr (sch (set_pc (s\<lparr>res := r\<rparr>) (cur s) p)) t)" using d(3) [of t] p by (cases "t = cur s") auto
  next
    fix t assume "t \<in> set (wait (set_pc (s\<lparr>res := r\<rparr>) (cur s) p))"
    then show "pc (set_pc (s\<lparr>res := r\<rparr>) (cur s) p) t \<in> {Enqueue, Recheck, Yield, Return, Leave}" using d(7) [of t] nw by (cases "t = cur s") auto
  next
    fix t assume "pc (set_pc (s\<lparr>res := r\<rparr>) (cur s) p) t \<in> {Recheck, Yield, Return, Leave}"
    then show "t \<in> set (wait (set_pc (s\<lparr>res := r\<rparr>) (cur s) p))" using d(8) [of t] p by (cases "t = cur s") auto
  next
    fix t assume "pc (set_pc (s\<lparr>res := r\<rparr>) (cur s) p) t \<noteq> Idle" "pc (set_pc (s\<lparr>res := r\<rparr>) (cur s) p) t \<noteq> Return"
    then show "t = cur (set_pc (s\<lparr>res := r\<rparr>) (cur s) p)" using d(4) [of t] by (cases "t = cur s") auto
  qed (use d(1,2) p in auto)
qed

end
