(* ===== verification/LockOk.thy ===== *)
theory LockOk
  imports Lock
begin

text \<open>Every step of a thread that waits keeps the invariant of the wait queue.\<close>

lemma check_ok:
  assumes inv: "lock_inv cond s" and p: "pc s (cur s) = Check" "p \<in> {Take, Enqueue}"
  shows "lock_inv cond (set_pc s (cur s) p)"
proof -
  note d = lock_invD [OF inv]
  have nw: "cur s \<notin> set (wait s)" using d(7) [of "cur s"] p(1) by auto
  show ?thesis
    by (rule lock_invI) (use d p nw in \<open>auto split: if_splits\<close>)
qed

lemma enqueue_ok:
  assumes inv: "lock_inv cond s" and p: "pc s (cur s) = Enqueue"
  shows "\<exists>s'. wait_step cond clock irqs now s = Some s' \<and> lock_inv cond s' \<and> res s' = res s"
proof -
  note d = lock_invD [OF inv]
  have r: "runnable (thr (sch s) (cur s))" "\<not> exited (thr (sch s) (cur s))" using d(3,5) p by auto
  obtain sc where sc: "uk_thread_block_until (sch s) (cur s) (deadline s (cur s)) = Some sc" "sched_inv sc" "current sc = cur s"
    "\<forall>u. u \<noteq> cur s \<longrightarrow> thr sc u = thr (sch s) u" "\<forall>u. exited (thr sc u) = exited (thr (sch s) u)"
    using block_until_ok [OF d(1) r(1), of "deadline s (cur s)"] by blast
  let ?s = "set_pc (s\<lparr>sch := sc, wait := uk_waitq_add (wait s) (cur s)\<rparr>) (cur s) Recheck"
  have "lock_inv cond ?s"
  proof (rule lock_invI)
    show "distinct (wait ?s)" using d(2) by (simp add: uk_waitq_add_def)
    show "\<And>t. pc ?s t \<in> {Check, Enqueue, Take} \<Longrightarrow> runnable (thr (sch ?s) t)" using d(5) sc(4) by (auto split: if_splits)
    show "\<And>t. pc ?s t \<in> {Yield, Return} \<Longrightarrow> \<not> runnable (thr (sch ?s) t) \<Longrightarrow> \<not> cond (res ?s) t" using d(9) sc(4) by (auto split: if_splits)
    show "\<And>t. t \<in> set (wait ?s) \<Longrightarrow> pc ?s t \<in> {Enqueue, Recheck, Yield, Return, Leave}"
      using d(7) by (auto simp: uk_waitq_add_def split: if_splits)
    show "\<And>t. pc ?s t \<in> {Recheck, Yield, Return, Leave} \<Longrightarrow> t \<in> set (wait ?s)"
      using d(8) by (auto simp: uk_waitq_add_def split: if_splits)
    show "\<And>t. pc ?s t \<noteq> Idle \<Longrightarrow> pc ?s t \<noteq> Return \<Longrightarrow> t = cur ?s" using d(4) sc(3) by (auto split: if_splits)
    show "\<And>t. pc ?s t \<noteq> Idle \<Longrightarrow> \<not> exited (thr (sch ?s) t)" using d(3) r(2) sc(5) by (auto split: if_splits)
  qed (use sc(2,3) in simp_all)
  then show ?thesis using p sc(1) by (simp add: wait_step_def)
qed

lemma recheck_ok:
  assumes inv: "lock_inv cond s" and p: "pc s (cur s) = Recheck" "p = Leave \<or> p = Yield \<and> \<not> cond (res s) (cur s)"
  shows "lock_inv cond (set_pc s (cur s) p)"
proof -
  note d = lock_invD [OF inv]
  have w: "cur s \<in> set (wait s)" using d(8) [of "cur s"] p(1) by auto
  have e: "\<not> exited (thr (sch s) (cur s))" using d(3) [of "cur s"] p(1) by auto
  show ?thesis
    by (rule lock_invI) (use d p w e in \<open>auto split: if_splits\<close>)
qed

text \<open>A switch runs a runnable thread and leaves no thread less runnable.\<close>

lemma schedule_frame:
  assumes inv: "sched_inv s" and irq: "\<forall>i. \<forall>t \<in> set (irqs i). \<not> exited (thr s t)" and sc: "schedcoop_schedule clock irqs s = Some s'"
  shows "sched_inv s' \<and> runnable (thr s' (current s')) \<and> (\<forall>u. exited (thr s' u) = exited (thr s u)) \<and>
    (\<forall>u. runnable (thr s u) \<longrightarrow> runnable (thr s' u))"
proof -
  obtain s1 ws where w: "woken s ws s1" "switched s1 s'"
    using schedule_loop_inv [OF sc [unfolded schedcoop_schedule_def] inv refl irq] by blast
  have "sched_inv s'" "exited_threads s' = exited_threads s" using w by (auto simp: switched_def woken_def same_frame_def)
  then have "exited (thr s' u) = exited (thr s u)" for u using sched_invD(7) [OF inv, of u] sched_invD(7) [of s' u] by simp
  then show ?thesis using w by (auto simp: switched_def woken_def)
qed

lemma yield_ok:
  assumes inv: "lock_inv cond s" and p: "pc s (cur s) = Yield" and irq: "\<forall>i. \<forall>t \<in> set (irqs i). \<not> exited (thr (sch s) t)"
    and sc: "schedcoop_schedule clock irqs (sch s) = Some sc"
  shows "lock_inv cond (set_pc (s\<lparr>sch := sc\<rparr>) (cur s) Return)" (is "lock_inv cond ?s")
proof -
  note d = lock_invD [OF inv]
  have f: "sched_inv sc" "runnable (thr sc (current sc))" "\<And>u. exited (thr sc u) = exited (thr (sch s) u)"
    "\<And>u. runnable (thr (sch s) u) \<Longrightarrow> runnable (thr sc u)" using schedule_frame [OF d(1) irq sc] by blast+
  have w: "cur s \<in> set (wait s)" "\<not> exited (thr (sch s) (cur s))" using d(3,8) p by auto
  have others: "t \<noteq> cur s \<Longrightarrow> pc s t = Idle \<or> pc s t = Return" for t using d(4) [of t] by blast
  show ?thesis
  proof (rule lock_invI)
    show "\<And>t. pc ?s t \<in> {Yield, Return} \<Longrightarrow> \<not> runnable (thr (sch ?s) t) \<Longrightarrow> \<not> cond (res ?s) t"
      using d(9) f(4) p by (auto split: if_splits)
    show "\<And>t. pc ?s t \<in> {Check, Enqueue, Take} \<Longrightarrow> runnable (thr (sch ?s) t)" using others by (fastforce split: if_splits)
    show "\<And>t. pc ?s t \<noteq> Idle \<Longrightarrow> pc ?s t \<noteq> Return \<Longrightarrow> t = cur ?s" using others by (auto split: if_splits)
    show "\<And>t. pc ?s t \<noteq> Idle \<Longrightarrow> \<not> exited (thr (sch ?s) t)" using d(3) w(2) f(3) by (auto split: if_splits)
    show "\<And>t. t \<in> set (wait ?s) \<Longrightarrow> pc ?s t \<in> {Enqueue, Recheck, Yield, Return, Leave}" using d(7) by auto
    show "\<And>t. pc ?s t \<in> {Recheck, Yield, Return, Leave} \<Longrightarrow> t \<in> set (wait ?s)" using d(8) w(1) by (auto split: if_splits)
  qed (use d(2) f(1,2) in simp_all)
qed

lemma return_ok:
  assumes inv: "lock_inv cond s" and p: "pc s (cur s) = Return"
  shows "\<exists>s'. wait_step cond clock irqs now s = Some s' \<and> lock_inv cond s' \<and> res s' = res s"
proof -
  note d = lock_invD [OF inv]
  have r: "runnable (thr (sch s) (cur s))" "\<not> exited (thr (sch s) (cur s))" using d(3,6) p by auto
  obtain sc where sc: "schedule_return (sch s) = Some sc" "sched_inv sc" "current sc = cur s"
    "\<forall>u. \<not> exited (thr (sch s) u) \<longrightarrow> thr sc u = thr (sch s) u"
    using reap_exited_ok [OF d(1) subset_refl sched_invD(3) [OF d(1)]] by (auto simp: schedule_return_def)
  let ?s = "set_pc (s\<lparr>sch := sc\<rparr>) (cur s) Enqueue"
  have same: "pc s t \<noteq> Idle \<Longrightarrow> thr sc t = thr (sch s) t" for t using d(3) sc(4) by blast
  have "lock_inv cond ?s"
  proof (rule lock_invI)
    show "\<And>t. pc ?s t \<in> {Yield, Return} \<Longrightarrow> \<not> runnable (thr (sch ?s) t) \<Longrightarrow> \<not> cond (res ?s) t" using d(9) same by (fastforce split: if_splits)
    show "\<And>t. pc ?s t \<in> {Check, Enqueue, Take} \<Longrightarrow> runnable (thr (sch ?s) t)" using d(5) r(1) same p by (fastforce split: if_splits)
    show "\<And>t. pc ?s t \<noteq> Idle \<Longrightarrow> pc ?s t \<noteq> Return \<Longrightarrow> t = cur ?s" using d(4) sc(3) by (auto split: if_splits)
    show "\<And>t. pc ?s t \<noteq> Idle \<Longrightarrow> \<not> exited (thr (sch ?s) t)" using d(3) same r(2) p by (auto split: if_splits)
    show "\<And>t. t \<in> set (wait ?s) \<Longrightarrow> pc ?s t \<in> {Enqueue, Recheck, Yield, Return, Leave}" using d(7) by auto
    show "\<And>t. pc ?s t \<in> {Recheck, Yield, Return, Leave} \<Longrightarrow> t \<in> set (wait ?s)" using d(8) by (auto split: if_splits)
  qed (use d(2) sc(2,3) in simp_all)
  then show ?thesis using p sc(1) by (simp add: wait_step_def)
qed

lemma leave_ok:
  assumes inv: "lock_inv cond s" and p: "pc s (cur s) = Leave"
  shows "\<exists>s'. wait_step cond clock irqs now s = Some s' \<and> lock_inv cond s' \<and> res s' = res s"
proof -
  note d = lock_invD [OF inv]
  have e: "\<not> exited (thr (sch s) (cur s))" using d(3) p by auto
  obtain sc where sc: "uk_thread_wake (sch s) (cur s) = Some sc" "woken (sch s) [cur s] sc" using thread_wake_ok [OF d(1) e] by blast
  have w: "sched_inv sc" "current sc = cur s" "\<And>t. exited (thr sc t) = exited (thr (sch s) t)"
    "\<And>t. runnable (thr sc t) \<longleftrightarrow> t = cur s \<or> runnable (thr (sch s) t)" using sc(2) by (auto simp: woken_def same_frame_def)
  let ?s = "set_pc (s\<lparr>sch := sc, wait := uk_waitq_remove (wait s) (cur s)\<rparr>) (cur s) Take"
  have "lock_inv cond ?s"
  proof (rule lock_invI)
    show "distinct (wait ?s)" using d(2) by (simp add: uk_waitq_remove_def)
    show "\<And>t. pc ?s t \<in> {Yield, Return} \<Longrightarrow> \<not> runnable (thr (sch ?s) t) \<Longrightarrow> \<not> cond (res ?s) t" using d(9) w(4) by (auto split: if_splits)
    show "\<And>t. pc ?s t \<in> {Check, Enqueue, Take} \<Longrightarrow> runnable (thr (sch ?s) t)" using d(5) w(4) by (auto split: if_splits)
    show "\<And>t. pc ?s t \<noteq> Idle \<Longrightarrow> pc ?s t \<noteq> Return \<Longrightarrow> t = cur ?s" using d(4) w(2) by (auto split: if_splits)
    show "\<And>t. pc ?s t \<noteq> Idle \<Longrightarrow> \<not> exited (thr (sch ?s) t)" using d(3) e w(3) by (auto split: if_splits)
    show "\<And>t. t \<in> set (wait ?s) \<Longrightarrow> pc ?s t \<in> {Enqueue, Recheck, Yield, Return, Leave}"
      using d(2,7) by (auto simp: uk_waitq_remove_def split: if_splits)
    show "\<And>t. pc ?s t \<in> {Recheck, Yield, Return, Leave} \<Longrightarrow> t \<in> set (wait ?s)"
      using d(8) by (auto simp: uk_waitq_remove_def split: if_splits)
  qed (use w(1,2) in simp_all)
  then show ?thesis using p sc(1) by (simp add: wait_step_def)
qed

text \<open>Together: a step of a waiting thread succeeds, unless it is the call of the scheduler and nothing can run.\<close>

lemma wait_step_inv:
  assumes inv: "lock_inv cond s" and irq: "\<forall>i. \<forall>t \<in> set (irqs i). \<not> exited (thr (sch s) t)" and st: "wait_step cond clock irqs now s = Some s'"
  shows "lock_inv cond s' \<and> res s' = res s"
proof (cases "pc s (cur s)")
  case Check
  then show ?thesis using st check_ok [OF inv, of Take] check_ok [OF inv, of Enqueue] by (auto simp: wait_step_def)
next
  case Enqueue
  then show ?thesis using st enqueue_ok [OF inv, of clock irqs now] by simp
next
  case Recheck
  then show ?thesis using st recheck_ok [OF inv, of Leave] recheck_ok [OF inv, of Yield] by (auto simp: wait_step_def)
next
  case Yield
  then obtain sc where "schedcoop_schedule clock irqs (sch s) = Some sc" "s' = set_pc (s\<lparr>sch := sc\<rparr>) (cur s) Return"
    using st by (auto simp: wait_step_def split: bind_splits)
  then show ?thesis using yield_ok [OF inv Yield irq] by simp
next
  case Return
  then show ?thesis using st return_ok [OF inv, of clock irqs now] by simp
next
  case Leave
  then show ?thesis using st leave_ok [OF inv, of clock irqs now] by simp
qed (use st in \<open>simp_all add: wait_step_def\<close>)

lemma wait_step_total:
  assumes inv: "lock_inv cond s" and p: "pc s (cur s) \<notin> {Idle, Take}" and irq: "\<forall>i. \<forall>t \<in> set (irqs i). \<not> exited (thr (sch s) t)"
    and ready: "pc s (cur s) = Yield \<Longrightarrow> ready clock irqs k (sch s)"
  shows "\<exists>s'. wait_step cond clock irqs now s = Some s'"
proof (cases "pc s (cur s)")
  case Enqueue
  then show ?thesis using enqueue_ok [OF inv, of clock irqs now] by blast
next
  case Yield
  then show ?thesis using schedule_loop_returns [OF lock_invD(1) [OF inv] irq ready [OF Yield], of 0]
    by (auto simp: wait_step_def schedcoop_schedule_def)
next
  case Return
  then show ?thesis using return_ok [OF inv, of clock irqs now] by blast
next
  case Leave
  then show ?thesis using leave_ok [OF inv, of clock irqs now] by blast
qed (use p in \<open>auto simp: wait_step_def\<close>)

text \<open>Other code: threads that do not wait here, and handlers, leave waiting threads alone or wake them.\<close>

definition leaves_waiting :: "'r lock \<Rightarrow> uk_sched \<Rightarrow> bool" where
  "leaves_waiting s sc \<longleftrightarrow> (\<forall>t. pc s t \<noteq> Idle \<longrightarrow> exited (thr sc t) = exited (thr (sch s) t) \<and>
     (runnable (thr (sch s) t) \<longrightarrow> runnable (thr sc t)))"

lemma other_ok:
  assumes inv: "lock_inv cond s" and st: "sched_step a (sch s) sc" and p: "pc s (cur s) = Idle" and lw: "leaves_waiting s sc"
    and r: "current sc \<noteq> cur s \<Longrightarrow> runnable (thr sc (current sc))"
  shows "lock_inv cond (s\<lparr>sch := sc\<rparr>)"
proof -
  note d = lock_invD [OF inv]
  have only: "pc s t = Idle \<or> pc s t = Return" for t using d(4) [of t] p by auto
  have lw': "\<And>t. pc s t \<noteq> Idle \<Longrightarrow> exited (thr sc t) = exited (thr (sch s) t)"
    "\<And>t. pc s t \<noteq> Idle \<Longrightarrow> runnable (thr (sch s) t) \<Longrightarrow> runnable (thr sc t)" using lw by (auto simp: leaves_waiting_def)
  show ?thesis
  proof (rule lock_invI)
    fix t assume "pc (s\<lparr>sch := sc\<rparr>) t \<in> {Yield, Return}" "\<not> runnable (thr (sch (s\<lparr>sch := sc\<rparr>)) t)"
    then show "\<not> cond (res (s\<lparr>sch := sc\<rparr>)) t" using d(9) [of t] lw'(2) [of t] by (cases "runnable (thr (sch s) t)") auto
  next
    fix t assume "pc (s\<lparr>sch := sc\<rparr>) t \<in> {Check, Enqueue, Take}"
    then show "runnable (thr (sch (s\<lparr>sch := sc\<rparr>)) t)" using only [of t] by auto
  next
    assume "pc (s\<lparr>sch := sc\<rparr>) (cur (s\<lparr>sch := sc\<rparr>)) = Return"
    then show "runnable (thr (sch (s\<lparr>sch := sc\<rparr>)) (cur (s\<lparr>sch := sc\<rparr>)))" using r p by (cases "current sc = cur s") auto
  next
    show "sched_inv (sch (s\<lparr>sch := sc\<rparr>))" using sched_step_ok [OF st d(1)] by simp
  next
    fix t assume "pc (s\<lparr>sch := sc\<rparr>) t \<noteq> Idle"
    then show "\<not> exited (thr (sch (s\<lparr>sch := sc\<rparr>)) t)" using d(3) [of t] lw'(1) [of t] by simp
  next
    fix t assume "pc (s\<lparr>sch := sc\<rparr>) t \<noteq> Idle" "pc (s\<lparr>sch := sc\<rparr>) t \<noteq> Return"
    then show "t = cur (s\<lparr>sch := sc\<rparr>)" using only [of t] by simp
  qed (use d(2,7,8) in simp_all)
qed

end
