(* ===== verification/LockTop.thy ===== *)
theory LockTop
  imports LockOk
begin

text \<open>
  The properties of semaphores and mutexes over every interleaving of the threads that use them, of
  other threads of the scheduler, and of interrupt handlers.
\<close>

section \<open>Semaphores\<close>

lemma weaken_ok:
  assumes inv: "lock_inv cond s" and c: "\<And>t. cond r t \<Longrightarrow> cond (res s) t"
  shows "lock_inv cond (s\<lparr>res := r\<rparr>)"
proof -
  note d = lock_invD [OF inv]
  show ?thesis by (rule lock_invI) (use d c in \<open>simp_all; blast\<close>)+
qed

lemma start_ok:
  assumes inv: "lock_inv cond s" and p: "pc s (cur s) = Idle" and r: "runnable (thr (sch s) (cur s))"
  shows "lock_inv cond (set_pc (s\<lparr>deadline := dl\<rparr>) (cur s) Check)"
proof -
  note d = lock_invD [OF inv]
  have nw: "cur s \<notin> set (wait s)" using d(7) [of "cur s"] p by auto
  have e: "\<not> exited (thr (sch s) (cur s))" using sched_invD(8) [OF d(1) r] by simp
  show ?thesis by (rule lock_invI) (use d p r nw e in \<open>auto split: if_splits\<close>)
qed

lemma init_lock_inv: "lock_inv cond \<lparr>sch = uk_schedcoop_init, res = r, wait = [], pc = (\<lambda>_. Idle), deadline = (\<lambda>_. 0)\<rparr>"
  by (rule lock_invI) (simp_all add: init_inv)

text \<open>
  The states of a semaphore that starts with \<open>n\<close>, after \<open>u\<close> calls of \<^verbatim>\<open>up\<close> and \<open>d\<close> successful calls of one
  of the \<^verbatim>\<open>down\<close> functions. Handlers may call \<^verbatim>\<open>up\<close> and \<^verbatim>\<open>down_try\<close> at any moment.
\<close>

inductive sem_reach :: "int \<Rightarrow> nat \<Rightarrow> nat \<Rightarrow> int lock \<Rightarrow> bool" where
  start: "n \<ge> 0 \<Longrightarrow> sem_reach n 0 0 (uk_semaphore_init n)"
| down: "sem_reach n u d s \<Longrightarrow> pc s (cur s) = Idle \<Longrightarrow> runnable (thr (sch s) (cur s)) \<Longrightarrow> sem_reach n u d (uk_semaphore_down s dl)"
| waits: "sem_reach n u d s \<Longrightarrow> \<forall>i. \<forall>t \<in> set (irqs i). \<not> exited (thr (sch s) t) \<Longrightarrow>
    wait_step sem_cond clock irqs now s = Some s' \<Longrightarrow> sem_reach n u d s'"
| take: "sem_reach n u d s \<Longrightarrow> pc s (cur s) = Take \<Longrightarrow> semaphore_take now s = (s', r) \<Longrightarrow>
    sem_reach n u (if r = Taken then d + 1 else d) s'"
| down_try: "sem_reach n u d s \<Longrightarrow> uk_semaphore_down_try s = (s', ok) \<Longrightarrow> sem_reach n u (if ok then d + 1 else d) s'"
| up: "sem_reach n u d s \<Longrightarrow> uk_semaphore_up s = Some s' \<Longrightarrow> sem_reach n (u + 1) d s'"
| other: "sem_reach n u d s \<Longrightarrow> pc s (cur s) = Idle \<Longrightarrow> sched_step a (sch s) sc \<Longrightarrow> leaves_waiting s sc \<Longrightarrow>
    (current sc \<noteq> cur s \<longrightarrow> runnable (thr sc (current sc))) \<Longrightarrow> sem_reach n u d (s\<lparr>sch := sc\<rparr>)"

lemma semaphore_take_ok:
  assumes inv: "lock_inv sem_cond s" and p: "pc s (cur s) = Take" and t: "semaphore_take now s = (s', r)"
  shows "lock_inv sem_cond s' \<and> (r = Taken \<longrightarrow> res s > 0) \<and> res s' = res s - (if r = Taken then 1 else 0)"
proof -
  have "lock_inv sem_cond (set_pc (s\<lparr>res := v\<rparr>) (cur s) q)" if "q \<in> {Idle, Check}" "v \<le> res s" for v q
    by (rule quiet_ok [OF inv]) (use p that in \<open>auto simp: sem_cond_def\<close>)
  from this [of Idle "res s - 1"] this [of Idle "res s"] this [of Check "res s"] show ?thesis
    using t by (auto simp: semaphore_take_def split: if_splits)
qed

lemma sem_reach_inv:
  assumes "sem_reach n u d s"
  shows "lock_inv sem_cond s \<and> res s = n + int u - int d \<and> res s \<ge> 0"
  using assms
proof (induction rule: sem_reach.induct)
  case (start n)
  then show ?case by (simp add: uk_semaphore_init_def init_lock_inv)
next
  case (down n u d s dl)
  then show ?case using start_ok [of sem_cond s] by (simp add: uk_semaphore_down_def)
next
  case (waits n u d s irqs clock now s')
  then show ?case using wait_step_inv [of sem_cond s irqs clock now s'] by simp
next
  case (take n u d s now s' r)
  then show ?case using semaphore_take_ok [of s now s' r] by (auto split: if_splits)
next
  case (down_try n u d s s' ok)
  then have "lock_inv sem_cond (s\<lparr>res := res s - 1\<rparr>)" by (intro weaken_ok) (simp_all add: sem_cond_def [abs_def])
  then show ?case using down_try by (auto simp: uk_semaphore_down_try_def split: if_splits)
next
  case (up n u d s s')
  then show ?case using signal_ok [of sem_cond s "res s + 1"] by (auto simp: uk_semaphore_up_def)
next
  case (other n u d s a sc)
  then show ?case using other_ok [of sem_cond s a sc] by simp
qed

text \<open>
  C14: A semaphore counts, and no wake-up is lost. In every state that threads and handlers can reach by
  any interleaving, its count is the initial count plus the \<^verbatim>\<open>up\<close>s minus the successful \<^verbatim>\<open>down\<close>s, and not negative;
  a thread that called the scheduler from within \<^verbatim>\<open>uk_semaphore_down\<close> or \<^verbatim>\<open>uk_semaphore_down_to\<close> and is still
  blocked finds its entry on the wait queue and the count zero; and \<^verbatim>\<open>uk_semaphore_up\<close> never fails an assertion and makes
  every thread on the queue runnable.
\<close>

theorem semaphore_correct:
  assumes "sem_reach n u d s"
  shows "res s = n + int u - int d \<and> res s \<ge> 0 \<and>
    (\<forall>t. pc s t = Return \<and> \<not> runnable (thr (sch s) t) \<longrightarrow> t \<in> set (wait s) \<and> res s = 0) \<and>
    (\<exists>s'. uk_semaphore_up s = Some s' \<and> res s' = res s + 1 \<and> (\<forall>t \<in> set (wait s). runnable (thr (sch s') t)))"
proof -
  have inv: "lock_inv sem_cond s" and r: "res s = n + int u - int d" "res s \<ge> 0" using sem_reach_inv [OF assms] by auto
  note d = lock_invD [OF inv]
  have "\<forall>t \<in> set (wait s). \<not> exited (thr (sch s) t)" using d(3,7) by fastforce
  then obtain sc where "uk_waitq_wake_up (sch s) (wait s) = Some sc" "woken (sch s) (wait s) sc" using waitq_wake_up_ok [OF d(1)] by blast
  then have up: "\<exists>s'. uk_semaphore_up s = Some s' \<and> res s' = res s + 1 \<and> (\<forall>t \<in> set (wait s). runnable (thr (sch s') t))"
    by (simp add: uk_semaphore_up_def woken_def)
  have "t \<in> set (wait s) \<and> res s = 0" if "pc s t = Return \<and> \<not> runnable (thr (sch s) t)" for t
    using d(8) [of t] d(9) [of t] that r(2) by (auto simp: sem_cond_def)
  then show ?thesis using r up by blast
qed

definition sem_example :: "int lock" where
  "sem_example = fst (uk_semaphore_down_try (uk_semaphore_init 1))"

theorem semaphore_correct_witness:
  "res sem_example = 0"
proof -
  have "sem_reach 1 0 1 sem_example"
    using sem_reach.down_try [OF sem_reach.start [of 1], of sem_example True]
    by (simp add: sem_example_def uk_semaphore_down_try_def uk_semaphore_init_def)
  then show ?thesis using semaphore_correct [of 1 0 1 sem_example] by simp
qed

fun wait_steps :: "('r \<Rightarrow> nat \<Rightarrow> bool) \<Rightarrow> (nat \<Rightarrow> int) \<Rightarrow> (nat \<Rightarrow> nat list) \<Rightarrow> int \<Rightarrow> nat \<Rightarrow> 'r lock \<Rightarrow> 'r lock option" where
  "wait_steps cond clock irqs now 0 s = Some s"
| "wait_steps cond clock irqs now (Suc k) s = do { s \<leftarrow> wait_step cond clock irqs now s; wait_steps cond clock irqs now k s }"

text \<open>
  C15: A woken waiter gets the semaphore. When a thread that waited runs again and the count is positive,
  its next steps, if no other code runs between them, end with the semaphore taken, whatever the
  deadline; with the count still zero and its deadline over, they end with a time-out.
\<close>

theorem semaphore_woken_takes:
  assumes "sem_reach n u d s" "pc s (cur s) = Return" "res s > 0 \<or> expired s now"
  shows "\<exists>s1. wait_steps sem_cond clock irqs now 4 s = Some s1 \<and>
    snd (semaphore_take now s1) = (if res s > 0 then Taken else TimedOut) \<and>
    cur s \<notin> set (wait s1) \<and> runnable (thr (sch s1) (cur s))"
proof -
  have inv: "lock_inv sem_cond s" using sem_reach_inv [OF assms(1)] by blast
  let ?st = "wait_step sem_cond clock irqs now"
  obtain a where a: "?st s = Some a" "lock_inv sem_cond a" "res a = res s" using return_ok [OF inv assms(2)] by blast
  have a': "pc a (cur a) = Enqueue" "cur a = cur s" "deadline a = deadline s"
    using a(1) assms(2) reap_exited_ok [OF lock_invD(1) [OF inv] subset_refl sched_invD(3) [OF lock_invD(1) [OF inv]]]
    by (auto simp: wait_step_def schedule_return_def split: bind_splits)
  obtain b where b: "?st a = Some b" "lock_inv sem_cond b" "res b = res a" using enqueue_ok [OF a(2) a'(1)] by blast
  have "runnable (thr (sch a) (cur a))" using lock_invD(5) [OF a(2)] a'(1) by simp
  then have b': "pc b (cur b) = Recheck" "cur b = cur s" "deadline b = deadline s"
    using b(1) a' block_until_ok [OF lock_invD(1) [OF a(2)], of "cur a" "deadline a (cur a)"] by (auto simp: wait_step_def split: bind_splits)
  define c where "c = set_pc b (cur b) Leave"
  have c: "?st b = Some c" using assms(3) b' a(3) b(3) by (simp add: wait_step_def c_def sem_cond_def expired_def)
  have c': "lock_inv sem_cond c" "pc c (cur c) = Leave" "cur c = cur s" "deadline c = deadline s" "res c = res s"
    using recheck_ok [OF b(2) b'(1), of Leave] b' a(3) b(3) by (simp_all add: c_def)
  obtain e where e: "?st c = Some e" "lock_inv sem_cond e" "res e = res c" using leave_ok [OF c'(1,2)] by blast
  obtain sc where sc: "uk_thread_wake (sch c) (cur c) = Some sc" "woken (sch c) [cur c] sc"
    using thread_wake_ok [OF lock_invD(1) [OF c'(1)], of "cur c"] lock_invD(3) [OF c'(1), of "cur c"] c'(2) by auto
  have e': "cur e = cur s" "deadline e = deadline s" "pc e (cur s) = Take" "runnable (thr (sch e) (cur s))" "cur s \<notin> set (wait e)"
    using e(1) sc c' lock_invD(2) [OF c'(1)] by (auto simp: wait_step_def uk_waitq_remove_def woken_def same_frame_def split: if_splits)
  have "wait_steps sem_cond clock irqs now 4 s = Some e" using a(1) b(1) c e(1) by (simp add: numeral_eq_Suc)
  moreover have "snd (semaphore_take now e) = (if res s > 0 then Taken else TimedOut)"
    using assms(3) e' e(3) c'(5) by (auto simp: semaphore_take_def expired_def)
  ultimately show ?thesis using e'(4,5) by blast
qed


text \<open>A run that shows it: thread 1 waits, a handler calls \<^verbatim>\<open>up\<close> just before it calls the scheduler.\<close>

lemma wait_steps_reach:
  "sem_reach n u d s \<Longrightarrow> wait_steps sem_cond clock (\<lambda>_. []) now k s = Some s' \<Longrightarrow> sem_reach n u d s'"
proof (induction k arbitrary: s)
  case (Suc k)
  then obtain s1 where "wait_step sem_cond clock (\<lambda>_. []) now s = Some s1" "wait_steps sem_cond clock (\<lambda>_. []) now k s1 = Some s'"
    by (auto split: bind_splits)
  then show ?case using Suc.IH [of s1] sem_reach.waits [OF Suc.prems(1), of "\<lambda>_. []" clock now s1] by simp
qed simp

definition sched_two :: uk_sched where
  "sched_two = the (schedcoop_schedule (\<lambda>_. 0) (\<lambda>_. []) (uk_sched_thread_add uk_schedcoop_init 1 None))"

definition sem_queued :: "int lock" where
  "sem_queued = the (wait_steps sem_cond (\<lambda>_. 0) (\<lambda>_. []) 0 3 (uk_semaphore_down ((uk_semaphore_init 0)\<lparr>sch := sched_two\<rparr>) 0))"

definition sem_waiter :: "int lock" where
  "sem_waiter = the (wait_steps sem_cond (\<lambda>_. 0) (\<lambda>_. []) 0 1 (the (uk_semaphore_up sem_queued)))"

lemma sched_two_steps:
  "sched_step Local uk_schedcoop_init (uk_sched_thread_add uk_schedcoop_init 1 None)"
  "sched_step Switch (uk_sched_thread_add uk_schedcoop_init 1 None) sched_two"
proof -
  show "sched_step Local uk_schedcoop_init (uk_sched_thread_add uk_schedcoop_init 1 None)"
    by (rule sched_step.add) (simp_all add: uk_schedcoop_init_def)
  have "schedcoop_schedule (\<lambda>_. 0) (\<lambda>_. []) (uk_sched_thread_add uk_schedcoop_init 1 None) \<noteq> None" by code_simp
  then show "sched_step Switch (uk_sched_thread_add uk_schedcoop_init 1 None) sched_two"
    by (intro sched_step.yield [of "\<lambda>_. []" _ "\<lambda>_. 0"]) (auto simp: sched_two_def)
qed

lemma sched_two_runs: "current sched_two = 1 \<and> runnable (thr sched_two 1)"
  by code_simp

lemma sem_queued_some:
  "wait_steps sem_cond (\<lambda>_. 0) (\<lambda>_. []) 0 3 (uk_semaphore_down ((uk_semaphore_init 0)\<lparr>sch := sched_two\<rparr>) 0) \<noteq> None"
  by code_simp

lemma sem_waiter_some:
  "uk_semaphore_up sem_queued \<noteq> None"
  "wait_steps sem_cond (\<lambda>_. 0) (\<lambda>_. []) 0 1 (the (uk_semaphore_up sem_queued)) \<noteq> None"
  by code_simp+

lemma sem_waiter_state: "pc sem_waiter (cur sem_waiter) = Return \<and> res sem_waiter = 1"
  by code_simp

lemma sem_waiter_reach: "sem_reach 0 1 0 sem_waiter"
proof -
  let ?a = "(uk_semaphore_init 0)\<lparr>sch := uk_sched_thread_add uk_schedcoop_init 1 None\<rparr>"
  let ?b = "(uk_semaphore_init 0)\<lparr>sch := sched_two\<rparr>"
  have "sem_reach 0 0 0 ?a"
    by (rule sem_reach.other [OF sem_reach.start [of 0]])
      (use sched_two_steps(1) in \<open>simp_all add: uk_semaphore_init_def leaves_waiting_def uk_sched_thread_add_def schedcoop_thread_add_def upd_thread_def uk_schedcoop_init_def\<close>)
  then have "sem_reach 0 0 0 (?a\<lparr>sch := sched_two\<rparr>)"
    by (rule sem_reach.other) (use sched_two_steps(2) sched_two_runs in \<open>simp_all add: uk_semaphore_init_def leaves_waiting_def\<close>)
  then have "sem_reach 0 0 0 ?b" by simp
  then have "sem_reach 0 0 0 (uk_semaphore_down ?b 0)"
    by (rule sem_reach.down) (use sched_two_runs in \<open>simp_all add: uk_semaphore_init_def\<close>)
  then have "sem_reach 0 0 0 sem_queued"
    by (rule wait_steps_reach) (use sem_queued_some in \<open>auto simp: sem_queued_def\<close>)
  then have "sem_reach 0 (0 + 1) 0 (the (uk_semaphore_up sem_queued))"
    by (rule sem_reach.up) (use sem_waiter_some(1) in auto)
  then have "sem_reach 0 (0 + 1) 0 sem_waiter"
    by (rule wait_steps_reach [where k = 1]) (use sem_waiter_some(2) in \<open>auto simp: sem_waiter_def\<close>)
  then show ?thesis by simp
qed

theorem semaphore_woken_takes_witness:
  "\<exists>s1. wait_steps sem_cond (\<lambda>_. 0) (\<lambda>_. []) 0 4 sem_waiter = Some s1 \<and> snd (semaphore_take 0 s1) = Taken"
  using semaphore_woken_takes [OF sem_waiter_reach, of 0 "\<lambda>_. 0" "\<lambda>_. []"] sem_waiter_state by auto

section \<open>Mutexes\<close>

text \<open>
  The states of a mutex; \<open>depth t\<close> is how often \<open>t\<close> has locked it and not yet unlocked it. Threads unlock only
  what they have locked. The code does not check this.
\<close>

inductive mutex_reach :: "(nat \<Rightarrow> int) \<Rightarrow> mutex lock \<Rightarrow> bool" where
  start: "mutex_reach (\<lambda>_. 0) uk_mutex_init"
| lock: "mutex_reach h s \<Longrightarrow> pc s (cur s) = Idle \<Longrightarrow> runnable (thr (sch s) (cur s)) \<Longrightarrow> mutex_reach h (uk_mutex_lock s)"
| waits: "mutex_reach h s \<Longrightarrow> \<forall>i. \<forall>t \<in> set (irqs i). \<not> exited (thr (sch s) t) \<Longrightarrow>
    wait_step mutex_cond clock irqs now s = Some s' \<Longrightarrow> mutex_reach h s'"
| take: "mutex_reach h s \<Longrightarrow> pc s (cur s) = Take \<Longrightarrow> mutex_take s = (s', r) \<Longrightarrow>
    mutex_reach (if r = Taken then h(cur s := h (cur s) + 1) else h) s'"
| trylock: "mutex_reach h s \<Longrightarrow> pc s (cur s) = Idle \<Longrightarrow> uk_mutex_trylock s = (s', ok) \<Longrightarrow>
    mutex_reach (if ok then h(cur s := h (cur s) + 1) else h) s'"
| unlock: "mutex_reach h s \<Longrightarrow> pc s (cur s) = Idle \<Longrightarrow> h (cur s) > 0 \<Longrightarrow> uk_mutex_unlock s = Some s' \<Longrightarrow>
    mutex_reach (h(cur s := h (cur s) - 1)) s'"
| other: "mutex_reach h s \<Longrightarrow> pc s (cur s) = Idle \<Longrightarrow> sched_step a (sch s) sc \<Longrightarrow> leaves_waiting s sc \<Longrightarrow>
    (current sc \<noteq> cur s \<longrightarrow> runnable (thr sc (current sc))) \<Longrightarrow> mutex_reach h (s\<lparr>sch := sc\<rparr>)"

definition held_by :: "(nat \<Rightarrow> int) \<Rightarrow> mutex \<Rightarrow> bool" where
  "held_by h m \<longleftrightarrow> lock_count m \<ge> 0 \<and> (lock_count m = 0 \<longleftrightarrow> owner m = None) \<and>
     h = (\<lambda>t. if owner m = Some t then lock_count m else 0)"

lemma held_by_take:
  "held_by h m \<Longrightarrow> mutex_cond m c \<Longrightarrow> held_by (h(c := h c + 1)) \<lparr>lock_count = lock_count m + 1, owner = Some c\<rparr>"
  by (auto simp: held_by_def mutex_cond_def fun_eq_iff)

lemma held_by_count: "held_by h m \<Longrightarrow> h c > 0 \<Longrightarrow> owner m = Some c \<and> lock_count m = h c"
  by (auto simp: held_by_def split: if_splits)

lemma held_by_release:
  "held_by h m \<Longrightarrow> h c = 1 \<Longrightarrow> held_by (h(c := h c - 1)) \<lparr>lock_count = 0, owner = None\<rparr>"
  "held_by h m \<Longrightarrow> h c > 1 \<Longrightarrow> held_by (h(c := h c - 1)) (m\<lparr>lock_count := lock_count m - 1\<rparr>)"
  by (auto simp: held_by_def fun_eq_iff split: if_splits)

lemma mutex_take_inv:
  assumes inv: "lock_inv mutex_cond s" and p: "pc s (cur s) \<in> {Idle, Take}" and h: "held_by h (res s)"
  shows "lock_inv mutex_cond (set_pc (s\<lparr>res := \<lparr>lock_count = lock_count (res s) + 1, owner = Some (cur s)\<rparr>\<rparr>) (cur s) Idle)"
  by (rule quiet_ok [OF inv p]) (use h in \<open>auto simp: mutex_cond_def held_by_def\<close>)

lemma unlock_ok:
  assumes inv: "lock_inv mutex_cond s" and h: "held_by h (res s)" "h (cur s) > 0" and p: "pc s (cur s) = Idle"
  shows "\<exists>s'. uk_mutex_unlock s = Some s' \<and> lock_inv mutex_cond s' \<and> held_by (h(cur s := h (cur s) - 1)) (res s') \<and>
    (h (cur s) = 1 \<longrightarrow> (\<forall>t \<in> set (wait s). runnable (thr (sch s') t)))"
proof -
  have o: "owner (res s) = Some (cur s)" "lock_count (res s) = h (cur s)" using held_by_count [OF h] by auto
  show ?thesis
  proof (cases "h (cur s) = 1")
    case True
    note d = lock_invD [OF inv]
    obtain sc where sc: "uk_waitq_wake_up (sch s) (wait s) = Some sc" "lock_inv mutex_cond (s\<lparr>res := \<lparr>lock_count = 0, owner = None\<rparr>, sch := sc\<rparr>)"
      using signal_ok [OF inv] by blast
    have "\<forall>t \<in> set (wait s). \<not> exited (thr (sch s) t)" using d(3,7) by fastforce
    then have "woken (sch s) (wait s) sc" using waitq_wake_up_ok [OF d(1)] sc(1) by fastforce
    then show ?thesis using sc o(2) True held_by_release(1) [OF h(1) True] by (simp add: uk_mutex_unlock_def woken_def)
  next
    case False
    have "lock_inv mutex_cond (s\<lparr>res := (res s)\<lparr>lock_count := lock_count (res s) - 1\<rparr>\<rparr>)"
      using quiet_ok [OF inv, of Idle "(res s)\<lparr>lock_count := lock_count (res s) - 1\<rparr>"] p False o h(2)
      by (auto simp: mutex_cond_def set_pc_def fun_upd_idem)
    moreover have "h (cur s) > 1" using False h(2) by simp
    ultimately show ?thesis using o(2) held_by_release(2) [OF h(1), of "cur s"] by (simp add: uk_mutex_unlock_def)
  qed
qed

lemma mutex_reach_inv:
  assumes "mutex_reach h s"
  shows "lock_inv mutex_cond s \<and> held_by h (res s)"
  using assms
proof (induction rule: mutex_reach.induct)
  case start
  then show ?case by (simp add: uk_mutex_init_def init_lock_inv held_by_def)
next
  case (lock h s)
  then show ?case using start_ok [of mutex_cond s] by (simp add: uk_mutex_lock_def)
next
  case (waits h s irqs clock now s')
  then show ?case using wait_step_inv [of mutex_cond s irqs clock now s'] by simp
next
  case (take h s s' r)
  then show ?case using mutex_take_inv [of s h] held_by_take [of h "res s" "cur s"] quiet_ok [of mutex_cond s Check "res s"]
    by (auto simp: mutex_take_def split: if_splits)
next
  case (trylock h s s' ok)
  then show ?case using mutex_take_inv [of s h] held_by_take [of h "res s" "cur s"]
    by (auto simp: uk_mutex_trylock_def set_pc_def fun_upd_idem split: if_splits)
next
  case (unlock h s s')
  then obtain s2 where "uk_mutex_unlock s = Some s2" "lock_inv mutex_cond s2" "held_by (h(cur s := h (cur s) - 1)) (res s2)"
    using unlock_ok [of s h] by blast
  then show ?case using unlock by (simp add: fun_upd_def)
next
  case (other h s a sc)
  then show ?case using other_ok [of mutex_cond s a sc] by simp
qed

text \<open>
  C16: A mutex excludes. In every state that threads can reach by any interleaving, when each unlocks only
  what it locked, at most one thread holds the mutex, the count is the depth of its nested locks, and the mutex is locked exactly
  when a thread holds it; a blocked thread waits on the queue for a mutex that another thread holds; unlocking never fails its assertion, and
  the last unlock makes every thread on the queue runnable.
\<close>

theorem mutex_correct:
  assumes "mutex_reach h s"
  shows "(\<forall>t u. h t > 0 \<and> h u > 0 \<longrightarrow> t = u) \<and> (\<forall>t. h t > 0 \<longrightarrow> lock_count (res s) = h t \<and> owner (res s) = Some t) \<and>
    (uk_mutex_is_locked s \<longleftrightarrow> (\<exists>t. h t > 0)) \<and>
    (\<forall>t. pc s t = Return \<and> \<not> runnable (thr (sch s) t) \<longrightarrow> t \<in> set (wait s) \<and> (\<exists>u. u \<noteq> t \<and> h u > 0)) \<and>
    (pc s (cur s) = Idle \<and> h (cur s) > 0 \<longrightarrow>
      (\<exists>s'. uk_mutex_unlock s = Some s' \<and> (h (cur s) = 1 \<longrightarrow> (\<forall>t \<in> set (wait s). runnable (thr (sch s') t)))))"
proof -
  have inv: "lock_inv mutex_cond s" and hb: "held_by h (res s)" using mutex_reach_inv [OF assms] by auto
  note d = lock_invD [OF inv]
  have "t \<in> set (wait s) \<and> (\<exists>u. u \<noteq> t \<and> h u > 0)" if "pc s t = Return \<and> \<not> runnable (thr (sch s) t)" for t
    using d(8) [of t] d(9) [of t] that hb by (auto simp: mutex_cond_def held_by_def)
  moreover have "uk_mutex_is_locked s \<longleftrightarrow> (\<exists>t. h t > 0)" using hb by (auto simp: uk_mutex_is_locked_def held_by_def split: if_splits)
  moreover have "t = u" if "h t > 0 \<and> h u > 0" for t u using held_by_count [OF hb, of t] held_by_count [OF hb, of u] that by simp
  moreover have "lock_count (res s) = h t \<and> owner (res s) = Some t" if "h t > 0" for t using held_by_count [OF hb that] by simp
  moreover have "\<exists>s'. uk_mutex_unlock s = Some s' \<and> (h (cur s) = 1 \<longrightarrow> (\<forall>t \<in> set (wait s). runnable (thr (sch s') t)))"
    if "pc s (cur s) = Idle \<and> h (cur s) > 0" using unlock_ok [OF inv hb] that by blast
  ultimately show ?thesis by blast
qed

theorem mutex_correct_witness:
  "\<exists>s'. uk_mutex_unlock (fst (uk_mutex_trylock uk_mutex_init)) = Some s'"
proof -
  define s where "s = fst (uk_mutex_trylock uk_mutex_init)"
  have r: "mutex_reach ((\<lambda>_. 0)(0 := 1)) s" and c: "pc s (cur s) = Idle" "cur s = 0"
    using mutex_reach.trylock [OF mutex_reach.start, of s True]
    by (simp_all add: s_def uk_mutex_trylock_def uk_mutex_init_def uk_schedcoop_init_def mutex_cond_def)
  show ?thesis
    using mutex_correct [OF r, THEN conjunct2, THEN conjunct2, THEN conjunct2, THEN conjunct2] c by (auto simp: s_def [symmetric])
qed

end
