(* ===== verification/Mbox.thy ===== *)
theory Mbox
  imports Fifo LockTop
begin

text \<open>
  The mailbox of \<^verbatim>\<open>lib/ukmpi/mbox.c\<close>: an array of messages with a read and a write position, and two
  semaphores that count the messages and the free places. A semaphore enters with its count; that threads which
  find it zero wait and are woken is the matter of the theory of locks. Positions are natural numbers.
\<close>

record 'a mbox =
  len :: nat
  readsem :: int
  readpos :: nat
  writesem :: int
  writepos :: nat
  msgs :: "'a list"

text \<open>\<open>malloc\<close> tells whether an allocation of so many bytes succeeds, \<open>garbage\<close> is what the memory holds.\<close>

definition sizeof_mbox :: nat where
  "sizeof_mbox = 72"

definition uk_mbox_create :: "(nat \<Rightarrow> bool) \<Rightarrow> (nat \<Rightarrow> 'a) \<Rightarrow> nat \<Rightarrow> 'a mbox option option" where
  "uk_mbox_create malloc garbage n =
     do {
       uk_assert (n \<le> 2 ^ 63 - 1);
       Some (if \<not> malloc ((sizeof_mbox + 8 * (n + 1)) mod 2 ^ 64) then None
             else Some \<lparr>len = n + 1, readsem = 0, readpos = 0, writesem = int n, writepos = 0,
                        msgs = map garbage [0..<n + 1]\<rparr>)
     }"

definition uk_mbox_free :: "'a mbox \<Rightarrow> unit option" where
  "uk_mbox_free m = uk_assert (readpos m = writepos m)"

text \<open>The parts of \<^verbatim>\<open>_do_mbox_post\<close> and \<^verbatim>\<open>_do_mbox_recv\<close> that run with interrupts disabled.\<close>

definition mbox_write :: "'a mbox \<Rightarrow> 'a \<Rightarrow> 'a mbox option" where
  "mbox_write m msg =
     (if \<not> writepos m < length (msgs m) then None
      else do {
        let m = m\<lparr>msgs := (msgs m)[writepos m := msg]\<rparr>;
        let m = m\<lparr>writepos := (writepos m + 1) mod len m\<rparr>;
        uk_assert (readpos m \<noteq> writepos m);
        Some m
      })"

definition mbox_read :: "'a mbox \<Rightarrow> ('a mbox \<times> 'a) option" where
  "mbox_read m =
     do {
       uk_assert (readpos m \<noteq> writepos m);
       if \<not> readpos m < length (msgs m) then None
       else Some (m\<lparr>readpos := (readpos m + 1) mod len m\<rparr>, msgs m ! readpos m)
     }"

definition do_mbox_post :: "'a mbox \<Rightarrow> 'a \<Rightarrow> 'a mbox option" where
  "do_mbox_post m msg = do { m \<leftarrow> mbox_write m msg; Some (m\<lparr>readsem := readsem m + 1\<rparr>) }"

definition do_mbox_recv :: "'a mbox \<Rightarrow> ('a mbox \<times> 'a) option" where
  "do_mbox_recv m = do { (m, ret) \<leftarrow> mbox_read m; Some (m\<lparr>writesem := writesem m + 1\<rparr>, ret) }"

text \<open>The count after a \<^verbatim>\<open>down\<close> that succeeds.\<close>

definition sem_down :: "int \<Rightarrow> int option" where
  "sem_down c = (if c > 0 then Some (c - 1) else None)"

lemma sem_down_try:
  "sem_down (res s) = (if snd (uk_semaphore_down_try s) then Some (res (fst (uk_semaphore_down_try s))) else None)"
  "pc s (cur s) = Take \<Longrightarrow> sem_down (res s) = (if snd (semaphore_take now s) = Taken then Some (res (fst (semaphore_take now s))) else None)"
  by (simp_all add: sem_down_def uk_semaphore_down_try_def semaphore_take_def)

definition uk_mbox_post_try :: "'a mbox \<Rightarrow> 'a \<Rightarrow> ('a mbox \<times> (errno + unit)) option" where
  "uk_mbox_post_try m msg =
     (case sem_down (writesem m) of
        None \<Rightarrow> Some (m, Inl ENOBUFS)
      | Some w \<Rightarrow> do { m \<leftarrow> do_mbox_post (m\<lparr>writesem := w\<rparr>) msg; Some (m, Inr ()) })"

definition uk_mbox_recv_try :: "'a mbox \<Rightarrow> ('a mbox \<times> (errno + 'a)) option" where
  "uk_mbox_recv_try m =
     (case sem_down (readsem m) of
        None \<Rightarrow> Some (m, Inl ENOMSG)
      | Some r \<Rightarrow> do { (m, v) \<leftarrow> do_mbox_recv (m\<lparr>readsem := r\<rparr>); Some (m, Inr v) })"

text \<open>The calls that may block: \<open>Some None\<close> when the semaphore makes the caller wait.\<close>

definition uk_mbox_post :: "'a mbox \<Rightarrow> 'a \<Rightarrow> 'a mbox option option" where
  "uk_mbox_post m msg =
     (case sem_down (writesem m) of
        None \<Rightarrow> Some None
      | Some w \<Rightarrow> do { m \<leftarrow> do_mbox_post (m\<lparr>writesem := w\<rparr>) msg; Some (Some m) })"

definition uk_mbox_recv :: "'a mbox \<Rightarrow> ('a mbox \<times> 'a) option option" where
  "uk_mbox_recv m =
     (case sem_down (readsem m) of
        None \<Rightarrow> Some None
      | Some r \<Rightarrow> do { (m, rmsg) \<leftarrow> do_mbox_recv (m\<lparr>readsem := r\<rparr>); Some (Some (m, rmsg)) })"

text \<open>
  With a time-out, \<open>got\<close> tells whether \<^verbatim>\<open>uk_semaphore_down_to\<close> took the semaphore; it does so only when the count
  is positive. \<^verbatim>\<open>uk_mbox_recv_to\<close> stores a null pointer when the time is over.
\<close>

definition uk_mbox_post_to :: "bool \<Rightarrow> 'a mbox \<Rightarrow> 'a \<Rightarrow> ('a mbox \<times> bool) option" where
  "uk_mbox_post_to got m msg =
     (if got then do { w \<leftarrow> sem_down (writesem m); m \<leftarrow> do_mbox_post (m\<lparr>writesem := w\<rparr>) msg; Some (m, True) }
      else Some (m, False))"

definition uk_mbox_recv_to :: "bool \<Rightarrow> 'a mbox \<Rightarrow> ('a mbox \<times> 'a option) option" where
  "uk_mbox_recv_to got m =
     (if got then do { r \<leftarrow> sem_down (readsem m); (m, v) \<leftarrow> do_mbox_recv (m\<lparr>readsem := r\<rparr>); Some (m, Some v) }
      else Some (m, None))"

section \<open>The messages in the mailbox\<close>

definition mbox_wf :: "'a mbox \<Rightarrow> bool" where
  "mbox_wf m \<longleftrightarrow> length (msgs m) = len m \<and> readpos m < len m \<and> writepos m < len m"

definition mbox_used :: "'a mbox \<Rightarrow> nat" where
  "mbox_used m = (writepos m + len m - readpos m) mod len m"

definition mbox_contents :: "'a mbox \<Rightarrow> 'a list" where
  "mbox_contents m = map (\<lambda>i. msgs m ! ((readpos m + i) mod len m)) [0..<mbox_used m]"

lemma length_mbox_contents [simp]: "length (mbox_contents m) = mbox_used m"
  by (simp add: mbox_contents_def)

lemma used_less: "mbox_wf m \<Longrightarrow> mbox_used m < len m"
  by (auto simp: mbox_wf_def mbox_used_def)

lemma used_cases:
  "mbox_wf m \<Longrightarrow> mbox_used m = (if readpos m \<le> writepos m then writepos m - readpos m else writepos m + len m - readpos m)"
  by (auto simp: mbox_wf_def mbox_used_def mod_if)

lemma writepos_used: "mbox_wf m \<Longrightarrow> (readpos m + mbox_used m) mod len m = writepos m"
  by (auto simp: mbox_wf_def mbox_used_def mod_if)

lemma used_zero_iff: "mbox_wf m \<Longrightarrow> mbox_used m = 0 \<longleftrightarrow> readpos m = writepos m"
  by (auto simp: used_cases) (auto simp: mbox_wf_def)

lemma mbox_write_ok:
  assumes wf: "mbox_wf m" and u: "mbox_used m + 1 < len m"
  shows "\<exists>m'. mbox_write m v = Some m' \<and> mbox_wf m' \<and> mbox_contents m' = mbox_contents m @ [v] \<and> mbox_used m' = mbox_used m + 1 \<and>
    len m' = len m \<and> readsem m' = readsem m \<and> writesem m' = writesem m"
proof -
  define m' where "m' = m\<lparr>msgs := (msgs m)[writepos m := v], writepos := (writepos m + 1) mod len m\<rparr>"
  have wf': "mbox_wf m'" using wf by (auto simp: mbox_wf_def m'_def)
  have u': "mbox_used m' = mbox_used m + 1"
    using wf u unfolding used_cases [OF wf] used_cases [OF wf'] by (auto simp: mbox_wf_def m'_def mod_if split: if_splits)
  have ne: "readpos m \<noteq> (writepos m + 1) mod len m" using used_zero_iff [OF wf'] u' by (simp add: m'_def)
  have old: "msgs m' ! ((readpos m + i) mod len m) = msgs m ! ((readpos m + i) mod len m)" if "i < mbox_used m" for i
  proof -
    have "(readpos m + i) mod len m \<noteq> (readpos m + mbox_used m) mod len m"
      using that used_less [OF wf] wf by (auto simp: mbox_wf_def mod_if)
    then show ?thesis using writepos_used [OF wf] by (simp add: m'_def)
  qed
  have "mbox_contents m' = mbox_contents m @ [v]"
    using old writepos_used [OF wf] wf by (simp add: mbox_contents_def u') (simp add: m'_def mbox_wf_def)
  moreover have "mbox_write m v = Some m'" using wf ne by (simp add: mbox_write_def mbox_wf_def m'_def)
  ultimately show ?thesis using wf' u' by (simp add: m'_def)
qed

lemma mbox_read_ok:
  assumes wf: "mbox_wf m" and u: "mbox_used m > 0"
  shows "\<exists>m'. mbox_read m = Some (m', hd (mbox_contents m)) \<and> mbox_wf m' \<and> mbox_contents m' = tl (mbox_contents m) \<and>
    mbox_used m' = mbox_used m - 1 \<and> len m' = len m \<and> readsem m' = readsem m \<and> writesem m' = writesem m"
proof -
  define m' where "m' = m\<lparr>readpos := (readpos m + 1) mod len m\<rparr>"
  have wf': "mbox_wf m'" using wf by (auto simp: mbox_wf_def m'_def)
  have ne: "readpos m \<noteq> writepos m" using used_zero_iff [OF wf] u by simp
  have u': "mbox_used m' = mbox_used m - 1"
    using wf ne unfolding used_cases [OF wf] used_cases [OF wf'] by (auto simp: mbox_wf_def m'_def mod_if split: if_splits)
  have c: "mbox_contents m = msgs m ! readpos m # map (\<lambda>i. msgs m ! ((readpos m + Suc i) mod len m)) [0..<mbox_used m - 1]"
    using u wf by (cases "mbox_used m") (simp_all add: mbox_contents_def mbox_wf_def map_upt_Suc del: upt_Suc)
  have "mbox_contents m' = tl (mbox_contents m)"
    unfolding c by (simp add: mbox_contents_def u') (simp add: m'_def mod_add_left_eq)
  moreover have "mbox_read m = Some (m', hd (mbox_contents m))" using wf ne unfolding c by (simp add: mbox_read_def mbox_wf_def m'_def)
  ultimately show ?thesis using wf' u' by (simp add: m'_def)
qed

section \<open>One thread\<close>

text \<open>Between two operations the semaphores count the messages and the free places.\<close>

definition mbox_inv :: "'a mbox \<Rightarrow> bool" where
  "mbox_inv m \<longleftrightarrow> mbox_wf m \<and> readsem m = int (mbox_used m) \<and> writesem m = int (len m) - 1 - int (mbox_used m)"

definition mbox_cap :: "'a mbox \<Rightarrow> nat" where
  "mbox_cap m = len m - 1"

definition mbox_deq :: "'a mbox \<Rightarrow> ('a mbox \<times> 'a option) option" where
  "mbox_deq m = map_option (\<lambda>(m, r). (m, case r of Inl _ \<Rightarrow> None | Inr v \<Rightarrow> Some v)) (uk_mbox_recv_try m)"

lemma mbox_sems [simp]:
  "mbox_wf (m\<lparr>writesem := w\<rparr>) = mbox_wf m" "mbox_wf (m\<lparr>readsem := w\<rparr>) = mbox_wf m"
  "mbox_used (m\<lparr>writesem := w\<rparr>) = mbox_used m" "mbox_used (m\<lparr>readsem := w\<rparr>) = mbox_used m"
  "mbox_contents (m\<lparr>writesem := w\<rparr>) = mbox_contents m" "mbox_contents (m\<lparr>readsem := w\<rparr>) = mbox_contents m"
  by (simp_all add: mbox_wf_def mbox_used_def mbox_contents_def)

interpretation mbox_q: bounded_fifo mbox_inv mbox_contents mbox_cap uk_mbox_post_try mbox_deq
proof
  fix q :: "'a mbox" and v assume q: "mbox_inv q" "length (mbox_contents q) < mbox_cap q"
  then have "mbox_used q + 1 < len q" by (simp add: mbox_cap_def)
  then obtain m where "mbox_write (q\<lparr>writesem := writesem q - 1\<rparr>) v = Some m" "mbox_wf m" "mbox_contents m = mbox_contents q @ [v]"
    "mbox_used m = mbox_used q + 1" "len m = len q" "readsem m = readsem q" "writesem m = writesem q - 1"
    using mbox_write_ok [of "q\<lparr>writesem := writesem q - 1\<rparr>" v] q(1) by (auto simp: mbox_inv_def)
  then show "\<exists>q'. uk_mbox_post_try q v = Some (q', Inr ()) \<and> mbox_inv q' \<and> mbox_contents q' = mbox_contents q @ [v] \<and> mbox_cap q' = mbox_cap q"
    using q by (simp add: uk_mbox_post_try_def do_mbox_post_def sem_down_def mbox_inv_def mbox_cap_def)
next
  fix q :: "'a mbox" and v assume q: "mbox_inv q" "\<not> length (mbox_contents q) < mbox_cap q"
  then show "\<exists>q' e. uk_mbox_post_try q v = Some (q', Inl e) \<and> mbox_inv q' \<and> mbox_contents q' = mbox_contents q \<and> mbox_cap q' = mbox_cap q"
    by (auto simp: uk_mbox_post_try_def sem_down_def mbox_inv_def mbox_cap_def)
next
  fix q :: "'a mbox" and x xs assume q: "mbox_inv q" "mbox_contents q = x # xs"
  then have "mbox_used q > 0" using length_mbox_contents [of q] by simp
  then obtain m where "mbox_read (q\<lparr>readsem := readsem q - 1\<rparr>) = Some (m, x)" "mbox_wf m" "mbox_contents m = xs"
    "mbox_used m = mbox_used q - 1" "len m = len q" "readsem m = readsem q - 1" "writesem m = writesem q"
    using mbox_read_ok [of "q\<lparr>readsem := readsem q - 1\<rparr>"] q by (auto simp: mbox_inv_def)
  then show "\<exists>q'. mbox_deq q = Some (q', Some x) \<and> mbox_inv q' \<and> mbox_contents q' = xs \<and> mbox_cap q' = mbox_cap q"
    using q \<open>mbox_used q > 0\<close> by (simp add: mbox_deq_def uk_mbox_recv_try_def do_mbox_recv_def sem_down_def mbox_inv_def mbox_cap_def)
next
  fix q :: "'a mbox" assume q: "mbox_inv q" "mbox_contents q = []"
  then have "mbox_used q = 0" using length_mbox_contents [of q] by simp
  then show "\<exists>q'. mbox_deq q = Some (q', None) \<and> mbox_inv q' \<and> mbox_contents q' = [] \<and> mbox_cap q' = mbox_cap q"
    using q by (simp add: mbox_deq_def uk_mbox_recv_try_def sem_down_def mbox_inv_def)
qed

end
