(* ===== verification/MboxConc.thy ===== *)
theory MboxConc
  imports Mbox
begin

text \<open>
  Threads and interrupt handlers that share a mailbox: every operation is cut where the code gives up
  exclusion, and the pieces interleave in any order.
\<close>

text \<open>Where an operation stands: it has taken a semaphore, or moved the position and not yet raised the other semaphore.\<close>

datatype 'a phase = Out | Posting 'a | Posted | Receiving | Received 'a

record 'a mbox_run =
  box :: "'a mbox"
  phase :: "nat \<Rightarrow> 'a phase"
  sent :: "'a list"
  got :: "'a list"

inductive mbox_step :: "'a mbox_run \<Rightarrow> 'a mbox_run \<Rightarrow> bool" where
  post: "phase s t = Out \<Longrightarrow> sem_down (writesem (box s)) = Some w \<Longrightarrow>
    mbox_step s (s\<lparr>box := (box s)\<lparr>writesem := w\<rparr>, phase := (phase s)(t := Posting v)\<rparr>)"
| put: "phase s t = Posting v \<Longrightarrow> mbox_write (box s) v = Some m \<Longrightarrow>
    mbox_step s (s\<lparr>box := m, phase := (phase s)(t := Posted), sent := sent s @ [v]\<rparr>)"
| post_up: "phase s t = Posted \<Longrightarrow>
    mbox_step s (s\<lparr>box := (box s)\<lparr>readsem := readsem (box s) + 1\<rparr>, phase := (phase s)(t := Out)\<rparr>)"
| recv: "phase s t = Out \<Longrightarrow> sem_down (readsem (box s)) = Some r \<Longrightarrow>
    mbox_step s (s\<lparr>box := (box s)\<lparr>readsem := r\<rparr>, phase := (phase s)(t := Receiving)\<rparr>)"
| fetch: "phase s t = Receiving \<Longrightarrow> mbox_read (box s) = Some (m, v) \<Longrightarrow>
    mbox_step s (s\<lparr>box := m, phase := (phase s)(t := Received v), got := got s @ [v]\<rparr>)"
| recv_up: "phase s t = Received v \<Longrightarrow>
    mbox_step s (s\<lparr>box := (box s)\<lparr>writesem := writesem (box s) + 1\<rparr>, phase := (phase s)(t := Out)\<rparr>)"

inductive mbox_reach :: "nat \<Rightarrow> 'a mbox_run \<Rightarrow> bool" where
  create: "uk_mbox_create malloc garbage n = Some (Some m) \<Longrightarrow>
    mbox_reach n \<lparr>box = m, phase = (\<lambda>_. Out), sent = [], got = []\<rparr>"
| step: "mbox_reach n s \<Longrightarrow> mbox_step s s' \<Longrightarrow> mbox_reach n s'"

text \<open>A call that is not interrupted is three of these steps.\<close>

lemma three_steps: "r a b \<Longrightarrow> r b c \<Longrightarrow> r c d \<Longrightarrow> r\<^sup>*\<^sup>* a d"
  by (intro converse_rtranclp_into_rtranclp [of r a b] converse_rtranclp_into_rtranclp [of r b c]) simp_all

lemma post_is_steps:
  assumes "uk_mbox_post (box s) v = Some (Some m)" "phase s t = Out"
  shows "mbox_step\<^sup>*\<^sup>* s (s\<lparr>box := m, sent := sent s @ [v]\<rparr>)"
proof -
  obtain w m1 where w: "sem_down (writesem (box s)) = Some w" "mbox_write ((box s)\<lparr>writesem := w\<rparr>) v = Some m1" "m = m1\<lparr>readsem := readsem m1 + 1\<rparr>"
    using assms(1) by (auto simp: uk_mbox_post_def do_mbox_post_def split: option.splits bind_splits)
  let ?a = "s\<lparr>box := (box s)\<lparr>writesem := w\<rparr>, phase := (phase s)(t := Posting v)\<rparr>"
  let ?b = "?a\<lparr>box := m1, phase := (phase ?a)(t := Posted), sent := sent ?a @ [v]\<rparr>"
  have "mbox_step s ?a" by (rule mbox_step.post [where t = t, OF assms(2) w(1)])
  moreover have "mbox_step ?a ?b" by (rule mbox_step.put [where t = t]) (use w(2) in simp_all)
  moreover have "mbox_step ?b (?b\<lparr>box := (box ?b)\<lparr>readsem := readsem (box ?b) + 1\<rparr>, phase := (phase ?b)(t := Out)\<rparr>)"
    by (rule mbox_step.post_up) simp
  ultimately have "mbox_step\<^sup>*\<^sup>* s (?b\<lparr>box := (box ?b)\<lparr>readsem := readsem (box ?b) + 1\<rparr>, phase := (phase ?b)(t := Out)\<rparr>)" by (rule three_steps)
  moreover have "(phase s)(t := Out) = phase s" using assms(2) by (simp add: fun_upd_idem)
  ultimately show ?thesis using w(3) by (cases s) simp
qed

lemma recv_is_steps:
  assumes "uk_mbox_recv (box s) = Some (Some (m, v))" "phase s t = Out"
  shows "mbox_step\<^sup>*\<^sup>* s (s\<lparr>box := m, got := got s @ [v]\<rparr>)"
proof -
  obtain r m1 where r: "sem_down (readsem (box s)) = Some r" "mbox_read ((box s)\<lparr>readsem := r\<rparr>) = Some (m1, v)" "m = m1\<lparr>writesem := writesem m1 + 1\<rparr>"
    using assms(1) by (auto simp: uk_mbox_recv_def do_mbox_recv_def split: option.splits bind_splits)
  let ?a = "s\<lparr>box := (box s)\<lparr>readsem := r\<rparr>, phase := (phase s)(t := Receiving)\<rparr>"
  let ?b = "?a\<lparr>box := m1, phase := (phase ?a)(t := Received v), got := got ?a @ [v]\<rparr>"
  have "mbox_step s ?a" by (rule mbox_step.recv [where t = t, OF assms(2) r(1)])
  moreover have "mbox_step ?a ?b" by (rule mbox_step.fetch [where t = t]) (use r(2) in simp_all)
  moreover have "mbox_step ?b (?b\<lparr>box := (box ?b)\<lparr>writesem := writesem (box ?b) + 1\<rparr>, phase := (phase ?b)(t := Out)\<rparr>)"
    by (rule mbox_step.recv_up) simp
  ultimately have "mbox_step\<^sup>*\<^sup>* s (?b\<lparr>box := (box ?b)\<lparr>writesem := writesem (box ?b) + 1\<rparr>, phase := (phase ?b)(t := Out)\<rparr>)" by (rule three_steps)
  moreover have "(phase s)(t := Out) = phase s" using assms(2) by (simp add: fun_upd_idem)
  ultimately show ?thesis using r(3) by (cases s) simp
qed

text \<open>The operations in each phase, and the invariant that balances them against the semaphores.\<close>

definition count_in :: "('a phase \<Rightarrow> bool) \<Rightarrow> 'a mbox_run \<Rightarrow> int" where
  "count_in P s = int (card {t. P (phase s t)})"

abbreviation "is_posting p \<equiv> case p of Posting _ \<Rightarrow> True | _ \<Rightarrow> False"
abbreviation "is_received p \<equiv> case p of Received _ \<Rightarrow> True | _ \<Rightarrow> False"

definition run_inv :: "nat \<Rightarrow> 'a mbox_run \<Rightarrow> bool" where
  "run_inv n s \<longleftrightarrow> mbox_wf (box s) \<and> len (box s) = n + 1 \<and> finite {t. phase s t \<noteq> Out} \<and>
     readsem (box s) \<ge> 0 \<and> writesem (box s) \<ge> 0 \<and>
     int (mbox_used (box s)) = readsem (box s) + count_in ((=) Receiving) s + count_in ((=) Posted) s \<and>
     int n = writesem (box s) + count_in is_posting s + int (mbox_used (box s)) + count_in is_received s \<and>
     sent s = got s @ mbox_contents (box s)"

lemma count_change:
  assumes fin: "finite {t. phase s t \<noteq> Out}" and ph: "phase s' = (phase s)(t := p)" and P: "\<not> P Out"
  shows "count_in P s' = count_in P s - (if P (phase s t) then 1 else 0) + (if P p then 1 else 0)"
proof -
  have f: "finite {u. P (phase s u)}" by (rule finite_subset [OF _ fin]) (use P in auto)
  let ?A = "{u. P (phase s u)}"
  have eq: "{u. P (phase s' u)} = (if P p then insert t (?A - {t}) else ?A - {t})" by (auto simp: ph)
  have "int (card (?A - {t})) = int (card ?A) - (if P (phase s t) then 1 else 0)"
    using f card_Suc_Diff1 [of ?A t] by (cases "P (phase s t)") auto
  moreover have "card (insert t (?A - {t})) = Suc (card (?A - {t}))" by (rule card_insert_disjoint) (use f in auto)
  ultimately show ?thesis unfolding count_in_def eq by (cases "P p") (simp_all del: insert_Diff_single)
qed

lemma finite_change: "finite {t. phase s t \<noteq> Out} \<Longrightarrow> finite {u. ((phase s)(t := p)) u \<noteq> Out}"
  by (rule finite_subset [of _ "insert t {t. phase s t \<noteq> Out}"]) auto

lemma count_nonneg: "count_in P s \<ge> 0"
  by (simp add: count_in_def)

lemma count_pos: "finite {t. phase s t \<noteq> Out} \<Longrightarrow> P (phase s t) \<Longrightarrow> \<not> P Out \<Longrightarrow> count_in P s > 0"
  unfolding count_in_def
  by (simp add: card_gt_0_iff) (metis (mono_tags, lifting) Collect_mono finite_subset)

lemmas balance = count_nonneg [of is_posting] count_nonneg [of is_received] count_nonneg [of "(=) Receiving"] count_nonneg [of "(=) Posted"]

text \<open>Both assertions hold: a place is free for every operation in \<open>Posting\<close>, a message is there for every one in \<open>Receiving\<close>.\<close>

lemma posting_room:
  assumes "run_inv n s" "phase s t = Posting v"
  shows "mbox_used (box s) + 1 < len (box s)"
  using assms count_pos [of s is_posting t] count_nonneg [of is_received s] by (auto simp: run_inv_def)

lemma receiving_message:
  assumes "run_inv n s" "phase s t = Receiving"
  shows "mbox_used (box s) > 0"
  using assms count_pos [of s "(=) Receiving" t] count_nonneg [of "(=) Posted" s] by (auto simp: run_inv_def)

lemma run_inv_step:
  assumes "mbox_step s s'" "run_inv n s"
  shows "run_inv n s'"
proof -
  have fin: "finite {t. phase s t \<noteq> Out}" using assms(2) by (simp add: run_inv_def)
  note ch = count_change [OF fin, where P = is_posting] count_change [OF fin, where P = is_received]
    count_change [OF fin, where P = "(=) Receiving"] count_change [OF fin, where P = "(=) Posted"]
  show ?thesis using assms(1)
  proof (cases rule: mbox_step.cases)
    case (post t w v)
    then show ?thesis using assms(2) finite_change [OF fin, of t "Posting v"] ch [of s' t "Posting v"]
      by (auto simp: run_inv_def sem_down_def split: if_splits)
  next
    case (put t v m)
    obtain m' where "mbox_write (box s) v = Some m'" "mbox_wf m'" "mbox_contents m' = mbox_contents (box s) @ [v]"
      "mbox_used m' = mbox_used (box s) + 1" "len m' = len (box s)" "readsem m' = readsem (box s)" "writesem m' = writesem (box s)"
      using mbox_write_ok [of "box s" v] posting_room [OF assms(2) put(2)] assms(2) by (auto simp: run_inv_def)
    then show ?thesis using put assms(2) finite_change [OF fin, of t Posted] ch [of s' t Posted] by (auto simp: run_inv_def)
  next
    case (post_up t)
    then show ?thesis using assms(2) finite_change [OF fin, of t Out] ch [of s' t Out] by (auto simp: run_inv_def)
  next
    case (recv t r)
    then show ?thesis using assms(2) finite_change [OF fin, of t Receiving] ch [of s' t Receiving]
      by (auto simp: run_inv_def sem_down_def split: if_splits)
  next
    case (fetch t m v)
    have u: "mbox_used (box s) > 0" using receiving_message [OF assms(2) fetch(2)] .
    then obtain m' where "mbox_read (box s) = Some (m', hd (mbox_contents (box s)))" "mbox_wf m'" "mbox_contents m' = tl (mbox_contents (box s))"
      "mbox_used m' = mbox_used (box s) - 1" "len m' = len (box s)" "readsem m' = readsem (box s)" "writesem m' = writesem (box s)"
      using mbox_read_ok [of "box s"] assms(2) by (auto simp: run_inv_def)
    moreover have "mbox_contents (box s) \<noteq> []" using u length_mbox_contents [of "box s"] by force
    ultimately show ?thesis using fetch u assms(2) finite_change [OF fin, of t "Received v"] ch [of s' t "Received v"] by (auto simp: run_inv_def)
  next
    case (recv_up t v)
    then show ?thesis using assms(2) finite_change [OF fin, of t Out] ch [of s' t Out] by (auto simp: run_inv_def)
  qed
qed

lemma create_inv:
  assumes "uk_mbox_create malloc garbage n = Some (Some m)"
  shows "run_inv n \<lparr>box = m, phase = (\<lambda>_. Out), sent = [], got = []\<rparr>"
  using assms
  by (auto simp: uk_mbox_create_def run_inv_def mbox_wf_def mbox_used_def mbox_contents_def count_in_def uk_assert_def split: if_splits)

lemma mbox_reach_inv: "mbox_reach n s \<Longrightarrow> run_inv n s"
  by (induction rule: mbox_reach.induct) (use create_inv run_inv_step in blast)+

section \<open>Properties\<close>



text \<open>
  C18: Used by one thread, a mailbox of size \<open>n\<close> answers every sequence of \<^verbatim>\<open>uk_mbox_post_try\<close> and \<^verbatim>\<open>uk_mbox_recv_try\<close>
  like a list bounded by \<open>n\<close>, and no assertion fails.
\<close>

theorem mbox_refines:
  assumes "uk_mbox_create malloc garbage n = Some (Some m)"
  shows "\<exists>m'. run_ops uk_mbox_post_try mbox_deq m ops = Some (m', snd (spec_ops n [] ops)) \<and> mbox_contents m' = fst (spec_ops n [] ops)"
proof -
  have "mbox_inv m \<and> mbox_contents m = [] \<and> mbox_cap m = n"
    using assms by (auto simp: uk_mbox_create_def mbox_inv_def mbox_wf_def mbox_used_def mbox_contents_def mbox_cap_def uk_assert_def split: if_splits)
  then show ?thesis using mbox_q.run_refines [of m ops] by auto
qed

theorem mbox_refines_witness:
  "\<exists>m'. run_ops uk_mbox_post_try mbox_deq \<lparr>len = 2, readsem = 0, readpos = 0, writesem = 1, writepos = 0, msgs = [0, 0 :: nat]\<rparr>
     [Enq 5, Enq 6, Deq, Deq] = Some (m', [R_enq True, R_enq False, R_deq (Some 5), R_deq None])"
  using mbox_refines [of "\<lambda>_. True" "\<lambda>_. 0" 1 "\<lparr>len = 2, readsem = 0, readpos = 0, writesem = 1, writepos = 0, msgs = [0, 0 :: nat]\<rparr>"
      "[Enq 5, Enq 6, Deq, Deq]"] by (auto simp: uk_mbox_create_def upt_rec)

text \<open>
  The size of the allocation wraps around: sizes that pass the assertion are created with too little memory.
\<close>

lemma mbox_create_wraps:
  "\<exists>m. uk_mbox_create (\<lambda>bytes. bytes \<le> 72) garbage (2 ^ 61 - 1) = Some (Some m) \<and> len m = 2 ^ 61"
  by (simp add: uk_mbox_create_def sizeof_mbox_def)

end
