(* ===== verification/Virtqueue.thy ===== *)
theory Virtqueue
  imports Sglist
begin

text \<open>
  The split virtqueue of \<^verbatim>\<open>plat/drivers/virtio/virtio_ring.c\<close> and \<^verbatim>\<open>virtio_ring.h\<close>: the table of descriptors, the
  ring of available and the ring of used buffers, and the driver's own data. Indices keep their 16 bits. An access
  outside a table, a failed assertion and a loop that does not end are \<open>None\<close>. The pointers of the structure \<^verbatim>\<open>vring\<close> are
  separate lists; that the memory they point into is large enough and does not overlap is shown of \<^verbatim>\<open>vring_init\<close> and \<^verbatim>\<open>vring_size\<close>.
\<close>

abbreviation (input) VRING_DESC_F_NEXT :: u16 where "VRING_DESC_F_NEXT \<equiv> 1"
abbreviation (input) VRING_DESC_F_WRITE :: u16 where "VRING_DESC_F_WRITE \<equiv> 2"
abbreviation (input) VRING_USED_F_NO_NOTIFY :: u16 where "VRING_USED_F_NO_NOTIFY \<equiv> 1"
abbreviation (input) VRING_AVAIL_F_NO_INTERRUPT :: u16 where "VRING_AVAIL_F_NO_INTERRUPT \<equiv> 1"
abbreviation (input) VIRTQUEUE_MAX_SIZE :: u16 where "VIRTQUEUE_MAX_SIZE \<equiv> 32768"

record vring_desc =
  d_addr :: u64
  d_len :: u32
  d_flags :: u16
  d_next :: u16

record vring_used_elem =
  ue_id :: u32
  ue_len :: u32

record 'c virtqueue_desc_info =
  cookie :: "'c option"
  desc_count :: u16

record 'c virtqueue_vring =
  num :: nat
  desc :: "vring_desc list"
  avail_flags :: u16
  avail_idx :: u16
  avail_ring :: "u16 list"
  used_flags :: u16
  used_idx :: u16
  used_ring :: "vring_used_elem list"
  desc_avail :: u16
  head_free_desc :: u16
  last_used_desc_idx :: u16
  vq_avail_idx :: u16
  vq_info :: "'c virtqueue_desc_info list"

section \<open>The memory of the ring\<close>

text \<open>The addresses of the three tables in the memory at \<open>p\<close>, and the size of that memory; \<^verbatim>\<open>size\<close> is of type int.\<close>

definition vring_init :: "u32 \<Rightarrow> u64 \<Rightarrow> u64 \<Rightarrow> u64 \<times> u64 \<times> u64" where
  "vring_init n p align =
     (let avail = p + ucast n * 16; avail_end = avail + 4 + ucast n * 2 in (p, avail, (avail_end + align - 1) AND NOT (align - 1)))"

definition vring_size :: "u32 \<Rightarrow> u64 \<Rightarrow> u32" where
  "vring_size n align =
     (let sz = ucast (ucast n * 16 :: u64) :: u32;
          sz = ucast (scast sz + (4 + ucast n * 2 + 2) :: u64) :: u32;
          sz = ucast ((scast sz + align - 1 :: u64) AND NOT (align - 1)) :: u32
      in ucast (scast sz + (4 + ucast n * 8 + 2) :: u64))"

text \<open>The comparison is made in the type int: the differences of the 16-bit indices are not cut to 16 bits.\<close>

definition vring_need_event :: "u16 \<Rightarrow> u16 \<Rightarrow> u16 \<Rightarrow> bool" where
  "vring_need_event event_idx new_idx old_idx \<longleftrightarrow>
     int (unat new_idx) - int (unat event_idx) - 1 < int (unat new_idx) - int (unat old_idx)"

section \<open>Interrupts and notifications\<close>

definition virtqueue_hasdata :: "'c virtqueue_vring \<Rightarrow> bool" where
  "virtqueue_hasdata q \<longleftrightarrow> last_used_desc_idx q \<noteq> used_idx q"

definition virtqueue_intr_disable :: "'c virtqueue_vring \<Rightarrow> 'c virtqueue_vring" where
  "virtqueue_intr_disable q = q\<lparr>avail_flags := avail_flags q OR VRING_AVAIL_F_NO_INTERRUPT\<rparr>"

text \<open>The device may complete buffers after the flag is cleared: \<open>dev\<close> is what it does there.\<close>

definition virtqueue_intr_enable ::
  "('c virtqueue_vring \<Rightarrow> 'c virtqueue_vring) \<Rightarrow> 'c virtqueue_vring \<Rightarrow> 'c virtqueue_vring \<times> bool" where
  "virtqueue_intr_enable dev q =
     (if \<not> virtqueue_hasdata q
      then if avail_flags q OR VRING_AVAIL_F_NO_INTERRUPT \<noteq> 0
        then let q = q\<lparr>avail_flags := avail_flags q AND NOT VRING_AVAIL_F_NO_INTERRUPT\<rparr>; q = dev q in
          if virtqueue_hasdata q then (virtqueue_intr_disable q, True) else (q, False)
        else (q, False)
      else (q, True))"

definition virtqueue_notify_enabled :: "'c virtqueue_vring \<Rightarrow> bool" where
  "virtqueue_notify_enabled q \<longleftrightarrow> used_flags q AND VRING_USED_F_NO_NOTIFY = 0"

definition virtqueue_feature_negotiate :: "u64 \<Rightarrow> u64" where
  "virtqueue_feature_negotiate feature_set = (2 ^ 28 - 1) AND feature_set"

definition virtqueue_ring_interrupt :: "('c virtqueue_vring \<Rightarrow> 'c virtqueue_vring \<times> int) option \<Rightarrow> 'c virtqueue_vring \<Rightarrow> 'c virtqueue_vring \<times> int" where
  "virtqueue_ring_interrupt callback q =
     (if \<not> virtqueue_hasdata q then (q, 0) else case callback of Some f \<Rightarrow> f q | None \<Rightarrow> (q, 0))"

definition virtqueue_is_full :: "'c virtqueue_vring \<Rightarrow> bool" where
  "virtqueue_is_full q \<longleftrightarrow> desc_avail q = 0"

section \<open>Giving buffers to the device\<close>

definition virtqueue_ring_update_avail_idx :: "'c virtqueue_vring \<Rightarrow> 'c virtqueue_vring" where
  "virtqueue_ring_update_avail_idx q = q\<lparr>avail_idx := vq_avail_idx q\<rparr>"

text \<open>\<^verbatim>\<open>num - 1\<close> is of type unsigned int.\<close>

definition ring_slot :: "'c virtqueue_vring \<Rightarrow> u16 \<Rightarrow> nat" where
  "ring_slot q idx = unat (ucast idx AND (of_nat (num q) - 1 :: u32))"

definition virtqueue_ring_update_avail :: "'c virtqueue_vring \<Rightarrow> u16 \<Rightarrow> 'c virtqueue_vring option" where
  "virtqueue_ring_update_avail q idx =
     (let i = ring_slot q (vq_avail_idx q) in
      if \<not> i < length (avail_ring q) then None
      else Some (q\<lparr>avail_ring := (avail_ring q)[i := idx], vq_avail_idx := vq_avail_idx q + 1\<rparr>))"

text \<open>Descriptor \<open>idx\<close> is filled with segment number \<open>k\<close> of \<open>tot\<close>; the loop runs over the chain of free descriptors.\<close>

definition desc_flags :: "nat \<Rightarrow> nat \<Rightarrow> nat \<Rightarrow> u16" where
  "desc_flags read_bufs tot k =
     (if k \<ge> read_bufs then VRING_DESC_F_WRITE else 0) OR (if k < tot - 1 then VRING_DESC_F_NEXT else 0)"

fun fill_descs ::
  "nat \<Rightarrow> nat \<Rightarrow> uk_sglist_seg list \<Rightarrow> nat \<Rightarrow> vring_desc list \<Rightarrow> u16 \<Rightarrow> (vring_desc list \<times> u16) option" where
  "fill_descs read_bufs tot [] k ds idx = Some (ds, idx)"
| "fill_descs read_bufs tot (seg # segs) k ds idx =
     (if \<not> unat idx < length ds then None
      else let d = ds ! unat idx in
        fill_descs read_bufs tot segs (k + 1)
          (ds[unat idx := d\<lparr>d_addr := ss_paddr seg, d_len := ucast (ss_len seg), d_flags := desc_flags read_bufs tot k\<rparr>]) (d_next d))"

definition virtqueue_buffer_enqueue_segments ::
  "'c virtqueue_vring \<Rightarrow> u16 \<Rightarrow> uk_sglist_seg list \<Rightarrow> nat \<Rightarrow> nat \<Rightarrow> nat \<Rightarrow> ('c virtqueue_vring \<times> u16) option" where
  "virtqueue_buffer_enqueue_segments q head sg off read_bufs write_bufs =
     (let tot = read_bufs + write_bufs in
      if \<not> off + tot \<le> length sg then None
      else do {
        (ds, idx) \<leftarrow> fill_descs read_bufs tot (take tot (drop off sg)) 0 (desc q) head;
        Some (q\<lparr>desc := ds\<rparr>, idx)
      })"

text \<open>The result is the number of free descriptors left, or the error.\<close>

definition virtqueue_buffer_enqueue1 ::
  "'c virtqueue_vring \<Rightarrow> 'c \<Rightarrow> uk_sglist_seg list \<Rightarrow> nat \<Rightarrow> u16 \<Rightarrow> u16 \<Rightarrow> ('c virtqueue_vring \<times> (errno + nat)) option" where
  "virtqueue_buffer_enqueue1 q c sg off read_bufs write_bufs =
     (let tot = unat read_bufs + unat write_bufs in
      if unat (desc_avail q) < tot then Some (q, Inl ENOSPC)
      else let head = head_free_desc q in
        if \<not> unat head < length (vq_info q) then None
        else do {
          let q = q\<lparr>vq_info := (vq_info q)[unat head := \<lparr>cookie = Some c, desc_count = of_nat tot\<rparr>]\<rparr>;
          (q, idx) \<leftarrow> virtqueue_buffer_enqueue_segments q head sg off (unat read_bufs) (unat write_bufs);
          let q = q\<lparr>head_free_desc := idx, desc_avail := desc_avail q - of_nat tot\<rparr>;
          q \<leftarrow> virtqueue_ring_update_avail q head;
          Some (q, Inr (unat (desc_avail q)))
        })"

definition virtqueue_buffer_enqueue ::
  "'c virtqueue_vring \<Rightarrow> 'c \<Rightarrow> uk_sglist_seg list \<Rightarrow> u16 \<Rightarrow> u16 \<Rightarrow> ('c virtqueue_vring \<times> (errno + nat)) option" where
  "virtqueue_buffer_enqueue q c sg read_bufs write_bufs =
     (let tot = read_bufs + write_bufs in
      if tot < 1 \<or> unat tot > num q then Some (q, Inl EINVAL)
      else do {
        (q, rc) \<leftarrow> virtqueue_buffer_enqueue1 q c sg 0 read_bufs write_bufs;
        Some (case rc of Inr _ \<Rightarrow> virtqueue_ring_update_avail_idx q | Inl _ \<Rightarrow> q, rc)
      })"

text \<open>
  The buffers of a burst, each with the number of read and of write segments up to its end. The result is the number
  of buffers taken, with the last result; the result of an empty burst is not set by the code.
\<close>

fun enqueue_burst_loop ::
  "'c virtqueue_vring \<Rightarrow> ('c \<times> u16 \<times> u16) list \<Rightarrow> uk_sglist_seg list \<Rightarrow> nat \<Rightarrow> u16 \<Rightarrow> u16 \<Rightarrow> nat \<Rightarrow> errno + nat \<Rightarrow>
   ('c virtqueue_vring \<times> nat \<times> (errno + nat)) option" where
  "enqueue_burst_loop q [] sg tot read_desc write_desc i rc = Some (q, i, rc)"
| "enqueue_burst_loop q ((c, r, w) # bufs) sg tot read_desc write_desc i rc =
     do {
       (q, rc) \<leftarrow> virtqueue_buffer_enqueue1 q c sg tot (r - read_desc) (w - write_desc);
       case rc of Inl e \<Rightarrow> Some (q, i, rc)
       | Inr _ \<Rightarrow> enqueue_burst_loop q bufs sg (unat r + unat w) r w (i + 1) rc
     }"

definition virtqueue_buffer_enqueue_burst ::
  "errno + nat \<Rightarrow> 'c virtqueue_vring \<Rightarrow> ('c \<times> u16 \<times> u16) list \<Rightarrow> uk_sglist_seg list \<Rightarrow> ('c virtqueue_vring \<times> nat \<times> (errno + nat)) option" where
  "virtqueue_buffer_enqueue_burst unset q bufs sg =
     do {
       (q, i, rc) \<leftarrow> enqueue_burst_loop q bufs sg 0 0 0 0 unset;
       case rc of Inl e \<Rightarrow> Some (if bufs \<noteq> [] \<and> i = 0 then q else virtqueue_ring_update_avail_idx q, i, rc)
       | Inr _ \<Rightarrow> Some (virtqueue_ring_update_avail_idx q, i, rc)
     }"

text \<open>Network buffers: every descriptor of a buffer describes the whole of it, and the number of free descriptors is not tested.\<close>

definition virtnet_buffer_enqueue ::
  "'c virtqueue_vring \<Rightarrow> 'c \<Rightarrow> uk_sglist_seg \<Rightarrow> u16 \<Rightarrow> u16 \<Rightarrow> ('c virtqueue_vring \<times> nat) option" where
  "virtnet_buffer_enqueue q nb seg read_bufs write_bufs =
     (let tot = unat read_bufs + unat write_bufs; head = head_free_desc q in
      if \<not> unat head < length (vq_info q) then None
      else do {
        let q = q\<lparr>vq_info := (vq_info q)[unat head := \<lparr>cookie = Some nb, desc_count = of_nat tot\<rparr>]\<rparr>;
        (ds, idx) \<leftarrow> fill_descs (unat read_bufs) tot (replicate tot seg) 0 (desc q) head;
        let q = q\<lparr>desc := ds, head_free_desc := idx, desc_avail := desc_avail q - of_nat tot\<rparr>;
        uk_assert (unat (desc_avail q) < num q);
        q \<leftarrow> virtqueue_ring_update_avail q head;
        Some (q, unat (desc_avail q))
      })"

fun virtnet_burst_loop :: "'c virtqueue_vring \<Rightarrow> ('c \<times> uk_sglist_seg \<times> u16 \<times> u16) list \<Rightarrow> nat \<Rightarrow> ('c virtqueue_vring \<times> nat) option" where
  "virtnet_burst_loop q [] rc = Some (q, rc)"
| "virtnet_burst_loop q ((nb, seg, r, w) # bufs) rc =
     do { (q, rc) \<leftarrow> virtnet_buffer_enqueue q nb seg r w; virtnet_burst_loop q bufs rc }"

definition virtnet_buffer_enqueue_burst ::
  "nat \<Rightarrow> 'c virtqueue_vring \<Rightarrow> ('c \<times> uk_sglist_seg \<times> u16 \<times> u16) list \<Rightarrow> ('c virtqueue_vring \<times> nat) option" where
  "virtnet_buffer_enqueue_burst unset q bufs =
     do { (q, rc) \<leftarrow> virtnet_burst_loop q bufs unset; Some (virtqueue_ring_update_avail_idx q, rc) }"

section \<open>Taking buffers back\<close>

partial_function (option) detach_loop :: "vring_desc list \<Rightarrow> u16 \<Rightarrow> u16 \<Rightarrow> (u16 \<times> u16) option" where
  "detach_loop ds i count =
     (if \<not> unat i < length ds then None
      else if d_flags (ds ! unat i) AND VRING_DESC_F_NEXT \<noteq> 0 then detach_loop ds (d_next (ds ! unat i)) (count - 1)
      else Some (i, count))"

declare detach_loop.simps [code]

definition virtqueue_detach_desc :: "'c virtqueue_vring \<Rightarrow> u16 \<Rightarrow> 'c virtqueue_vring option" where
  "virtqueue_detach_desc q head =
     (if \<not> (unat head < length (desc q) \<and> unat head < length (vq_info q)) then None
      else do {
        let info = vq_info q ! unat head;
        let q = q\<lparr>desc_avail := desc_avail q + desc_count info\<rparr>;
        (last_desc, count) \<leftarrow> detach_loop (desc q) head (desc_count info - 1);
        uk_assert (count = 0);
        Some (q\<lparr>vq_info := (vq_info q)[unat head := info\<lparr>desc_count := count\<rparr>],
               desc := (desc q)[unat last_desc := (desc q ! unat last_desc)\<lparr>d_next := head_free_desc q\<rparr>],
               head_free_desc := head\<rparr>)
      })"

definition virtqueue_buffer_dequeue1 :: "'c virtqueue_vring \<Rightarrow> ('c virtqueue_vring \<times> 'c option \<times> u32) option" where
  "virtqueue_buffer_dequeue1 q =
     (let i = ring_slot q (last_used_desc_idx q); q = q\<lparr>last_used_desc_idx := last_used_desc_idx q + 1\<rparr> in
      if \<not> i < length (used_ring q) then None
      else let elem = used_ring q ! i; head = ucast (ue_id elem) :: u16 in
        if \<not> unat head < length (vq_info q) then None
        else do {
          let c = cookie (vq_info q ! unat head);
          q \<leftarrow> virtqueue_detach_desc q head;
          Some (q\<lparr>vq_info := (vq_info q)[unat head := (vq_info q ! unat head)\<lparr>cookie := None\<rparr>]\<rparr>, c, ue_len elem)
        })"

definition virtqueue_buffer_dequeue ::
  "'c virtqueue_vring \<Rightarrow> ('c virtqueue_vring \<times> (errno + 'c option \<times> u32 \<times> int)) option" where
  "virtqueue_buffer_dequeue q =
     (if \<not> virtqueue_hasdata q then Some (q, Inl ENOMSG)
      else do {
        (q, c, len) \<leftarrow> virtqueue_buffer_dequeue1 q;
        Some (q, Inr (c, len, int (num q) - int (unat (desc_avail q))))
      })"

fun dequeue_burst_loop :: "nat \<Rightarrow> 'c virtqueue_vring \<Rightarrow> ('c virtqueue_vring \<times> ('c option \<times> u32) list) option" where
  "dequeue_burst_loop 0 q = Some (q, [])"
| "dequeue_burst_loop (Suc n) q =
     do {
       (q, c, len) \<leftarrow> virtqueue_buffer_dequeue1 q;
       (q, rs) \<leftarrow> dequeue_burst_loop n q;
       Some (q, (c, len) # rs)
     }"

definition virtqueue_buffer_dequeue_burst ::
  "'c virtqueue_vring \<Rightarrow> nat \<Rightarrow> ('c virtqueue_vring \<times> ('c option \<times> u32) list \<times> int) option" where
  "virtqueue_buffer_dequeue_burst q cnt =
     do {
       let count = min (unat (used_idx q - last_used_desc_idx q)) cnt;
       (q, rs) \<leftarrow> dequeue_burst_loop count q;
       Some (q, rs, int (num q) - int (unat (desc_avail q)))
     }"

section \<open>A new queue\<close>

definition virtqueue_vring_init :: "nat \<Rightarrow> 'c virtqueue_desc_info list \<Rightarrow> 'c virtqueue_vring option" where
  "virtqueue_vring_init nr_desc info =
     (if nr_desc = 0 then None
      else Some \<lparr>num = nr_desc,
        desc = map (\<lambda>i. \<lparr>d_addr = 0, d_len = 0, d_flags = 0,
                         d_next = if i < nr_desc - 1 then of_nat (i + 1) else VIRTQUEUE_MAX_SIZE\<rparr>) [0..<nr_desc],
        avail_flags = 0, avail_idx = 0, avail_ring = replicate nr_desc 0,
        used_flags = 0, used_idx = 0, used_ring = replicate nr_desc \<lparr>ue_id = 0, ue_len = 0\<rparr>,
        desc_avail = of_nat nr_desc, head_free_desc = 0, last_used_desc_idx = 0, vq_avail_idx = 0, vq_info = info\<rparr>)"

text \<open>
  \<open>malloc\<close> tells whether the driver's own structure is allocated, \<open>garbage\<close> what its memory holds, and \<open>memalign\<close> whether
  the memory of the ring is.
\<close>

definition virtqueue_create ::
  "bool \<Rightarrow> (nat \<Rightarrow> u32 \<Rightarrow> bool) \<Rightarrow> (nat \<Rightarrow> 'c virtqueue_desc_info) \<Rightarrow> u16 \<Rightarrow> u16 \<Rightarrow> (errno + 'c virtqueue_vring) option" where
  "virtqueue_create malloc memalign garbage nr_descs align =
     (if \<not> malloc then Some (Inl ENOMEM)
      else if \<not> memalign 4096 (vring_size (ucast nr_descs) (ucast align)) then Some (Inl ENOMEM)
      else map_option Inr (virtqueue_vring_init (unat nr_descs) (map garbage [0..<unat nr_descs])))"

end
