(* ===== verification/VirtqueueOk.thy ===== *)
theory VirtqueueOk
  imports Virtqueue "HOL-Library.Multiset"
begin

text \<open>
  The invariant of the descriptor table: it is divided into the chain of free descriptors and the chains of the buffers that were
  given to the device.
\<close>

section \<open>Chains\<close>

record 'c vbuf =
  vb_cookie :: 'c
  vb_chain :: "nat list"
  vb_segs :: "uk_sglist_seg list"
  vb_read :: nat

definition linked :: "vring_desc list \<Rightarrow> nat list \<Rightarrow> bool" where
  "linked ds xs \<longleftrightarrow> (\<forall>j. Suc j < length xs \<longrightarrow> unat (d_next (ds ! (xs ! j))) = xs ! Suc j)"

definition seg_in :: "vring_desc \<Rightarrow> uk_sglist_seg \<Rightarrow> u16 \<Rightarrow> bool" where
  "seg_in d seg fl \<longleftrightarrow> d_addr d = ss_paddr seg \<and> d_len d = ucast (ss_len seg) \<and> d_flags d = fl"

definition buf_ok :: "vring_desc list \<Rightarrow> 'c virtqueue_desc_info list \<Rightarrow> 'c vbuf \<Rightarrow> bool" where
  "buf_ok ds info b \<longleftrightarrow> vb_chain b \<noteq> [] \<and> length (vb_segs b) = length (vb_chain b) \<and> linked ds (vb_chain b) \<and>
     (\<forall>j < length (vb_chain b). seg_in (ds ! (vb_chain b ! j)) (vb_segs b ! j) (desc_flags (vb_read b) (length (vb_chain b)) j)) \<and>
     info ! hd (vb_chain b) = \<lparr>cookie = Some (vb_cookie b), desc_count = of_nat (length (vb_chain b))\<rparr>"

lemma linked_Nil [simp]: "linked ds []" and linked_one [simp]: "linked ds [x]"
  by (simp_all add: linked_def)

lemma linked_Cons: "linked ds (x # y # xs) \<longleftrightarrow> unat (d_next (ds ! x)) = y \<and> linked ds (y # xs)"
  unfolding linked_def by (auto simp: nth_Cons split: nat.splits)

lemma linked_tl: "linked ds (x # xs) \<Longrightarrow> linked ds xs"
  by (cases xs) (simp_all add: linked_Cons)

lemma linked_drop: "linked ds xs \<Longrightarrow> linked ds (drop n xs)"
  by (induction n) (auto simp: drop_Suc drop_tl [symmetric] dest: linked_tl, metis drop_Suc drop_tl linked_tl linked_Nil list.collapse list.sel(2))

lemma linked_take: "linked ds xs \<Longrightarrow> linked ds (take n xs)"
  by (simp add: linked_def)

lemma linked_cong: "linked ds xs \<Longrightarrow> (\<And>x. x \<in> set (butlast xs) \<Longrightarrow> d_next (ds' ! x) = d_next (ds ! x)) \<Longrightarrow> linked ds' xs"
proof (induction xs rule: induct_list012)
  case (3 x y zs)
  then show ?case by (auto simp: linked_Cons)
qed simp_all

lemma linked_append:
  "linked ds xs \<Longrightarrow> linked ds ys \<Longrightarrow> (xs \<noteq> [] \<Longrightarrow> ys \<noteq> [] \<Longrightarrow> unat (d_next (ds ! last xs)) = hd ys) \<Longrightarrow> linked ds (xs @ ys)"
proof (induction xs rule: induct_list012)
  case (2 x)
  then show ?case by (cases ys) (simp_all add: linked_Cons)
next
  case (3 x y zs)
  then show ?case by (simp add: linked_Cons)
qed simp

lemma buf_ok_cong:
  assumes "buf_ok ds info b" "\<And>x. x \<in> set (vb_chain b) \<Longrightarrow> ds' ! x = ds ! x" "info' ! hd (vb_chain b) = info ! hd (vb_chain b)"
  shows "buf_ok ds' info' b"
proof -
  have "linked ds' (vb_chain b)"
    by (rule linked_cong [of ds]) (use assms(1,2) in \<open>auto simp: buf_ok_def dest: in_set_butlastD\<close>)
  then show ?thesis using assms unfolding buf_ok_def by auto
qed

section \<open>Filling and releasing a chain\<close>

lemma fill_descs_ok:
  assumes "linked ds xs" "distinct xs" "\<forall>x \<in> set xs. x < length ds" "length segs \<le> length xs" "xs \<noteq> [] \<Longrightarrow> unat idx = hd xs"
  shows "\<exists>ds' idx'. fill_descs r tot segs k ds idx = Some (ds', idx') \<and> length ds' = length ds \<and>
    (\<forall>x. x \<notin> set (take (length segs) xs) \<longrightarrow> ds' ! x = ds ! x) \<and> (\<forall>x. d_next (ds' ! x) = d_next (ds ! x)) \<and>
    (\<forall>j < length segs. seg_in (ds' ! (xs ! j)) (segs ! j) (desc_flags r tot (k + j))) \<and>
    (length segs < length xs \<longrightarrow> unat idx' = xs ! length segs)"
  using assms
proof (induction segs arbitrary: xs ds idx k)
  case Nil
  then show ?case by (cases xs) simp_all
next
  case (Cons seg segs)
  then obtain x ys where xs: "xs = x # ys" by (cases xs) auto
  then have i: "unat idx = x" "x < length ds" "x \<notin> set ys" using Cons.prems by auto
  define d where "d = (ds ! x)\<lparr>d_addr := ss_paddr seg, d_len := ucast (ss_len seg), d_flags := desc_flags r tot k\<rparr>"
  define ds1 where "ds1 = ds[x := d]"
  have next_same: "d_next (ds1 ! y) = d_next (ds ! y)" for y by (cases "y = x") (simp_all add: ds1_def d_def i(2))
  have l1: "linked ds1 ys" by (rule linked_cong [of ds]) (use Cons.prems(1) xs next_same in \<open>auto dest: linked_tl\<close>)
  have h1: "ys \<noteq> [] \<Longrightarrow> unat (d_next (ds ! x)) = hd ys" using Cons.prems(1) xs by (cases ys) (auto simp: linked_Cons)
  have "\<exists>ds' idx'. fill_descs r tot segs (k + 1) ds1 (d_next (ds ! x)) = Some (ds', idx') \<and> length ds' = length ds1 \<and>
    (\<forall>y. y \<notin> set (take (length segs) ys) \<longrightarrow> ds' ! y = ds1 ! y) \<and> (\<forall>y. d_next (ds' ! y) = d_next (ds1 ! y)) \<and>
    (\<forall>j < length segs. seg_in (ds' ! (ys ! j)) (segs ! j) (desc_flags r tot (k + 1 + j))) \<and>
    (length segs < length ys \<longrightarrow> unat idx' = ys ! length segs)"
    by (rule Cons.IH [OF l1]) (use Cons.prems xs h1 in \<open>auto simp: ds1_def\<close>)
  then obtain ds' idx' where f: "fill_descs r tot segs (k + 1) ds1 (d_next (ds ! x)) = Some (ds', idx')" "length ds' = length ds"
    "\<And>y. y \<notin> set (take (length segs) ys) \<Longrightarrow> ds' ! y = ds1 ! y" "\<And>y. d_next (ds' ! y) = d_next (ds ! y)"
    "\<And>j. j < length segs \<Longrightarrow> seg_in (ds' ! (ys ! j)) (segs ! j) (desc_flags r tot (k + 1 + j))"
    "length segs < length ys \<Longrightarrow> unat idx' = ys ! length segs" using next_same by (auto simp: ds1_def)
  have "ds' ! x = d" using f(3) [of x] i by (auto simp: ds1_def dest: in_set_takeD)
  then have "\<forall>j < length (seg # segs). seg_in (ds' ! (xs ! j)) ((seg # segs) ! j) (desc_flags r tot (k + j))"
    using f(5) by (auto simp: xs less_Suc_eq_0_disj seg_in_def d_def)
  moreover have "fill_descs r tot (seg # segs) k ds idx = Some (ds', idx')" using f(1) i by (simp add: Let_def d_def ds1_def)
  moreover have "\<forall>y. y \<notin> set (take (length (seg # segs)) xs) \<longrightarrow> ds' ! y = ds ! y" using f(3) by (auto simp: xs ds1_def)
  ultimately show ?case using f(2,4,6) by (auto simp: xs)
qed

lemma desc_flags_next: "desc_flags r tot k AND VRING_DESC_F_NEXT \<noteq> 0 \<longleftrightarrow> k < tot - 1"
  by (simp add: desc_flags_def)

lemma detach_loop_ok:
  assumes "linked ds xs" "xs \<noteq> []" "\<forall>x \<in> set xs. x < length ds" "unat i = hd xs"
    "\<forall>j < length xs. d_flags (ds ! (xs ! j)) AND VRING_DESC_F_NEXT \<noteq> 0 \<longleftrightarrow> Suc j < length xs"
  shows "\<exists>l. detach_loop ds i cnt = Some (l, cnt - of_nat (length xs - 1)) \<and> unat l = last xs"
  using assms
proof (induction xs arbitrary: i cnt)
  case (Cons x xs)
  show ?case
  proof (cases xs)
    case Nil
    then show ?thesis using Cons.prems by (subst detach_loop.simps) simp
  next
    case (Cons y ys)
    have f: "\<forall>j < length xs. d_flags (ds ! (xs ! j)) AND VRING_DESC_F_NEXT \<noteq> 0 \<longleftrightarrow> Suc j < length xs"
      using Cons.prems(5) by force
    have n: "unat (d_next (ds ! x)) = hd xs" using Cons.prems(1) Cons by (simp add: linked_Cons)
    obtain l where l: "detach_loop ds (d_next (ds ! x)) (cnt - 1) = Some (l, cnt - 1 - of_nat (length xs - 1))" "unat l = last xs"
      using Cons.IH [OF linked_tl [OF Cons.prems(1)] _ _ n f] Cons Cons.prems(3) by auto
    have "detach_loop ds i cnt = detach_loop ds (d_next (ds ! x)) (cnt - 1)"
      using Cons.prems(3-5) Cons by (subst detach_loop.simps) force
    then show ?thesis using l Cons by (simp add: algebra_simps)
  qed
qed simp

section \<open>The division of the table\<close>

definition vq_wf :: "'c virtqueue_vring \<Rightarrow> bool" where
  "vq_wf q \<longleftrightarrow> (\<exists>k \<le> 15. num q = 2 ^ k) \<and> length (desc q) = num q \<and> length (avail_ring q) = num q \<and>
     length (used_ring q) = num q \<and> length (vq_info q) = num q"

definition vq_split :: "'c virtqueue_vring \<Rightarrow> nat list \<Rightarrow> 'c vbuf list \<Rightarrow> bool" where
  "vq_split q fl bs \<longleftrightarrow> vq_wf q \<and> linked (desc q) fl \<and> (fl \<noteq> [] \<longrightarrow> unat (head_free_desc q) = hd fl) \<and> unat (desc_avail q) = length fl \<and>
     distinct (fl @ concat (map vb_chain bs)) \<and> set (fl @ concat (map vb_chain bs)) = {..<num q} \<and>
     (\<forall>b \<in> set bs. buf_ok (desc q) (vq_info q) b)"

lemma vq_splitD:
  assumes "vq_split q fl bs"
  shows "vq_wf q" "linked (desc q) fl" "fl \<noteq> [] \<Longrightarrow> unat (head_free_desc q) = hd fl" "unat (desc_avail q) = length fl"
    "distinct (fl @ concat (map vb_chain bs))" "set (fl @ concat (map vb_chain bs)) = {..<num q}"
    "\<And>b. b \<in> set bs \<Longrightarrow> buf_ok (desc q) (vq_info q) b"
  using assms unfolding vq_split_def by blast+

lemma num_le: "vq_wf q \<Longrightarrow> 0 < num q \<and> num q \<le> 32768"
  using power_increasing [of _ 15 "2 :: nat"] by (auto simp: vq_wf_def)

lemma in_chain_less:
  assumes "vq_split q fl bs" "x \<in> set fl \<or> (\<exists>b \<in> set bs. x \<in> set (vb_chain b))"
  shows "x < num q"
  using vq_splitD(6) [OF assms(1)] assms(2) by auto

lemma chain_disjoint: "vq_split q fl bs \<Longrightarrow> b \<in> set bs \<Longrightarrow> set fl \<inter> set (vb_chain b) = {}"
  by (drule vq_splitD(5)) auto

lemma chains_disjoint:
  assumes "vq_split q fl (bs1 @ b # bs2)" "b' \<in> set (bs1 @ bs2)"
  shows "set (vb_chain b) \<inter> set (vb_chain b') = {}"
proof -
  have "set (vb_chain b) \<inter> (\<Union>a \<in> set bs1. set (vb_chain a)) = {}" "set (vb_chain b) \<inter> (\<Union>a \<in> set bs2. set (vb_chain a)) = {}"
    using vq_splitD(5) [OF assms(1)] by auto
  then show ?thesis using assms(2) by fastforce
qed

lemma length_concat_split:
  assumes "vq_split q fl bs"
  shows "length fl + (\<Sum>b\<leftarrow>bs. length (vb_chain b)) = num q"
proof -
  have "length (fl @ concat (map vb_chain bs)) = card {..<num q}"
    using vq_splitD(5,6) [OF assms] distinct_card by metis
  then show ?thesis by (simp add: length_concat comp_def)
qed

lemma bufs_le:
  assumes "vq_split q fl bs"
  shows "length bs + length fl \<le> num q"
proof -
  have "length bs \<le> (\<Sum>b\<leftarrow>bs. length (vb_chain b))"
    using vq_splitD(7) [OF assms]
  proof (induction bs)
    case (Cons b bs)
    then have "length bs \<le> (\<Sum>b\<leftarrow>bs. length (vb_chain b))" "vb_chain b \<noteq> []" 
      using Cons.prems [of b] by (auto simp: buf_ok_def)
    then show ?case by (cases "vb_chain b") auto
  qed simp
  then show ?thesis using length_concat_split [OF assms] by linarith
qed

lemma unat_lt_16: "unat (w :: u16) < 65536"
  using unsigned_less [of w] by simp

lemma ring_slot_eq: "vq_wf q \<Longrightarrow> ring_slot q i = unat i mod num q"
proof -
  assume "vq_wf q"
  then obtain k where k: "k \<le> 15" "num q = 2 ^ k" by (auto simp: vq_wf_def)
  have "(of_nat (num q) - 1 :: u32) = mask k" by (simp add: k mask_eq_exp_minus_1)
  then have "ring_slot q i = unat (take_bit k (ucast i :: u32))" by (simp add: ring_slot_def take_bit_eq_mask)
  moreover have "unat (ucast i :: u32) = unat i"
  proof -
    have "unat i < 65536" by (rule unat_lt_16)
    then show ?thesis by (simp add: unsigned_ucast_eq take_bit_nat_eq_self)
  qed
  moreover have "unat (2 ^ k :: u32) = 2 ^ k" using k(1) by (simp add: unat_pow2)
  ultimately show ?thesis by (simp add: k(2) take_bit_eq_mod unat_mod)
qed

lemma slot_of_nat: "vq_wf q \<Longrightarrow> ring_slot q (of_nat n) = n mod num q"
proof -
  assume wf: "vq_wf q"
  then obtain k where k: "k \<le> 15" "num q = 2 ^ k" by (auto simp: vq_wf_def)
  have "(2 :: nat) ^ k dvd 2 ^ 16" using k(1) by (intro le_imp_power_dvd) simp
  then show ?thesis using k wf by (simp add: ring_slot_eq unat_of_nat mod_mod_cancel)
qed


section \<open>The operations\<close>

text \<open>What an operation on the descriptors leaves alone.\<close>

lemma distinct_perm: "distinct xs \<Longrightarrow> set xs = A \<Longrightarrow> mset ys = mset xs \<Longrightarrow> distinct ys \<and> set ys = A"
  using mset_eq_imp_distinct_iff mset_eq_setD by blast

lemma mset_take_drop: "mset (drop n xs) + mset (take n xs) = mset xs"
  by (metis append_take_drop_id mset_append add.commute)

definition same_rings :: "'c virtqueue_vring \<Rightarrow> 'c virtqueue_vring \<Rightarrow> bool" where
  "same_rings q q' \<longleftrightarrow> num q' = num q \<and> avail_idx q' = avail_idx q \<and> used_flags q' = used_flags q \<and> used_idx q' = used_idx q \<and>
     used_ring q' = used_ring q \<and> avail_flags q' = avail_flags q"

lemma unat_sub_of_nat: "n \<le> unat (w :: u16) \<Longrightarrow> unat (w - of_nat n) = unat w - n"
proof -
  assume n: "n \<le> unat w"
  then have "unat (of_nat n :: u16) = n" using unat_lt_16 [of w] by (simp add: unat_of_nat)
  then show ?thesis using n by (simp add: unat_sub_no_ovf)
qed

lemma enqueue1_ok:
  assumes sp: "vq_split q fl bs" and n: "tot = unat r + unat w" "0 < tot" "tot \<le> length fl" and sg: "off + tot \<le> length sg"
  shows "\<exists>q'. virtqueue_buffer_enqueue1 q c sg off r w = Some (q', Inr (length fl - tot)) \<and>
    vq_split q' (drop tot fl) (bs @ [\<lparr>vb_cookie = c, vb_chain = take tot fl, vb_segs = take tot (drop off sg), vb_read = unat r\<rparr>]) \<and>
    same_rings q q' \<and> last_used_desc_idx q' = last_used_desc_idx q \<and> vq_avail_idx q' = vq_avail_idx q + 1 \<and>
    avail_ring q' = (avail_ring q)[unat (vq_avail_idx q) mod num q := head_free_desc q]"
proof -
  note d = vq_splitD [OF sp]
  let ?b = "\<lparr>vb_cookie = c, vb_chain = take tot fl, vb_segs = take tot (drop off sg), vb_read = unat r\<rparr>"
  have ne: "fl \<noteq> []" using n by auto
  have h: "unat (head_free_desc q) = hd fl" "hd fl \<in> set fl" using d(3) ne by auto
  have len: "length (desc q) = num q" "length (vq_info q) = num q" "length (avail_ring q) = num q" using d(1) by (auto simp: vq_wf_def)
  have hl: "hd fl < num q" using in_chain_less [OF sp] h(2) by blast
  have fl_less: "\<forall>x \<in> set fl. x < length (desc q)" using in_chain_less [OF sp] len by auto
  define segs where "segs = take tot (drop off sg)"
  have ls: "length segs = tot" using sg by (simp add: segs_def)
  have "distinct fl" "length segs \<le> length fl" using d(5) n(3) ls by auto
  from fill_descs_ok [OF d(2) this(1) fl_less this(2) h(1), of "unat r" tot 0]
  obtain ds idx where f: "fill_descs (unat r) tot segs 0 (desc q) (head_free_desc q) = Some (ds, idx)" "length ds = length (desc q)"
    "\<And>x. x \<notin> set (take tot fl) \<Longrightarrow> ds ! x = desc q ! x" "\<And>x. d_next (ds ! x) = d_next (desc q ! x)"
    "\<And>j. j < tot \<Longrightarrow> seg_in (ds ! (fl ! j)) (segs ! j) (desc_flags (unat r) tot j)" "tot < length fl \<Longrightarrow> unat idx = fl ! tot"
    unfolding ls add_0 by blast
  define info where "info = (vq_info q)[hd fl := \<lparr>cookie = Some c, desc_count = of_nat tot\<rparr>]"
  define q' where "q' = q\<lparr>vq_info := info, desc := ds, head_free_desc := idx, desc_avail := desc_avail q - of_nat tot,
    avail_ring := (avail_ring q)[unat (vq_avail_idx q) mod num q := head_free_desc q], vq_avail_idx := vq_avail_idx q + 1\<rparr>"
  have da: "unat (desc_avail q - of_nat tot) = length fl - tot" using n(3) d(4) by (simp add: unat_sub_of_nat)
  have slot: "ring_slot (q\<lparr>vq_info := info, desc := ds, head_free_desc := idx, desc_avail := desc_avail q - of_nat tot\<rparr>) (vq_avail_idx q) = unat (vq_avail_idx q) mod num q"
    using ring_slot_eq [OF d(1)] by (simp add: ring_slot_def)
  have "unat (vq_avail_idx q) mod num q < num q" using num_le [OF d(1)] by simp
  then have eq: "virtqueue_buffer_enqueue1 q c sg off r w = Some (q', Inr (length fl - tot))"
    using f(1) [unfolded segs_def] sg n(1,3) d(4) h(1) hl len slot da
    by (simp add: virtqueue_buffer_enqueue1_def virtqueue_buffer_enqueue_segments_def virtqueue_ring_update_avail_def Let_def q'_def info_def)
  have old: "buf_ok ds info b" if b: "b \<in> set bs" for b
  proof (rule buf_ok_cong [OF d(7) [OF b]])
    have disj: "set fl \<inter> set (vb_chain b) = {}" by (rule chain_disjoint [OF sp b])
    fix x assume "x \<in> set (vb_chain b)"
    then show "ds ! x = desc q ! x" using disj by (intro f(3)) (auto dest: in_set_takeD)
  next
    have "hd (vb_chain b) \<in> set (vb_chain b)" using d(7) [OF b] by (auto simp: buf_ok_def)
    then have "hd (vb_chain b) \<noteq> hd fl" using chain_disjoint [OF sp b] h(2) by auto
    then show "info ! hd (vb_chain b) = vq_info q ! hd (vb_chain b)" by (simp add: info_def)
  qed
  have new: "buf_ok ds info ?b"
    using f(5) [unfolded segs_def] n ls [unfolded segs_def] ne hl len linked_take [OF linked_cong [OF d(2) f(4)], of tot] by (cases fl) (auto simp: buf_ok_def info_def min_def)
  have "linked ds (drop tot fl)" by (rule linked_drop, rule linked_cong [OF d(2) f(4)])
  moreover have "distinct (drop tot fl @ concat (map vb_chain (bs @ [?b])))" "set (drop tot fl @ concat (map vb_chain (bs @ [?b]))) = {..<num q}"
    using distinct_perm [OF d(5,6), of "drop tot fl @ concat (map vb_chain (bs @ [?b]))"] append_take_drop_id [of tot fl]
    by (simp_all add: mset_take_drop)
  ultimately have "vq_split q' (drop tot fl) (bs @ [?b])"
    unfolding vq_split_def using d(1) f(2,6) len da old new by (auto simp: q'_def vq_wf_def info_def hd_drop_conv_nth)
  then show ?thesis using eq by (auto simp: q'_def same_rings_def)
qed


lemma detach_desc_ok:
  assumes sp: "vq_split q fl (bs1 @ b # bs2)" and h: "unat h = hd (vb_chain b)"
  shows "\<exists>q'. virtqueue_detach_desc q h = Some q' \<and> same_rings q q' \<and> last_used_desc_idx q' = last_used_desc_idx q \<and>
    vq_avail_idx q' = vq_avail_idx q \<and> avail_ring q' = avail_ring q \<and>
    vq_info q' = (vq_info q)[hd (vb_chain b) := \<lparr>cookie = Some (vb_cookie b), desc_count = 0\<rparr>] \<and>
    vq_split (q'\<lparr>vq_info := (vq_info q')[hd (vb_chain b) := i]\<rparr>) (vb_chain b @ fl) (bs1 @ bs2)"
proof -
  note d = vq_splitD [OF sp]
  let ?xs = "vb_chain b"
  have b: "buf_ok (desc q) (vq_info q) b" using d(7) by simp
  have ne: "?xs \<noteq> []" and lk: "linked (desc q) ?xs" and info: "vq_info q ! hd ?xs = \<lparr>cookie = Some (vb_cookie b), desc_count = of_nat (length ?xs)\<rparr>"
    using b by (auto simp: buf_ok_def)
  have len: "length (desc q) = num q" "length (vq_info q) = num q" using d(1) by (auto simp: vq_wf_def)
  have less: "\<forall>x \<in> set ?xs. x < length (desc q)" using in_chain_less [OF sp] len by auto
  have fl: "\<forall>j < length ?xs. d_flags (desc q ! (?xs ! j)) AND VRING_DESC_F_NEXT \<noteq> 0 \<longleftrightarrow> Suc j < length ?xs"
    using b by (auto simp: buf_ok_def seg_in_def desc_flags_next)
  obtain l where l: "detach_loop (desc q) h (of_nat (length ?xs) - 1) = Some (l, of_nat (length ?xs) - 1 - of_nat (length ?xs - 1))" "unat l = last ?xs"
    using detach_loop_ok [OF lk ne less h fl] by blast
  have zero: "of_nat (length ?xs) - 1 - of_nat (length ?xs - 1) = (0 :: u16)" using ne by (cases ?xs) simp_all
  have total: "length fl + (\<Sum>b\<leftarrow>bs1 @ b # bs2. length (vb_chain b)) = num q" by (rule length_concat_split [OF sp])
  have da: "unat (desc_avail q + of_nat (length ?xs)) = length ?xs + length fl"
    using total num_le [OF d(1)] d(4) by (simp add: unat_word_ariths unat_of_nat)
  define ds where "ds = (desc q)[last ?xs := (desc q ! last ?xs)\<lparr>d_next := head_free_desc q\<rparr>]"
  define q' where "q' = q\<lparr>desc_avail := desc_avail q + of_nat (length ?xs), vq_info := (vq_info q)[hd ?xs := \<lparr>cookie = Some (vb_cookie b), desc_count = 0\<rparr>],
    desc := ds, head_free_desc := h\<rparr>"
  have eq: "virtqueue_detach_desc q h = Some q'"
    using l zero h ne less len info by (simp add: virtqueue_detach_desc_def q'_def ds_def Let_def)
  have lastin: "last ?xs \<in> set ?xs" "last ?xs < num q" using ne less len by auto
  have other: "x \<noteq> last ?xs \<Longrightarrow> ds ! x = desc q ! x" for x by (simp add: ds_def)
  have notlast: "x \<in> set (butlast ?xs) \<Longrightarrow> x \<noteq> last ?xs" for x
    using ne d(5) by (metis append_butlast_last_id concat.simps(2) distinct_append distinct_concat_iff in_set_conv_decomp list.map(2) map_append not_distinct_conv_prefix concat_append)
  have lx: "linked ds ?xs" by (rule linked_cong [OF lk]) (use other notlast in auto)
  have "x \<in> set fl \<Longrightarrow> x \<noteq> last ?xs" for x using chain_disjoint [OF sp, of b] lastin(1) by auto
  then have lf: "linked ds fl" by (intro linked_cong [OF d(2)]) (metis other in_set_butlastD)
  have "linked ds (?xs @ fl)" by (rule linked_append [OF lx lf]) (use d(3) lastin(2) len in \<open>simp add: ds_def\<close>)
  moreover have "buf_ok ds ((vq_info q')[hd ?xs := i]) b'" if b': "b' \<in> set (bs1 @ bs2)" for b'
  proof (rule buf_ok_cong)
    show "buf_ok (desc q) (vq_info q) b'" using d(7) b' by auto
    have disj: "set ?xs \<inter> set (vb_chain b') = {}" by (rule chains_disjoint [OF sp b'])
    show "ds ! x = desc q ! x" if "x \<in> set (vb_chain b')" for x using that disj lastin(1) by (intro other) auto
    have "vb_chain b' \<noteq> []" using d(7) [of b'] b' by (auto simp: buf_ok_def)
    then have "hd (vb_chain b') \<noteq> hd ?xs" using disj ne by (metis disjoint_iff list.set_sel(1))
    then show "(vq_info q')[hd ?xs := i] ! hd (vb_chain b') = vq_info q ! hd (vb_chain b')" by (simp add: q'_def)
  qed
  moreover have "distinct ((?xs @ fl) @ concat (map vb_chain (bs1 @ bs2))) \<and> set ((?xs @ fl) @ concat (map vb_chain (bs1 @ bs2))) = {..<num q}"
    by (rule distinct_perm [OF d(5,6)]) (simp add: ac_simps)
  ultimately have "vq_split (q'\<lparr>vq_info := (vq_info q')[hd ?xs := i]\<rparr>) (?xs @ fl) (bs1 @ bs2)"
    unfolding vq_split_def using d(1) da h ne by (auto simp: q'_def ds_def vq_wf_def)
  then show ?thesis using eq by (auto simp: q'_def same_rings_def)
qed

lemma dequeue1_ok:
  assumes sp: "vq_split q fl (bs1 @ b # bs2)"
    and u: "used_ring q ! (unat (last_used_desc_idx q) mod num q) = \<lparr>ue_id = of_nat (hd (vb_chain b)), ue_len = l\<rparr>"
  shows "\<exists>q'. virtqueue_buffer_dequeue1 q = Some (q', Some (vb_cookie b), l) \<and> vq_split q' (vb_chain b @ fl) (bs1 @ bs2) \<and>
    same_rings q q' \<and> last_used_desc_idx q' = last_used_desc_idx q + 1 \<and> vq_avail_idx q' = vq_avail_idx q \<and> avail_ring q' = avail_ring q"
proof -
  note d = vq_splitD [OF sp]
  have "vb_chain b \<noteq> []" and info: "cookie (vq_info q ! hd (vb_chain b)) = Some (vb_cookie b)" using d(7) [of b] by (auto simp: buf_ok_def)
  then have hl: "hd (vb_chain b) < num q" using in_chain_less [OF sp, of "hd (vb_chain b)"] by auto
  then have h: "unat (ucast (of_nat (hd (vb_chain b)) :: u32) :: u16) = hd (vb_chain b)"
    using num_le [OF d(1)] by (simp add: unsigned_ucast_eq unat_of_nat take_bit_eq_mod)
  let ?q = "q\<lparr>last_used_desc_idx := last_used_desc_idx q + 1\<rparr>"
  have sp': "vq_split ?q fl (bs1 @ b # bs2)" using sp by (simp add: vq_split_def vq_wf_def)
  obtain q1 where q1: "virtqueue_detach_desc ?q (ucast (of_nat (hd (vb_chain b)) :: u32)) = Some q1" "same_rings ?q q1"
    "last_used_desc_idx q1 = last_used_desc_idx q + 1" "vq_avail_idx q1 = vq_avail_idx q" "avail_ring q1 = avail_ring q"
    "vq_info q1 = (vq_info q)[hd (vb_chain b) := \<lparr>cookie = Some (vb_cookie b), desc_count = 0\<rparr>]"
    "vq_split (q1\<lparr>vq_info := (vq_info q1)[hd (vb_chain b) := \<lparr>cookie = None, desc_count = 0\<rparr>]\<rparr>) (vb_chain b @ fl) (bs1 @ bs2)"
    using detach_desc_ok [OF sp' h, of "\<lparr>cookie = None, desc_count = 0\<rparr>"] by auto
  have "unat (last_used_desc_idx q) mod num q < length (used_ring q)" "length (vq_info q) = num q" using d(1) num_le [OF d(1)] by (auto simp: vq_wf_def)
  then show ?thesis using q1 u h hl info ring_slot_eq [OF d(1), of "last_used_desc_idx q"]
    by (simp add: virtqueue_buffer_dequeue1_def Let_def same_rings_def)
qed

end
