(* ===== verification/VirtqueueTop.thy ===== *)
theory VirtqueueTop
  imports VirtqueueOk
begin

text \<open>
  A virtqueue and its device together. The device is the other side of the memory: it takes the heads of chains from the available ring in
  order, and gives them back through the used ring in any order, each once, as the virtio specification demands.
\<close>

section \<open>Driver and device\<close>

text \<open>
  The device has its own index into the available ring and holds the heads it has taken. \<open>completed\<close> records the completions the
  driver has not seen, \<open>out\<close> the buffers that are out: head, cookie, segments and the number of segments to read.
\<close>

record 'c vq_system =
  drv :: "'c virtqueue_vring"
  dev_idx :: u16
  held :: "nat list"
  completed :: "(nat \<times> u32) list"
  out :: "(nat \<times> 'c \<times> uk_sglist_seg list \<times> nat) list"

inductive vq_step :: "'c vq_system \<Rightarrow> 'c vq_system \<Rightarrow> bool" where
  enqueue: "unat r + unat w \<le> length sg \<Longrightarrow> unat r + unat w < 65536 \<Longrightarrow> virtqueue_buffer_enqueue (drv s) c sg r w = Some (q, Inr n) \<Longrightarrow>
    vq_step s (s\<lparr>drv := q, out := out s @ [(unat (head_free_desc (drv s)), c, take (unat r + unat w) sg, unat r)]\<rparr>)"
| dequeue: "virtqueue_buffer_dequeue (drv s) = Some (q, Inr (c, l, n)) \<Longrightarrow>
    vq_step s (s\<lparr>drv := q, completed := tl (completed s), out := filter (\<lambda>x. fst x \<noteq> fst (hd (completed s))) (out s)\<rparr>)"
| dev_take: "dev_idx s \<noteq> avail_idx (drv s) \<Longrightarrow> h = avail_ring (drv s) ! ring_slot (drv s) (dev_idx s) \<Longrightarrow>
    vq_step s (s\<lparr>dev_idx := dev_idx s + 1, held := unat h # held s\<rparr>)"
| dev_use: "h \<in> set (held s) \<Longrightarrow>
    vq_step s (s\<lparr>drv := (drv s)\<lparr>used_ring := (used_ring (drv s))[ring_slot (drv s) (used_idx (drv s)) := \<lparr>ue_id = of_nat h, ue_len = l\<rparr>],
                             used_idx := used_idx (drv s) + 1\<rparr>, held := remove1 h (held s), completed := completed s @ [(h, l)]\<rparr>)"
| dev_flags: "vq_step s (s\<lparr>drv := (drv s)\<lparr>used_flags := f\<rparr>\<rparr>)"

inductive vq_reach :: "'c vq_system \<Rightarrow> bool" where
  create: "virtqueue_create malloc memalign garbage (2 ^ k) align = Some (Inr q) \<Longrightarrow> k \<le> 15 \<Longrightarrow>
    vq_reach \<lparr>drv = q, dev_idx = 0, held = [], completed = [], out = []\<rparr>"
| step: "vq_reach s \<Longrightarrow> vq_step s s' \<Longrightarrow> vq_reach s'"

section \<open>Windows of a ring\<close>

definition window :: "('a \<Rightarrow> 'b) \<Rightarrow> 'a list \<Rightarrow> nat \<Rightarrow> nat \<Rightarrow> 'b list" where
  "window f xs a b = map (\<lambda>i. f (xs ! (i mod length xs))) [a..<b]"

lemma length_window [simp]: "length (window f xs a b) = b - a"
  by (simp add: window_def)

lemma window_head: "a < b \<Longrightarrow> window f xs a b = f (xs ! (a mod length xs)) # window f xs (Suc a) b"
  by (simp add: window_def upt_conv_Cons)

lemma window_add:
  assumes "a \<le> b" "b - a < length xs"
  shows "window f (xs[b mod length xs := v]) a (Suc b) = window f xs a b @ [f v]"
proof -
  have "b mod length xs \<noteq> i mod length xs" if "a \<le> i" "i < b" for i
  proof
    assume "b mod length xs = i mod length xs"
    then have "length xs dvd b - i" using that by (metis mod_eq_dvd_iff_nat less_imp_le_nat)
    then have "length xs \<le> b - i" using that by (intro dvd_imp_le) simp_all
    then show False using that assms by linarith
  qed
  moreover have "b mod length xs < length xs" using assms by (intro mod_less_divisor) linarith
  ultimately show ?thesis using assms(1) by (auto simp: window_def nth_list_update)
qed

section \<open>The invariant\<close>

definition key :: "'c vbuf \<Rightarrow> nat \<times> 'c \<times> uk_sglist_seg list \<times> nat" where
  "key b = (hd (vb_chain b), vb_cookie b, vb_segs b, vb_read b)"

definition sys_inv :: "'c vq_system \<Rightarrow> nat list \<Rightarrow> 'c vbuf list \<Rightarrow> nat \<Rightarrow> nat \<Rightarrow> nat \<Rightarrow> nat \<Rightarrow> bool" where
  "sys_inv s fl bs D V L U \<longleftrightarrow> vq_split (drv s) fl bs \<and> out s = map key bs \<and>
     vq_avail_idx (drv s) = of_nat V \<and> avail_idx (drv s) = of_nat V \<and> dev_idx s = of_nat D \<and> D \<le> V \<and>
     last_used_desc_idx (drv s) = of_nat L \<and> used_idx (drv s) = of_nat U \<and> L \<le> U \<and>
     completed s = window (\<lambda>e. (unat (ue_id e), ue_len e)) (used_ring (drv s)) L U \<and>
     mset (map fst (out s)) = mset (window unat (avail_ring (drv s)) D V @ held s @ map fst (completed s))"

lemma fst_key [simp]: "fst (key b) = hd (vb_chain b)"
  by (simp add: key_def)

lemma sys_invD:
  assumes "sys_inv s fl bs D V L U"
  shows "vq_split (drv s) fl bs" "out s = map key bs" "vq_avail_idx (drv s) = of_nat V" "avail_idx (drv s) = of_nat V" "dev_idx s = of_nat D"
    "D \<le> V" "last_used_desc_idx (drv s) = of_nat L" "used_idx (drv s) = of_nat U" "L \<le> U"
    "completed s = window (\<lambda>e. (unat (ue_id e), ue_len e)) (used_ring (drv s)) L U"
    "mset (map fst (out s)) = mset (window unat (avail_ring (drv s)) D V @ held s @ map fst (completed s))"
  using assms unfolding sys_inv_def by blast+

lemma sys_lengths:
  assumes "sys_inv s fl bs D V L U"
  shows "(V - D) + length (held s) + (U - L) = length bs" "length bs + length fl \<le> num (drv s)" "num (drv s) \<le> 32768"
proof -
  note d = sys_invD [OF assms]
  have "length (out s) = (V - D) + length (held s) + (U - L)" using arg_cong [OF d(11), of size] d(10) by simp
  then show "(V - D) + length (held s) + (U - L) = length bs" using d(2) by simp
  show "length bs + length fl \<le> num (drv s)" by (rule bufs_le [OF d(1)])
  show "num (drv s) \<le> 32768" using num_le [OF vq_splitD(1) [OF d(1)]] by simp
qed

lemma idx_eq_iff: "a \<le> b \<Longrightarrow> b - a < 65536 \<Longrightarrow> (of_nat a :: u16) = of_nat b \<longleftrightarrow> a = b"
proof
  assume "a \<le> b" "b - a < 65536" "(of_nat a :: u16) = of_nat b"
  then have "unat (of_nat a :: u16) = unat (of_nat b :: u16)" by simp
  then have "b mod 65536 = a mod 65536" by (simp add: unat_of_nat)
  then have "65536 dvd b - a" using \<open>a \<le> b\<close> by (simp add: mod_eq_dvd_iff_nat)
  then have "b - a = 0" using \<open>b - a < 65536\<close> by (metis dvd_imp_le not_less zero_less_diff diff_is_0_eq linorder_not_le)
  then show "a = b" using \<open>a \<le> b\<close> by simp
qed simp

lemma hasdata_iff: "sys_inv s fl bs D V L U \<Longrightarrow> virtqueue_hasdata (drv s) \<longleftrightarrow> L < U"
  using sys_lengths [of s fl bs D V L U] sys_invD(7-9) [of s fl bs D V L U] idx_eq_iff [of L U] by (auto simp: virtqueue_hasdata_def)

lemma distinct_heads:
  assumes "vq_split q fl bs"
  shows "distinct (map (\<lambda>b. hd (vb_chain b)) bs)"
proof -
  have "distinct (concat (map vb_chain bs))" "\<forall>b \<in> set bs. vb_chain b \<noteq> []"
    using vq_splitD(5,7) [OF assms] by (auto simp: buf_ok_def)
  then show ?thesis
  proof (induction bs)
    case (Cons b bs)
    have "hd (vb_chain b) \<noteq> hd (vb_chain b')" if "b' \<in> set bs" for b'
    proof -
      have "hd (vb_chain b) \<in> set (vb_chain b)" "hd (vb_chain b') \<in> (\<Union>a \<in> set bs. set (vb_chain a))"
        using Cons.prems(2) that by (auto intro!: bexI [of _ b'])
      moreover have "set (vb_chain b) \<inter> (\<Union>a \<in> set bs. set (vb_chain a)) = {}" using Cons.prems(1) by simp
      ultimately show ?thesis by auto
    qed
    then show ?case using Cons by auto
  qed simp
qed


lemma create_sys_inv:
  assumes "virtqueue_create malloc memalign garbage (2 ^ k) align = Some (Inr q)" "k \<le> 15"
  shows "sys_inv \<lparr>drv = q, dev_idx = 0, held = [], completed = [], out = []\<rparr> [0..<2 ^ k] [] 0 0 0 0"
proof -
  have u: "unat (2 ^ k :: u16) = 2 ^ k" using assms(2) by (simp add: unat_pow2)
  have le: "(2 :: nat) ^ k \<le> 2 ^ 15" using assms(2) by (intro power_increasing) simp_all
  have q: "virtqueue_vring_init (2 ^ k) (map garbage [0..<2 ^ k]) = Some q"
    using assms(1) u by (auto simp: virtqueue_create_def split: if_splits)
  have wf: "vq_wf q" using q assms(2) by (auto simp: virtqueue_vring_init_def vq_wf_def)
  have small: "unat (of_nat (Suc j) :: u16) = Suc j" if "Suc j < 2 ^ k" for j
  proof -
    have "Suc j < 65536" using that le by simp
    then show ?thesis by (simp only: unat_of_nat) simp
  qed
  have "linked (desc q) [0..<2 ^ k]" using q small by (auto simp: virtqueue_vring_init_def linked_def simp del: of_nat_Suc)
  moreover have "unat (desc_avail q) = 2 ^ k" "unat (head_free_desc q) = 0" "num q = 2 ^ k"
    using q u by (auto simp: virtqueue_vring_init_def)
  ultimately have "vq_split q [0..<2 ^ k] []" using wf unfolding vq_split_def by (auto simp: hd_upt)
  then show ?thesis using q by (auto simp: sys_inv_def virtqueue_vring_init_def window_def)
qed

lemma vq_enqueue_ok:
  assumes inv: "sys_inv s fl bs D V L U" and t: "tot = unat r + unat w" "0 < tot" "tot \<le> length sg" "tot < 65536"
  shows "tot \<le> length fl \<Longrightarrow> \<exists>q. virtqueue_buffer_enqueue (drv s) c sg r w = Some (q, Inr (length fl - tot)) \<and>
      sys_inv (s\<lparr>drv := q, out := out s @ [(unat (head_free_desc (drv s)), c, take tot sg, unat r)]\<rparr>) (drop tot fl)
        (bs @ [\<lparr>vb_cookie = c, vb_chain = take tot fl, vb_segs = take tot sg, vb_read = unat r\<rparr>]) D (V + 1) L U"
    and "length fl < tot \<Longrightarrow> tot \<le> num (drv s) \<Longrightarrow> virtqueue_buffer_enqueue (drv s) c sg r w = Some (drv s, Inl ENOSPC)"
proof -
  note d = sys_invD [OF inv] and v = vq_splitD [OF sys_invD(1) [OF inv]] and l = sys_lengths [OF inv]
  have rw: "unat (r + w) = tot" using t(1,4) by (simp add: unat_word_ariths)
  then have pos: "\<not> r + w < 1" using t(2) by (metis unat_0 not_less_iff_gr_or_eq word_less_nat_alt unat_1 less_one neq0_conv)
  {
    assume le: "tot \<le> length fl"
    then have n: "tot \<le> num (drv s)" using l(2) by linarith
    let ?b = "\<lparr>vb_cookie = c, vb_chain = take tot fl, vb_segs = take tot sg, vb_read = unat r\<rparr>"
    obtain q where q: "virtqueue_buffer_enqueue1 (drv s) c sg 0 r w = Some (q, Inr (length fl - tot))" "vq_split q (drop tot fl) (bs @ [?b])"
      "same_rings (drv s) q" "last_used_desc_idx q = last_used_desc_idx (drv s)" "vq_avail_idx q = vq_avail_idx (drv s) + 1"
      "avail_ring q = (avail_ring (drv s))[unat (vq_avail_idx (drv s)) mod num (drv s) := head_free_desc (drv s)]"
      using enqueue1_ok [OF d(1) t(1,2) le, of 0 sg c] t(3) by auto
    let ?q = "virtqueue_ring_update_avail_idx q"
    have eq: "virtqueue_buffer_enqueue (drv s) c sg r w = Some (?q, Inr (length fl - tot))"
      using q(1) rw pos n by (simp add: virtqueue_buffer_enqueue_def Let_def)
    have sp: "vq_split ?q (drop tot fl) (bs @ [?b])" using q(2) by (simp add: virtqueue_ring_update_avail_idx_def vq_split_def vq_wf_def)
    have al: "length (avail_ring (drv s)) = num (drv s)" using v(1) by (simp add: vq_wf_def)
    have slot: "unat (vq_avail_idx (drv s)) mod num (drv s) = V mod num (drv s)"
      using ring_slot_eq [OF v(1), of "of_nat V"] slot_of_nat [OF v(1), of V] d(3) by simp
    have "V - D < length (avail_ring (drv s))" using l(1,2) le t(2) al by linarith
    then have w: "window unat (avail_ring q) D (V + 1) = window unat (avail_ring (drv s)) D V @ [unat (head_free_desc (drv s))]"
      using window_add [OF d(6), of "avail_ring (drv s)" unat "head_free_desc (drv s)"] q(6) slot al by simp
    have "fl \<noteq> []" using le t(2) by auto
    then have "key ?b = (unat (head_free_desc (drv s)), c, take tot sg, unat r)" using v(3) t(2) by (cases fl) (auto simp: key_def)
    then have "sys_inv (s\<lparr>drv := ?q, out := out s @ [(unat (head_free_desc (drv s)), c, take tot sg, unat r)]\<rparr>) (drop tot fl) (bs @ [?b]) D (V + 1) L U"
      using sp d q(3-5) w unfolding sys_inv_def
      by (simp add: virtqueue_ring_update_avail_idx_def same_rings_def add.commute)
    then show "\<exists>q. virtqueue_buffer_enqueue (drv s) c sg r w = Some (q, Inr (length fl - tot)) \<and>
      sys_inv (s\<lparr>drv := q, out := out s @ [(unat (head_free_desc (drv s)), c, take tot sg, unat r)]\<rparr>) (drop tot fl) (bs @ [?b]) D (V + 1) L U"
      using eq by blast
  }
  assume "length fl < tot" "tot \<le> num (drv s)"
  then show "virtqueue_buffer_enqueue (drv s) c sg r w = Some (drv s, Inl ENOSPC)"
    using rw pos t(1) v(4) by (simp add: virtqueue_buffer_enqueue_def virtqueue_buffer_enqueue1_def Let_def)
qed

lemma vq_dequeue_ok:
  assumes inv: "sys_inv s fl bs D V L U" and lu: "L < U"
  shows "\<exists>q b bs1 bs2 l n. bs = bs1 @ b # bs2 \<and> hd (completed s) = (hd (vb_chain b), l) \<and>
    virtqueue_buffer_dequeue (drv s) = Some (q, Inr (Some (vb_cookie b), l, n)) \<and>
    sys_inv (s\<lparr>drv := q, completed := tl (completed s), out := filter (\<lambda>x. fst x \<noteq> fst (hd (completed s))) (out s)\<rparr>) (vb_chain b @ fl) (bs1 @ bs2) D V (L + 1) U"
proof -
  note d = sys_invD [OF inv] and v = vq_splitD [OF sys_invD(1) [OF inv]] and l = sys_lengths [OF inv]
  let ?e = "used_ring (drv s) ! (L mod num (drv s))"
  have ul: "length (used_ring (drv s)) = num (drv s)" using v(1) by (simp add: vq_wf_def)
  have c: "completed s = (unat (ue_id ?e), ue_len ?e) # window (\<lambda>e. (unat (ue_id e), ue_len e)) (used_ring (drv s)) (L + 1) U"
    by (simp add: d(10) window_head [OF lu] ul)
  have "unat (ue_id ?e) \<in># mset (map fst (out s))" unfolding d(11) c by simp
  then obtain b where b: "b \<in> set bs" "unat (ue_id ?e) = hd (vb_chain b)" using d(2) by (auto simp: key_def)
  then obtain bs1 bs2 where bs: "bs = bs1 @ b # bs2" by (meson split_list)
  have "of_nat (unat (ue_id ?e)) = ue_id ?e" by simp
  then have e: "?e = \<lparr>ue_id = of_nat (hd (vb_chain b)), ue_len = ue_len ?e\<rparr>" using b(2) by (metis vring_used_elem.surjective unit.exhaust)
  have slot: "unat (last_used_desc_idx (drv s)) mod num (drv s) = L mod num (drv s)"
    using ring_slot_eq [OF v(1), of "of_nat L"] slot_of_nat [OF v(1), of L] d(7) by simp
  obtain q where q: "virtqueue_buffer_dequeue1 (drv s) = Some (q, Some (vb_cookie b), ue_len ?e)" "vq_split q (vb_chain b @ fl) (bs1 @ bs2)"
    "same_rings (drv s) q" "last_used_desc_idx q = last_used_desc_idx (drv s) + 1" "vq_avail_idx q = vq_avail_idx (drv s)" "avail_ring q = avail_ring (drv s)"
    using dequeue1_ok [of "drv s" fl bs1 b bs2 "ue_len ?e"] d(1) bs e slot by auto
  have dist: "distinct (map (\<lambda>b. hd (vb_chain b)) bs)" by (rule distinct_heads [OF d(1)])
  have fil: "filter (\<lambda>x. fst x \<noteq> hd (vb_chain b)) (out s) = map key (bs1 @ bs2)"
  proof -
    have f1: "filter (\<lambda>x. hd (vb_chain x) \<noteq> hd (vb_chain b)) bs1 = bs1" using dist unfolding bs by (intro filter_True) (auto simp: image_iff)
    have f2: "filter (\<lambda>x. hd (vb_chain x) \<noteq> hd (vb_chain b)) bs2 = bs2" using dist unfolding bs by (intro filter_True) (auto simp: image_iff)
    show ?thesis by (simp only: d(2) bs map_append list.map filter_append filter.simps filter_map comp_def fst_key f1 f2) simp
  qed
  have "mset (map fst (out s)) = add_mset (hd (vb_chain b)) (mset (map fst (map key (bs1 @ bs2))))" using d(2) bs by simp
  then have ms: "mset (map fst (map key (bs1 @ bs2))) = mset (window unat (avail_ring (drv s)) D V @ held s @ map fst (tl (completed s)))"
    using d(11) c b(2) by simp
  have "sys_inv (s\<lparr>drv := q, completed := tl (completed s), out := filter (\<lambda>x. fst x \<noteq> fst (hd (completed s))) (out s)\<rparr>) (vb_chain b @ fl) (bs1 @ bs2) D V (L + 1) U"
    using q(2-6) d(3-9) lu c fil ms b(2) unfolding sys_inv_def by (auto simp: same_rings_def)
  moreover have "virtqueue_buffer_dequeue (drv s) = Some (q, Inr (Some (vb_cookie b), ue_len ?e, int (num q) - int (unat (desc_avail q))))"
    using q(1) hasdata_iff [OF inv] lu by (simp add: virtqueue_buffer_dequeue_def)
  ultimately show ?thesis using bs c b(2) by fastforce
qed


lemma dev_take_ok:
  assumes inv: "sys_inv s fl bs D V L U" and t: "dev_idx s \<noteq> avail_idx (drv s)"
  shows "sys_inv (s\<lparr>dev_idx := dev_idx s + 1, held := unat (avail_ring (drv s) ! ring_slot (drv s) (dev_idx s)) # held s\<rparr>) fl bs (D + 1) V L U"
proof -
  note d = sys_invD [OF inv] and v = vq_splitD [OF sys_invD(1) [OF inv]]
  have dv: "D < V" using t d(4-6) by (cases "D = V") auto
  have "length (avail_ring (drv s)) = num (drv s)" using v(1) by (simp add: vq_wf_def)
  then have "window unat (avail_ring (drv s)) D V = unat (avail_ring (drv s) ! ring_slot (drv s) (dev_idx s)) # window unat (avail_ring (drv s)) (D + 1) V"
    using slot_of_nat [OF v(1), of D] d(5) by (simp add: window_head [OF dv])
  then show ?thesis using d dv unfolding sys_inv_def by (auto simp: add.commute)
qed

lemma dev_use_ok:
  assumes inv: "sys_inv s fl bs D V L U" and h: "h \<in> set (held s)"
  shows "sys_inv (s\<lparr>drv := (drv s)\<lparr>used_ring := (used_ring (drv s))[ring_slot (drv s) (used_idx (drv s)) := \<lparr>ue_id = of_nat h, ue_len = l\<rparr>],
      used_idx := used_idx (drv s) + 1\<rparr>, held := remove1 h (held s), completed := completed s @ [(h, l)]\<rparr>) fl bs D V L (U + 1)"
proof -
  note d = sys_invD [OF inv] and v = vq_splitD [OF sys_invD(1) [OF inv]] and n = sys_lengths [OF inv]
  have ul: "length (used_ring (drv s)) = num (drv s)" using v(1) by (simp add: vq_wf_def)
  have slot: "ring_slot (drv s) (used_idx (drv s)) = U mod num (drv s)" using slot_of_nat [OF v(1), of U] d(8) by simp
  have "h \<in># mset (map fst (out s))" using h unfolding d(11) by simp
  then obtain b where b: "b \<in> set bs" "h = hd (vb_chain b)" using d(2) by auto
  then have "h \<in> set (vb_chain b)" using v(7) [OF b(1)] by (simp add: buf_ok_def)
  then have "h < num (drv s)" using in_chain_less [OF d(1), of h] b(1) by blast
  then have hu: "unat (of_nat h :: u32) = h" using n(3) by (simp add: unat_of_nat)
  have "length (held s) > 0" using h by (cases "held s") auto
  then have "U - L < length (used_ring (drv s))" using n(1,2) ul by linarith
  from window_add [OF d(9) this, of "\<lambda>e. (unat (ue_id e), ue_len e)" "\<lparr>ue_id = of_nat h, ue_len = l\<rparr>"]
  have "window (\<lambda>e. (unat (ue_id e), ue_len e)) ((used_ring (drv s))[U mod num (drv s) := \<lparr>ue_id = of_nat h, ue_len = l\<rparr>]) L (U + 1) = completed s @ [(h, l)]"
    using d(10) ul hu by simp
  moreover have "vq_split ((drv s)\<lparr>used_ring := rs, used_idx := i\<rparr>) fl bs" if "length rs = num (drv s)" for rs i
    using d(1) that by (simp add: vq_split_def vq_wf_def)
  moreover have "mset (held s) = add_mset h (mset (remove1 h (held s)))" using h by simp
  ultimately show ?thesis using d(2-9,11) slot ul unfolding sys_inv_def by (simp add: add.commute)
qed

lemma vq_step_inv:
  assumes "vq_step s s'" "sys_inv s fl bs D V L U"
  shows "\<exists>fl bs D V L U. sys_inv s' fl bs D V L U"
  using assms(1)
proof (cases rule: vq_step.cases)
  case (enqueue r w sg c q n)
  note d = sys_invD [OF assms(2)] and v = vq_splitD [OF sys_invD(1) [OF assms(2)]]
  have "unat (r + w) = unat r + unat w" using enqueue(3) by (simp add: unat_word_ariths)
  then have p: "0 < unat r + unat w" "unat r + unat w \<le> num (drv s)" using enqueue(4)
    by (auto simp: virtqueue_buffer_enqueue_def Let_def word_less_nat_alt split: if_splits)
  then show ?thesis
    using vq_enqueue_ok(1) [OF assms(2) refl p(1) enqueue(2,3), of c] vq_enqueue_ok(2) [OF assms(2) refl p(1) enqueue(2,3) _ p(2), of c] enqueue(1,4)
    by (cases "unat r + unat w \<le> length fl") fastforce+
next
  case (dequeue q c l n)
  then have "L < U" using hasdata_iff [OF assms(2)] by (auto simp: virtqueue_buffer_dequeue_def split: if_splits)
  then show ?thesis using vq_dequeue_ok [OF assms(2)] dequeue by fastforce
next
  case (dev_take h)
  then show ?thesis using dev_take_ok [OF assms(2)] by blast
next
  case (dev_use h l)
  then show ?thesis using dev_use_ok [OF assms(2)] by blast
next
  case (dev_flags f)
  have "vq_split ((drv s)\<lparr>used_flags := f\<rparr>) fl bs" using sys_invD(1) [OF assms(2)] by (simp add: vq_split_def vq_wf_def)
  then have "sys_inv s' fl bs D V L U" using sys_invD(2-11) [OF assms(2)] unfolding dev_flags sys_inv_def by simp
  then show ?thesis by blast
qed

lemma vq_reach_inv:
  assumes "vq_reach s"
  obtains fl bs D V L U where "sys_inv s fl bs D V L U"
proof -
  have "\<exists>fl bs D V L U. sys_inv s fl bs D V L U"
    using assms by (induction rule: vq_reach.induct) (use create_sys_inv vq_step_inv in blast)+
  then show thesis using that by blast
qed


section \<open>Properties\<close>

lemma out_total:
  assumes "sys_inv s fl bs D V L U"
  shows "unat (desc_avail (drv s)) + (\<Sum>(h, c, segs, r)\<leftarrow>out s. length segs) = num (drv s)"
proof -
  note d = sys_invD [OF assms] and v = vq_splitD [OF sys_invD(1) [OF assms]]
  have "(\<Sum>(h, c, segs, r)\<leftarrow>out s. length segs) = (\<Sum>b\<leftarrow>bs. length (vb_segs b))" unfolding d(2) by (simp add: key_def comp_def)
  also have "\<dots> = (\<Sum>b\<leftarrow>bs. length (vb_chain b))" using v(7) by (intro arg_cong [of _ _ sum_list] map_cong) (auto simp: buf_ok_def)
  finally show ?thesis using length_concat_split [OF d(1)] v(4) by simp
qed

text \<open>
  C18: Whatever the driver and the device do in turn, no buffer is lost, returned twice or mixed up with another. In every state they reach: the
  buffers that are out have different heads, and with the free descriptors they make up the whole table; \<^verbatim>\<open>virtqueue_buffer_enqueue\<close> accepts a buffer exactly when enough
  descriptors are free, and otherwise reports \<^verbatim>\<open>ENOSPC\<close> and changes nothing; \<^verbatim>\<open>virtqueue_buffer_dequeue\<close> returns the cookie of the
  buffer that the device completed first with the length the device gave, or reports that there is none. No assertion fails and no index leaves its table.
\<close>

theorem virtqueue_correct:
  assumes "vq_reach s"
  shows "distinct (map fst (out s)) \<and> unat (desc_avail (drv s)) + (\<Sum>(h, c, segs, r)\<leftarrow>out s. length segs) = num (drv s) \<and>
    (\<forall>c sg r w. let tot = unat r + unat w in 0 < tot \<and> tot \<le> length sg \<and> tot \<le> num (drv s) \<longrightarrow>
      (if tot \<le> unat (desc_avail (drv s)) then \<exists>q. virtqueue_buffer_enqueue (drv s) c sg r w = Some (q, Inr (unat (desc_avail (drv s)) - tot))
       else virtqueue_buffer_enqueue (drv s) c sg r w = Some (drv s, Inl ENOSPC))) \<and>
    (case completed s of
       [] \<Rightarrow> virtqueue_buffer_dequeue (drv s) = Some (drv s, Inl ENOMSG)
     | (h, l) # _ \<Rightarrow> \<exists>c segs r q n. (h, c, segs, r) \<in> set (out s) \<and> virtqueue_buffer_dequeue (drv s) = Some (q, Inr (Some c, l, n)))"
proof -
  obtain fl bs D V L U where inv: "sys_inv s fl bs D V L U" by (rule vq_reach_inv [OF assms]) (rule that)
  note d = sys_invD [OF inv] and v = vq_splitD [OF sys_invD(1) [OF inv]]
  have "distinct (map fst (out s))" using distinct_heads [OF d(1)] d(2) by (simp add: comp_def)
  moreover have "if tot \<le> unat (desc_avail (drv s)) then \<exists>q. virtqueue_buffer_enqueue (drv s) c sg r w = Some (q, Inr (unat (desc_avail (drv s)) - tot))
       else virtqueue_buffer_enqueue (drv s) c sg r w = Some (drv s, Inl ENOSPC)"
    if "tot = unat r + unat w" "0 < tot" "tot \<le> length sg" "tot \<le> num (drv s)" for c sg tot and r w :: u16
    using vq_enqueue_ok [OF inv that(1-3), of c] that(4) sys_lengths(3) [OF inv] v(4) by fastforce
  moreover have "case completed s of [] \<Rightarrow> virtqueue_buffer_dequeue (drv s) = Some (drv s, Inl ENOMSG)
     | (h, l) # _ \<Rightarrow> \<exists>c segs r q n. (h, c, segs, r) \<in> set (out s) \<and> virtqueue_buffer_dequeue (drv s) = Some (q, Inr (Some c, l, n))"
  proof (cases "L < U")
    case True
    then obtain q b bs1 bs2 l n where b: "bs = bs1 @ b # bs2" "hd (completed s) = (hd (vb_chain b), l)"
      "virtqueue_buffer_dequeue (drv s) = Some (q, Inr (Some (vb_cookie b), l, n))" using vq_dequeue_ok [OF inv] by blast
    then have "(hd (vb_chain b), vb_cookie b, vb_segs b, vb_read b) \<in> set (out s)" using d(2) by (simp add: key_def)
    moreover have "completed s \<noteq> []" using d(10) True by (simp add: window_head)
    ultimately show ?thesis using b(2,3) by (cases "completed s") (simp, fastforce)
  next
    case False
    then show ?thesis using d(9,10) hasdata_iff [OF inv] by (simp add: window_def virtqueue_buffer_dequeue_def)
  qed
  ultimately show ?thesis using out_total [OF inv] by (simp add: Let_def)
qed

text \<open>What the device reads when it follows a chain from its head, at most \<open>n\<close> descriptors.\<close>

fun dev_chain :: "vring_desc list \<Rightarrow> nat \<Rightarrow> nat \<Rightarrow> (u64 \<times> u32 \<times> bool) list" where
  "dev_chain ds 0 i = []"
| "dev_chain ds (Suc n) i =
     (let d = ds ! i in (d_addr d, d_len d, d_flags d AND VRING_DESC_F_WRITE \<noteq> 0) #
        (if d_flags d AND VRING_DESC_F_NEXT \<noteq> 0 then dev_chain ds n (unat (d_next d)) else []))"

lemma desc_flags_write: "desc_flags r tot k AND VRING_DESC_F_WRITE \<noteq> 0 \<longleftrightarrow> r \<le> k"
  by (simp add: desc_flags_def)

lemma dev_chain_eq:
  assumes "linked ds xs" "xs \<noteq> []" "length xs \<le> n" "length segs = length xs" "\<forall>j < length xs. seg_in (ds ! (xs ! j)) (segs ! j) (desc_flags r (k + length xs) (k + j))"
  shows "dev_chain ds n (hd xs) = map (\<lambda>j. (ss_paddr (segs ! j), ucast (ss_len (segs ! j)), r \<le> k + j)) [0..<length xs]"
  using assms
proof (induction xs arbitrary: n segs k)
  case (Cons x xs)
  obtain m where m: "n = Suc m" using Cons.prems(3) by (cases n) auto
  obtain g gs where g: "segs = g # gs" using Cons.prems(4) by (cases segs) auto
  have x: "seg_in (ds ! x) g (desc_flags r (k + length (x # xs)) k)" using Cons.prems(5) [rule_format, of 0] g by simp
  show ?case
  proof (cases xs)
    case Nil
    then show ?thesis using x m g by (simp add: seg_in_def desc_flags_write desc_flags_next)
  next
    case (Cons y ys)
    have "\<forall>j < length xs. seg_in (ds ! (xs ! j)) (gs ! j) (desc_flags r (k + 1 + length xs) (k + 1 + j))"
      using Cons.prems(5) g by force
    from Cons.IH [OF linked_tl [OF Cons.prems(1)] _ _ _ this, of m]
    have "dev_chain ds m (hd xs) = map (\<lambda>j. (ss_paddr (gs ! j), ucast (ss_len (gs ! j)), r \<le> k + 1 + j)) [0..<length xs]"
      using Cons Cons.prems(3,4) m g by simp
    moreover have "unat (d_next (ds ! x)) = hd xs" using Cons.prems(1) Cons by (simp add: linked_Cons)
    ultimately show ?thesis using x m g Cons
      by (simp add: seg_in_def desc_flags_write desc_flags_next map_upt_Suc del: upt_Suc)
  qed
qed simp



text \<open>A run: one descriptor out of two is given to the device, which takes and completes it.\<close>

definition vq_two :: "nat virtqueue_vring" where
  "vq_two = projr (the (virtqueue_create True (\<lambda>_ _. True) (\<lambda>_. \<lparr>cookie = None, desc_count = 0\<rparr>) 2 4096))"

definition seg_one :: "uk_sglist_seg list" where
  "seg_one = [\<lparr>ss_paddr = 4096, ss_len = 100\<rparr>]"

definition vq_given :: "nat virtqueue_vring" where
  "vq_given = fst (the (virtqueue_buffer_enqueue vq_two 7 seg_one 1 0))"

definition sys_given :: "nat vq_system" where
  "sys_given = \<lparr>drv = vq_given, dev_idx = 1, held = [0], completed = [], out = [(0, 7, seg_one, 1)]\<rparr>"

lemma vq_given_facts:
  "virtqueue_create True (\<lambda>_ _. True) (\<lambda>_. \<lparr>cookie = None, desc_count = 0\<rparr>) (2 ^ 1) 4096 = Some (Inr vq_two)"
  "virtqueue_buffer_enqueue vq_two 7 seg_one 1 0 = Some (vq_given, Inr 1)"
  "head_free_desc vq_two = 0" "take 1 seg_one = seg_one" "avail_idx vq_given = 1" "avail_ring vq_given ! ring_slot vq_given 0 = 0"
  by code_simp+

lemma sys_given_reach: "vq_reach sys_given"
proof -
  let ?a = "\<lparr>drv = vq_two, dev_idx = 0, held = [], completed = [], out = []\<rparr>"
  have a: "vq_reach ?a" by (rule vq_reach.create [OF vq_given_facts(1)]) simp
  let ?b = "?a\<lparr>drv := vq_given, out := out ?a @ [(unat (head_free_desc (drv ?a)), 7, take (unat (1 :: u16) + unat (0 :: u16)) seg_one, unat (1 :: u16))]\<rparr>"
  have "vq_step ?a ?b" by (rule vq_step.enqueue) (use vq_given_facts(2) in \<open>simp_all add: seg_one_def\<close>)
  then have b: "vq_reach ?b" by (rule vq_reach.step [OF a])
  have "vq_step ?b (?b\<lparr>dev_idx := dev_idx ?b + 1, held := unat (avail_ring (drv ?b) ! ring_slot (drv ?b) (dev_idx ?b)) # held ?b\<rparr>)"
    by (rule vq_step.dev_take) (use vq_given_facts(5) in simp_all)
  then show ?thesis using vq_reach.step [OF b] vq_given_facts(3,4,6) by (simp add: sys_given_def)
qed

theorem virtqueue_correct_witness:
  "unat (desc_avail vq_given) + 1 = num vq_given \<and> virtqueue_buffer_dequeue vq_given = Some (vq_given, Inl ENOMSG)"
  using virtqueue_correct [OF sys_given_reach] by (simp add: sys_given_def seg_one_def)


section \<open>Bursts\<close>

text \<open>Single calls until the queue is empty or \<open>n\<close> buffers are taken.\<close>

fun dequeue_all :: "nat \<Rightarrow> 'c virtqueue_vring \<Rightarrow> ('c virtqueue_vring \<times> ('c option \<times> u32) list) option" where
  "dequeue_all 0 q = Some (q, [])"
| "dequeue_all (Suc n) q =
     do {
       (q, r) \<leftarrow> virtqueue_buffer_dequeue q;
       case r of Inl _ \<Rightarrow> Some (q, [])
       | Inr (c, l, _) \<Rightarrow> do { (q, rs) \<leftarrow> dequeue_all n q; Some (q, (c, l) # rs) }
     }"

lemma available_count:
  assumes "sys_inv s fl bs D V L U"
  shows "unat (used_idx (drv s) - last_used_desc_idx (drv s)) = U - L"
proof -
  note d = sys_invD [OF assms] and n = sys_lengths [OF assms]
  have "used_idx (drv s) - last_used_desc_idx (drv s) = of_nat (U - L)" using d(7-9) by simp
  then show ?thesis using n by (simp add: unat_of_nat)
qed

lemma dequeue_burst_loop_eq:
  assumes "sys_inv s fl bs D V L U"
  shows "dequeue_burst_loop (min (U - L) n) (drv s) = dequeue_all n (drv s)"
  using assms
proof (induction n arbitrary: s fl bs L)
  case (Suc n)
  show ?case
  proof (cases "L < U")
    case True
    then obtain q and b :: "'a vbuf" and bs1 bs2 l k where b: "virtqueue_buffer_dequeue (drv s) = Some (q, Inr (Some (vb_cookie b), l, k))"
      "sys_inv (s\<lparr>drv := q, completed := tl (completed s), out := filter (\<lambda>x. fst x \<noteq> fst (hd (completed s))) (out s)\<rparr>) (vb_chain b @ fl) (bs1 @ bs2) D V (L + 1) U"
      using vq_dequeue_ok [OF Suc.prems True] by blast
    have one: "virtqueue_buffer_dequeue1 (drv s) = Some (q, Some (vb_cookie b), l)"
      using b(1) hasdata_iff [OF Suc.prems] True by (auto simp: virtqueue_buffer_dequeue_def split: bind_splits)
    have "min (U - L) (Suc n) = Suc (min (U - (L + 1)) n)" using True by simp
    then show ?thesis using Suc.IH [OF b(2)] b(1) one by simp
  next
    case False
    then show ?thesis using hasdata_iff [OF Suc.prems] by (simp add: virtqueue_buffer_dequeue_def)
  qed
qed simp

text \<open>
  C20: In every reachable state \<^verbatim>\<open>virtqueue_buffer_dequeue_burst\<close> returns the same buffers, in the same order, and leaves the
  same queue as calls of \<^verbatim>\<open>virtqueue_buffer_dequeue\<close> repeated until the count is reached or no buffer is left.
\<close>

theorem dequeue_burst_equiv:
  assumes "vq_reach s"
  shows "map_option (\<lambda>(q, rs, n). (q, rs)) (virtqueue_buffer_dequeue_burst (drv s) cnt) = dequeue_all cnt (drv s)"
proof -
  obtain fl bs D V L U where inv: "sys_inv s fl bs D V L U" by (rule vq_reach_inv [OF assms]) (rule that)
  have "virtqueue_buffer_dequeue_burst (drv s) cnt = map_option (\<lambda>(q, rs). (q, rs, int (num q) - int (unat (desc_avail q)))) (dequeue_all cnt (drv s))"
    using available_count [OF inv] dequeue_burst_loop_eq [OF inv, of cnt] by (cases "dequeue_all cnt (drv s)") (auto simp: virtqueue_buffer_dequeue_burst_def)
  then show ?thesis by (cases "dequeue_all cnt (drv s)") auto
qed

theorem dequeue_burst_equiv_witness:
  "map_option (\<lambda>(q, rs, n). (q, rs)) (virtqueue_buffer_dequeue_burst vq_given 4) = dequeue_all 4 vq_given"
  using dequeue_burst_equiv [OF sys_given_reach, of 4] by (simp add: sys_given_def)

text \<open>
  The variant for network buffers gives the same result as long as enough descriptors are free; it does not test it, and on a full queue it
  reaches beyond the table.
\<close>

lemma virtnet_enqueue_eq:
  assumes "sys_inv s fl bs D V L U" "tot = unat r + unat w" "0 < tot" "tot \<le> length fl"
  shows "\<exists>q. virtqueue_buffer_enqueue1 (drv s) c (replicate tot seg) 0 r w = Some (q, Inr (length fl - tot)) \<and>
    virtnet_buffer_enqueue (drv s) c seg r w = Some (q, length fl - tot)"
proof -
  note d = sys_invD [OF assms(1)] and v = vq_splitD [OF sys_invD(1) [OF assms(1)]] and l = sys_lengths [OF assms(1)]
  obtain q where q: "virtqueue_buffer_enqueue1 (drv s) c (replicate tot seg) 0 r w = Some (q, Inr (length fl - tot))"
    using enqueue1_ok [OF d(1) assms(2-4), of 0 "replicate tot seg" c] by auto
  have "unat (desc_avail (drv s) - of_nat tot) = length fl - tot" using assms(4) v(4) by (simp add: unat_sub_of_nat)
  moreover have "length fl - tot < num (drv s)" using l(2) assms(3,4) by linarith
  ultimately have "virtnet_buffer_enqueue (drv s) c seg r w = Some (q, length fl - tot)"
    using q assms(2,4) v(4)
    by (auto simp: virtqueue_buffer_enqueue1_def virtqueue_buffer_enqueue_segments_def virtnet_buffer_enqueue_def Let_def split: bind_splits if_splits)
  then show ?thesis using q by blast
qed

definition vq_full :: "nat virtqueue_vring" where
  "vq_full = fst (the (virtqueue_buffer_enqueue vq_two 7 (seg_one @ seg_one) 2 0))"

lemma virtnet_full: "virtnet_buffer_enqueue vq_full 8 seg 1 0 = None"
proof -
  have "head_free_desc vq_full = 32768" "length (vq_info vq_full) = 2" by code_simp+
  then show ?thesis by (simp add: virtnet_buffer_enqueue_def)
qed

text \<open>Enabling interrupts misses no completion, whatever the device completes meanwhile.\<close>

lemma intr_enable_no_miss:
  assumes "virtqueue_intr_enable dev q = (q', rc)" "\<And>x. avail_flags (dev x) = avail_flags x"
  shows "rc \<longleftrightarrow> virtqueue_hasdata q'" "\<not> rc \<Longrightarrow> avail_flags q' AND VRING_AVAIL_F_NO_INTERRUPT = 0"
proof -
  have one: "avail_flags q OR VRING_AVAIL_F_NO_INTERRUPT \<noteq> 0" by (metis bit_or_iff bit_1_0 bit_0_eq bot2E bot_apply or_eq_0_iff one_neq_zero)
  have hd: "virtqueue_hasdata (virtqueue_intr_disable x) = virtqueue_hasdata x" for x :: "'a virtqueue_vring"
    by (simp add: virtqueue_hasdata_def virtqueue_intr_disable_def)
  show "rc \<longleftrightarrow> virtqueue_hasdata q'" using assms(1) one hd by (auto simp: virtqueue_intr_enable_def Let_def split: if_splits)
  show "\<not> rc \<Longrightarrow> avail_flags q' AND VRING_AVAIL_F_NO_INTERRUPT = 0"
    using assms one by (auto simp: virtqueue_intr_enable_def Let_def and.assoc split: if_splits)
qed

text \<open>Index differences in the type int: an event that was passed before the index wrapped is not seen.\<close>

lemma need_event_wraps: "\<not> vring_need_event 0 1 65534" "(1 - 0 - 1 :: u16) < 1 - 65534"
  by (simp_all add: vring_need_event_def word_gt_0)

end
