(* ===== verification/VringLayout.thy ===== *)
theory VringLayout
  imports Virtqueue
begin

text \<open>The memory that \<^verbatim>\<open>virtqueue_create\<close> allocates holds the three tables of the ring without overlap.\<close>

definition round_up :: "nat \<Rightarrow> nat \<Rightarrow> nat" where
  "round_up x a = (x + a - 1) div a * a"

lemma round_up_bounds: "0 < a \<Longrightarrow> x \<le> round_up x a \<and> round_up x a < x + a"
  unfolding round_up_def using ceil_mult_bounds [of a x] by simp

lemma round_up_shift: "0 < a \<Longrightarrow> round_up (a * k + x) a = a * k + round_up x a"
proof -
  assume a: "0 < a"
  then have "a * k + x + a - 1 = (x + a - 1) + a * k" by simp
  moreover have "((x + a - 1) + a * k) div a = k + (x + a - 1) div a" by (rule div_mult_self2) (use a in simp)
  ultimately have "(a * k + x + a - 1) div a = k + (x + a - 1) div a" by (simp only:)
  then show ?thesis by (simp add: round_up_def algebra_simps)
qed

lemma round_up_mono: "x \<le> y \<Longrightarrow> round_up x a \<le> round_up y a"
  unfolding round_up_def by (intro mult_le_mono1 div_le_mono) simp

lemma scast_of_nat: "k < 2 ^ 31 \<Longrightarrow> (scast (of_nat k :: u32) :: u64) = of_nat k"
  by (simp add: scast_eq signed_of_nat signed_take_bit_int_eq_self)

lemma ucast_of_nat_32: "(ucast (of_nat k :: u64) :: u32) = of_nat k"
  by (simp add: word_unat_eq_iff unsigned_ucast_eq unat_of_nat take_bit_eq_mod mod_mod_cancel)

lemma ucast_as_nat: "(ucast (n :: u32) :: u64) = of_nat (unat n)"
  by simp

lemma align_of_nat:
  assumes "a < 64" "x + 2 ^ a \<le> 2 ^ 64"
  shows "(of_nat x + 2 ^ a - 1 :: u64) AND NOT (2 ^ a - 1) = of_nat (round_up x (2 ^ a))"
proof -
  have p: "(0 :: nat) < 2 ^ a" by simp
  have "x < 2 ^ 64" using assms(2) p by linarith
  then have x: "unat (of_nat x :: u64) = x" by (simp add: unat_of_nat)
  have "round_up x (2 ^ a) < 2 ^ 64" using round_up_bounds [OF p, of x] assms(2) by linarith
  then have r: "unat (of_nat (round_up x (2 ^ a)) :: u64) = round_up x (2 ^ a)" by (simp add: unat_of_nat)
  show ?thesis using unat_ALIGN_UP [of a "of_nat x"] assms x r by (simp add: word_unat_eq_iff ALIGN_UP_def round_up_def)
qed

lemma vring_size_eq:
  assumes "unat n \<le> 65535" "a \<le> 15"
  shows "unat (vring_size n (2 ^ a)) = round_up (18 * unat n + 6) (2 ^ a) + (6 + 8 * unat n)"
proof -
  define k where "k = unat n"
  have p: "(0 :: nat) < 2 ^ a" "(2 :: nat) ^ a \<le> 2 ^ 15" using assms(2) by (simp, intro power_increasing) simp_all
  have r: "round_up (18 * k + 6) (2 ^ a) < 18 * k + 6 + 2 ^ 15" using round_up_bounds [OF p(1), of "18 * k + 6"] p(2) by linarith
  have k: "k \<le> 65535" using assms(1) by (simp add: k_def)
  have s1: "(ucast (ucast n * 16 :: u64) :: u32) = of_nat (16 * k)" unfolding ucast_as_nat k_def [symmetric]
    using ucast_of_nat_32 [of "16 * k"] by (simp add: mult.commute)
  have s2: "(ucast (scast (of_nat (16 * k) :: u32) + (4 + ucast n * 2 + 2) :: u64) :: u32) = of_nat (18 * k + 6)"
    unfolding ucast_as_nat k_def [symmetric] using scast_of_nat [of "16 * k"] ucast_of_nat_32 [of "18 * k + 6"] k by (simp add: algebra_simps)
  have s3: "(ucast ((scast (of_nat (18 * k + 6) :: u32) + 2 ^ a - 1 :: u64) AND NOT (2 ^ a - 1)) :: u32) = of_nat (round_up (18 * k + 6) (2 ^ a))"
    using scast_of_nat [of "18 * k + 6"] align_of_nat [of a "18 * k + 6"] assms(2) k p(2) ucast_of_nat_32 by simp
  have s4: "(ucast (scast (of_nat (round_up (18 * k + 6) (2 ^ a)) :: u32) + (4 + ucast n * 8 + 2) :: u64) :: u32) =
      of_nat (round_up (18 * k + 6) (2 ^ a) + (6 + 8 * k))"
    unfolding ucast_as_nat k_def [symmetric] using scast_of_nat [of "round_up (18 * k + 6) (2 ^ a)"] r k
      ucast_of_nat_32 [of "round_up (18 * k + 6) (2 ^ a) + (6 + 8 * k)"] by (simp add: algebra_simps)
  have eq: "vring_size n (2 ^ a) = of_nat (round_up (18 * k + 6) (2 ^ a) + (6 + 8 * k))"
    unfolding vring_size_def Let_def s1 s2 s3 s4 ..
  have "round_up (18 * k + 6) (2 ^ a) + (6 + 8 * k) < 2 ^ 32" using r k by simp
  then show ?thesis unfolding eq unat_of_nat by (simp add: k_def)
qed

text \<open>
  C21: The three tables of a ring fit its memory. For every queue size up to 65535 and every alignment that is a power of two up to
  32768, in memory that starts at a multiple of the alignment, the descriptors, the available ring and the used ring that \<^verbatim>\<open>vring_init\<close>
  lays out follow each other without overlap, the used ring is aligned, and they end within the \<^verbatim>\<open>vring_size\<close> bytes.
\<close>

theorem vring_layout:
  assumes n: "unat n \<le> 65535" and a: "a \<le> 15" and p: "2 ^ a dvd unat p" and fits: "unat p + unat (vring_size n (2 ^ a)) \<le> 2 ^ 64 - 2 ^ 15"
  shows "\<exists>avail used. vring_init n p (2 ^ a) = (p, avail, used) \<and> unat avail = unat p + 16 * unat n \<and>
    unat avail + 4 + 2 * unat n \<le> unat used \<and> 2 ^ a dvd unat used \<and> unat used + 4 + 8 * unat n \<le> unat p + unat (vring_size n (2 ^ a))"
proof -
  define k where "k = unat n"
  obtain m where m: "unat p = 2 ^ a * m" using p by (rule dvdE) (rule that)
  have pos: "(0 :: nat) < 2 ^ a" "(2 :: nat) ^ a \<le> 2 ^ 15" using a by (simp, intro power_increasing) simp_all
  have k: "k \<le> 65535" using n by (simp add: k_def)
  have sz: "unat (vring_size n (2 ^ a)) = round_up (18 * k + 6) (2 ^ a) + (6 + 8 * k)" using vring_size_eq [OF n a] by (simp add: k_def)
  have rb: "18 * k + 4 \<le> round_up (18 * k + 4) (2 ^ a)" "round_up (18 * k + 4) (2 ^ a) \<le> round_up (18 * k + 6) (2 ^ a)"
    "18 * k + 6 \<le> round_up (18 * k + 6) (2 ^ a)"
    using round_up_bounds [OF pos(1), of "18 * k + 4"] round_up_bounds [OF pos(1), of "18 * k + 6"] round_up_mono by auto
  define avail where "avail = p + of_nat k * 16"
  define used where "used = (avail + 4 + of_nat k * 2 + 2 ^ a - 1) AND NOT (2 ^ a - 1)"
  have init: "vring_init n p (2 ^ a) = (p, avail, used)"
    unfolding vring_init_def ucast_as_nat k_def [symmetric] by (simp add: avail_def used_def Let_def)
  have av: "unat avail = unat p + 16 * k"
  proof -
    have "avail = of_nat (unat p + 16 * k)" by (simp add: avail_def mult.commute)
    moreover have "unat p + 16 * k < 2 ^ 64" using fits sz rb by linarith
    ultimately show ?thesis by (simp only: unat_of_nat) simp
  qed
  have "avail + 4 + of_nat k * 2 = of_nat (unat p + (18 * k + 4))" by (simp add: avail_def algebra_simps)
  then have "used = (of_nat (unat p + (18 * k + 4)) + 2 ^ a - 1) AND NOT (2 ^ a - 1)" unfolding used_def by (simp only:)
  also have "\<dots> = of_nat (round_up (unat p + (18 * k + 4)) (2 ^ a))" by (rule align_of_nat) (use a fits sz rb pos(2) in linarith)+
  also have "\<dots> = of_nat (unat p + round_up (18 * k + 4) (2 ^ a))" using round_up_shift [OF pos(1), of m "18 * k + 4"] m by simp
  finally have "used = of_nat (unat p + round_up (18 * k + 4) (2 ^ a))" .
  moreover have "unat p + round_up (18 * k + 4) (2 ^ a) < 2 ^ 64" using fits sz rb by linarith
  ultimately have us: "unat used = unat p + round_up (18 * k + 4) (2 ^ a)" by (simp only: unat_of_nat) simp
  have "2 ^ a dvd round_up (18 * k + 4) (2 ^ a)" by (simp add: round_up_def)
  then have "2 ^ a dvd unat used" using us p by simp
  then show ?thesis using init av us rb sz by (simp add: k_def)
qed

theorem vring_layout_witness:
  "\<exists>avail used. vring_init 256 4096 4096 = (4096, avail, used) \<and> unat avail = 8192"
  using vring_layout [of 256 12 4096] vring_size_eq [of 256 12] by (auto simp: round_up_def)

end
