(* ===== verification/Timeconv.thy ===== *)
theory Timeconv
  imports UkPrelude
begin

text \<open>
  Conversion of a date to nanoseconds since 1970, \<^verbatim>\<open>lib/uktimeconv/timeconv.c\<close> and \<^verbatim>\<open>timeconv.h\<close>. The fields of the date are numbers of
  their ranges; the sums of days and seconds are 64-bit words that wrap around.
\<close>

record uktimeconv_bmkclock =
  dt_year :: int
  dt_mon :: nat
  dt_day :: nat
  dt_hour :: nat
  dt_min :: nat
  dt_sec :: nat

definition days_in_month :: "nat \<Rightarrow> nat" where
  "days_in_month m =
     (if m = 2 then 28 else if m \<in> {4, 6, 9, 11} then 30 else if m \<in> {1, 3, 5, 7, 8, 10, 12} then 31 else 0)"

definition uktimeconv_days_in_month :: "nat \<Rightarrow> bool \<Rightarrow> nat" where
  "uktimeconv_days_in_month month is_leap_year = days_in_month month + (if is_leap_year \<and> month = 2 then 1 else 0)"

definition uktimeconv_is_leap_year :: "int \<Rightarrow> bool" where
  "uktimeconv_is_leap_year year \<longleftrightarrow> (if year AND 3 \<noteq> 0 then False else if year mod 100 \<noteq> 0 then True else year mod 400 = 0)"

definition uktimeconv_days_per_year :: "int \<Rightarrow> nat" where
  "uktimeconv_days_per_year year = (if uktimeconv_is_leap_year year then 366 else 365)"

definition DAYSTO2000 :: nat where "DAYSTO2000 = 365 * 30 + 7"
definition DAYS4YEARS :: nat where "DAYS4YEARS = 365 * 4 + 1"
definition DAYS100YEARS :: nat where "DAYS100YEARS = 365 * 100 + 24"
definition DAYS400YEARS :: nat where "DAYS400YEARS = 365 * 400 + 97"

text \<open>The loops that add the days of the years from \<open>i\<close> on, and of the months from \<open>i\<close> on.\<close>

fun add_years :: "nat \<Rightarrow> nat \<Rightarrow> u64 \<Rightarrow> u64" where
  "add_years i 0 days = days"
| "add_years i (Suc n) days = add_years (i + 1) n (days + of_nat (uktimeconv_days_per_year (int i)))"

fun add_months :: "nat \<Rightarrow> nat \<Rightarrow> u64 \<Rightarrow> u64" where
  "add_months i 0 days = days"
| "add_months i (Suc n) days = add_months (i + 1) n (days + of_nat (days_in_month i))"

text \<open>The days of the years before the given one, added to \<open>days\<close>.\<close>

definition year_days :: "nat \<Rightarrow> u64 \<Rightarrow> u64" where
  "year_days dt days =
     (if dt < 2000 then add_years 1970 (dt - 1970) days
      else let days = days + of_nat DAYSTO2000; year = dt - 2000;
               i = year div 400; days = days + of_nat (i * DAYS400YEARS); year = year - i * 400;
               i = year div 100; days = days + of_nat (i * DAYS100YEARS); year = year - i * 100;
               i = year div 4; days = days + of_nat (i * DAYS4YEARS); year = year - i * 4
           in add_years (dt - year) year days)"

definition bmkclock_secs :: "uktimeconv_bmkclock \<Rightarrow> u64 option" where
  "bmkclock_secs dt =
     do {
       uk_assert (dt_year dt \<ge> 1970);
       let days = (if uktimeconv_is_leap_year (dt_year dt) \<and> dt_mon dt > 2 then 1 else 0);
       let days = year_days (nat (dt_year dt)) days;
       let days = add_months 1 (dt_mon dt - 1) days;
       let days = days + (of_nat (dt_day dt) - 1);
       Some (((days * 24 + of_nat (dt_hour dt)) * 60 + of_nat (dt_min dt)) * 60 + of_nat (dt_sec dt))
     }"

definition uktimeconv_bmkclock_to_nsec :: "uktimeconv_bmkclock \<Rightarrow> u64 option" where
  "uktimeconv_bmkclock_to_nsec dt = do { secs \<leftarrow> bmkclock_secs dt; Some (secs * 1000000000) }"

definition uktimeconv_bcdtobin :: "u32 \<Rightarrow> u32" where
  "uktimeconv_bcdtobin bcd = (drop_bit 4 bcd AND 0x0f) * 10 + (bcd AND 0x0f)"

section \<open>The calendar\<close>

text \<open>The number of days from 1970 to the start of a year, and to a date, counted day by day.\<close>

definition leap :: "nat \<Rightarrow> bool" where
  "leap y \<longleftrightarrow> y mod 4 = 0 \<and> (y mod 100 \<noteq> 0 \<or> y mod 400 = 0)"

definition year_len :: "nat \<Rightarrow> nat" where
  "year_len y = (if leap y then 366 else 365)"

definition days_to_year :: "nat \<Rightarrow> nat" where
  "days_to_year y = (\<Sum>i = 1970..<y. year_len i)"

definition month_len :: "nat \<Rightarrow> nat \<Rightarrow> nat" where
  "month_len y m = (if m = 2 then if leap y then 29 else 28 else if m \<in> {4, 6, 9, 11} then 30 else 31)"

definition days_to_date :: "nat \<Rightarrow> nat \<Rightarrow> nat \<Rightarrow> nat" where
  "days_to_date y m d = days_to_year y + (\<Sum>i = 1..<m. month_len y i) + (d - 1)"

lemma is_leap_year_eq: "uktimeconv_is_leap_year (int y) = leap y"
proof -
  have "int y AND 3 = take_bit 2 (int y)" by (simp add: take_bit_eq_mask mask_eq_exp_minus_1)
  then have "int y AND 3 = int (y mod 4)" by (simp add: take_bit_eq_mod zmod_int)
  then show ?thesis by (auto simp: uktimeconv_is_leap_year_def leap_def zmod_int [of y 100, simplified, symmetric] zmod_int [of y 400, simplified, symmetric])
qed

lemma days_per_year_eq: "uktimeconv_days_per_year (int y) = year_len y"
  by (simp add: uktimeconv_days_per_year_def year_len_def is_leap_year_eq)

lemma add_years_eq: "add_years i n days = days + of_nat (\<Sum>j = i..<i + n. year_len j)"
  by (induction n arbitrary: i days) (simp_all add: days_per_year_eq sum.atLeast_Suc_lessThan)

lemma add_months_eq: "add_months i n days = days + of_nat (\<Sum>j = i..<i + n. days_in_month j)"
  by (induction n arbitrary: i days) (simp_all add: sum.atLeast_Suc_lessThan)

text \<open>Leap years from 2000 on, in closed form.\<close>

lemma ceil_Suc: "0 < (n :: nat) \<Longrightarrow> (Suc k + (n - 1)) div n = (k + (n - 1)) div n + (if k mod n = 0 then 1 else 0)"
proof -
  assume "0 < n"
  then have "Suc k + (n - 1) = Suc (k + (n - 1))" "Suc (k + (n - 1)) mod n = k mod n" by (auto simp: Suc_diff_Suc [of 0 n, simplified] mod_add_self2 [of k n] simp flip: add_Suc_right)
  then show ?thesis by (simp add: div_Suc)
qed

lemma leap_shift: "leap (2000 + k) \<longleftrightarrow> k mod 4 = 0 \<and> (k mod 100 \<noteq> 0 \<or> k mod 400 = 0)"
proof -
  have "(2000 + k) mod 4 = k mod 4" "(2000 + k) mod 100 = k mod 100" "(2000 + k) mod 400 = k mod 400"
    using mod_mult_self2 [of k 4 500] mod_mult_self2 [of k 100 20] mod_mult_self2 [of k 400 5] by (simp_all add: add.commute)
  then show ?thesis by (simp add: leap_def)
qed

lemma days_from_2000:
  "int (\<Sum>i = 2000..<2000 + k. year_len i) = 365 * int k + int ((k + 3) div 4) - int ((k + 99) div 100) + int ((k + 399) div 400)"
proof (induction k)
  case (Suc k)
  have "(Suc k + 3) div 4 = (k + 3) div 4 + (if k mod 4 = 0 then 1 else 0)"
    "(Suc k + 99) div 100 = (k + 99) div 100 + (if k mod 100 = 0 then 1 else 0)"
    "(Suc k + 399) div 400 = (k + 399) div 400 + (if k mod 400 = 0 then 1 else 0)"
    using ceil_Suc [of 4 k] ceil_Suc [of 100 k] ceil_Suc [of 400 k] by simp_all
  moreover have "k mod 400 = 0 \<Longrightarrow> k mod 100 = 0" "k mod 100 = 0 \<Longrightarrow> k mod 4 = 0" by presburger+
  moreover have "int (\<Sum>i = 2000..<2000 + Suc k. year_len i) = int (\<Sum>i = 2000..<2000 + k. year_len i) + int (year_len (2000 + k))"
    using sum.atLeastLessThan_Suc [of 2000 "2000 + k" year_len] by simp
  ultimately show ?case using Suc.IH by (auto simp: year_len_def leap_shift)
qed simp

lemma days_to_2000: "days_to_year 2000 = DAYSTO2000"
  by (simp add: days_to_year_def atLeastLessThan_nat_numeral year_len_def leap_def DAYSTO2000_def)

lemma days_to_year_from: "days_to_year (2000 + k) = DAYSTO2000 + (\<Sum>i = 2000..<2000 + k. year_len i)"
  unfolding days_to_2000 [symmetric] days_to_year_def by (rule sum.atLeastLessThan_concat [symmetric]) simp_all

text \<open>
  The blocks of 100 years are counted with 24 leap years, but the first of them has 25: the first years of the other centuries come out a day short.
\<close>

definition short_year :: "nat \<Rightarrow> bool" where
  "short_year y \<longleftrightarrow> 2000 \<le> y \<and> 100 \<le> y mod 400 \<and> y mod 100 < 4"

lemma blocks_eq:
  assumes "b < 4" "c < 25"
  shows "a * DAYS400YEARS + b * DAYS100YEARS + c * DAYS4YEARS + (if 0 < b \<and> c = 0 then 1 else 0) =
    (\<Sum>i = 2000..<2000 + (400 * a + 100 * b + 4 * c). year_len i)"
proof -
  have "(400 * a + 100 * b + 4 * c + 3) div 4 = 100 * a + 25 * b + c" by simp
  moreover have "(400 * a + 100 * b + 4 * c + 99) div 100 = 4 * a + b + (if c = 0 then 0 else 1)" using assms by auto
  moreover have "(400 * a + 100 * b + 4 * c + 399) div 400 = a + (if b = 0 \<and> c = 0 then 0 else 1)" using assms by auto
  ultimately have "int (\<Sum>i = 2000..<2000 + (400 * a + 100 * b + 4 * c). year_len i) =
    int (a * DAYS400YEARS + b * DAYS100YEARS + c * DAYS4YEARS + (if 0 < b \<and> c = 0 then 1 else 0))"
    unfolding days_from_2000 by (auto simp: DAYS400YEARS_def DAYS100YEARS_def DAYS4YEARS_def)
  then show ?thesis by linarith
qed


lemma year_days_eq:
  assumes "1970 \<le> y"
  shows "year_days y days + (if short_year y then 1 else 0) = days + of_nat (days_to_year y)"
proof (cases "y < 2000")
  case True
  then show ?thesis using assms by (simp add: year_days_def add_years_eq days_to_year_def short_year_def)
next
  case False
  define z where "z = y - 2000"
  define a where "a = z div 400"
  define r where "r = z - a * 400"
  define b where "b = r div 100"
  define s where "s = r - b * 100"
  define c where "c = s div 4"
  define t where "t = s - c * 4"
  have r: "z = 400 * a + r" "r < 400" unfolding r_def a_def using div_mult_mod_eq [of z 400] by (simp_all add: minus_div_mult_eq_mod algebra_simps)
  have s: "r = 100 * b + s" "s < 100" unfolding s_def b_def using div_mult_mod_eq [of r 100] by (simp_all add: minus_div_mult_eq_mod algebra_simps)
  have t: "s = 4 * c + t" "t < 4" unfolding t_def c_def using div_mult_mod_eq [of s 4] by (simp_all add: minus_div_mult_eq_mod algebra_simps)
  have b: "b < 4" and c: "c < 25" using r(2) s t by auto
  let ?k = "400 * a + 100 * b + 4 * c"
  have y: "y = 2000 + ?k + t" using False r(1) s(1) t(1) by (simp add: z_def)
  have short: "short_year y \<longleftrightarrow> 0 < b \<and> c = 0"
  proof -
    have "y = r + 400 * (a + 5)" "y = s + 100 * (4 * a + b + 20)" using False r(1) s(1) by (simp_all add: z_def)
    then have "y mod 400 = r" "y mod 100 = s" using r(2) s(2) by (metis mod_mult_self2 mod_less)+
    then show ?thesis using False s t by (auto simp: short_year_def)
  qed
  have "year_days y days = add_years (y - t) t (days + of_nat DAYSTO2000 + of_nat (a * DAYS400YEARS) + of_nat (b * DAYS100YEARS) + of_nat (c * DAYS4YEARS))"
    unfolding year_days_def Let_def using False by (simp add: z_def [symmetric] a_def [symmetric] r_def [symmetric] b_def [symmetric] s_def [symmetric] c_def [symmetric] t_def [symmetric])
  also have "\<dots> = days + of_nat (DAYSTO2000 + (a * DAYS400YEARS + b * DAYS100YEARS + c * DAYS4YEARS) + (\<Sum>j = 2000 + ?k..<y. year_len j))"
    unfolding add_years_eq using y by simp
  finally have yd: "year_days y days = days + of_nat (DAYSTO2000 + (a * DAYS400YEARS + b * DAYS100YEARS + c * DAYS4YEARS) + (\<Sum>j = 2000 + ?k..<y. year_len j))" .
  have "(\<Sum>i = 2000..<y. year_len i) = (\<Sum>i = 2000..<2000 + ?k. year_len i) + (\<Sum>j = 2000 + ?k..<y. year_len j)"
    by (rule sum.atLeastLessThan_concat [symmetric]) (use y in simp_all)
  then have "days_to_year y = DAYSTO2000 + (a * DAYS400YEARS + b * DAYS100YEARS + c * DAYS4YEARS) + (\<Sum>j = 2000 + ?k..<y. year_len j) + (if short_year y then 1 else 0)"
    using days_to_year_from [of "?k + t"] y blocks_eq [OF b c, of a] short by (simp add: add.assoc)
  then show ?thesis using yd by simp
qed

lemma month_days:
  assumes "1 \<le> m" "m \<le> 12"
  shows "(\<Sum>i = 1..<m. days_in_month i) + (if leap y \<and> 2 < m then 1 else 0) = (\<Sum>i = 1..<m. month_len y i)"
proof -
  have "m \<in> {1, 2, 3, 4, 5, 6, 7, 8, 9, 10, 11, 12}" using assms by (simp, arith)
  then show ?thesis by (auto simp: days_in_month_def month_len_def atLeastLessThan_nat_numeral)
qed



text \<open>The binary value of two decimal digits.\<close>

lemma bcdtobin_digits: "a < 10 \<Longrightarrow> b < 10 \<Longrightarrow> unat (uktimeconv_bcdtobin (of_nat (16 * a + b))) = 10 * a + b"
proof -
  assume ab: "a < 10" "b < 10"
  have low: "x AND 0x0f = take_bit 4 x" for x :: u32 by (simp add: take_bit_eq_mask mask_eq_exp_minus_1)
  have w: "unat (of_nat (16 * a + b) :: u32) = 16 * a + b" using ab by (simp only: unat_of_nat) simp
  have hi: "unat (drop_bit 4 (of_nat (16 * a + b) :: u32) AND 0x0f) = a"
    unfolding low unsigned_take_bit_eq unat_drop_bit_eq w using ab by (simp add: take_bit_eq_mod drop_bit_eq_div)
  have lo: "unat ((of_nat (16 * a + b) :: u32) AND 0x0f) = b"
    unfolding low unsigned_take_bit_eq w using ab by (simp add: take_bit_eq_mod)
  show ?thesis unfolding uktimeconv_bcdtobin_def using hi lo ab by (simp only: unat_word_ariths) simp
qed

end
