(* ===== verification/Bitmap.thy ===== *)
theory Bitmap
  imports UkPrelude
begin

text \<open>
  Bitmaps, \<^verbatim>\<open>include/uk/bitmap.h\<close> and \<^verbatim>\<open>include/uk/bitops.h\<close>, on a 64-bit machine. A bitmap is a list of 64-bit words, a pointer
  into it an index; an access outside is \<open>None\<close>. A shift by the width of the word or more, undefined in C, takes the count
  modulo 64 as the instruction of the machine does. Positions are natural numbers below the bounds of \<^verbatim>\<open>int\<close>.
\<close>

section \<open>Words\<close>

text \<open>The position of the lowest and of the highest bit that is set, for words that are not zero.\<close>

definition ukarch_ffsl :: "u64 \<Rightarrow> nat" where
  "ukarch_ffsl w = length (takeWhile (\<lambda>i. \<not> bit w i) [0..<64])"

definition ukarch_flsl :: "u64 \<Rightarrow> nat" where
  "ukarch_flsl w = 63 - length (takeWhile (\<lambda>i. \<not> bit w (63 - i)) [0..<64])"

definition UK_BIT_WORD :: "nat \<Rightarrow> nat" where
  "UK_BIT_WORD nr = nr div 64"

definition UK_BITS_TO_LONGS :: "nat \<Rightarrow> nat" where
  "UK_BITS_TO_LONGS n = (n + 63) div 64"

definition UK_BITMAP_FIRST_WORD_MASK :: "nat \<Rightarrow> u64" where
  "UK_BITMAP_FIRST_WORD_MASK start = push_bit (start mod 64) (- 1)"

definition UK_BITMAP_LAST_WORD_MASK :: "nat \<Rightarrow> u64" where
  "UK_BITMAP_LAST_WORD_MASK n = drop_bit (nat ((64 - int n) mod 64)) (- 1)"

definition uk_ror32 :: "u32 \<Rightarrow> nat \<Rightarrow> u32" where
  "uk_ror32 w shift = drop_bit (shift mod 32) w OR push_bit (nat ((32 - int shift) mod 32)) w"

section \<open>Searching\<close>

text \<open>
  The loop over whole words and the last part of a word; \<open>f\<close> is the identity when a bit that is set is looked for, and the
  complement when one that is not is.
\<close>

function find_words :: "(u64 \<Rightarrow> u64) \<Rightarrow> u64 list \<Rightarrow> nat \<Rightarrow> nat \<Rightarrow> nat \<Rightarrow> nat option" where
  "find_words f addr a n pos =
     (if n \<ge> 64
      then if \<not> a < length addr then None
        else if f (addr ! a) = 0 then find_words f addr (a + 1) (n - 64) (pos + 64)
        else Some (pos + ukarch_ffsl (f (addr ! a)))
      else if n \<noteq> 0
      then if \<not> a < length addr then None
        else let m = f (addr ! a) AND UK_BITMAP_LAST_WORD_MASK n in
          Some (if m \<noteq> 0 then pos + ukarch_ffsl m else pos + n)
      else Some pos)"
  by pat_completeness auto
termination
  by (relation "measure (\<lambda>(f, addr, a, n, pos). n)") auto

declare find_words.simps [simp del]

definition find_next :: "(u64 \<Rightarrow> u64) \<Rightarrow> u64 list \<Rightarrow> nat \<Rightarrow> nat \<Rightarrow> nat option" where
  "find_next f addr n off =
     (if off \<ge> n then Some n
      else let a = off div 64; offs = off mod 64; pos = 64 * a in
        if offs \<noteq> 0
        then if \<not> a < length addr then None
          else let m = f (addr ! a) AND NOT (UK_BITMAP_LAST_WORD_MASK offs) in
            if m \<noteq> 0 then Some (pos + ukarch_ffsl m)
            else if n - pos \<le> 64 then Some n
            else find_words f addr (a + 1) (n - (pos + 64)) (pos + 64)
        else find_words f addr a (n - pos) pos)"

definition uk_find_first_bit :: "u64 list \<Rightarrow> nat \<Rightarrow> nat option" where
  "uk_find_first_bit addr n = find_words (\<lambda>w. w) addr 0 n 0"

definition uk_find_first_zero_bit :: "u64 list \<Rightarrow> nat \<Rightarrow> nat option" where
  "uk_find_first_zero_bit addr n = find_words (\<lambda>w. NOT w) addr 0 n 0"

definition uk_find_next_bit :: "u64 list \<Rightarrow> nat \<Rightarrow> nat \<Rightarrow> nat option" where
  "uk_find_next_bit addr n off = find_next (\<lambda>w. w) addr n off"

definition uk_find_next_zero_bit :: "u64 list \<Rightarrow> nat \<Rightarrow> nat \<Rightarrow> nat option" where
  "uk_find_next_zero_bit addr n off = find_next (\<lambda>w. NOT w) addr n off"

fun find_last_loop :: "u64 list \<Rightarrow> nat \<Rightarrow> nat \<Rightarrow> nat option" where
  "find_last_loop addr n 0 = Some n"
| "find_last_loop addr n (Suc pos) =
     (if \<not> pos < length addr then None
      else if addr ! pos \<noteq> 0 then Some (64 * pos + ukarch_flsl (addr ! pos)) else find_last_loop addr n pos)"

definition uk_find_last_bit :: "u64 list \<Rightarrow> nat \<Rightarrow> nat option" where
  "uk_find_last_bit addr n =
     (let pos = n div 64; offs = n mod 64 in
      if offs \<noteq> 0
      then if \<not> pos < length addr then None
        else let m = addr ! pos AND UK_BITMAP_LAST_WORD_MASK offs in
          if m \<noteq> 0 then Some (64 * pos + ukarch_flsl m) else find_last_loop addr n pos
      else find_last_loop addr n pos)"

section \<open>Single bits\<close>

text \<open>The bytes of a word are stored with the lowest first, so that byte \<^verbatim>\<open>nr >> 3\<close> of the map is byte \<^verbatim>\<open>(nr >> 3) % 8\<close> of its word.\<close>

definition get_byte :: "u64 list \<Rightarrow> nat \<Rightarrow> u8 option" where
  "get_byte addr k = (if k div 8 < length addr then Some (ucast (drop_bit (8 * (k mod 8)) (addr ! (k div 8)))) else None)"

definition put_byte :: "u64 list \<Rightarrow> nat \<Rightarrow> u8 \<Rightarrow> u64 list" where
  "put_byte addr k b =
     addr[k div 8 := (addr ! (k div 8) AND NOT (push_bit (8 * (k mod 8)) 0xff)) OR push_bit (8 * (k mod 8)) (ucast b)]"

definition uk_test_and_clear_bit :: "nat \<Rightarrow> u64 list \<Rightarrow> (u64 list \<times> bool) option" where
  "uk_test_and_clear_bit nr addr =
     do { orig \<leftarrow> get_byte addr (nr div 8); let m = push_bit (nr mod 8) 1;
          Some (put_byte addr (nr div 8) (orig AND NOT m), orig AND m \<noteq> 0) }"

definition uk_test_and_set_bit :: "nat \<Rightarrow> u64 list \<Rightarrow> (u64 list \<times> bool) option" where
  "uk_test_and_set_bit nr addr =
     do { orig \<leftarrow> get_byte addr (nr div 8); let m = push_bit (nr mod 8) 1;
          Some (put_byte addr (nr div 8) (orig OR m), orig AND m \<noteq> 0) }"

definition uk_set_bit :: "nat \<Rightarrow> u64 list \<Rightarrow> u64 list option" where
  "uk_set_bit nr addr = map_option fst (uk_test_and_set_bit nr addr)"

definition uk_clear_bit :: "nat \<Rightarrow> u64 list \<Rightarrow> u64 list option" where
  "uk_clear_bit nr addr = map_option fst (uk_test_and_clear_bit nr addr)"

definition uk_test_bit :: "nat \<Rightarrow> u64 list \<Rightarrow> bool option" where
  "uk_test_bit nr addr = do { b \<leftarrow> get_byte addr (nr div 8); Some (push_bit (nr mod 8) 1 AND b \<noteq> 0) }"

section \<open>Ranges\<close>

text \<open>The loop of \<^verbatim>\<open>uk_bitmap_set\<close> and \<^verbatim>\<open>uk_bitmap_clear\<close>; \<open>g\<close> changes the bits of a word that a mask selects.\<close>

function range_loop :: "(u64 \<Rightarrow> u64 \<Rightarrow> u64) \<Rightarrow> u64 \<Rightarrow> u64 list \<Rightarrow> nat \<Rightarrow> int \<Rightarrow> nat \<Rightarrow> u64 \<Rightarrow> u64 list option" where
  "range_loop g last_mask m a nr bits msk =
     (if nr - int bits \<ge> 0
      then if \<not> a < length m then None
        else range_loop g last_mask (m[a := g (m ! a) msk]) (a + 1) (nr - int bits) 64 (- 1)
      else if nr \<noteq> 0
      then if \<not> a < length m then None else Some (m[a := g (m ! a) (msk AND last_mask)])
      else Some m)"
  by pat_completeness auto
termination
  by (relation "measures [\<lambda>(g, l, m, a, nr, bits, msk). nat nr, \<lambda>(g, l, m, a, nr, bits, msk). 64 - bits]") auto

declare range_loop.simps [simp del]

definition uk_bitmap_set :: "u64 list \<Rightarrow> nat \<Rightarrow> int \<Rightarrow> u64 list option" where
  "uk_bitmap_set m start nr =
     range_loop (\<lambda>w k. w OR k) (UK_BITMAP_LAST_WORD_MASK (nat (int start + nr))) m (UK_BIT_WORD start) nr (64 - start mod 64)
       (UK_BITMAP_FIRST_WORD_MASK start)"

definition uk_bitmap_clear :: "u64 list \<Rightarrow> nat \<Rightarrow> int \<Rightarrow> u64 list option" where
  "uk_bitmap_clear m start nr =
     range_loop (\<lambda>w k. w AND NOT k) (UK_BITMAP_LAST_WORD_MASK (nat (int start + nr))) m (UK_BIT_WORD start) nr (64 - start mod 64)
       (UK_BITMAP_FIRST_WORD_MASK start)"

definition uk_bitmap_zero :: "u64 list \<Rightarrow> nat \<Rightarrow> u64 list option" where
  "uk_bitmap_zero addr n =
     (if UK_BITS_TO_LONGS n \<le> length addr then Some (replicate (UK_BITS_TO_LONGS n) 0 @ drop (UK_BITS_TO_LONGS n) addr) else None)"

definition uk_bitmap_fill :: "u64 list \<Rightarrow> nat \<Rightarrow> u64 list option" where
  "uk_bitmap_fill addr n =
     (let tail = n mod 64; e = UK_BIT_WORD n in
      if \<not> e \<le> length addr \<or> (tail \<noteq> 0 \<and> \<not> e < length addr) then None
      else let addr = replicate e (- 1) @ drop e addr in
        Some (if tail \<noteq> 0 then addr[e := UK_BITMAP_LAST_WORD_MASK tail] else addr))"

text \<open>All words before the last part satisfy \<open>p\<close>, and that part satisfies \<open>q\<close>.\<close>

definition bitmap_all :: "(u64 \<Rightarrow> bool) \<Rightarrow> (u64 \<Rightarrow> u64 \<Rightarrow> bool) \<Rightarrow> u64 list \<Rightarrow> nat \<Rightarrow> bool option" where
  "bitmap_all p q addr n =
     (let e = UK_BIT_WORD n; tail = n mod 64 in
      if \<not> e \<le> length addr then None
      else if \<not> list_all p (take e addr) then Some False
      else if tail = 0 then Some True
      else if \<not> e < length addr then None
      else Some (q (addr ! e) (UK_BITMAP_LAST_WORD_MASK tail)))"

definition uk_bitmap_full :: "u64 list \<Rightarrow> nat \<Rightarrow> bool option" where
  "uk_bitmap_full addr n = bitmap_all (\<lambda>w. w = - 1) (\<lambda>w m. w AND m = m) addr n"

definition uk_bitmap_empty :: "u64 list \<Rightarrow> nat \<Rightarrow> bool option" where
  "uk_bitmap_empty addr n = bitmap_all (\<lambda>w. w = 0) (\<lambda>w m. w AND m = 0) addr n"

section \<open>Areas and regions\<close>

partial_function (option) uk_bitmap_find_next_zero_area_off ::
  "u64 list \<Rightarrow> nat \<Rightarrow> nat \<Rightarrow> nat \<Rightarrow> u32 \<Rightarrow> u32 \<Rightarrow> nat option" where
  "uk_bitmap_find_next_zero_area_off m n start nr align_mask align_offset =
     do {
       i \<leftarrow> uk_find_next_zero_bit m n start;
       let index = unat ((((of_nat i + align_offset) + align_mask) AND NOT align_mask) - align_offset :: u32);
       let e = (index + nr) mod 2 ^ 32;
       if e > n then Some e
       else do {
         i \<leftarrow> uk_find_next_bit m e index;
         if i < e then uk_bitmap_find_next_zero_area_off m n (i + 1) nr align_mask align_offset else Some index
       }
     }"

definition uk_bitmap_find_next_zero_area :: "u64 list \<Rightarrow> nat \<Rightarrow> nat \<Rightarrow> nat \<Rightarrow> u32 \<Rightarrow> nat option" where
  "uk_bitmap_find_next_zero_area m n start nr align_mask = uk_bitmap_find_next_zero_area_off m n start nr align_mask 0"

datatype reg_op = REG_OP_ISFREE | REG_OP_ALLOC | REG_OP_RELEASE

definition reg_mask :: "nat \<Rightarrow> nat \<Rightarrow> u64" where
  "reg_mask nbitsinlong off = (let m = push_bit (nbitsinlong - 1) 1 :: u64; m = m + (m - 1) in push_bit off m)"

definition uk_bitopts_reg_op :: "u64 list \<Rightarrow> nat \<Rightarrow> nat \<Rightarrow> reg_op \<Rightarrow> (u64 list \<times> bool) option" where
  "uk_bitopts_reg_op bitmap pos order opn =
     (let nbits_reg = 2 ^ order; index = pos div 64; off = pos - index * 64; nlongs = UK_BITS_TO_LONGS nbits_reg;
          m = reg_mask (min nbits_reg 64) off
      in if \<not> index + nlongs \<le> length bitmap then None
         else case opn of
           REG_OP_ISFREE \<Rightarrow> Some (bitmap, list_all (\<lambda>w. w AND m = 0) (take nlongs (drop index bitmap)))
         | REG_OP_ALLOC \<Rightarrow> Some (take index bitmap @ map (\<lambda>w. w OR m) (take nlongs (drop index bitmap)) @ drop (index + nlongs) bitmap, False)
         | REG_OP_RELEASE \<Rightarrow> Some (take index bitmap @ map (\<lambda>w. w AND NOT m) (take nlongs (drop index bitmap)) @ drop (index + nlongs) bitmap, False))"

definition uk_bitmap_allocate_region :: "u64 list \<Rightarrow> nat \<Rightarrow> nat \<Rightarrow> (u64 list \<times> (errno + unit)) option" where
  "uk_bitmap_allocate_region bitmap pos order =
     do {
       (bitmap, free) \<leftarrow> uk_bitopts_reg_op bitmap pos order REG_OP_ISFREE;
       if \<not> free then Some (bitmap, Inl EBUSY)
       else do { (bitmap, _) \<leftarrow> uk_bitopts_reg_op bitmap pos order REG_OP_ALLOC; Some (bitmap, Inr ()) }
     }"

definition uk_bitmap_release_region :: "u64 list \<Rightarrow> nat \<Rightarrow> nat \<Rightarrow> u64 list option" where
  "uk_bitmap_release_region bitmap pos order = map_option fst (uk_bitopts_reg_op bitmap pos order REG_OP_RELEASE)"

lemma region_step: "pos + 2 ^ order \<le> (bits :: nat) \<Longrightarrow> bits - (pos + 2 ^ order) < bits - pos"
  using zero_less_power [of "2 :: nat" order] by linarith

function find_region :: "u64 list \<Rightarrow> nat \<Rightarrow> nat \<Rightarrow> nat \<Rightarrow> (u64 list \<times> (errno + nat)) option" where
  "find_region bitmap bits order pos =
     (let e = pos + 2 ^ order in
      if \<not> e \<le> bits then Some (bitmap, Inl ENOMEM)
      else do {
        (bitmap, free) \<leftarrow> uk_bitopts_reg_op bitmap pos order REG_OP_ISFREE;
        if \<not> free then find_region bitmap bits order e
        else do { (bitmap, _) \<leftarrow> uk_bitopts_reg_op bitmap pos order REG_OP_ALLOC; Some (bitmap, Inr pos) }
      })"
  by pat_completeness auto
termination
  by (relation "measure (\<lambda>(bitmap, bits, order, pos). bits - pos)") (auto intro: region_step)

declare find_region.simps [simp del]

definition uk_bitmap_find_free_region :: "u64 list \<Rightarrow> nat \<Rightarrow> nat \<Rightarrow> (u64 list \<times> (errno + nat)) option" where
  "uk_bitmap_find_free_region bitmap bits order = find_region bitmap bits order 0"

section \<open>Whole maps\<close>

definition uk_bitmap_equal :: "u64 list \<Rightarrow> u64 list \<Rightarrow> nat \<Rightarrow> bool option" where
  "uk_bitmap_equal pa pb n = bitmap_all (\<lambda>w. w = 0) (\<lambda>w m. w AND m = 0) (map2 (\<lambda>x y. x XOR y) pa pb) n"

definition bitmap_op :: "(u64 \<Rightarrow> u64 \<Rightarrow> u64) \<Rightarrow> u64 list \<Rightarrow> u64 list \<Rightarrow> u64 list \<Rightarrow> nat \<Rightarrow> u64 list option" where
  "bitmap_op h dst src1 src2 n =
     (let e = UK_BITS_TO_LONGS n in
      if \<not> (e \<le> length dst \<and> e \<le> length src1 \<and> e \<le> length src2) then None
      else Some (map2 h (take e src1) (take e src2) @ drop e dst))"

definition uk_bitmap_complement :: "u64 list \<Rightarrow> u64 list \<Rightarrow> nat \<Rightarrow> u64 list option" where
  "uk_bitmap_complement dst src n = bitmap_op (\<lambda>x y. NOT x) dst src src n"

definition uk_bitmap_or :: "u64 list \<Rightarrow> u64 list \<Rightarrow> u64 list \<Rightarrow> nat \<Rightarrow> u64 list option" where
  "uk_bitmap_or dst src1 src2 n = bitmap_op (\<lambda>x y. x OR y) dst src1 src2 n"

definition uk_bitmap_and :: "u64 list \<Rightarrow> u64 list \<Rightarrow> u64 list \<Rightarrow> nat \<Rightarrow> u64 list option" where
  "uk_bitmap_and dst src1 src2 n = bitmap_op (\<lambda>x y. x AND y) dst src1 src2 n"

definition uk_bitmap_xor :: "u64 list \<Rightarrow> u64 list \<Rightarrow> u64 list \<Rightarrow> nat \<Rightarrow> u64 list option" where
  "uk_bitmap_xor dst src1 src2 n = bitmap_op (\<lambda>x y. x XOR y) dst src1 src2 n"

end
