(* ===== verification/BitmapOk.thy ===== *)
theory BitmapOk
  imports Bitmap
begin

text \<open>The operations on bitmaps in terms of the bits.\<close>

definition bm :: "u64 list \<Rightarrow> nat \<Rightarrow> bool" where
  "bm addr i = bit (addr ! (i div 64)) (i mod 64)"

section \<open>Words\<close>

lemma bit_first_mask: "bit (UK_BITMAP_FIRST_WORD_MASK start) j \<longleftrightarrow> start mod 64 \<le> j \<and> j < 64"
  by (auto simp: UK_BITMAP_FIRST_WORD_MASK_def bit_simps)

lemma bit_last_mask: "bit (UK_BITMAP_LAST_WORD_MASK n) j \<longleftrightarrow> j < (if n mod 64 = 0 then 64 else n mod 64)"
proof -
  have "nat ((64 - int n) mod 64) = (if n mod 64 = 0 then 0 else 64 - n mod 64)"
  proof -
    define q r where "q = n div 64" and "r = n mod 64"
    have n: "n = 64 * q + r" "r < 64" by (simp_all add: q_def r_def)
    have "64 - int n = (64 - int r) + 64 * (- int q)" unfolding n(1) by simp
    then have "(64 - int n) mod 64 = (64 - int r) mod 64" by (simp only: mod_mult_self2)
    moreover have "(64 - int r) mod 64 = (if r = 0 then 0 else 64 - int r)" 
    proof (cases "r = 0")
      case False
      then have "(64 - int r) mod 64 = 64 - int r" using n(2) by (intro mod_pos_pos_trivial) simp_all
      then show ?thesis using False by simp
    qed simp
    ultimately show ?thesis unfolding r_def [symmetric] using n(2) by (simp only: if_distrib [of nat]) (simp add: nat_diff_distrib)
  qed
  then show ?thesis using mod_less_divisor [of 64 n] by (auto simp: UK_BITMAP_LAST_WORD_MASK_def bit_simps)
qed

lemma nonzero_bit: "(w :: u64) \<noteq> 0 \<longleftrightarrow> (\<exists>i < 64. bit w i)"
proof
  assume "w \<noteq> 0"
  show "\<exists>i < 64. bit w i"
  proof (rule ccontr)
    assume "\<not> ?thesis"
    then have "w = 0" by (intro bit_word_eqI) simp
    then show False using \<open>w \<noteq> 0\<close> by simp
  qed
qed auto

lemma takeWhile_first:
  assumes "k < n" "P k"
  shows "length (takeWhile (\<lambda>i. \<not> P i) [0..<n]) < n" "P (length (takeWhile (\<lambda>i. \<not> P i) [0..<n]))"
    "i < length (takeWhile (\<lambda>i. \<not> P i) [0..<n]) \<Longrightarrow> \<not> P i"
proof -
  let ?t = "takeWhile (\<lambda>i. \<not> P i) [0..<n]"
  have "k \<notin> set ?t" using assms(2) by (auto dest: set_takeWhileD)
  then have "?t \<noteq> [0..<n]" using assms(1) by force
  then show l: "length ?t < n" using length_takeWhile_le [of "\<lambda>i. \<not> P i" "[0..<n]"] by (metis diff_zero le_neq_implies_less length_upt takeWhile_eq_take take_all order_refl)
  then show "P (length ?t)" using nth_length_takeWhile [of "\<lambda>i. \<not> P i" "[0..<n]"] by simp
  show "i < length ?t \<Longrightarrow> \<not> P i" using takeWhile_nth [of i "\<lambda>i. \<not> P i" "[0..<n]"] nth_mem [of i ?t] l by (auto dest: set_takeWhileD)
qed

lemma ffsl_correct:
  assumes "w \<noteq> 0"
  shows "ukarch_ffsl w < 64" "bit w (ukarch_ffsl w)" "\<And>i. i < ukarch_ffsl w \<Longrightarrow> \<not> bit w i"
proof -
  obtain k where k: "k < 64" "bit w k" using assms nonzero_bit by blast
  note t = takeWhile_first [of k 64 "bit w", OF k]
  show "ukarch_ffsl w < 64" "bit w (ukarch_ffsl w)" "\<And>i. i < ukarch_ffsl w \<Longrightarrow> \<not> bit w i"
    unfolding ukarch_ffsl_def using t by auto
qed

lemma flsl_correct:
  assumes "w \<noteq> 0"
  shows "ukarch_flsl w < 64" "bit w (ukarch_flsl w)" "\<And>i. ukarch_flsl w < i \<Longrightarrow> i < 64 \<Longrightarrow> \<not> bit w i"
proof -
  obtain k where k: "k < 64" "bit w k" using assms nonzero_bit by blast
  have "63 - k < 64" "bit w (63 - (63 - k))" using k by simp_all
  note t = takeWhile_first [of "63 - k" 64 "\<lambda>i. bit w (63 - i)", OF this]
  show "ukarch_flsl w < 64" "bit w (ukarch_flsl w)" unfolding ukarch_flsl_def using t(1,2) by auto
  fix i assume i: "ukarch_flsl w < i" "i < 64"
  then have "63 - i < length (takeWhile (\<lambda>i. \<not> bit w (63 - i)) [0..<64])" using t(1) by (simp add: ukarch_flsl_def)
  then have "\<not> bit w (63 - (63 - i))" by (rule t(3))
  then show "\<not> bit w i" using i(2) by simp
qed

section \<open>Searching\<close>

text \<open>\<open>r\<close> is the first position from \<open>off\<close> on with \<open>P\<close>, or \<open>n\<close> if there is none below \<open>n\<close>.\<close>

definition first_from :: "(nat \<Rightarrow> bool) \<Rightarrow> nat \<Rightarrow> nat \<Rightarrow> nat \<Rightarrow> bool" where
  "first_from P n off r \<longleftrightarrow> off \<le> r \<and> r \<le> n \<and> (\<forall>i. off \<le> i \<and> i < r \<longrightarrow> \<not> P i) \<and> (r < n \<longrightarrow> P r)"

lemma first_from_extend: "first_from P n mid r \<Longrightarrow> off \<le> mid \<Longrightarrow> (\<And>i. off \<le> i \<Longrightarrow> i < mid \<Longrightarrow> \<not> P i) \<Longrightarrow> first_from P n off r"
  unfolding first_from_def by (metis le_trans linorder_not_le)

lemma pos_split: "64 * a \<le> i \<Longrightarrow> i < 64 * a + 64 \<Longrightarrow> i div 64 = a \<and> i mod 64 = i - 64 * (a :: nat)"
  by (metis add.commute div_nat_eqI minus_mult_div_eq_mod mult.commute mult_Suc_right less_eq_nat.simps)

text \<open>A word with the bits below \<open>lo\<close> and from \<open>hi\<close> on masked out.\<close>

lemma first_in_word:
  assumes w: "w \<noteq> 0" "\<And>j. bit w j \<longleftrightarrow> lo \<le> j \<and> j < hi \<and> P (64 * a + j)" and h: "64 * a + hi \<le> n"
  shows "first_from P n (64 * a + lo) (64 * a + ukarch_ffsl w)"
proof -
  note f = ffsl_correct [OF w(1)]
  have "lo \<le> ukarch_ffsl w" "ukarch_ffsl w < hi" "P (64 * a + ukarch_ffsl w)" using f(2) w(2) by auto
  moreover have "\<not> P i" if "64 * a + lo \<le> i" "i < 64 * a + ukarch_ffsl w" for i
    using f(3) [of "i - 64 * a"] w(2) [of "i - 64 * a"] that \<open>ukarch_ffsl w < hi\<close> by auto
  ultimately show ?thesis using h by (auto simp: first_from_def)
qed


lemma find_words_ok:
  assumes "pos = 64 * a" "N = pos + n" "N \<le> 64 * length addr"
  shows "\<exists>r. find_words f addr a n pos = Some r \<and> first_from (\<lambda>i. bit (f (addr ! (i div 64))) (i mod 64)) N pos r"
  using assms
proof (induction f addr a n pos rule: find_words.induct)
  case (1 f addr a n pos)
  let ?P = "\<lambda>i. bit (f (addr ! (i div 64))) (i mod 64)"
  have word: "?P (64 * a + j) = bit (f (addr ! a)) j" if "j < 64" for j using pos_split [of a "64 * a + j"] that by simp
  show ?case
  proof (cases "n \<ge> 64")
    case True
    then have a: "a < length addr" using 1(2-4) by linarith
    show ?thesis
    proof (cases "f (addr ! a) = 0")
      case z: True
      have "\<exists>r. find_words f addr (a + 1) (n - 64) (pos + 64) = Some r \<and> first_from ?P N (pos + 64) r"
        using 1(1) [OF True _ z] a 1(2-4) True by simp
      then obtain r where r: "find_words f addr (a + 1) (n - 64) (pos + 64) = Some r" "first_from ?P N (pos + 64) r" by blast
      have "\<not> ?P i" if "pos \<le> i" "i < pos + 64" for i using pos_split [of a i] that 1(2) z by simp
      then have "first_from ?P N pos r" using first_from_extend [OF r(2)] by simp
      then show ?thesis using True a z r(1) by (subst find_words.simps) simp
    next
      case False
      have "bit (f (addr ! a)) j \<longleftrightarrow> 0 \<le> j \<and> j < 64 \<and> ?P (64 * a + j)" for j using word [of j] bit_imp_le_length [of "f (addr ! a)" j] by auto
      from first_in_word [OF False this, of N] have "first_from ?P N pos (pos + ukarch_ffsl (f (addr ! a)))" using 1(2,3) True by simp
      then show ?thesis using True a False by (subst find_words.simps) simp
    qed
  next
    case n: False
    show ?thesis
    proof (cases "n = 0")
      case True
      then show ?thesis using 1(3) by (subst find_words.simps) (auto simp: first_from_def)
    next
      case False
      then have a: "a < length addr" using 1(2-4) by linarith
      let ?m = "f (addr ! a) AND UK_BITMAP_LAST_WORD_MASK n"
      have m: "bit ?m j \<longleftrightarrow> 0 \<le> j \<and> j < n \<and> ?P (64 * a + j)" for j
        using word [of j] n False by (auto simp: bit_and_iff bit_last_mask)
      have "first_from ?P N pos (if ?m \<noteq> 0 then pos + ukarch_ffsl ?m else pos + n)"
      proof (cases "?m = 0")
        case True
        have "\<not> ?P i" if "pos \<le> i" "i < pos + n" for i
          using m [of "i - pos"] that 1(2) unfolding True by simp
        then show ?thesis using True 1(3) by (simp add: first_from_def)
      next
        case False
        then show ?thesis using first_in_word [OF False m, of N] 1(2,3) by simp
      qed
      then show ?thesis using n False a by (subst find_words.simps) (simp add: Let_def)
    qed
  qed
qed

lemma find_next_ok:
  assumes "n \<le> 64 * length addr" "off \<le> n"
  shows "\<exists>r. find_next f addr n off = Some r \<and> first_from (\<lambda>i. bit (f (addr ! (i div 64))) (i mod 64)) n off (min r n) \<and>
    (64 dvd off \<longrightarrow> r \<le> n)"
proof -
  let ?P = "\<lambda>i. bit (f (addr ! (i div 64))) (i mod 64)"
  let ?a = "off div 64" and ?o = "off mod 64"
  have off: "off = 64 * ?a + ?o" "?o < 64" by simp_all
  show ?thesis
  proof (cases "off < n")
    case lt: True
    then have a: "?a < length addr" using assms(1) by linarith
    show ?thesis
    proof (cases "?o = 0")
      case True
      then have "\<exists>r. find_words f addr ?a (n - 64 * ?a) (64 * ?a) = Some r \<and> first_from ?P n (64 * ?a) r"
        using find_words_ok [of "64 * ?a" ?a n "n - 64 * ?a" addr f] assms(1) lt off(1) by simp
      then obtain r where r: "find_words f addr ?a (n - 64 * ?a) (64 * ?a) = Some r" "first_from ?P n off r" using True off(1) by auto
      then have "min r n = r" "r \<le> n" by (simp_all add: first_from_def)
      then show ?thesis using True lt r by (simp add: find_next_def Let_def)
    next
      case o: False
      let ?m = "f (addr ! ?a) AND NOT (UK_BITMAP_LAST_WORD_MASK ?o)"
      have word: "?P (64 * ?a + j) = bit (f (addr ! ?a)) j" if "j < 64" for j using pos_split [of ?a "64 * ?a + j"] that by simp
      have m: "bit ?m j \<longleftrightarrow> ?o \<le> j \<and> j < 64 \<and> ?P (64 * ?a + j)" for j
        using word [of j] o bit_imp_le_length [of "f (addr ! ?a)" j] by (auto simp: bit_and_iff bit_not_iff bit_last_mask possible_bit_def)
      show ?thesis
      proof (cases "?m = 0")
        case True
        have none: "\<not> ?P i" if "off \<le> i" "i < 64 * ?a + 64" for i
        proof -
          have "?o \<le> i - 64 * ?a" "i - 64 * ?a < 64" "64 * ?a + (i - 64 * ?a) = i" using that off by linarith+
          moreover have "\<not> bit ?m (i - 64 * ?a)" by (simp add: True)
          ultimately show ?thesis using m [of "i - 64 * ?a"] by metis
        qed
        show ?thesis
        proof (cases "n - 64 * ?a \<le> 64")
          case short: True
          then have "first_from ?P n off n" using none lt by (auto simp: first_from_def)
          then show ?thesis using True o lt a short by (simp add: find_next_def Let_def)
        next
          case False
          then obtain r where r: "find_words f addr (?a + 1) (n - (64 * ?a + 64)) (64 * ?a + 64) = Some r" "first_from ?P n (64 * ?a + 64) r"
            using find_words_ok [of "64 * ?a + 64" "?a + 1" n "n - (64 * ?a + 64)" addr f] assms(1) by auto
          have "first_from ?P n off r" by (rule first_from_extend [OF r(2)]) (use none off in simp_all)
          moreover from this have "min r n = r" by (simp add: first_from_def)
          ultimately show ?thesis using True o lt a False r(1) by (simp add: find_next_def Let_def dvd_eq_mod_eq_0)
        qed
      next
        case False
        have "first_from ?P (max n (64 * ?a + 64)) off (64 * ?a + ukarch_ffsl ?m)"
          using first_in_word [OF False m, of "max n (64 * ?a + 64)"] off(1) by simp
        then have "first_from ?P n off (min (64 * ?a + ukarch_ffsl ?m) n)" using lt by (auto simp: first_from_def min_def)
        then show ?thesis using False o lt a by (simp add: find_next_def Let_def dvd_eq_mod_eq_0)
      qed
    qed
  next
    case False
    then show ?thesis using assms(2) by (auto simp: find_next_def first_from_def)
  qed
qed


section \<open>Ranges\<close>

lemma bm_update:
  "a < length m \<Longrightarrow> i < 64 * length m \<Longrightarrow> bm (m[a := w]) i = (if i div 64 = a then bit w (i mod 64) else bm m i)"
  by (auto simp: bm_def nth_list_update)

lemma pos_word:
  assumes "i div 64 = (a :: nat)"
  shows "64 * a \<le> i" "i < 64 * a + 64" "i mod 64 = i - 64 * a"
  using assms div_mult_mod_eq [of i 64] mod_less_divisor [of 64 i] by linarith+

lemma pos_not_word: "i div 64 \<noteq> (a :: nat) \<Longrightarrow> i < 64 * a \<or> 64 * a + 64 \<le> i"
  using div_mult_mod_eq [of i 64] mod_less_divisor [of 64 i] by linarith

lemma bm_update_range:
  assumes a: "a < length m" and i: "i < 64 * length m"
    and w: "\<And>j. j < 64 \<Longrightarrow> bit w j = (if s \<le> 64 * a + j \<and> 64 * a + j < e then v else bit (m ! a) j)"
  shows "bm (m[a := w]) i = (if s \<le> i \<and> i < e \<and> 64 * a \<le> i \<and> i < 64 * a + 64 then v else bm m i)"
proof (cases "i div 64 = a")
  case True
  then have "64 * a + i mod 64 = i" "i mod 64 < 64" using pos_word [OF True] by linarith+
  then show ?thesis using bm_update [OF a i] w [of "i mod 64"] pos_word(1,2) [OF True] True by (simp add: bm_def)
next
  case False
  then show ?thesis using bm_update [OF a i] pos_not_word [OF False] by auto
qed

lemma range_loop_ok:
  assumes g: "\<And>w k j. j < 64 \<Longrightarrow> bit (g w k) j = (if bit k j then v else bit w j)"
    and "bits \<in> {1..64}" "msk = push_bit (64 - bits) (- 1)" "0 \<le> nr" "e = 64 * a + (64 - bits) + nat nr" "e \<le> 64 * length m" "l = UK_BITMAP_LAST_WORD_MASK e"
  shows "\<exists>m'. range_loop g l m a nr bits msk = Some m' \<and> length m' = length m \<and>
    (\<forall>i < 64 * length m. bm m' i = (if 64 * a + (64 - bits) \<le> i \<and> i < e then v else bm m i))"
  using assms
proof (induction g l m a nr bits msk rule: range_loop.induct)
  case (1 g l m a nr bits msk)
  define s where "s = 64 * a + (64 - bits)"
  have s: "64 * a \<le> s" "s < 64 * a + 64" "e = s + nat nr" using 1(3,6) by (auto simp: s_def)
  have mask: "bit msk j \<longleftrightarrow> s \<le> 64 * a + j" if "j < 64" for j using that by (auto simp: 1(4) bit_simps s_def)
  show ?case unfolding s_def [symmetric]
  proof (cases "nr - int bits \<ge> 0")
    case True
    then have e: "64 * a + 64 \<le> e" using s(3) 1(3) by (simp add: s_def)
    then have a: "a < length m" using 1(7) by linarith
    let ?m = "m[a := g (m ! a) msk]"
    have "\<exists>m'. range_loop g l ?m (a + 1) (nr - int bits) 64 (- 1) = Some m' \<and> length m' = length ?m \<and>
        (\<forall>i < 64 * length ?m. bm m' i = (if 64 * (a + 1) + (64 - 64) \<le> i \<and> i < e then v else bm ?m i))"
      by (rule 1(1)) (use True a 1(2-8) in auto)
    then obtain m' where m': "range_loop g l ?m (a + 1) (nr - int bits) 64 (- 1) = Some m'" "length m' = length m"
      "\<And>i. i < 64 * length m \<Longrightarrow> bm m' i = (if 64 * (a + 1) \<le> i \<and> i < e then v else bm ?m i)" by auto
    have "bm m' i = (if s \<le> i \<and> i < e then v else bm m i)" if i: "i < 64 * length m" for i
      using m'(3) [OF i] bm_update_range [OF a i, of "g (m ! a) msk" s e v] e s(1,2) by (auto simp: 1(2) mask)
    then show "\<exists>m'. range_loop g l m a nr bits msk = Some m' \<and> length m' = length m \<and>
      (\<forall>i < 64 * length m. bm m' i = (if s \<le> i \<and> i < e then v else bm m i))" using m'(1,2) True a by (subst range_loop.simps) simp
  next
    case False
    show "\<exists>m'. range_loop g l m a nr bits msk = Some m' \<and> length m' = length m \<and>
      (\<forall>i < 64 * length m. bm m' i = (if s \<le> i \<and> i < e then v else bm m i))"
    proof (cases "nr = 0")
      case True
      then show ?thesis using False s(3) by (subst range_loop.simps) auto
    next
      case nz: False
      then have e: "64 * a < e" "e < 64 * a + 64" using False s 1(3,5) by (auto simp: s_def)
      then have a: "a < length m" using 1(7) by linarith
      have em: "e mod 64 = e - 64 * a" "e mod 64 \<noteq> 0" using pos_split [of a e] e by auto
      have l: "bit l j \<longleftrightarrow> 64 * a + j < e" for j using em e(1) by (auto simp: 1(8) bit_last_mask)
      let ?m = "m[a := g (m ! a) (msk AND l)]"
      have "bm ?m i = (if s \<le> i \<and> i < e then v else bm m i)" if i: "i < 64 * length m" for i
        using bm_update_range [OF a i, of "g (m ! a) (msk AND l)" s e v] e s(1,2) by (auto simp: 1(2) mask l bit_and_iff)
      then show ?thesis using False nz a by (subst range_loop.simps) simp
    qed
  qed
qed

lemma first_mask_push: "UK_BITMAP_FIRST_WORD_MASK start = push_bit (start mod 64) (- 1)"
  by (simp add: UK_BITMAP_FIRST_WORD_MASK_def)

lemma range_ok:
  assumes g: "\<And>w k j. j < 64 \<Longrightarrow> bit (g w k) j = (if bit k j then v else bit w j)"
    and nr: "0 \<le> nr" "start + nat nr \<le> 64 * length m"
  shows "\<exists>m'. range_loop g (UK_BITMAP_LAST_WORD_MASK (nat (int start + nr))) m (UK_BIT_WORD start) nr (64 - start mod 64)
      (UK_BITMAP_FIRST_WORD_MASK start) = Some m' \<and> length m' = length m \<and>
    (\<forall>i < 64 * length m. bm m' i = (if start \<le> i \<and> i < start + nat nr then v else bm m i))"
proof -
  have "start = 64 * UK_BIT_WORD start + (64 - (64 - start mod 64))" by (simp add: UK_BIT_WORD_def)
  moreover have "nat (int start + nr) = start + nat nr" using nr(1) by simp
  ultimately show ?thesis
    using range_loop_ok [OF g, where bits = "64 - start mod 64" and nr = nr and a = "UK_BIT_WORD start" and m = m
        and msk = "UK_BITMAP_FIRST_WORD_MASK start" and e = "start + nat nr" and l = "UK_BITMAP_LAST_WORD_MASK (start + nat nr)"] nr
    by (simp add: first_mask_push Suc_leI)
qed

lemma uk_bitmap_set_ok:
  assumes "0 \<le> nr" "start + nat nr \<le> 64 * length m"
  shows "\<exists>m'. uk_bitmap_set m start nr = Some m' \<and> length m' = length m \<and>
    (\<forall>i < 64 * length m. bm m' i = (start \<le> i \<and> i < start + nat nr \<or> bm m i))"
proof -
  have "bit (w OR k :: u64) j = (if bit k j then True else bit w j)" if "j < 64" for w k j by (simp add: bit_or_iff)
  from range_ok [OF this assms] show ?thesis by (auto simp: uk_bitmap_set_def)
qed

lemma uk_bitmap_clear_ok:
  assumes "0 \<le> nr" "start + nat nr \<le> 64 * length m"
  shows "\<exists>m'. uk_bitmap_clear m start nr = Some m' \<and> length m' = length m \<and>
    (\<forall>i < 64 * length m. bm m' i = (\<not> (start \<le> i \<and> i < start + nat nr) \<and> bm m i))"
proof -
  have "bit (w AND NOT k :: u64) j = (if bit k j then False else bit w j)" if "j < 64" for w k j
    using that by (simp add: bit_and_iff bit_not_iff possible_bit_def)
  from range_ok [OF this assms] show ?thesis by (auto simp: uk_bitmap_clear_def)
qed

section \<open>Single bits\<close>

lemma byte_pos: "(i div 8) div 8 = i div 64" "8 * (i div 8 mod 8) + i mod 8 = i mod (64 :: nat)"
  using mod_mult2_eq [of i 8 8] by (simp_all add: div_mult2_eq [symmetric])

lemma byte_mod: "i mod 64 div 8 = i div 8 mod (8 :: nat)"
proof -
  have "(8 * (i div 8 mod 8) + i mod 8) div 8 = i div 8 mod 8" by simp
  then show ?thesis by (simp only: byte_pos(2))
qed

lemma div_mod_eq_iff: "x = y \<longleftrightarrow> x div 8 = y div 8 \<and> x mod 8 = y mod (8 :: nat)"
proof
  assume "x div 8 = y div 8 \<and> x mod 8 = y mod 8"
  then show "x = y" using div_mult_mod_eq [of x 8] div_mult_mod_eq [of y 8] by linarith
qed simp

lemma get_byte_bit:
  assumes "i < 64 * length addr" "get_byte addr (i div 8) = Some b"
  shows "bit b (i mod 8) = bm addr i"
proof -
  have "i div 64 < length addr" using assms(1) by (simp add: less_mult_imp_div_less mult.commute)
  then show ?thesis using assms(2) byte_pos [of i] by (auto simp: get_byte_def bm_def bit_simps split: if_splits)
qed

lemma get_byte_Some: "i < 64 * length addr \<Longrightarrow> \<exists>b. get_byte addr (i div 8) = Some b"
  using byte_pos(1) [of i] by (simp add: get_byte_def less_mult_imp_div_less mult.commute)

lemma and_bit: "(w AND push_bit k 1 \<noteq> 0) = bit (w :: u8) k" "(push_bit k 1 AND w \<noteq> 0) = bit (w :: u8) k"
  using and_exp_eq_0_iff_not_bit [of w k] by (simp_all add: push_bit_of_1 and.commute)

lemma bit_set_byte: "k < 8 \<Longrightarrow> bit (b OR push_bit m 1 :: u8) k = (if k = m then True else bit b k)"
  by (auto simp: bit_simps)

lemma bit_clear_byte: "k < 8 \<Longrightarrow> bit (b AND NOT (push_bit m 1) :: u8) k = (if k = m then False else bit b k)"
  by (auto simp: bit_simps)

lemma bit_put_byte_word:
  assumes "j < 64" "c < 8"
  shows "bit ((w AND NOT (push_bit (8 * c) 0xff)) OR push_bit (8 * c) (ucast (b :: u8)) :: u64) j =
    (if j div 8 = c then bit b (j mod 8) else bit w j)"
proof -
  have ff: "bit (push_bit (8 * c) 0xff :: u64) j \<longleftrightarrow> 8 * c \<le> j \<and> j - 8 * c < 8"
  proof -
    have "(0xff :: u64) = mask 8" by (simp add: mask_eq_exp_minus_1)
    then show ?thesis using assms by (simp only: bit_push_bit_iff bit_mask_iff) (auto simp: possible_bit_def)
  qed
  have bb: "bit (push_bit (8 * c) (ucast b) :: u64) j \<longleftrightarrow> 8 * c \<le> j \<and> j - 8 * c < 8 \<and> bit b (j - 8 * c)"
    using assms bit_imp_le_length [of b "j - 8 * c"] by (auto simp: bit_push_bit_iff bit_ucast_iff possible_bit_def)
  have dm: "j = 8 * (j div 8) + j mod 8" "j mod 8 < 8" by simp_all
  have d: "j div 8 = c \<longleftrightarrow> 8 * c \<le> j \<and> j - 8 * c < 8" "j div 8 = c \<Longrightarrow> j mod 8 = j - 8 * c"
    using dm by linarith+
  show ?thesis
  proof (cases "j div 8 = c")
    case True
    then show ?thesis using d assms(1) by (simp add: bit_or_iff bit_and_iff bit_not_iff ff bb possible_bit_def)
  next
    case False
    then have "\<not> (8 * c \<le> j \<and> j - 8 * c < 8)" using d(1) by blast
    then show ?thesis using False assms(1) by (auto simp: bit_or_iff bit_and_iff bit_not_iff ff bb possible_bit_def)
  qed
qed

lemma put_byte_bm:
  assumes b: "get_byte addr (j div 8) = Some b" and i: "i < 64 * length addr" and j: "j < 64 * length addr"
    and b': "\<And>k. k < 8 \<Longrightarrow> bit b' k = (if k = j mod 8 then v else bit b k)"
  shows "bm (put_byte addr (j div 8) b') i = (if i = j then v else bm addr i)"
proof -
  have jl: "j div 64 < length addr" using j by (simp add: less_mult_imp_div_less mult.commute)
  have "bm (put_byte addr (j div 8) b') i = (if i div 64 = j div 64 then
      (if i mod 64 div 8 = j div 8 mod 8 then bit b' (i mod 64 mod 8) else bm addr i) else bm addr i)"
    using bm_update [OF jl i] bit_put_byte_word [of "i mod 64" "j div 8 mod 8"] by (simp add: put_byte_def byte_pos(1) bm_def)
  moreover have "i mod 64 mod 8 = i mod 8" by (simp add: mod_mod_cancel)
  moreover have "i div 64 = j div 64 \<and> i mod 64 div 8 = j div 8 mod 8 \<longleftrightarrow> i div 8 = j div 8"
    using div_mod_eq_iff [of "i div 8" "j div 8"] by (simp only: byte_pos(1) byte_mod)
  moreover have "bit b (i mod 8) = bm addr i" if "i div 8 = j div 8" using get_byte_bit [OF i] b that by simp
  moreover have "i = j \<longleftrightarrow> i div 8 = j div 8 \<and> i mod 8 = j mod 8" by (rule div_mod_eq_iff)
  ultimately show ?thesis using b' [of "i mod 8"] by auto
qed

end
