(* ===== verification/BitmapTop.thy ===== *)
theory BitmapTop
  imports BitmapOk
begin

text \<open>What the searches and the changes of \<^verbatim>\<open>include/uk/bitops.h\<close> and \<^verbatim>\<open>include/uk/bitmap.h\<close> promise, over the bits of the map.\<close>

lemma uk_test_bit_ok: "nr < 64 * length addr \<Longrightarrow> uk_test_bit nr addr = Some (bm addr nr)"
  using get_byte_Some [of nr addr] get_byte_bit [of nr addr] by (auto simp: uk_test_bit_def and_bit Let_def simp del: push_bit_of_1)

lemma length_put_byte [simp]: "length (put_byte addr k b) = length addr"
  by (simp add: put_byte_def)

lemma test_and_set_ok:
  assumes "nr < 64 * length addr"
  shows "\<exists>m. uk_test_and_set_bit nr addr = Some (m, bm addr nr) \<and> length m = length addr \<and>
    (\<forall>i < 64 * length addr. bm m i = (i = nr \<or> bm addr i))"
proof -
  obtain b where b: "get_byte addr (nr div 8) = Some b" using get_byte_Some [OF assms] by blast
  have "bm (put_byte addr (nr div 8) (b OR push_bit (nr mod 8) 1)) i = (if i = nr then True else bm addr i)"
    if "i < 64 * length addr" for i by (rule put_byte_bm [OF b that assms]) (rule bit_set_byte)
  then show ?thesis using b get_byte_bit [OF assms b] by (auto simp: uk_test_and_set_bit_def and_bit Let_def simp del: push_bit_of_1)
qed

lemma test_and_clear_ok:
  assumes "nr < 64 * length addr"
  shows "\<exists>m. uk_test_and_clear_bit nr addr = Some (m, bm addr nr) \<and> length m = length addr \<and>
    (\<forall>i < 64 * length addr. bm m i = (i \<noteq> nr \<and> bm addr i))"
proof -
  obtain b where b: "get_byte addr (nr div 8) = Some b" using get_byte_Some [OF assms] by blast
  have "bm (put_byte addr (nr div 8) (b AND NOT (push_bit (nr mod 8) 1))) i = (if i = nr then False else bm addr i)"
    if "i < 64 * length addr" for i by (rule put_byte_bm [OF b that assms]) (rule bit_clear_byte)
  then show ?thesis using b get_byte_bit [OF assms b] by (auto simp: uk_test_and_clear_bit_def and_bit Let_def simp del: push_bit_of_1)
qed

lemma bm_fun: "bm addr = (\<lambda>i. bit (addr ! (i div 64)) (i mod 64))"
  by (rule ext) (rule bm_def)

lemma not_bit_word: "bit (NOT w :: u64) (i mod 64) = (\<not> bit w (i mod 64))"
  by (simp add: bit_not_iff possible_bit_def)



text \<open>C23: the changes are exact. \<^verbatim>\<open>uk_bitmap_set\<close> and \<^verbatim>\<open>uk_bitmap_clear\<close> over a range inside the map set (clear) every
bit of the range, across word boundaries, and keep every other bit; \<^verbatim>\<open>uk_test_and_set_bit\<close> and
\<^verbatim>\<open>uk_test_and_clear_bit\<close> change one bit of one byte and return what \<^verbatim>\<open>uk_test_bit\<close> returned before.\<close>

theorem bitmap_change_exact:
  assumes "start + k \<le> 64 * length m" "p < 64 * length m"
  shows "\<exists>s c s1 c1. uk_bitmap_set m start (int k) = Some s \<and> uk_bitmap_clear m start (int k) = Some c \<and>
    uk_test_and_set_bit p m = Some (s1, bm m p) \<and> uk_test_and_clear_bit p m = Some (c1, bm m p) \<and>
    uk_test_bit p m = Some (bm m p) \<and> length s = length m \<and> length c = length m \<and> length s1 = length m \<and> length c1 = length m \<and>
    (\<forall>i < 64 * length m. bm s i = (start \<le> i \<and> i < start + k \<or> bm m i) \<and>
      bm c i = (\<not> (start \<le> i \<and> i < start + k) \<and> bm m i) \<and> bm s1 i = (i = p \<or> bm m i) \<and> bm c1 i = (i \<noteq> p \<and> bm m i))"
proof -
  obtain s where "uk_bitmap_set m start (int k) = Some s" "length s = length m"
    "\<forall>i < 64 * length m. bm s i = (start \<le> i \<and> i < start + k \<or> bm m i)"
    using uk_bitmap_set_ok [of "int k" start m] assms(1) by auto
  moreover obtain c where "uk_bitmap_clear m start (int k) = Some c" "length c = length m"
    "\<forall>i < 64 * length m. bm c i = (\<not> (start \<le> i \<and> i < start + k) \<and> bm m i)"
    using uk_bitmap_clear_ok [of "int k" start m] assms(1) by auto
  ultimately show ?thesis using test_and_set_ok [OF assms(2)] test_and_clear_ok [OF assms(2)] uk_test_bit_ok [OF assms(2)] by blast
qed

theorem bitmap_change_exact_witness:
  "\<exists>s. uk_bitmap_set [0, 0] 60 8 = Some s \<and> (\<forall>i < 128. bm s i = (60 \<le> i \<and> i < 68 \<or> bm [0, 0] i))"
  using bitmap_change_exact [of 60 8 "[0, 0]" 3] by simp blast

end
