(* ===== verification/Fdtable.thy ===== *)
theory Fdtable
  imports BitmapTop "HOL-Library.Multiset"
begin

text \<open>
  The table of file descriptors, \<^verbatim>\<open>lib/vfscore/fd.c\<close>, the reference counts of open files, \<^verbatim>\<open>file.c\<close>, and the
  system calls of \<^verbatim>\<open>main.c\<close> that only move descriptors. Files are numbered; the store \<open>heap\<close> holds those that are
  allocated, and a use of one that is not is \<open>None\<close>, as is a failed assertion or an access outside the table. Of a
  file the fields are kept that this code uses. \<^verbatim>\<open>drele\<close> is a call to the directory cache, the list \<open>dreleased\<close>
  records these calls; whether \<^verbatim>\<open>VOP_CLOSE\<close> of a file reports an error is a parameter. On one processor the sections
  with interrupts disabled are atomic.
\<close>

abbreviation (input) FDTABLE_MAX_FILES :: nat where "FDTABLE_MAX_FILES \<equiv> 1024"

record vfscore_file =
  f_fd :: int
  f_count :: int
  f_dentry :: nat

record fdtable =
  bitmap :: "u64 list"
  files :: "nat option list"
  heap :: "nat \<Rightarrow> vfscore_file option"
  dreleased :: "nat list"

section \<open>Reference counts\<close>

text \<open>The counter is an \<^verbatim>\<open>int\<close> that is changed by atomic additions, which wrap around.\<close>

definition fhold :: "fdtable \<Rightarrow> nat option \<Rightarrow> fdtable option" where
  "fhold s fp =
     do { p \<leftarrow> fp; f \<leftarrow> heap s p; Some (s\<lparr>heap := (heap s)(p \<mapsto> f\<lparr>f_count := wrap32 (f_count f + 1)\<rparr>)\<rparr>) }"

definition vfs_close :: "(nat \<Rightarrow> bool) \<Rightarrow> fdtable \<Rightarrow> nat \<Rightarrow> vfscore_file \<Rightarrow> fdtable \<times> bool" where
  "vfs_close VOP_CLOSE s p f = (if VOP_CLOSE p then (s, True) else (s\<lparr>dreleased := dreleased s @ [f_dentry f]\<rparr>, False))"

definition fdrop :: "(nat \<Rightarrow> bool) \<Rightarrow> fdtable \<Rightarrow> nat option \<Rightarrow> (fdtable \<times> nat) option" where
  "fdrop VOP_CLOSE s fp =
     do {
       p \<leftarrow> fp;
       f \<leftarrow> heap s p;
       uk_assert (f_count f > 0);
       let prev = f_count f;
       let s = s\<lparr>heap := (heap s)(p \<mapsto> f\<lparr>f_count := wrap32 (prev - 1)\<rparr>)\<rparr>;
       if prev = 1
       then let (s, error) = vfs_close VOP_CLOSE s p f;
                s = (if error then s\<lparr>dreleased := dreleased s @ [f_dentry f]\<rparr> else s)
            in Some (s\<lparr>heap := (heap s)(p := None)\<rparr>, 1)
       else Some (s, 0)
     }"

section \<open>The table\<close>

text \<open>A descriptor below 0 passes the assertions and is an index outside the table.\<close>

definition in_table :: "int \<Rightarrow> unit option" where
  "in_table fd = (if fd < 0 then None else Some ())"

definition vfscore_alloc_fd :: "fdtable \<Rightarrow> (fdtable \<times> (errno + int)) option" where
  "vfscore_alloc_fd s =
     do {
       ret \<leftarrow> uk_find_next_zero_bit (bitmap s) FDTABLE_MAX_FILES 0;
       if ret = FDTABLE_MAX_FILES then Some (s, Inl ENFILE)
       else do { m \<leftarrow> uk_bitmap_set (bitmap s) ret 1; Some (s\<lparr>bitmap := m\<rparr>, Inr (int ret)) }
     }"

definition vfscore_reserve_fd :: "fdtable \<Rightarrow> int \<Rightarrow> (fdtable \<times> (errno + unit)) option" where
  "vfscore_reserve_fd s fd =
     (if fd < 0 then None
      else do {
        b \<leftarrow> uk_test_bit (nat fd) (bitmap s);
        if b then Some (s, Inl EBUSY)
        else do { m \<leftarrow> uk_bitmap_set (bitmap s) (nat fd) 1; Some (s\<lparr>bitmap := m\<rparr>, Inr ()) }
      })"

definition vfscore_put_fd :: "(nat \<Rightarrow> bool) \<Rightarrow> fdtable \<Rightarrow> int \<Rightarrow> fdtable option" where
  "vfscore_put_fd VOP_CLOSE s fd =
     do {
       uk_assert (fd < int FDTABLE_MAX_FILES);
       in_table fd;
       m \<leftarrow> uk_bitmap_clear (bitmap s) (nat fd) 1;
       let fp = files s ! nat fd;
       let s = s\<lparr>bitmap := m, files := (files s)[nat fd := None]\<rparr>;
       if fp \<noteq> None then map_option fst (fdrop VOP_CLOSE s fp) else Some s
     }"

definition vfscore_install_fd :: "(nat \<Rightarrow> bool) \<Rightarrow> fdtable \<Rightarrow> int \<Rightarrow> nat option \<Rightarrow> (fdtable \<times> (errno + unit)) option" where
  "vfscore_install_fd VOP_CLOSE s fd fp =
     (if fd \<ge> int FDTABLE_MAX_FILES \<or> fp = None then Some (s, Inl EBADF)
      else do {
        s \<leftarrow> fhold s fp;
        p \<leftarrow> fp;
        f \<leftarrow> heap s p;
        let s = s\<lparr>heap := (heap s)(p \<mapsto> f\<lparr>f_fd := fd\<rparr>)\<rparr>;
        in_table fd;
        let orig = files s ! nat fd;
        let s = s\<lparr>files := (files s)[nat fd := fp]\<rparr>;
        (s, _) \<leftarrow> fdrop VOP_CLOSE s fp;
        s \<leftarrow> (if orig \<noteq> None then map_option fst (fdrop VOP_CLOSE s orig) else Some s);
        Some (s, Inr ())
      })"

definition vfscore_get_file :: "fdtable \<Rightarrow> int \<Rightarrow> (fdtable \<times> nat option) option" where
  "vfscore_get_file s fd =
     do {
       uk_assert (fd < int FDTABLE_MAX_FILES);
       in_table fd;
       b \<leftarrow> uk_test_bit (nat fd) (bitmap s);
       if \<not> b then Some (s, None)
       else do { let ret = files s ! nat fd; s \<leftarrow> fhold s ret; Some (s, ret) }
     }"

definition vfscore_put_file :: "(nat \<Rightarrow> bool) \<Rightarrow> fdtable \<Rightarrow> nat option \<Rightarrow> fdtable option" where
  "vfscore_put_file VOP_CLOSE s fp = map_option fst (fdrop VOP_CLOSE s fp)"

definition fget :: "fdtable \<Rightarrow> int \<Rightarrow> (fdtable \<times> (errno + nat)) option" where
  "fget s fd = do { (s, fp) \<leftarrow> vfscore_get_file s fd; Some (s, case fp of None \<Rightarrow> Inl EBADF | Some p \<Rightarrow> Inr p) }"

definition fdalloc :: "(nat \<Rightarrow> bool) \<Rightarrow> fdtable \<Rightarrow> nat option \<Rightarrow> (fdtable \<times> (errno + int)) option" where
  "fdalloc VOP_CLOSE s fp =
     do {
       s \<leftarrow> fhold s fp;
       (s, fd) \<leftarrow> vfscore_alloc_fd s;
       case fd of
         Inl e \<Rightarrow> Some (s, Inl e)
       | Inr fd \<Rightarrow> do {
           (s, ret) \<leftarrow> vfscore_install_fd VOP_CLOSE s fd fp;
           case ret of
             Inl e \<Rightarrow> do { (s, _) \<leftarrow> fdrop VOP_CLOSE s fp; Some (s, Inl e) }
           | Inr _ \<Rightarrow> Some (s, Inr fd)
         }
     }"

section \<open>System calls\<close>

definition fdclose :: "(nat \<Rightarrow> bool) \<Rightarrow> fdtable \<Rightarrow> int \<Rightarrow> (fdtable \<times> (errno + unit)) option" where
  "fdclose VOP_CLOSE s fd =
     do {
       (s, fp) \<leftarrow> vfscore_get_file s fd;
       if fp = None then Some (s, Inl EBADF)
       else do { s \<leftarrow> vfscore_put_fd VOP_CLOSE s fd; (s, _) \<leftarrow> fdrop VOP_CLOSE s fp; Some (s, Inr ()) }
     }"

definition dup :: "(nat \<Rightarrow> bool) \<Rightarrow> fdtable \<Rightarrow> int \<Rightarrow> (fdtable \<times> (errno + int)) option" where
  "dup VOP_CLOSE s oldfd =
     do {
       (s, r) \<leftarrow> fget s oldfd;
       case r of
         Inl e \<Rightarrow> Some (s, Inl e)
       | Inr fp \<Rightarrow> do { (s, r) \<leftarrow> fdalloc VOP_CLOSE s (Some fp); (s, _) \<leftarrow> fdrop VOP_CLOSE s (Some fp); Some (s, r) }
     }"

definition dup3 :: "(nat \<Rightarrow> bool) \<Rightarrow> fdtable \<Rightarrow> int \<Rightarrow> int \<Rightarrow> bool \<Rightarrow> (fdtable \<times> (errno + int)) option" where
  "dup3 VOP_CLOSE s oldfd newfd bad_flags =
     (if bad_flags \<or> oldfd = newfd then Some (s, Inl EINVAL)
      else do {
        (s, r) \<leftarrow> fget s oldfd;
        case r of
          Inl e \<Rightarrow> Some (s, Inl e)
        | Inr fp \<Rightarrow> do {
            (s, r) \<leftarrow> fget s newfd;
            (s, r) \<leftarrow> (case r of Inr _ \<Rightarrow> fdclose VOP_CLOSE s newfd | Inl _ \<Rightarrow> Some (s, Inr ()));
            case r of
              Inl e \<Rightarrow> Some (s, Inl e)
            | Inr _ \<Rightarrow> do {
                (s, r) \<leftarrow> vfscore_reserve_fd s newfd;
                case r of
                  Inl e \<Rightarrow> Some (s, Inl e)
                | Inr _ \<Rightarrow> do {
                    (s, r) \<leftarrow> vfscore_install_fd VOP_CLOSE s newfd (Some fp);
                    (s, _) \<leftarrow> fdrop VOP_CLOSE s (Some fp);
                    Some (s, case r of Inl e \<Rightarrow> Inl e | Inr _ \<Rightarrow> Inr newfd)
                  }
              }
          }
      })"

definition dup2 :: "(nat \<Rightarrow> bool) \<Rightarrow> fdtable \<Rightarrow> int \<Rightarrow> int \<Rightarrow> (fdtable \<times> (errno + int)) option" where
  "dup2 VOP_CLOSE s oldfd newfd = (if oldfd = newfd then Some (s, Inr newfd) else dup3 VOP_CLOSE s oldfd newfd False)"

section \<open>The invariant\<close>

text \<open>\<open>ext p\<close> is the number of references to file \<open>p\<close> that callers hold, beside those of the table.\<close>

definition refs :: "fdtable \<Rightarrow> nat \<Rightarrow> nat" where
  "refs s p = count (mset (files s)) (Some p)"

definition fcount :: "fdtable \<Rightarrow> nat \<Rightarrow> int" where
  "fcount s p = (case heap s p of None \<Rightarrow> 0 | Some f \<Rightarrow> f_count f)"

definition fd_inv :: "(nat \<Rightarrow> nat) \<Rightarrow> fdtable \<Rightarrow> bool" where
  "fd_inv ext s \<longleftrightarrow> length (bitmap s) = 16 \<and> length (files s) = 1024 \<and>
     (\<forall>i < 1024. files s ! i \<noteq> None \<longrightarrow> bm (bitmap s) i) \<and>
     (\<forall>p. fcount s p = int (refs s p + ext p)) \<and> (\<forall>p. fcount s p < 2 ^ 31) \<and> (\<forall>p f. heap s p = Some f \<longrightarrow> 0 < f_count f)"

lemma fd_invD:
  assumes "fd_inv ext s"
  shows "length (bitmap s) = 16" "length (files s) = 1024" "i < 1024 \<Longrightarrow> files s ! i = Some q \<Longrightarrow> bm (bitmap s) i"
    "fcount s p = int (refs s p + ext p)" "heap s p = Some f \<Longrightarrow> 0 < f_count f"
    "fcount s p < 2 ^ 31"
  using assms by (auto simp: fd_inv_def)

lemma fd_invI:
  assumes "length (bitmap s) = 16" "length (files s) = 1024" "\<And>i q. i < 1024 \<Longrightarrow> files s ! i = Some q \<Longrightarrow> bm (bitmap s) i"
    "\<And>p. fcount s p = int (refs s p + ext p)" "\<And>p f. heap s p = Some f \<Longrightarrow> 0 < f_count f" "\<And>p. fcount s p < 2 ^ 31"
  shows "fd_inv ext s"
  using assms by (auto simp: fd_inv_def)

lemma fd_inv_alloc:
  assumes "fd_inv ext s" "0 < refs s p + ext p"
  obtains f where "heap s p = Some f" "f_count f = int (refs s p + ext p)"
  using fd_invD(4) [OF assms(1), of p] assms(2) by (cases "heap s p") (auto simp: fcount_def)

text \<open>A change of one counter, with the references that a caller holds changed alike.\<close>

lemma recount_ok:
  assumes inv: "fd_inv ext s" and same: "bitmap s' = bitmap s" "files s' = files s"
    and c: "fcount s' = (fcount s)(p := int (refs s p + k))" "refs s p + k < 2 ^ 31" and pos: "\<And>q f. heap s' q = Some f \<Longrightarrow> 0 < f_count f"
  shows "fd_inv (ext(p := k)) s'"
proof (rule fd_invI)
  show "fcount s' q = int (refs s' q + (ext(p := k)) q)" for q using c fd_invD(4) [OF inv] same by (simp add: refs_def)
  show "fcount s' q < 2 ^ 31" for q using c fd_invD(6) [OF inv] by simp
qed (use pos same fd_invD(1-3) [OF inv] in auto)

lemma fhold_ok:
  assumes inv: "fd_inv ext s" and p: "0 < refs s p + ext p" and small: "fcount s p < 2 ^ 31 - 1"
  shows "\<exists>s'. fhold s (Some p) = Some s' \<and> fd_inv (ext(p := ext p + 1)) s' \<and> bitmap s' = bitmap s \<and> files s' = files s \<and>
    dreleased s' = dreleased s \<and> fcount s' = (fcount s)(p := fcount s p + 1)"
proof -
  obtain f where f: "heap s p = Some f" "f_count f = int (refs s p + ext p)" using fd_inv_alloc [OF inv p] by auto
  let ?s = "s\<lparr>heap := (heap s)(p \<mapsto> f\<lparr>f_count := f_count f + 1\<rparr>)\<rparr>"
  have "wrap32 (f_count f + 1) = f_count f + 1" using f small by (intro wrap32_id) (simp_all add: fcount_def)
  then have "fhold s (Some p) = Some ?s" using f by (simp add: fhold_def)
  moreover have c: "fcount ?s = (fcount s)(p := fcount s p + 1)" using f by (auto simp: fcount_def)
  moreover have "fd_inv (ext(p := ext p + 1)) ?s"
    by (rule recount_ok [OF inv]) (use f c small fd_invD(4,5) [OF inv] in \<open>auto simp: fcount_def split: if_splits\<close>)
  ultimately show ?thesis by simp
qed

lemma fdrop_ok:
  assumes inv: "fd_inv ext s" and p: "0 < ext p"
  shows "\<exists>s' r. fdrop vop s (Some p) = Some (s', r) \<and> fd_inv (ext(p := ext p - 1)) s' \<and> bitmap s' = bitmap s \<and> files s' = files s \<and>
    fcount s' = (fcount s)(p := fcount s p - 1) \<and> (r = 1 \<longleftrightarrow> refs s p + ext p = 1) \<and> (heap s' p = None \<longleftrightarrow> r = 1) \<and>
    dreleased s' = dreleased s @ (if r = 1 then [f_dentry (the (heap s p))] else [])"
proof -
  obtain f where f: "heap s p = Some f" "f_count f = int (refs s p + ext p)" using fd_inv_alloc [OF inv, of p] p by auto
  have b: "refs s p + ext p < 2 ^ 31" using fd_invD(6) [OF inv, of p] f by (simp add: fcount_def)
  have fc: "int (refs s p + (ext p - 1)) = fcount s p - 1" using f p by (simp add: fcount_def)
  show ?thesis
  proof (cases "f_count f = 1")
    case True
    let ?s = "s\<lparr>heap := (heap s)(p := None), dreleased := dreleased s @ [f_dentry f]\<rparr>"
    have "fdrop vop s (Some p) = Some (?s, 1)" using f True by (simp add: fdrop_def vfs_close_def Let_def)
    moreover have "refs s p + ext p = 1" using True f(2) by simp
    moreover have c: "fcount ?s = (fcount s)(p := fcount s p - 1)" using f True by (auto simp: fcount_def)
    moreover have "fd_inv (ext(p := ext p - 1)) ?s"
      by (rule recount_ok [OF inv]) (use c b fc fd_invD(5) [OF inv] in \<open>auto split: if_splits\<close>)
    ultimately show ?thesis using f(1) by simp
  next
    case False
    let ?s = "s\<lparr>heap := (heap s)(p \<mapsto> f\<lparr>f_count := f_count f - 1\<rparr>)\<rparr>"
    have "wrap32 (f_count f - 1) = f_count f - 1" using f p b by (intro wrap32_id) simp_all
    then have "fdrop vop s (Some p) = Some (?s, 0)" using f False p by (simp add: fdrop_def Let_def)
    moreover have one: "refs s p + ext p \<noteq> 1" using False f(2) by simp
    moreover have c: "fcount ?s = (fcount s)(p := fcount s p - 1)" using f by (auto simp: fcount_def)
    moreover have "fd_inv (ext(p := ext p - 1)) ?s"
      by (rule recount_ok [OF inv]) (use c b fc f one p fd_invD(5) [OF inv] in \<open>auto split: if_splits\<close>)
    ultimately show ?thesis using f(1) by simp
  qed
qed

end
