(* ===== verification/FdtableOk.thy ===== *)
theory FdtableOk
  imports Fdtable
begin

text \<open>What every operation on the descriptor table does to the references: the counts stay exact.\<close>

lemma refs_update:
  assumes "i < length (files s)"
  shows "refs (s\<lparr>files := (files s)[i := e]\<rparr>) q + (if files s ! i = Some q then 1 else 0) = refs s q + (if e = Some q then 1 else 0)"
proof -
  have "files s ! i \<in># mset (files s)" using assms by simp
  then have "count (mset (files s)) (files s ! i) > 0" by (simp only: count_greater_zero_iff)
  then show ?thesis using assms by (cases "files s ! i = Some q") (simp_all add: refs_def mset_update)
qed

lemma fcount_files [simp]: "fcount (s\<lparr>files := x\<rparr>) = fcount s" "fcount (s\<lparr>bitmap := m\<rparr>) = fcount s" "refs (s\<lparr>bitmap := m\<rparr>) = refs s"
  by (simp_all add: fcount_def fun_eq_iff refs_def)

lemma entry_ok:
  assumes inv: "fd_inv ext s" and i: "i < 1024" and e: "e \<noteq> None \<Longrightarrow> bm (bitmap s) i"
    and ext: "\<And>q. ext' q + (if e = Some q then 1 else 0) = ext q + (if files s ! i = Some q then 1 else 0)"
  shows "fd_inv ext' (s\<lparr>files := (files s)[i := e]\<rparr>)" (is "fd_inv _ ?s")
proof (rule fd_invI)
  have "refs ?s q + ext' q = refs s q + ext q" for q
    using refs_update [of i s e q] ext [of q] fd_invD(2) [OF inv] i by linarith
  then show "fcount ?s p = int (refs ?s p + ext' p)" for p using fd_invD(4) [OF inv, of p] by (simp only: fcount_files)
  show "bm (bitmap ?s) j" if "j < 1024" "files ?s ! j = Some q" for j q
    using that e fd_invD(2,3) [OF inv] by (cases "j = i") auto
qed (use fd_invD [OF inv] in auto)

lemma bitmap_ok:
  assumes "fd_inv ext s" "length m = 16" "\<And>i q. i < 1024 \<Longrightarrow> files s ! i = Some q \<Longrightarrow> bm m i"
  shows "fd_inv ext (s\<lparr>bitmap := m\<rparr>)"
  using fd_invD [OF assms(1)] assms(2,3) by (intro fd_invI) auto

lemma set_one:
  assumes "length m = 16" "i < 1024"
  shows "\<exists>m'. uk_bitmap_set m i 1 = Some m' \<and> length m' = 16 \<and> (\<forall>j < 1024. bm m' j = (j = i \<or> bm m j))"
  using uk_bitmap_set_ok [of 1 i m] assms by (auto simp: less_Suc_eq_le le_antisym)

lemma clear_one:
  assumes "length m = 16" "i < 1024"
  shows "\<exists>m'. uk_bitmap_clear m i 1 = Some m' \<and> length m' = 16 \<and> (\<forall>j < 1024. bm m' j = (j \<noteq> i \<and> bm m j))"
  using uk_bitmap_clear_ok [of 1 i m] assms by (auto simp: less_Suc_eq_le le_antisym)

lemma test_one: "fd_inv ext s \<Longrightarrow> i < 1024 \<Longrightarrow> uk_test_bit i (bitmap s) = Some (bm (bitmap s) i)"
  using uk_test_bit_ok fd_invD(1) by simp

lemma alloc_fd_ok:
  assumes inv: "fd_inv ext s"
  shows "\<exists>s' r. vfscore_alloc_fd s = Some (s', r) \<and> fd_inv ext s' \<and> files s' = files s \<and> heap s' = heap s \<and>
    (case r of Inl e \<Rightarrow> e = ENFILE \<and> s' = s \<and> (\<forall>i < 1024. bm (bitmap s) i)
     | Inr fd \<Rightarrow> \<exists>i < 1024. fd = int i \<and> \<not> bm (bitmap s) i \<and> (\<forall>j < i. bm (bitmap s) j) \<and>
         (\<forall>j < 1024. bm (bitmap s') j = (j = i \<or> bm (bitmap s) j)))"
proof -
  obtain r where r: "uk_find_next_zero_bit (bitmap s) 1024 0 = Some r" "r \<le> 1024" "first_from (\<lambda>i. \<not> bm (bitmap s) i) 1024 0 r"
    using find_next_ok [of 1024 "bitmap s" 0 "\<lambda>w. NOT w"] fd_invD(1) [OF inv]
    by (auto simp: uk_find_next_zero_bit_def bm_fun not_bit_word min_def)
  show ?thesis
  proof (cases "r = 1024")
    case True
    then show ?thesis using r inv by (auto simp: vfscore_alloc_fd_def first_from_def)
  next
    case False
    then obtain m where m: "uk_bitmap_set (bitmap s) r 1 = Some m" "length m = 16" "\<forall>j < 1024. bm m j = (j = r \<or> bm (bitmap s) j)"
      using set_one [of "bitmap s" r] fd_invD(1) [OF inv] r(2) by auto
    have "fd_inv ext (s\<lparr>bitmap := m\<rparr>)" using fd_invD(3) [OF inv] m by (intro bitmap_ok [OF inv]) auto
    then show ?thesis using r m False by (auto simp: vfscore_alloc_fd_def first_from_def Let_def)
  qed
qed

lemma reserve_fd_ok:
  assumes inv: "fd_inv ext s" and i: "i < 1024"
  shows "\<exists>s'. vfscore_reserve_fd s (int i) = Some (s', if bm (bitmap s) i then Inl EBUSY else Inr ()) \<and> fd_inv ext s' \<and>
    files s' = files s \<and> heap s' = heap s \<and> (\<forall>j < 1024. bm (bitmap s') j = (j = i \<or> bm (bitmap s) j))"
proof -
  obtain m where m: "uk_bitmap_set (bitmap s) i 1 = Some m" "length m = 16" "\<forall>j < 1024. bm m j = (j = i \<or> bm (bitmap s) j)"
    using set_one [of "bitmap s" i] fd_invD(1) [OF inv] i by auto
  have "fd_inv ext (s\<lparr>bitmap := m\<rparr>)" using fd_invD(3) [OF inv] m by (intro bitmap_ok [OF inv]) auto
  then show ?thesis using test_one [OF inv i] m i inv by (auto simp: vfscore_reserve_fd_def)
qed

lemma get_file_ok:
  assumes inv: "fd_inv ext s" and i: "i < 1024"
  shows "\<not> bm (bitmap s) i \<Longrightarrow> vfscore_get_file s (int i) = Some (s, None)"
    "bm (bitmap s) i \<Longrightarrow> files s ! i = None \<Longrightarrow> vfscore_get_file s (int i) = None"
    "files s ! i = Some p \<Longrightarrow> fcount s p < 2 ^ 31 - 1 \<Longrightarrow>
      \<exists>s'. vfscore_get_file s (int i) = Some (s', Some p) \<and> fd_inv (ext(p := ext p + 1)) s' \<and> bitmap s' = bitmap s \<and>
        files s' = files s \<and> fcount s' = (fcount s)(p := fcount s p + 1)"
proof -
  note t = test_one [OF inv i]
  show "\<not> bm (bitmap s) i \<Longrightarrow> vfscore_get_file s (int i) = Some (s, None)" using t i by (simp add: vfscore_get_file_def in_table_def)
  show "bm (bitmap s) i \<Longrightarrow> files s ! i = None \<Longrightarrow> vfscore_get_file s (int i) = None"
    using t i by (simp add: vfscore_get_file_def in_table_def fhold_def)
  assume f: "files s ! i = Some p" and small: "fcount s p < 2 ^ 31 - 1"
  have b: "bm (bitmap s) i" by (rule fd_invD(3) [OF inv i f])
  have "Some p \<in> set (files s)" using nth_mem [of i "files s"] fd_invD(2) [OF inv] f i by simp
  then have "0 < refs s p + ext p" by (simp add: refs_def)
  from fhold_ok [OF inv this small] show "\<exists>s'. vfscore_get_file s (int i) = Some (s', Some p) \<and> fd_inv (ext(p := ext p + 1)) s' \<and>
      bitmap s' = bitmap s \<and> files s' = files s \<and> fcount s' = (fcount s)(p := fcount s p + 1)"
    using b t i f by (auto simp: vfscore_get_file_def in_table_def)
qed

lemma put_fd_ok:
  assumes inv: "fd_inv ext s" and i: "i < 1024"
  shows "\<exists>s'. vfscore_put_fd vop s (int i) = Some s' \<and> fd_inv ext s' \<and> files s' = (files s)[i := None] \<and>
    (\<forall>j < 1024. bm (bitmap s') j = (j \<noteq> i \<and> bm (bitmap s) j))"
proof -
  obtain m where m: "uk_bitmap_clear (bitmap s) i 1 = Some m" "length m = 16" "\<forall>j < 1024. bm m j = (j \<noteq> i \<and> bm (bitmap s) j)"
    using clear_one [of "bitmap s" i] fd_invD(1) [OF inv] i by auto
  let ?f = "s\<lparr>files := (files s)[i := None]\<rparr>"
  let ?ext = "\<lambda>q. ext q + (if files s ! i = Some q then 1 else 0)"
  have "fd_inv ?ext ?f" by (rule entry_ok [OF inv i]) simp_all
  then have s: "fd_inv ?ext (?f\<lparr>bitmap := m\<rparr>)"
  proof (rule bitmap_ok)
    show "bm m j" if "j < 1024" "files ?f ! j = Some q" for j q
      using that m(3) fd_invD(2,3) [OF inv] by (cases "j = i") auto
  qed (rule m(2))
  define s' where "s' = s\<lparr>bitmap := m, files := (files s)[i := None]\<rparr>"
  have "s' = ?f\<lparr>bitmap := m\<rparr>" by (simp add: s'_def)
  then have s: "fd_inv ?ext s'" using s by (simp only:)
  show ?thesis
  proof (cases "files s ! i")
    case None
    then show ?thesis using s m i by (auto simp: vfscore_put_fd_def in_table_def Let_def s'_def)
  next
    case (Some p)
    obtain s2 r where d: "fdrop vop s' (Some p) = Some (s2, r)" "fd_inv (?ext(p := ?ext p - 1)) s2" "bitmap s2 = m" "files s2 = (files s)[i := None]"
      using fdrop_ok [OF s, of p vop] Some by (auto simp: s'_def)
    have "?ext(p := ?ext p - 1) = ext" using Some by auto
    then show ?thesis using d m i Some by (auto simp: vfscore_put_fd_def in_table_def Let_def s'_def [symmetric])
  qed
qed

lemma install_fd_ok:
  assumes inv: "fd_inv ext s" and i: "i < 1024" and b: "bm (bitmap s) i" and p: "0 < ext p" and small: "fcount s p < 2 ^ 31 - 1"
  shows "\<exists>s'. vfscore_install_fd vop s (int i) (Some p) = Some (s', Inr ()) \<and> fd_inv (ext(p := ext p - 1)) s' \<and>
    files s' = (files s)[i := Some p] \<and> bitmap s' = bitmap s"
proof -
  obtain s1 where s1: "fhold s (Some p) = Some s1" "fd_inv (ext(p := ext p + 1)) s1" "bitmap s1 = bitmap s" "files s1 = files s"
    using fhold_ok [OF inv _ small] p by auto
  obtain f where f: "heap s1 p = Some f" using fd_inv_alloc [OF s1(2), of p] by auto
  define s2 where "s2 = s1\<lparr>heap := (heap s1)(p \<mapsto> f\<lparr>f_fd := int i\<rparr>)\<rparr>"
  have "fcount s2 = fcount s1" "refs s2 = refs s1" using f by (auto simp: s2_def fcount_def refs_def fun_eq_iff)
  then have s2: "fd_inv (ext(p := ext p + 1)) s2" using fd_invD [OF s1(2)] f by (intro fd_invI) (auto simp: s2_def split: if_splits)
  have s2e: "files s2 = files s" "bitmap s2 = bitmap s" using s1 by (simp_all add: s2_def)
  define s3 where "s3 = s2\<lparr>files := (files s2)[i := Some p]\<rparr>"
  define ext3 where "ext3 = (\<lambda>q. ext q + (if files s ! i = Some q then 1 else 0))"
  have s3: "fd_inv ext3 s3" unfolding s3_def by (rule entry_ok [OF s2 i]) (use b s2e in \<open>auto simp: ext3_def\<close>)
  have "0 < ext3 p" using p by (simp add: ext3_def)
  then obtain s4 r where s4: "fdrop vop s3 (Some p) = Some (s4, r)" "fd_inv (ext3(p := ext3 p - 1)) s4" "bitmap s4 = bitmap s" "files s4 = (files s)[i := Some p]"
    using fdrop_ok [OF s3, of p vop] s2e by (auto simp: s3_def)
  have s3e: "s3 = s1\<lparr>heap := (heap s1)(p \<mapsto> f\<lparr>f_fd := int i\<rparr>), files := (files s)[i := Some p]\<rparr>" using s2e by (simp add: s3_def) (simp add: s2_def)
  have run: "vfscore_install_fd vop s (int i) (Some p) =
      do { s \<leftarrow> (if files s ! i \<noteq> None then map_option fst (fdrop vop s4 (files s ! i)) else Some s4); Some (s, Inr ()) }"
    using s1(1,4) f s4(1) i by (simp add: vfscore_install_fd_def in_table_def Let_def s3e [symmetric])
  show ?thesis
  proof (cases "files s ! i")
    case None
    then have "ext3(p := ext3 p - 1) = ext(p := ext p - 1)" by (auto simp: ext3_def)
    then show ?thesis using s4 run None by simp
  next
    case (Some q)
    define ext4 where "ext4 = ext3(p := ext3 p - 1)"
    have q: "0 < ext4 q" "ext4(q := ext4 q - 1) = ext(p := ext p - 1)" using Some p by (auto simp: ext3_def ext4_def)
    then show ?thesis using fdrop_ok [OF s4(2) [folded ext4_def], of q vop] s4(3,4) run Some by auto
  qed
qed

end
