(* ===== verification/FdtableTop.thy ===== *)
theory FdtableTop
  imports FdtableOk
begin

text \<open>
  The descriptor table under every sequence of calls. A caller keeps to the rules of the interface: it drops and
  installs only references it holds, and installs a file at a descriptor it allocated.
\<close>

lemma fdalloc_ok:
  assumes inv: "fd_inv ext s" and p: "0 < ext p" and small: "fcount s p < 2 ^ 31 - 2"
  shows "\<exists>s' r. fdalloc vop s (Some p) = Some (s', r) \<and>
    (case r of Inl e \<Rightarrow> e = ENFILE \<and> fd_inv (ext(p := ext p + 1)) s' \<and> files s' = files s \<and> bitmap s' = bitmap s \<and> (\<forall>i < 1024. bm (bitmap s) i)
     | Inr fd \<Rightarrow> \<exists>i < 1024. fd = int i \<and> \<not> bm (bitmap s) i \<and> (\<forall>j < i. bm (bitmap s) j) \<and> fd_inv ext s' \<and> files s' = (files s)[i := Some p] \<and>
         (\<forall>j < 1024. bm (bitmap s') j = (j = i \<or> bm (bitmap s) j)))"
proof -
  obtain s1 where s1: "fhold s (Some p) = Some s1" "fd_inv (ext(p := ext p + 1)) s1" "bitmap s1 = bitmap s" "files s1 = files s" "fcount s1 p = fcount s p + 1"
    using fhold_ok [OF inv, of p] p small by auto
  obtain s2 r where s2: "vfscore_alloc_fd s1 = Some (s2, r)" "fd_inv (ext(p := ext p + 1)) s2" "files s2 = files s1" "heap s2 = heap s1"
    "case r of Inl e \<Rightarrow> e = ENFILE \<and> s2 = s1 \<and> (\<forall>i < 1024. bm (bitmap s1) i)
     | Inr fd \<Rightarrow> \<exists>i < 1024. fd = int i \<and> \<not> bm (bitmap s1) i \<and> (\<forall>j < i. bm (bitmap s1) j) \<and>
         (\<forall>j < 1024. bm (bitmap s2) j = (j = i \<or> bm (bitmap s1) j))"
    using alloc_fd_ok [OF s1(2)] by blast
  show ?thesis
  proof (cases r)
    case (Inl e)
    then show ?thesis using s1 s2 by (auto simp: fdalloc_def)
  next
    case (Inr fd)
    then obtain i where i: "i < 1024" "fd = int i" "\<not> bm (bitmap s) i" "\<forall>j < i. bm (bitmap s) j" "\<forall>j < 1024. bm (bitmap s2) j = (j = i \<or> bm (bitmap s) j)"
      using s2(5) s1(3) by auto
    have "fcount s2 p < 2 ^ 31 - 1" using s1(5) s2(4) small by (simp add: fcount_def)
    then obtain s3 where "vfscore_install_fd vop s2 (int i) (Some p) = Some (s3, Inr ())" "fd_inv ext s3" "files s3 = (files s)[i := Some p]" "bitmap s3 = bitmap s2"
      using install_fd_ok [OF s2(2) i(1), of p vop] i(1,5) s1(4) s2(3) by (auto simp: fun_upd_idem)
    then show ?thesis using s1(1) s2(1) Inr i by (auto simp: fdalloc_def)
  qed
qed

lemma fdclose_ok:
  assumes inv: "fd_inv ext s" and i: "i < 1024" and f: "files s ! i = Some p" and small: "fcount s p < 2 ^ 31 - 1"
  shows "\<exists>s'. fdclose vop s (int i) = Some (s', Inr ()) \<and> fd_inv ext s' \<and> files s' = (files s)[i := None] \<and>
    (\<forall>j < 1024. bm (bitmap s') j = (j \<noteq> i \<and> bm (bitmap s) j))"
proof -
  obtain s1 where s1: "vfscore_get_file s (int i) = Some (s1, Some p)" "fd_inv (ext(p := ext p + 1)) s1" "bitmap s1 = bitmap s" "files s1 = files s"
    using get_file_ok(3) [OF inv i f small] by auto
  obtain s2 where s2: "vfscore_put_fd vop s1 (int i) = Some s2" "fd_inv (ext(p := ext p + 1)) s2" "files s2 = (files s)[i := None]"
    "\<forall>j < 1024. bm (bitmap s2) j = (j \<noteq> i \<and> bm (bitmap s) j)"
    using put_fd_ok [OF s1(2) i, of vop] s1(3,4) by auto
  show ?thesis using fdrop_ok [OF s2(2), of p vop] s1(1) s2 by (auto simp: fdclose_def)
qed

lemma dup_ok:
  assumes inv: "fd_inv ext s" and i: "i < 1024" and f: "files s ! i = Some p" and small: "fcount s p < 2 ^ 31 - 3"
  shows "\<exists>s' r. dup vop s (int i) = Some (s', r) \<and>
    (case r of Inl e \<Rightarrow> e = ENFILE \<and> fd_inv (ext(p := ext p + 1)) s' \<and> files s' = files s
     | Inr fd \<Rightarrow> \<exists>k < 1024. fd = int k \<and> \<not> bm (bitmap s) k \<and> fd_inv ext s' \<and> files s' = (files s)[k := Some p])"
proof -
  obtain s1 where s1: "vfscore_get_file s (int i) = Some (s1, Some p)" "fd_inv (ext(p := ext p + 1)) s1" "bitmap s1 = bitmap s" "files s1 = files s"
    "fcount s1 p = fcount s p + 1"
    using get_file_ok(3) [OF inv i f] small by auto
  have "\<exists>s' r. fdalloc vop s1 (Some p) = Some (s', r) \<and>
    (case r of Inl e \<Rightarrow> e = ENFILE \<and> fd_inv (ext(p := ext p + 2)) s' \<and> files s' = files s
     | Inr fd \<Rightarrow> \<exists>k < 1024. fd = int k \<and> \<not> bm (bitmap s) k \<and> fd_inv (ext(p := ext p + 1)) s' \<and> files s' = (files s)[k := Some p])"
  proof -
    have "0 < (ext(p := ext p + 1)) p" "fcount s1 p < 2 ^ 31 - 2" using s1(5) small by simp_all
    from fdalloc_ok [OF s1(2) this, of vop] show ?thesis
      by (elim ex_forward conj_forward) (use s1(3,4) in \<open>auto simp: fun_upd_def split: sum.splits cong: if_cong\<close>)
  qed
  then obtain s2 r where s2: "fdalloc vop s1 (Some p) = Some (s2, r)" 
    "case r of Inl e \<Rightarrow> e = ENFILE \<and> fd_inv (ext(p := ext p + 2)) s2 \<and> files s2 = files s
     | Inr fd \<Rightarrow> \<exists>k < 1024. fd = int k \<and> \<not> bm (bitmap s) k \<and> fd_inv (ext(p := ext p + 1)) s2 \<and> files s2 = (files s)[k := Some p]"
    by blast
  show ?thesis
  proof (cases r)
    case (Inl e)
    then show ?thesis using s1(1) s2 fdrop_ok [of "ext(p := ext p + 2)" s2 p vop] by (auto simp: dup_def fget_def)
  next
    case (Inr fd)
    then show ?thesis using s1(1) s2 fdrop_ok [of "ext(p := ext p + 1)" s2 p vop] by (auto simp: dup_def fget_def)
  qed
qed

inductive fd_reach :: "(nat \<Rightarrow> bool) \<Rightarrow> (nat \<Rightarrow> nat) \<Rightarrow> fdtable \<Rightarrow> bool" for vop where
  start: "fd_reach vop (\<lambda>_. 0) \<lparr>bitmap = replicate 16 0, files = replicate 1024 None, heap = (\<lambda>_. None), dreleased = d\<rparr>"
| created: "fd_reach vop ext s \<Longrightarrow> heap s p = None \<Longrightarrow> f_count f = 1 \<Longrightarrow> fd_reach vop (ext(p := 1)) (s\<lparr>heap := (heap s)(p \<mapsto> f)\<rparr>)"
| alloc: "fd_reach vop ext s \<Longrightarrow> vfscore_alloc_fd s = Some (s', r) \<Longrightarrow> fd_reach vop ext s'"
| reserve: "fd_reach vop ext s \<Longrightarrow> i < 1024 \<Longrightarrow> vfscore_reserve_fd s (int i) = Some (s', r) \<Longrightarrow> fd_reach vop ext s'"
| putfd: "fd_reach vop ext s \<Longrightarrow> i < 1024 \<Longrightarrow> vfscore_put_fd vop s (int i) = Some s' \<Longrightarrow> fd_reach vop ext s'"
| install: "fd_reach vop ext s \<Longrightarrow> i < 1024 \<Longrightarrow> bm (bitmap s) (i) \<Longrightarrow> 0 < ext p \<Longrightarrow> fcount s p < 2 ^ 31 - 1 \<Longrightarrow>
    vfscore_install_fd vop s (int i) (Some p) = Some (s', r) \<Longrightarrow> fd_reach vop (ext(p := ext p - 1)) s'"
| get: "fd_reach vop ext s \<Longrightarrow> i < 1024 \<Longrightarrow> (\<And>q. files s ! i = Some q \<Longrightarrow> fcount s q < 2 ^ 31 - 1) \<Longrightarrow>
    vfscore_get_file s (int i) = Some (s', r) \<Longrightarrow> fd_reach vop (case r of None \<Rightarrow> ext | Some p \<Rightarrow> ext(p := ext p + 1)) s'"
| putfile: "fd_reach vop ext s \<Longrightarrow> 0 < ext p \<Longrightarrow> vfscore_put_file vop s (Some p) = Some s' \<Longrightarrow> fd_reach vop (ext(p := ext p - 1)) s'"
| fdalloc: "fd_reach vop ext s \<Longrightarrow> 0 < ext p \<Longrightarrow> fcount s p < 2 ^ 31 - 2 \<Longrightarrow> fdalloc vop s (Some p) = Some (s', r) \<Longrightarrow>
    fd_reach vop (case r of Inl _ \<Rightarrow> ext(p := ext p + 1) | Inr _ \<Rightarrow> ext) s'"
| close: "fd_reach vop ext s \<Longrightarrow> i < 1024 \<Longrightarrow> (\<And>q. files s ! i = Some q \<Longrightarrow> fcount s q < 2 ^ 31 - 1) \<Longrightarrow>
    fdclose vop s (int i) = Some (s', r) \<Longrightarrow> fd_reach vop ext s'"
| dup: "fd_reach vop ext s \<Longrightarrow> i < 1024 \<Longrightarrow> files s ! i = Some p \<Longrightarrow> fcount s p < 2 ^ 31 - 3 \<Longrightarrow>
    dup vop s (int i) = Some (s', r) \<Longrightarrow> fd_reach vop (case r of Inl _ \<Rightarrow> ext(p := ext p + 1) | Inr _ \<Rightarrow> ext) s'"

lemma start_inv: "fd_inv (\<lambda>_. 0) \<lparr>bitmap = replicate 16 0, files = replicate 1024 None, heap = (\<lambda>_. None), dreleased = d\<rparr>"
  by (rule fd_invI) (simp_all add: fcount_def refs_def)

lemma created_inv:
  assumes inv: "fd_inv ext s" and p: "heap s p = None" "f_count f = 1"
  shows "fd_inv (ext(p := 1)) (s\<lparr>heap := (heap s)(p \<mapsto> f)\<rparr>)"
proof (rule recount_ok [OF inv])
  have "refs s p = 0" using fd_invD(4) [OF inv, of p] p by (simp add: fcount_def)
  then show "fcount (s\<lparr>heap := (heap s)(p \<mapsto> f)\<rparr>) = (fcount s)(p := int (refs s p + 1))" "refs s p + 1 < 2 ^ 31" using p(2) by (auto simp: fcount_def)
qed (use p fd_invD(5) [OF inv] in \<open>auto split: if_splits\<close>)

lemma get_file_any:
  assumes inv: "fd_inv ext s" and i: "i < 1024" and small: "\<And>q. files s ! i = Some q \<Longrightarrow> fcount s q < 2 ^ 31 - 1"
    and run: "vfscore_get_file s (int i) = Some (s', r)"
  shows "fd_inv (case r of None \<Rightarrow> ext | Some p \<Rightarrow> ext(p := ext p + 1)) s' \<and> r = files s ! i"
proof (cases "files s ! i")
  case None
  then have "\<not> bm (bitmap s) i" using get_file_ok(2) [OF inv i] run by auto
  then show ?thesis using get_file_ok(1) [OF inv i] run inv None by auto
next
  case (Some p)
  then show ?thesis using get_file_ok(3) [OF inv i Some small] run by auto
qed

lemma fdclose_any:
  assumes inv: "fd_inv ext s" and i: "i < 1024" and small: "\<And>q. files s ! i = Some q \<Longrightarrow> fcount s q < 2 ^ 31 - 1"
    and run: "fdclose vop s (int i) = Some (s', r)"
  shows "fd_inv ext s'"
proof (cases "files s ! i")
  case None
  then have "\<not> bm (bitmap s) i" using get_file_ok(2) [OF inv i] run by (auto simp: fdclose_def)
  then show ?thesis using get_file_ok(1) [OF inv i] run inv by (auto simp: fdclose_def)
next
  case (Some p)
  then show ?thesis using fdclose_ok [OF inv i Some small, of vop] run by auto
qed

lemma fd_reach_inv: "fd_reach vop ext s \<Longrightarrow> fd_inv ext s"
proof (induction rule: fd_reach.induct)
  case (start d)
  show ?case by (rule start_inv)
next
  case (created ext s p f)
  then show ?case by (intro created_inv)
next
  case (alloc ext s s' r)
  then show ?case using alloc_fd_ok [of ext s] by auto
next
  case (reserve ext s i s' r)
  then show ?case using reserve_fd_ok [of ext s i] by (auto simp: split: if_splits)
next
  case (putfd ext s i s')
  then show ?case using put_fd_ok [of ext s i vop] by auto
next
  case (install ext s i p s' r)
  then show ?case using install_fd_ok [of ext s i p vop] by (auto simp: fun_upd_def)
next
  case (get ext s i s' r)
  then show ?case using get_file_any [of ext s i s' r] by auto
next
  case (putfile ext s p s')
  then show ?case using fdrop_ok [of ext s p vop] by (auto simp: vfscore_put_file_def fun_upd_def)
next
  case (fdalloc ext s p s' r)
  then show ?case using fdalloc_ok [of ext s p vop] by (auto split: sum.splits)
next
  case (close ext s i s' r)
  then show ?case using fdclose_any [of ext s i vop s' r] by auto
next
  case (dup ext s i p s' r)
  then show ?case using dup_ok [of ext s i p vop] by (auto split: sum.splits)
qed



definition fd_start :: fdtable where
  "fd_start = \<lparr>bitmap = replicate 16 0, files = replicate 1024 None, heap = (\<lambda>_. None), dreleased = []\<rparr>"


lemma raw_hold: "heap s p = Some f \<Longrightarrow> f_count f < 2 ^ 31 - 1 \<Longrightarrow> 0 \<le> f_count f \<Longrightarrow>
    fhold s (Some p) = Some (s\<lparr>heap := (heap s)(p \<mapsto> f\<lparr>f_count := f_count f + 1\<rparr>)\<rparr>)"
  by (simp add: fhold_def wrap32_id)

lemma raw_drop: "heap s p = Some f \<Longrightarrow> 1 < f_count f \<Longrightarrow> f_count f < 2 ^ 31 \<Longrightarrow>
    fdrop vop s (Some p) = Some (s\<lparr>heap := (heap s)(p \<mapsto> f\<lparr>f_count := f_count f - 1\<rparr>)\<rparr>, 0)"
  by (simp add: fdrop_def wrap32_id Let_def)

lemma raw_last: "heap s p = Some f \<Longrightarrow> f_count f = 1 \<Longrightarrow>
    fdrop vop s (Some p) = Some (s\<lparr>heap := (heap s)(p := None), dreleased := dreleased s @ [f_dentry f]\<rparr>, 1)"
  by (simp add: fdrop_def vfs_close_def Let_def)

lemma dup2_run:
  assumes inv: "fd_inv (\<lambda>_. 0) s" and ij: "i < 1024" "j < 1024" "i \<noteq> j" and f: "files s ! i = Some p" "refs s p = 1" and nj: "\<not> bm (bitmap s) j"
  shows "\<exists>t f. dup2 vop s (int i) (int j) = Some (t, Inr (int j)) \<and> files t = (files s)[j := Some p] \<and> heap t p = Some f \<and> f_count f = 1 \<and>
    length (bitmap t) = 16 \<and> bm (bitmap t) i \<and> bm (bitmap t) j"
proof -
  have c: "fcount s p = 1" using fd_invD(4) [OF inv, of p] f by simp
  obtain s1 where s1: "vfscore_get_file s (int i) = Some (s1, Some p)" "fd_inv ((\<lambda>_. 0)(p := 1)) s1" "bitmap s1 = bitmap s" "files s1 = files s"
    "fcount s1 p = 2"
    using get_file_ok(3) [OF inv ij(1) f(1)] c by auto
  have g: "vfscore_get_file s1 (int j) = Some (s1, None)" using get_file_ok(1) [OF s1(2) ij(2)] nj s1(3) by simp
  obtain s2 where s2: "vfscore_reserve_fd s1 (int j) = Some (s2, Inr ())" "fd_inv ((\<lambda>_. 0)(p := 1)) s2" "files s2 = files s" "heap s2 = heap s1"
    "\<forall>k < 1024. bm (bitmap s2) k = (k = j \<or> bm (bitmap s) k)"
    using reserve_fd_ok [OF s1(2) ij(2)] nj s1(3,4) by auto
  have "fcount s2 p < 2 ^ 31 - 1" using s1(5) s2(4) by (simp add: fcount_def)
  then obtain s3 where s3: "vfscore_install_fd vop s2 (int j) (Some p) = Some (s3, Inr ())" "fd_inv (((\<lambda>_. 0)(p := 1))(p := 0)) s3"
    "files s3 = (files s)[j := Some p]" "bitmap s3 = bitmap s2"
    using install_fd_ok [OF s2(2) ij(2), of p vop] s2(3,5) ij(2) by auto
  have r: "refs s3 p = 2"
  proof -
    have "files s ! j \<noteq> Some p" using fd_invD(3) [OF inv ij(2)] nj by auto
    then show ?thesis using refs_update [of j s "Some p" p] fd_invD(2) [OF inv] ij(2) f(2) s3(3) by (simp add: refs_def)
  qed
  obtain f where f3: "heap s3 p = Some f" "f_count f = 2" using fd_inv_alloc [OF s3(2), of p] r by auto
  let ?t = "s3\<lparr>heap := (heap s3)(p \<mapsto> f\<lparr>f_count := 1\<rparr>)\<rparr>"
  have "fdrop vop s3 (Some p) = Some (?t, 0)" using raw_drop [OF f3(1), of vop] f3(2) by simp
  then have "dup2 vop s (int i) (int j) = Some (?t, Inr (int j))"
    using s1(1) g s2(1) s3(1) ij(3) by (simp add: dup2_def dup3_def fget_def)
  moreover have "bm (bitmap s2) i" "bm (bitmap s2) j" using s2(5) ij fd_invD(3) [OF inv ij(1) f(1)] by auto
  ultimately show ?thesis using s3 fd_invD(1) [OF s2(2)] by auto
qed

text \<open>C25: \<^verbatim>\<open>dup2\<close> forgets to count. When a file that is open once is duplicated onto a free descriptor, both descriptors
refer to it but its counter is 1: closing the first frees the file while the second still refers to it, and the next use of
the second is a use after free.\<close>

theorem dup2_use_after_free:
  assumes inv: "fd_inv (\<lambda>_. 0) s" and ij: "i < 1024" "j < 1024" "i \<noteq> j" and f: "files s ! i = Some p" "refs s p = 1" and nj: "\<not> bm (bitmap s) j"
  shows "\<exists>t u. dup2 vop s (int i) (int j) = Some (t, Inr (int j)) \<and> files t ! i = Some p \<and> files t ! j = Some p \<and>
    fdclose vop t (int i) = Some (u, Inr ()) \<and> files u ! j = Some p \<and> heap u p = None \<and> vfscore_get_file u (int j) = None"
proof -
  have l: "length (files s) = 1024" by (rule fd_invD(2) [OF inv])
  obtain t g where t: "dup2 vop s (int i) (int j) = Some (t, Inr (int j))" "files t = (files s)[j := Some p]" "heap t p = Some g" "f_count g = 1"
    "length (bitmap t) = 16" "bm (bitmap t) i" "bm (bitmap t) j"
    using dup2_run [OF assms, of vop] by blast
  obtain m where m: "uk_bitmap_clear (bitmap t) i 1 = Some m" "length m = 16" "\<forall>k < 1024. bm m k = (k \<noteq> i \<and> bm (bitmap t) k)"
    using clear_one [OF t(5) ij(1)] by blast
  let ?u = "t\<lparr>bitmap := m, files := (files t)[i := None], heap := (heap t)(p := None), dreleased := dreleased t @ [f_dentry g]\<rparr>"
  have "fdclose vop t (int i) = Some (?u, Inr ())"
    using uk_test_bit_ok [of i "bitmap t"] t m(1) ij l f(1)
    by (simp add: fdclose_def vfscore_get_file_def in_table_def raw_hold vfscore_put_fd_def Let_def raw_drop raw_last)
  moreover have "vfscore_get_file ?u (int j) = None"
    using uk_test_bit_ok [of j m] m t ij l by (simp add: vfscore_get_file_def in_table_def fhold_def)
  ultimately show ?thesis using t ij l f(1) by auto
qed


definition one_open :: fdtable where
  "one_open = \<lparr>bitmap = 1 # replicate 15 0, files = Some 7 # replicate 1023 None,
     heap = [7 \<mapsto> \<lparr>f_fd = 0, f_count = 1, f_dentry = 3\<rparr>], dreleased = []\<rparr>"

lemma one_open_inv: "fd_inv (\<lambda>_. 0) one_open"
  by (rule fd_invI) (auto simp: one_open_def bm_def fcount_def refs_def nth_Cons split: nat.splits if_splits)

theorem dup2_use_after_free_witness:
  "\<exists>t u. dup2 (\<lambda>_. False) one_open 0 1 = Some (t, Inr 1) \<and> fdclose (\<lambda>_. False) t 0 = Some (u, Inr ()) \<and>
    files u ! 1 = Some 7 \<and> heap u 7 = None \<and> vfscore_get_file u 1 = None"
proof -
  have "files one_open ! 0 = Some 7" "refs one_open 7 = 1" "\<not> bm (bitmap one_open) 1" by (simp_all add: one_open_def refs_def bm_def)
  from dup2_use_after_free [OF one_open_inv _ _ _ this, of "\<lambda>_. False"] show ?thesis by auto
qed

end
