(* ===== verification/Pipe.thy ===== *)
theory Pipe
  imports RingBulk
begin

text \<open>
  Pipes, \<^verbatim>\<open>lib/vfscore/pipe.c\<close>: a ring of bytes with two counters of 64 bits that only grow. An access outside the buffer,
  and a copy of a negative length, is \<open>None\<close>. The mutexes make every call of \<^verbatim>\<open>pipe_buf_write\<close> and \<^verbatim>\<open>pipe_buf_read\<close>
  atomic; a call of \<^verbatim>\<open>pipe_write\<close> or \<^verbatim>\<open>pipe_read\<close> that has to wait is a value that says where it goes on.
\<close>

section \<open>The buffer\<close>

record pipe_buf =
  data :: "u8 list"
  capacity :: u64
  pb_prod :: u64
  pb_cons :: u64

definition PIPE_BUF_IDX :: "pipe_buf \<Rightarrow> u64 \<Rightarrow> u64" where
  "PIPE_BUF_IDX b n = n AND (capacity b - 1)"

text \<open>\<open>bytes\<close> is what the memory holds that \<^verbatim>\<open>malloc\<close> returned.\<close>

definition pipe_buf_alloc :: "bool \<Rightarrow> u8 list option \<Rightarrow> int \<Rightarrow> pipe_buf option option" where
  "pipe_buf_alloc malloc bytes cap =
     do {
       uk_assert (POWER_OF_2 (word_of_int cap :: u32));
       Some (if \<not> malloc then None
             else map_option (\<lambda>d. \<lparr>data = d, capacity = word_of_int cap, pb_prod = 0, pb_cons = 0\<rparr>) bytes)
     }"

definition pipe_buf_get_available :: "pipe_buf \<Rightarrow> u64" where
  "pipe_buf_get_available b = pb_prod b - pb_cons b"

definition pipe_buf_get_free_space :: "pipe_buf \<Rightarrow> u64" where
  "pipe_buf_get_free_space b = capacity b - pipe_buf_get_available b"

definition pipe_buf_can_write :: "pipe_buf \<Rightarrow> bool" where
  "pipe_buf_can_write b \<longleftrightarrow> pipe_buf_get_free_space b > 0"

definition pipe_buf_can_read :: "pipe_buf \<Rightarrow> bool" where
  "pipe_buf_can_read b \<longleftrightarrow> pipe_buf_get_available b > 0"

text \<open>\<^verbatim>\<open>memcpy\<close> of the first \<open>n\<close> bytes of \<open>src\<close> to position \<open>i\<close> of \<open>dst\<close>.\<close>

definition copy_to :: "'a list \<Rightarrow> nat \<Rightarrow> 'a list \<Rightarrow> int \<Rightarrow> 'a list option" where
  "copy_to dst i src n =
     (if n < 0 \<or> length src < nat n \<or> length dst < i + nat n then None
      else Some (take i dst @ take (nat n) src @ drop (i + nat n) dst))"

text \<open>The bytes of the vector from the offset on are \<open>iov\<close>; the result is the number of bytes written.\<close>

definition pipe_buf_write :: "pipe_buf \<Rightarrow> u8 list \<Rightarrow> (pipe_buf \<times> nat) option" where
  "pipe_buf_write b iov =
     (let prod_idx = unat (PIPE_BUF_IDX b (pb_prod b)); to_write = min (unat (pipe_buf_get_free_space b)) (length iov); cap = unat (capacity b) in
      if to_write = 0 then Some (b, 0)
      else do {
        d \<leftarrow> (if prod_idx + to_write \<le> cap then copy_to (data b) prod_idx iov (int to_write)
              else let first_copy_bytes = wrap32 (int cap - int prod_idx);
                       second_copy_bytes = wrap32 (int prod_idx + int to_write - int cap)
                   in do {
                     d \<leftarrow> copy_to (data b) prod_idx iov first_copy_bytes;
                     copy_to d 0 (drop (nat first_copy_bytes) iov) second_copy_bytes
                   });
        Some (b\<lparr>data := d, pb_prod := pb_prod b + of_nat to_write\<rparr>, to_write)
      })"

text \<open>The memory of the vector from the offset on is \<open>iov\<close>; the bytes read are the first ones of what it becomes.\<close>

definition pipe_buf_read :: "pipe_buf \<Rightarrow> u8 list \<Rightarrow> (pipe_buf \<times> u8 list \<times> nat) option" where
  "pipe_buf_read b iov =
     (let cons_idx = unat (PIPE_BUF_IDX b (pb_cons b)); to_read = min (unat (pipe_buf_get_available b)) (length iov); cap = unat (capacity b) in
      if to_read = 0 then Some (b, iov, 0)
      else do {
        d \<leftarrow> (if cons_idx + to_read \<le> cap then copy_to iov 0 (drop cons_idx (data b)) (int to_read)
              else let first_copy_bytes = wrap32 (uint (capacity b - pb_cons b));
                       second_copy_bytes = wrap32 (int cons_idx + int to_read - int cap)
                   in do {
                     d \<leftarrow> copy_to iov 0 (drop cons_idx (data b)) first_copy_bytes;
                     copy_to d (nat first_copy_bytes) (data b) second_copy_bytes
                   });
        Some (b\<lparr>pb_cons := pb_cons b + of_nat to_read\<rparr>, d, to_read)
      })"

section \<open>The file\<close>

record pipe_file =
  buf :: pipe_buf
  w_refcount :: int
  r_refcount :: int
  pf_flags :: int

definition pipe_file_alloc :: "bool \<Rightarrow> bool \<Rightarrow> u8 list option \<Rightarrow> int \<Rightarrow> int \<Rightarrow> pipe_file option option" where
  "pipe_file_alloc malloc malloc_buf bytes cap flags =
     (if \<not> malloc then Some None
      else map_option (map_option (\<lambda>b. \<lparr>buf = b, w_refcount = 1, r_refcount = 1, pf_flags = flags\<rparr>)) (pipe_buf_alloc malloc_buf bytes cap))"

text \<open>A blocking call ends, or waits at an offset of a vector.\<close>

datatype 'v progress = Done | Wait "'v list" nat

function write_loop :: "pipe_buf \<Rightarrow> u8 list list \<Rightarrow> nat \<Rightarrow> (pipe_buf \<times> u8 list progress) option" where
  "write_loop b [] off = Some (b, Done)"
| "write_loop b (iov # iovs) off =
     (if off < length iov
      then case pipe_buf_write b (drop off iov) of
             None \<Rightarrow> None
           | Some (b', n) \<Rightarrow> if n = 0 then Some (b', Wait (iov # iovs) off) else write_loop b' (iov # iovs) (off + n)
      else write_loop b iovs 0)"
  by pat_completeness auto
termination
  by (relation "measures [\<lambda>(b, iovs, off). length iovs, \<lambda>(b, iovs, off). length (hd iovs) - off]") auto

definition pipe_write :: "pipe_file \<Rightarrow> u8 list list \<Rightarrow> (pipe_file \<times> (errno + u8 list progress)) option" where
  "pipe_write f iovs =
     (if r_refcount f = 0 then Some (f, Inl EPIPE)
      else do { (b, p) \<leftarrow> write_loop (buf f) iovs 0; Some (f\<lparr>buf := b\<rparr>, Inr p) })"

lemma copy_to_length: "copy_to dst i src n = Some d \<Longrightarrow> length d = length dst"
  by (auto simp: copy_to_def split: if_splits)

lemma pipe_buf_read_length: "pipe_buf_read b iov = Some (b', d, n) \<Longrightarrow> length d = length iov"
  by (auto simp: pipe_buf_read_def Let_def bind_eq_Some_conv split: if_splits dest!: copy_to_length)

text \<open>The vectors that are full come first in the result, the one that is being filled and the rest follow.\<close>

function read_loop :: "bool \<Rightarrow> pipe_buf \<Rightarrow> u8 list list \<Rightarrow> u8 list list \<Rightarrow> nat \<Rightarrow> (pipe_buf \<times> u8 list list \<times> u8 list progress) option" where
  "read_loop nonblocking b full [] off = Some (b, full, Done)"
| "read_loop nonblocking b full (iov # iovs) off =
     (if off < length iov
      then case pipe_buf_read b (drop off iov) of
             None \<Rightarrow> None
           | Some (b', d, n) \<Rightarrow>
               if n = 0 then Some (if nonblocking then (b', full @ iov # iovs, Done) else (b', full, Wait (iov # iovs) off))
               else read_loop nonblocking b' full ((take off iov @ d) # iovs) (off + n)
      else read_loop nonblocking b (full @ [iov]) iovs 0)"
  by pat_completeness auto
termination
proof (relation "measures [\<lambda>(nb, b, full, iovs, off). length iovs, \<lambda>(nb, b, full, iovs, off). length (hd iovs) - off]", goal_cases)
  case (2 nb b full iov iovs off x b' y d n)
  then have "length d = length iov - off" using pipe_buf_read_length by fastforce
  then show ?case using 2 by auto
qed auto

definition pipe_read :: "bool \<Rightarrow> pipe_file \<Rightarrow> u8 list list \<Rightarrow> (pipe_file \<times> (errno + (u8 list list \<times> u8 list progress))) option" where
  "pipe_read nonblocking f iovs =
     (if nonblocking \<and> \<not> pipe_buf_can_read (buf f) then Some (f, Inl EAGAIN)
      else do { (b, vs, p) \<leftarrow> read_loop nonblocking (buf f) [] iovs 0; Some (f\<lparr>buf := b\<rparr>, Inr (vs, p)) })"

text \<open>Closing an end; the result says whether the pipe was freed.\<close>

definition pipe_close :: "pipe_file \<Rightarrow> bool \<Rightarrow> bool \<Rightarrow> pipe_file \<times> bool" where
  "pipe_close f fread fwrite =
     (let f = (if fread then f\<lparr>r_refcount := r_refcount f - 1\<rparr> else f);
          f = (if fwrite then f\<lparr>w_refcount := w_refcount f - 1\<rparr> else f)
      in (f, r_refcount f = 0 \<and> w_refcount f = 0))"

definition pipe_ioctl :: "pipe_file \<Rightarrow> bool \<Rightarrow> errno + int" where
  "pipe_ioctl f fionread = (if fionread then Inr (wrap32 (uint (pipe_buf_get_available (buf f)))) else Inl EINVAL)"

definition pipe_seek :: "errno" where
  "pipe_seek = ESPIPE"

text \<open>\<^verbatim>\<open>pipe\<close>, with what \<^verbatim>\<open>pipe_fd_alloc\<close> returns for the two ends; the last test of the code is an assertion.\<close>

definition pipe_make :: "pipe_file option option \<Rightarrow> errno + int \<Rightarrow> errno + int \<Rightarrow> (errno + (pipe_file \<times> int \<times> int)) option" where
  "pipe_make alloc r_fd w_fd =
     do {
       f \<leftarrow> alloc;
       case f of
         None \<Rightarrow> Some (Inl ENOMEM)
       | Some f \<Rightarrow>
           (case r_fd of
              Inl _ \<Rightarrow> None
            | Inr r \<Rightarrow> (case w_fd of Inl _ \<Rightarrow> None | Inr w \<Rightarrow> Some (Inr (f, r, w))))
     }"

end
