(* ===== verification/PipeOk.thy ===== *)
theory PipeOk
  imports Pipe
begin

text \<open>A pipe is a queue of bytes; a read that runs over the end of the buffer fails in every lap but the first.\<close>

definition pipe_inv :: "nat \<Rightarrow> pipe_buf \<Rightarrow> bool" where
  "pipe_inv k b \<longleftrightarrow> k \<le> 30 \<and> capacity b = 2 ^ k \<and> length (data b) = 2 ^ k \<and> unat (pb_prod b - pb_cons b) \<le> 2 ^ k"

definition pipe_contents :: "pipe_buf \<Rightarrow> u8 list" where
  "pipe_contents b = seg (data b) (unat (pb_cons b)) (unat (pb_prod b - pb_cons b))"

lemma pipe_invD:
  assumes "pipe_inv k b"
  shows "k \<le> 30" "capacity b = 2 ^ k" "length (data b) = 2 ^ k" "unat (pb_prod b - pb_cons b) \<le> 2 ^ k"
    "unat (capacity b) = 2 ^ k" "(2 :: nat) ^ k \<le> 2 ^ 30" "0 < length (data b)"
  using assms power_increasing [of k 30 "2 :: nat"] by (auto simp: pipe_inv_def unat_pow2_64)

lemma pipe_idx:
  assumes "pipe_inv k b"
  shows "unat (PIPE_BUF_IDX b n) = unat n mod 2 ^ k"
proof -
  have "n AND (2 ^ k - 1) = take_bit k n" by (simp add: take_bit_eq_mask mask_eq_exp_minus_1)
  then have "n AND (2 ^ k - 1) = n mod 2 ^ k" by (simp add: take_bit_eq_mod)
  then show ?thesis using pipe_invD(1,2) [OF assms] by (simp only: PIPE_BUF_IDX_def unat_mod) (simp add: unat_pow2_64)
qed

lemma unat_plus_mod_pow:
  assumes "k \<le> 64"
  shows "unat (a + b :: u64) mod 2 ^ k = (unat a + unat b) mod 2 ^ k"
proof -
  have "(2 :: nat) ^ k dvd 2 ^ 64" by (rule le_imp_power_dvd) (rule assms)
  then show ?thesis by (simp add: unat_word_ariths mod_mod_cancel)
qed

lemma prod_idx:
  assumes "pipe_inv k b"
  shows "unat (PIPE_BUF_IDX b (pb_prod b)) = (unat (pb_cons b) + unat (pb_prod b - pb_cons b)) mod 2 ^ k"
  using unat_plus_mod_pow [of k "pb_cons b" "pb_prod b - pb_cons b"] pipe_invD(1) [OF assms] by (simp add: pipe_idx [OF assms])

lemma copy_to_nth:
  assumes "copy_to dst i src n = Some d" "p < length dst"
  shows "d ! p = (if i \<le> p \<and> p < i + nat n then src ! (p - i) else dst ! p)"
  using assms by (auto simp: copy_to_def nth_append min_def split: if_splits)

lemma copy_to_Some: "m \<le> length src \<Longrightarrow> i + m \<le> length dst \<Longrightarrow> \<exists>d. copy_to dst i src (int m) = Some d"
  by (simp add: copy_to_def)

lemma pipe_buf_write_ok:
  assumes inv: "pipe_inv k b"
  shows "\<exists>b' n. pipe_buf_write b iov = Some (b', n) \<and> n = min (2 ^ k - length (pipe_contents b)) (length iov) \<and> pipe_inv k b' \<and>
    pipe_contents b' = pipe_contents b @ take n iov \<and> pb_cons b' = pb_cons b"
proof -
  note D = pipe_invD [OF inv]
  define N c u where "N = (2 :: nat) ^ k" and "c = unat (pb_cons b)" and "u = unat (pb_prod b - pb_cons b)"
  define i where "i = (c + u) mod N"
  define n where "n = min (N - u) (length iov)"
  have N: "0 < N" "N \<le> 2 ^ 30" "u \<le> N" "length (data b) = N" "unat (capacity b) = N" using D by (simp_all add: N_def u_def)
  have i: "i < N" using N by (simp add: i_def)
  have free: "unat (pipe_buf_get_free_space b) = N - u"
    unfolding pipe_buf_get_free_space_def pipe_buf_get_available_def using N by (subst unat_sub_no_ovf) (simp_all add: u_def)
  have idx: "unat (PIPE_BUF_IDX b (pb_prod b)) = i" using prod_idx [OF inv] by (simp add: i_def c_def u_def N_def)
  have cont: "pipe_contents b = seg (data b) c u" by (simp add: pipe_contents_def c_def u_def)
  have n: "u + n \<le> N" "n \<le> length iov" using N(3) by (auto simp: n_def)
  have "\<exists>d. (if i + n \<le> N then copy_to (data b) i iov (int n)
      else do { d \<leftarrow> copy_to (data b) i iov (wrap32 (int N - int i)); copy_to d 0 (drop (nat (wrap32 (int N - int i))) iov) (wrap32 (int i + int n - int N)) }) = Some d \<and>
    length d = N \<and> (\<forall>p < N. d ! p = (if (p + N - i) mod N < n then iov ! ((p + N - i) mod N) else data b ! p))"
  proof (cases "i + n \<le> N")
    case True
    obtain d where d: "copy_to (data b) i iov (int n) = Some d" using copy_to_Some [of n iov i "data b"] n N True by auto
    show ?thesis using True d copy_to_length [OF d] copy_to_nth [OF d] N(4) i by (auto simp: wrap_index)
  next
    case False
    have w: "wrap32 (int N - int i) = int (N - i)" "wrap32 (int i + int n - int N) = int (i + n - N)"
      using i False n N(2) by (simp_all add: wrap32_id of_nat_diff)
    have le: "N - i \<le> n" using False by simp
    have "N - i \<le> length iov" "i + (N - i) \<le> length (data b)" using n le N(4) i by simp_all
    then obtain e where e: "copy_to (data b) i iov (int (N - i)) = Some e" using copy_to_Some by blast
    have "i + n - N \<le> length (drop (N - i) iov)" "0 + (i + n - N) \<le> length e" using copy_to_length [OF e] n N(4) i by simp_all
    then obtain d where d: "copy_to e 0 (drop (N - i) iov) (int (i + n - N)) = Some d" using copy_to_Some by blast
    have "d ! p = (if (p + N - i) mod N < n then iov ! ((p + N - i) mod N) else data b ! p)" if p: "p < N" for p
      using copy_to_nth [OF d, of p] copy_to_nth [OF e, of p] copy_to_length [OF e] N(4) p i False n by (auto simp: wrap_index add.commute)
    then show ?thesis using False w e d copy_to_length [OF e] copy_to_length [OF d] N(4) by auto
  qed
  then obtain d where d: "(if i + n \<le> N then copy_to (data b) i iov (int n)
      else do { d \<leftarrow> copy_to (data b) i iov (wrap32 (int N - int i)); copy_to d 0 (drop (nat (wrap32 (int N - int i))) iov) (wrap32 (int i + int n - int N)) }) = Some d"
    "length d = N" "\<And>p. p < N \<Longrightarrow> d ! p = (if (p + N - i) mod N < n then iov ! ((p + N - i) mod N) else data b ! p)" by blast
  let ?b = "b\<lparr>data := d, pb_prod := pb_prod b + of_nat n\<rparr>"
  have run: "pipe_buf_write b iov = (if n = 0 then Some (b, 0) else do { d \<leftarrow> (if i + n \<le> N then copy_to (data b) i iov (int n)
      else do { d \<leftarrow> copy_to (data b) i iov (wrap32 (int N - int i)); copy_to d 0 (drop (nat (wrap32 (int N - int i))) iov) (wrap32 (int i + int n - int N)) });
        Some (b\<lparr>data := d, pb_prod := pb_prod b + of_nat n\<rparr>, n) })"
    unfolding pipe_buf_write_def Let_def free idx N(5) n_def [symmetric] by (rule refl)
  have nc: "n = min (2 ^ k - length (pipe_contents b)) (length iov)" by (simp add: n_def cont N_def)
  show ?thesis
  proof (cases "n = 0")
    case True
    then show ?thesis using inv run nc by auto
  next
    case False
    have "pipe_buf_write b iov = Some (?b, n)"
      unfolding run d(1) using False by simp
    moreover have u': "unat (pb_prod ?b - pb_cons ?b) = u + n"
    proof -
      have "pb_prod ?b - pb_cons ?b = (pb_prod b - pb_cons b) + of_nat n" by simp
      moreover have "unat (of_nat n :: u64) = n" using n N by (simp add: unat_of_nat)
      ultimately show ?thesis using n N by (simp only:) (subst unat_add_64, simp_all add: u_def)
    qed
    moreover have "pipe_contents ?b = seg (data b) c u @ take n iov"
      unfolding pipe_contents_def u' using seg_store [OF N(4,1) n d(2) d(3) [unfolded i_def]] by (simp add: c_def)
    moreover have "pipe_inv k ?b" using D u' d(2) n by (simp add: pipe_inv_def N_def)
    ultimately show ?thesis using nc cont by auto
  qed
qed


section \<open>Reading\<close>

lemma seg_one_piece:
  assumes "length xs = N" "c mod N + r \<le> N" "0 < N"
  shows "seg xs c r = take r (drop (c mod N) xs)"
proof (rule nth_equalityI)
  fix j assume "j < length (seg xs c r)"
  then have j: "j < r" by simp
  have "(c + j) mod N = (c mod N + j) mod N" by (simp add: mod_simps)
  also have "\<dots> = c mod N + j" using j assms(2) by simp
  finally show "seg xs c r ! j = take r (drop (c mod N) xs) ! j" using j assms by (simp add: seg_def)
qed (use assms in simp)

lemma seg_two_pieces:
  assumes "length xs = N" "0 < N" "N < c mod N + r" "r \<le> N"
  shows "seg xs c r = drop (c mod N) xs @ take (c mod N + r - N) xs"
proof -
  define i where "i = c mod N"
  have i: "i < N" using assms(2) by (simp add: i_def)
  have "seg xs c r ! j = (drop i xs @ take (i + r - N) xs) ! j" if j: "j < r" for j
  proof -
    have e: "(c + j) mod N = (i + j) mod N" by (simp add: mod_simps i_def)
    show ?thesis
    proof (cases "i + j < N")
      case True
      then show ?thesis using j assms e i by (simp add: seg_def nth_append less_diff_conv)
    next
      case False
      then have "(i + j) mod N = i + j - N" using j assms i by (simp add: le_mod_geq)
      moreover have "\<not> j < N - i" "j - (N - i) = i + j - N" using False i by linarith+
      ultimately show ?thesis using j assms(1,4) e by (simp add: seg_def nth_append)
    qed
  qed
  moreover have "length (drop i xs @ take (i + r - N) xs) = r" using assms i by (simp add: i_def [symmetric] min_def)
  ultimately show ?thesis unfolding i_def [symmetric] by (intro nth_equalityI) simp_all
qed

text \<open>The length of the first piece is computed from the counter instead of the index, in an \<^verbatim>\<open>int\<close>.\<close>

definition first_bytes :: "pipe_buf \<Rightarrow> int" where
  "first_bytes b = wrap32 (uint (capacity b - pb_cons b))"

lemma wrap32_cong: "wrap32 x mod 2 ^ 32 = x mod 2 ^ 32"
  unfolding wrap32_def mod_diff_left_eq by simp

lemma wrap32_range: "- (2 ^ 31) \<le> wrap32 x" "wrap32 x < 2 ^ 31"
proof -
  have "0 \<le> (x + 2 ^ 31) mod 2 ^ 32" "(x + 2 ^ 31) mod 2 ^ 32 < 2 ^ 32" by (rule pos_mod_sign, simp) (rule pos_mod_bound, simp)
  then show "- (2 ^ 31) \<le> wrap32 x" "wrap32 x < 2 ^ 31" unfolding wrap32_def by simp_all
qed

lemma first_bytes_dvd:
  assumes "pipe_inv k b"
  shows "2 ^ 32 dvd first_bytes b - (2 ^ k - int (unat (pb_cons b)))"
proof -
  have "uint (capacity b - pb_cons b) = (2 ^ k - int (unat (pb_cons b))) mod 2 ^ 64"
  proof -
    have "uint (capacity b) = 2 ^ k" using pipe_invD(5) [OF assms] by (simp only: uint_nat) simp
    moreover have "uint (capacity b - pb_cons b) = (uint (capacity b) - uint (pb_cons b)) mod 2 ^ 64" using uint_word_ariths(2) [of "capacity b" "pb_cons b"] by simp
    ultimately show ?thesis by (simp only: uint_nat)
  qed
  moreover have "first_bytes b mod 2 ^ 32 = uint (capacity b - pb_cons b) mod 2 ^ 32" by (simp only: first_bytes_def wrap32_cong)
  moreover have "(x mod 2 ^ 64) mod 2 ^ 32 = x mod (2 ^ 32 :: int)" for x by (rule mod_mod_cancel) simp
  ultimately show ?thesis by (simp only: mod_eq_dvd_iff)
qed

text \<open>It is right exactly when the counter differs from the index by a multiple of \<open>2 ^ 32\<close>; otherwise the copy is out of range.\<close>

lemma first_bytes_cases:
  assumes inv: "pipe_inv k b" and i: "i = unat (pb_cons b) mod 2 ^ k" "0 < i"
  shows "first_bytes b = 2 ^ k - int i \<longleftrightarrow> 2 ^ 32 dvd unat (pb_cons b) - i"
    "0 \<le> first_bytes b \<Longrightarrow> first_bytes b \<le> 2 ^ k - int i \<Longrightarrow> first_bytes b = 2 ^ k - int i"
proof -
  define v c where "v = first_bytes b" and "c = unat (pb_cons b)"
  have k: "k \<le> 30" "(2 :: int) ^ k \<le> 2 ^ 30" using pipe_invD(1) [OF inv] power_increasing [of k 30 "2 :: int"] by simp_all
  have D: "2 ^ 32 dvd v - (2 ^ k - int c)" using first_bytes_dvd [OF inv] by (simp only: v_def c_def)
  have v: "- (2 ^ 31) \<le> v" "v < 2 ^ 31" unfolding v_def first_bytes_def by (rule wrap32_range)+
  have ic: "i \<le> c" "i < 2 ^ k" using i(1) by (simp_all add: c_def)
  have ii: "int i < 2 ^ k" using ic(2) by (metis of_nat_less_iff of_nat_numeral of_nat_power)
  have ci: "int (c - i) = int c - int i" using ic(1) by simp
  have nat: "2 ^ 32 dvd c - i \<longleftrightarrow> (2 ^ 32 :: int) dvd int c - int i" unfolding ci [symmetric] by (simp only: int_dvd_int_iff [symmetric]) simp
  show "first_bytes b = 2 ^ k - int i \<longleftrightarrow> 2 ^ 32 dvd unat (pb_cons b) - i" unfolding v_def [symmetric] c_def [symmetric] nat
  proof
    assume "v = 2 ^ k - int i"
    then have "v - (2 ^ k - int c) = int c - int i" by simp
    then show "2 ^ 32 dvd int c - int i" using D by (simp only:)
  next
    assume d: "2 ^ 32 dvd int c - int i"
    have "2 ^ 32 dvd (v - (2 ^ k - int c)) - (int c - int i)" by (rule dvd_diff [OF D d])
    moreover have "(v - (2 ^ k - int c)) - (int c - int i) = v - (2 ^ k - int i)" by simp
    ultimately have "2 ^ 32 dvd v - (2 ^ k - int i)" by (simp only:)
    moreover have "\<bar>v - (2 ^ k - int i)\<bar> < 2 ^ 32"
    proof -
      define w where "w = 2 ^ k - int i"
      have "w \<le> 2 ^ 30" "0 < w" using k(2) ii unfolding w_def by linarith+
      then show ?thesis unfolding w_def [symmetric] using v by (simp add: abs_less_iff)
    qed
    ultimately have "v - (2 ^ k - int i) = 0" using dvd_imp_le_int [of "v - (2 ^ k - int i)" "2 ^ 32"] by force
    then show "v = 2 ^ k - int i" by simp
  qed
  assume b: "0 \<le> first_bytes b" "first_bytes b \<le> 2 ^ k - int i"
  have "(2 :: int) ^ k dvd 2 ^ 32" by (rule le_imp_power_dvd) (use k in simp)
  then have "2 ^ k dvd v - (2 ^ k - int c)" using D by (rule dvd_trans)
  moreover have "2 ^ k dvd int c - int i"
    using i(1) by (simp add: c_def [symmetric] of_nat_mod minus_mod_eq_mult_div)
  ultimately have "2 ^ k dvd (v - (2 ^ k - int c)) - (int c - int i) + 2 ^ k" using dvd_add [OF dvd_diff dvd_refl] by blast
  moreover have "(v - (2 ^ k - int c)) - (int c - int i) + 2 ^ k = v + int i" by simp
  ultimately have "2 ^ k dvd v + int i" by (simp only:)
  moreover have "0 < v + int i" "v + int i \<le> 2 ^ k" using b i(2) by (simp_all add: v_def)
  ultimately have "v + int i = 2 ^ k" using zdvd_imp_le by fastforce
  then show "first_bytes b = 2 ^ k - int i" by (simp add: v_def)
qed


text \<open>Where a read works: it does not run over the end of the buffer, or the length of the first piece comes out right.\<close>

definition read_works :: "nat \<Rightarrow> pipe_buf \<Rightarrow> nat \<Rightarrow> bool" where
  "read_works k b len \<longleftrightarrow> (let i = unat (pb_cons b) mod 2 ^ k; r = min (length (pipe_contents b)) len in
     i + r \<le> 2 ^ k \<or> 2 ^ 32 dvd unat (pb_cons b) - i)"

lemma pipe_buf_read_run:
  fixes k :: nat and b :: pipe_buf and iov :: "u8 list"
  assumes inv: "pipe_inv k b"
  defines "N \<equiv> (2 :: nat) ^ k" and "i \<equiv> unat (pb_cons b) mod 2 ^ k" and "r \<equiv> min (length (pipe_contents b)) (length iov)"
  shows "pipe_buf_read b iov = (if r = 0 then Some (b, iov, 0) else do {
      d \<leftarrow> (if i + r \<le> N then copy_to iov 0 (drop i (data b)) (int r)
            else do { d \<leftarrow> copy_to iov 0 (drop i (data b)) (first_bytes b); copy_to d (nat (first_bytes b)) (data b) (wrap32 (int i + int r - int N)) });
      Some (b\<lparr>pb_cons := pb_cons b + of_nat r\<rparr>, d, r) })"
proof -
  have "length (pipe_contents b) = unat (pipe_buf_get_available b)" by (simp add: pipe_contents_def pipe_buf_get_available_def)
  then show ?thesis using pipe_idx [OF inv, of "pb_cons b"] pipe_invD(5) [OF inv]
    by (simp only: pipe_buf_read_def Let_def first_bytes_def [symmetric] r_def i_def N_def)
qed

lemma pipe_buf_read_fails:
  assumes inv: "pipe_inv k b" and bad: "\<not> read_works k b (length iov)"
  shows "pipe_buf_read b iov = None"
proof -
  define i r where "i = unat (pb_cons b) mod 2 ^ k" and "r = min (length (pipe_contents b)) (length iov)"
  have b: "\<not> i + r \<le> 2 ^ k" "\<not> 2 ^ 32 dvd unat (pb_cons b) - i" using bad by (auto simp: read_works_def Let_def i_def r_def)
  have "r \<le> 2 ^ k" using pipe_invD(4) [OF inv] by (simp add: r_def pipe_contents_def)
  moreover have "i < 2 ^ k" by (simp add: i_def)
  ultimately have i: "0 < i" "0 < r" "i < 2 ^ k" using b(1) by (cases "i = 0"; cases "r = 0"; simp)+
  have "first_bytes b \<noteq> 2 ^ k - int i" using first_bytes_cases(1) [OF inv i_def i(1)] b(2) by simp
  then have "first_bytes b < 0 \<or> 2 ^ k - int i < first_bytes b" using first_bytes_cases(2) [OF inv i_def i(1)] by linarith
  moreover have "int (2 ^ k - i) = 2 ^ k - int i" using i(3) by (simp add: of_nat_diff)
  ultimately have "copy_to iov 0 (drop i (data b)) (first_bytes b) = None" using pipe_invD(3) [OF inv] by (auto simp: copy_to_def)
  then show ?thesis using b(1) i(2) unfolding pipe_buf_read_run [OF inv] i_def [symmetric] r_def [symmetric] by simp
qed

lemma pipe_buf_read_ok:
  fixes k :: nat and b :: pipe_buf and iov :: "u8 list"
  assumes inv: "pipe_inv k b" and good: "read_works k b (length iov)"
  defines "r \<equiv> min (length (pipe_contents b)) (length iov)"
  shows "\<exists>b'. pipe_buf_read b iov = Some (b', take r (pipe_contents b) @ drop r iov, r) \<and> pipe_inv k b' \<and>
    pipe_contents b' = drop r (pipe_contents b)"
proof -
  note D = pipe_invD [OF inv]
  define N c u i where "N = (2 :: nat) ^ k" and "c = unat (pb_cons b)" and "u = unat (pb_prod b - pb_cons b)" and "i = unat (pb_cons b) mod 2 ^ k"
  have N: "0 < N" "N \<le> 2 ^ 30" "u \<le> N" "length (data b) = N" using D by (simp_all add: N_def u_def)
  have cont: "pipe_contents b = seg (data b) c u" by (simp add: pipe_contents_def c_def u_def)
  have r: "r \<le> u" "r \<le> N" "r \<le> length iov" using N(3) by (simp_all add: r_def cont)
  have tk: "take r (pipe_contents b) = seg (data b) c r" using r by (simp add: cont seg_take)
  have ic: "i = c mod N" by (simp add: i_def c_def N_def)
  have d: "(if i + r \<le> N then copy_to iov 0 (drop i (data b)) (int r)
      else do { d \<leftarrow> copy_to iov 0 (drop i (data b)) (first_bytes b); copy_to d (nat (first_bytes b)) (data b) (wrap32 (int i + int r - int N)) }) =
    Some (seg (data b) c r @ drop r iov)"
  proof (cases "i + r \<le> N")
    case True
    then show ?thesis using seg_one_piece [OF N(4) _ N(1), of c r] r N(4) by (simp add: copy_to_def ic)
  next
    case False
    then have i: "0 < i" "i < N" using r(2) N(1) by (auto simp: ic)
    define m1 m2 where "m1 = N - i" and "m2 = i + r - N"
    have m: "r = m1 + m2" "i + m1 = N" "m2 \<le> N" using i False r by (simp_all add: m1_def m2_def)
    have "first_bytes b = int m1"
      using first_bytes_cases(1) [OF inv i_def i(1)] good False i(2) by (simp add: read_works_def Let_def i_def [symmetric] r_def [symmetric] N_def of_nat_diff m1_def)
    moreover have "wrap32 (int i + int r - int N) = int m2" using False i r N by (simp add: wrap32_id of_nat_diff m2_def)
    moreover have "seg (data b) c r = drop i (data b) @ take m2 (data b)"
      using seg_two_pieces [OF N(4,1), of c r] False r(2) by (simp add: ic m2_def)
    moreover have "length (drop i (data b)) = m1" using N(4) by (simp add: m1_def)
    ultimately show ?thesis using False m(1,3) r(3) N(4) by (simp add: copy_to_def add.commute)
  qed
  let ?b = "b\<lparr>pb_cons := pb_cons b + of_nat r\<rparr>"
  have rr: "unat (of_nat r :: u64) = r" using r N(2) by (simp add: unat_of_nat)
  have u': "unat (pb_prod ?b - pb_cons ?b) = u - r"
  proof -
    have "pb_prod ?b - pb_cons ?b = (pb_prod b - pb_cons b) - of_nat r" by simp
    then show ?thesis using r(1) rr by (simp only:) (subst unat_sub_no_ovf, simp_all add: u_def)
  qed
  have "pipe_contents ?b = seg (data b) (unat (pb_cons b + of_nat r)) (u - r)" using u' by (simp add: pipe_contents_def)
  also have "\<dots> = seg (data b) (unat (pb_cons b + of_nat r) mod N) (u - r)" using seg_mod [of "data b"] N(4) by simp
  also have "unat (pb_cons b + of_nat r) mod N = (c + r) mod N" using unat_plus_mod_pow [of k "pb_cons b" "of_nat r"] D(1) rr by (simp add: N_def c_def)
  also have "seg (data b) ((c + r) mod N) (u - r) = drop r (pipe_contents b)" using seg_mod [of "data b" "c + r"] N(4) by (simp add: cont seg_drop)
  finally have c': "pipe_contents ?b = drop r (pipe_contents b)" .
  have inv': "pipe_inv k ?b" using D u' r(1) N(3) by (simp add: pipe_inv_def N_def)
  show ?thesis
  proof (cases "r = 0")
    case True
    then show ?thesis using inv pipe_buf_read_run [OF inv, of iov] by (simp add: r_def [symmetric])
  next
    case False
    have "pipe_buf_read b iov = (if r = 0 then Some (b, iov, 0) else do {
      d \<leftarrow> (if i + r \<le> N then copy_to iov 0 (drop i (data b)) (int r)
            else do { d \<leftarrow> copy_to iov 0 (drop i (data b)) (first_bytes b); copy_to d (nat (first_bytes b)) (data b) (wrap32 (int i + int r - int N)) });
      Some (?b, d, r) })"
      unfolding r_def i_def N_def by (rule pipe_buf_read_run [OF inv])
    then have "pipe_buf_read b iov = Some (?b, seg (data b) c r @ drop r iov, r)" unfolding d using False by simp
    then show ?thesis using tk c' inv' by auto
  qed
qed

end
