(* ===== verification/PipeTop.thy ===== *)
theory PipeTop
  imports PipeOk
begin

text \<open>Pipes under every sequence of reads and writes of their buffer.\<close>

inductive pipe_reach :: "nat \<Rightarrow> pipe_buf \<Rightarrow> u8 list \<Rightarrow> u8 list \<Rightarrow> bool" for k where
  start: "k \<le> 30 \<Longrightarrow> length bytes = 2 ^ k \<Longrightarrow> pipe_buf_alloc True (Some bytes) (2 ^ k) = Some (Some b) \<Longrightarrow> pipe_reach k b [] []"
| written: "pipe_reach k b w g \<Longrightarrow> pipe_buf_write b iov = Some (b', n) \<Longrightarrow> pipe_reach k b' (w @ take n iov) g"
| read: "pipe_reach k b w g \<Longrightarrow> pipe_buf_read b iov = Some (b', d, n) \<Longrightarrow> pipe_reach k b' w (g @ take n d)"

lemma pipe_alloc_inv:
  assumes "k \<le> 30" "length bytes = 2 ^ k" "pipe_buf_alloc True (Some bytes) (2 ^ k) = Some (Some b)"
  shows "pipe_inv k b \<and> pipe_contents b = []"
proof -
  have "b = \<lparr>data = bytes, capacity = 2 ^ k, pb_prod = 0, pb_cons = 0\<rparr>"
    using assms(3) by (auto simp: pipe_buf_alloc_def bind_eq_Some_conv)
  then show ?thesis using assms by (simp add: pipe_inv_def pipe_contents_def)
qed

lemma pipe_reach_inv: "pipe_reach k b w g \<Longrightarrow> pipe_inv k b \<and> w = g @ pipe_contents b"
proof (induction rule: pipe_reach.induct)
  case (start bytes b)
  then show ?case using pipe_alloc_inv by auto
next
  case (written b w g iov b' n)
  then show ?case using pipe_buf_write_ok [of k b iov] by auto
next
  case (read b w g iov b' d n)
  then have inv: "pipe_inv k b" by simp
  have works: "read_works k b (length iov)" using pipe_buf_read_fails [OF inv] read(2) by fastforce
  let ?r = "min (length (pipe_contents b)) (length iov)"
  have "n = ?r" "d = take ?r (pipe_contents b) @ drop ?r iov" "pipe_inv k b'" "pipe_contents b' = drop ?r (pipe_contents b)"
    using pipe_buf_read_ok [OF inv works] read(2) by auto
  then show ?case using read(3) by simp
qed

section \<open>A whole write\<close>

fun pending :: "u8 list list \<Rightarrow> nat \<Rightarrow> u8 list" where
  "pending [] off = []"
| "pending (v # vs) off = drop off v @ concat vs"

fun left_over :: "u8 list progress \<Rightarrow> u8 list" where
  "left_over Done = []"
| "left_over (Wait vs off) = pending vs off"

lemma pending_0: "pending vs 0 = concat vs"
  by (cases vs) simp_all

text \<open>A call of \<^verbatim>\<open>pipe_write\<close> always gets to its end or to a point where the buffer is full, and the bytes of the vectors
enter the pipe in order: those that did not yet are what it waits with.\<close>

lemma write_loop_ok:
  "pipe_inv k b \<Longrightarrow> \<exists>b' p. write_loop b iovs off = Some (b', p) \<and> pipe_inv k b' \<and>
    pipe_contents b @ pending iovs off = pipe_contents b' @ left_over p \<and> (p \<noteq> Done \<longrightarrow> length (pipe_contents b') = 2 ^ k)"
proof (induction b iovs off rule: write_loop.induct)
  case (1 b off)
  then show ?case by simp
next
  case (2 b iov iovs off)
  show ?case
  proof (cases "off < length iov")
    case off: True
    obtain b' n where w: "pipe_buf_write b (drop off iov) = Some (b', n)" "n = min (2 ^ k - length (pipe_contents b)) (length iov - off)"
      "pipe_inv k b'" "pipe_contents b' = pipe_contents b @ take n (drop off iov)"
      using pipe_buf_write_ok [OF 2(3), of "drop off iov"] by auto
    show ?thesis
    proof (cases "n = 0")
      case True
      have "length (pipe_contents b) \<le> 2 ^ k" using pipe_invD(4) [OF 2(3)] by (simp add: pipe_contents_def)
      then have "length (pipe_contents b') = 2 ^ k" using True w(2,4) off by simp
      then show ?thesis using True off w by simp
    next
      case False
      have dd: "drop off iov = take n (drop off iov) @ drop (off + n) iov" using append_take_drop_id [of n "drop off iov"] by (simp add: add.commute)
      have "pipe_contents b @ pending (iov # iovs) off = pipe_contents b' @ pending (iov # iovs) (off + n)"
        unfolding pending.simps w(4) by (subst (1) dd) simp
      moreover have "write_loop b (iov # iovs) off = write_loop b' (iov # iovs) (off + n)" using off w(1) False by simp
      ultimately show ?thesis using 2(1) [OF off w(1) refl False w(3)] by (simp only:)
    qed
  next
    case False
    then show ?thesis using 2(2) [OF False 2(3)] by (auto simp: pending_0)
  qed
qed

section \<open>Properties\<close>

text \<open>C26: a pipe is a queue of bytes: whatever was read so far, followed by what the buffer holds, is what was written so far.
The buffer holds at most its capacity, a write stores as much as fits and never fails, and a read that returns
yields the oldest bytes, as many as there are and fit.\<close>

theorem pipe_fifo:
  assumes "pipe_reach k b w g"
  shows "w = g @ pipe_contents b \<and> length (pipe_contents b) \<le> 2 ^ k \<and>
    (\<exists>b'. pipe_buf_write b iov = Some (b', min (2 ^ k - length (pipe_contents b)) (length iov))) \<and>
    (\<forall>b' d n. pipe_buf_read b iov = Some (b', d, n) \<longrightarrow>
       n = min (length (pipe_contents b)) (length iov) \<and> g @ take n d = take (length g + n) w \<and> drop n d = drop n iov)"
proof -
  have inv: "pipe_inv k b" and w: "w = g @ pipe_contents b" using pipe_reach_inv [OF assms] by simp_all
  have "length (pipe_contents b) \<le> 2 ^ k" using pipe_invD(4) [OF inv] by (simp add: pipe_contents_def)
  moreover have "\<exists>b'. pipe_buf_write b iov = Some (b', min (2 ^ k - length (pipe_contents b)) (length iov))"
    using pipe_buf_write_ok [OF inv, of iov] by auto
  moreover have "n = min (length (pipe_contents b)) (length iov) \<and> g @ take n d = take (length g + n) w \<and> drop n d = drop n iov"
    if "pipe_buf_read b iov = Some (b', d, n)" for b' d n
  proof -
    have works: "read_works k b (length iov)" using pipe_buf_read_fails [OF inv] that by fastforce
    show ?thesis using pipe_buf_read_ok [OF inv works] that w by auto
  qed
  ultimately show ?thesis using w by blast
qed

definition pipe4 :: pipe_buf where
  "pipe4 = \<lparr>data = [0, 0, 0, 0], capacity = 4, pb_prod = 0, pb_cons = 0\<rparr>"

lemma pipe4_start: "pipe_reach 2 pipe4 [] []"
  by (rule pipe_reach.start [of _ "[0, 0, 0, 0]"]) (simp_all add: pipe_buf_alloc_def POWER_OF_2_def pipe4_def)

theorem pipe_fifo_witness: "\<exists>b'. pipe_buf_write pipe4 [1, 2] = Some (b', min (4 - length (pipe_contents pipe4)) 2)"
  using pipe_fifo [OF pipe4_start, of "[1, 2]"] by (auto simp: eq_commute [of "[]"])



definition pipe4_at :: "u8 list \<Rightarrow> u64 \<Rightarrow> u64 \<Rightarrow> pipe_buf" where
  "pipe4_at d p c = \<lparr>data = d, capacity = 4, pb_prod = p, pb_cons = c\<rparr>"

lemma pipe4_steps:
  "pipe_buf_write pipe4 [1, 2, 3, 4] = Some (pipe4_at [1, 2, 3, 4] 4 0, 4)"
  "pipe_buf_read (pipe4_at [1, 2, 3, 4] 4 0) [0, 0, 0, 0] = Some (pipe4_at [1, 2, 3, 4] 4 4, [1, 2, 3, 4], 4)"
  "pipe_buf_write (pipe4_at [1, 2, 3, 4] 4 4) [5, 6, 7] = Some (pipe4_at [5, 6, 7, 4] 7 4, 3)"
  "pipe_buf_read (pipe4_at [5, 6, 7, 4] 7 4) [0, 0, 0] = Some (pipe4_at [5, 6, 7, 4] 7 7, [5, 6, 7], 3)"
  "pipe_buf_write (pipe4_at [5, 6, 7, 4] 7 7) [8, 9] = Some (pipe4_at [9, 6, 7, 8] 9 7, 2)"
  by code_simp+

lemma pipe4_second_lap: "pipe_reach 2 (pipe4_at [9, 6, 7, 8] 9 7) [1, 2, 3, 4, 5, 6, 7, 8, 9] [1, 2, 3, 4, 5, 6, 7]"
  using pipe_reach.written [OF pipe_reach.read [OF pipe_reach.written [OF pipe_reach.read [OF pipe_reach.written [OF pipe4_start
    pipe4_steps(1)] pipe4_steps(2)] pipe4_steps(3)] pipe4_steps(4)] pipe4_steps(5)] by (simp add: numeral_eq_Suc)


end
