(* ===== verification/Spec2Isabelle.thy ===== *)
theory Spec2Isabelle
  imports UkAllocTop Region RingTop NlStringTop NlStdioTop NlStrerror QsortOk Refcount SglistTop MboxConc VirtqueueTop VringLayout Timeconv FdtableTop PipeTop
begin

text \<open>
  This library verifies a part of Unikraft, the library operating system whose sources lie in
  \<^verbatim>\<open>src/experiments/tab_04_kvs_compare/aux/unikraft\<close>; all paths below are relative to that directory. An application is
  linked with the micro-libraries it needs and a platform layer, and runs in one address space on one processor. The
  parts modelled here are the memory allocators, the scheduler and its locks, the queues between threads, drivers
  and the host, the tables of the file system layer, and the small C library.

  \<^bold>\<open>Conventions.\<close> \<^verbatim>\<open>UkPrelude\<close> has the integer types (\<^verbatim>\<open>u8\<close> to \<^verbatim>\<open>u64\<close> are words of HOL-Library, so that arithmetic wraps around),
  the error numbers, and the lemmas on words and alignment that the components share. A C function becomes a function on
  its arguments and the state it reads and writes; a loop becomes a recursive function. A failed \<^verbatim>\<open>UK_ASSERT\<close>, an access
  outside an object and a loop that does not end are \<open>None\<close>, error codes are values of the type \<open>errno\<close>. Code that
  is interrupted or shares memory with other threads is cut into steps, and the properties hold for every interleaving of them.
  Each component has a theory with its definitions in the order of the source, theories with the lemmas on them (names ending
  in \<^verbatim>\<open>Ok\<close> or naming the aspect), and one whose name ends in \<^verbatim>\<open>Top\<close> with the properties.

  \<^bold>\<open>Page allocator\<close> (\<^verbatim>\<open>lib/ukallocbbuddy/bbuddy.c\<close>). \<^verbatim>\<open>Bbuddy\<close> has the free lists as a store of chunk headers with next and back
  pointers, the bitmaps as lists of words, and \<^verbatim>\<open>bbuddy_palloc\<close>, \<^verbatim>\<open>bbuddy_pfree\<close>, \<^verbatim>\<open>bbuddy_addmem\<close> and \<^verbatim>\<open>uk_allocbbuddy_init\<close>.
  \<^verbatim>\<open>BuddyBlocks\<close>, \<^verbatim>\<open>BbuddyMap\<close>, \<^verbatim>\<open>BbuddyList\<close> and \<^verbatim>\<open>BbuddyInv\<close> relate store and bitmaps to a set of disjoint aligned
  blocks without free buddies; \<^verbatim>\<open>BbuddyPalloc\<close>, \<^verbatim>\<open>BbuddyFree\<close> and \<^verbatim>\<open>BbuddyAdd\<close> show that the operations keep this invariant and
  change the free pages as they should; \<^verbatim>\<open>BbuddyTop\<close> has the properties for single calls and for clients that allocate and
  release in any order. The contract of a page allocator is the locale \<^verbatim>\<open>page_allocator\<close> of \<^verbatim>\<open>PageAlloc\<close>, interpreted by the
  buddy allocator.

  \<^bold>\<open>Heap\<close> (\<^verbatim>\<open>lib/ukalloc\<close>). \<^verbatim>\<open>UkAlloc\<close> has \<^verbatim>\<open>struct uk_alloc\<close> with its wrappers, malloc and its relatives on pages and on another
  malloc; \<^verbatim>\<open>UkAllocPages\<close> proves, in a locale over any page allocator, that live objects and metadata stay disjoint, and
  \<^verbatim>\<open>UkAllocTop\<close> states it for the buddy allocator. \<^verbatim>\<open>Region\<close> is the bump allocator \<^verbatim>\<open>lib/ukallocregion\<close>.

  \<^bold>\<open>Scheduler and locks\<close> (\<^verbatim>\<open>lib/uksched\<close>, \<^verbatim>\<open>lib/ukschedcoop\<close>, \<^verbatim>\<open>lib/uklock\<close>, \<^verbatim>\<open>lib/ukmpi\<close>). \<^verbatim>\<open>Sched\<close> has threads and the cooperative
  scheduler, whose idle loop takes what happens while the processor sleeps from a stream of events; \<^verbatim>\<open>SchedOk\<close> and \<^verbatim>\<open>SchedTop\<close> show that
  the lists of threads are consistent, that scheduling makes progress, and how long a thread waits. \<^verbatim>\<open>Lock\<close> gives a thread inside
  \<^verbatim>\<open>uk_waitq_wait_event\<close> a program counter; \<^verbatim>\<open>LockOk\<close> and \<^verbatim>\<open>LockTop\<close> show that no wake-up is lost and that semaphores and mutexes
  count correctly. \<^verbatim>\<open>Mbox\<close> and \<^verbatim>\<open>MboxConc\<close> are mailboxes built on them.

  \<^bold>\<open>Rings.\<close> \<^verbatim>\<open>Ring\<close> is the lock-free ring of \<^verbatim>\<open>include/uk/ring.h\<close>, cut at every access to shared memory; \<^verbatim>\<open>RingSeq\<close>, \<^verbatim>\<open>RingBulk\<close>,
  \<^verbatim>\<open>RingConc\<close> and \<^verbatim>\<open>RingTop\<close> show that it is a bounded queue (locale \<^verbatim>\<open>bounded_fifo\<close> of \<^verbatim>\<open>Fifo\<close>, which mailboxes interpret as well),
  also with one producer and one consumer running concurrently. \<^verbatim>\<open>Virtqueue\<close>, \<^verbatim>\<open>VirtqueueOk\<close>, \<^verbatim>\<open>VirtqueueTop\<close> and \<^verbatim>\<open>VringLayout\<close> are the
  descriptor rings of \<^verbatim>\<open>plat/drivers/virtio/virtio_ring.c\<close> with the device as the other side: every buffer is returned once, and the
  device sees the segments that were enqueued. \<^verbatim>\<open>Sglist\<close> to \<^verbatim>\<open>SglistTop\<close> are scatter/gather lists (\<^verbatim>\<open>lib/uksglist\<close>),
  specified by the physical bytes they describe. \<^verbatim>\<open>Refcount\<close> is \<^verbatim>\<open>include/uk/refcount.h\<close>.

  \<^bold>\<open>Bitmaps and files.\<close> \<^verbatim>\<open>Bitmap\<close>, \<^verbatim>\<open>BitmapOk\<close> and \<^verbatim>\<open>BitmapTop\<close> are \<^verbatim>\<open>include/uk/bitops.h\<close> and \<^verbatim>\<open>bitmap.h\<close>. \<^verbatim>\<open>Fdtable\<close>, \<^verbatim>\<open>FdtableOk\<close> and
  \<^verbatim>\<open>FdtableTop\<close> are the descriptor table and the reference counts of open files (\<^verbatim>\<open>lib/vfscore/fd.c\<close>, \<^verbatim>\<open>file.c\<close>), which use them;
  \<^verbatim>\<open>Pipe\<close>, \<^verbatim>\<open>PipeOk\<close> and \<^verbatim>\<open>PipeTop\<close> are \<^verbatim>\<open>lib/vfscore/pipe.c\<close>.
  \<^bold>\<open>C library\<close> (\<^verbatim>\<open>lib/nolibc\<close>). \<^verbatim>\<open>NlString\<close> to \<^verbatim>\<open>NlStringTop\<close> are the string functions over a memory of bytes, among them
  those that read a word at a time; \<^verbatim>\<open>NlStdlib\<close> and \<^verbatim>\<open>NlStdio\<close> with their lemmas are the number conversions and formatted output,
  \<^verbatim>\<open>NlStrerror\<close> the error messages, \<^verbatim>\<open>Qsort\<close> and \<^verbatim>\<open>QsortOk\<close> the sort. \<^verbatim>\<open>Timeconv\<close> is \<^verbatim>\<open>lib/uktimeconv\<close>.

  \<^bold>\<open>Bounds.\<close> No definition has fuel. Loops whose end depends on the data are \<^verbatim>\<open>partial_function (option)\<close> where the code can loop
  forever, and functions with a termination proof otherwise; that they return is part of the properties. Sizes that C keeps in \<^verbatim>\<open>int\<close> are cut to
  32 bits where the code relies on it (\<open>wrap32\<close>) and natural numbers elsewhere; the theory in question says so.

  \<^bold>\<open>Not modelled.\<close> Start-up code, interrupt and exception entry, page tables, context switches and the hypervisor interfaces of the
  platforms are assembler or accesses to devices, of which HOL has no model here; they enter as parameters or steps of the environment.
  The device drivers above the rings, the bus and device registries and the socket layer hand requests on between callbacks.
  The path-based part of \<^verbatim>\<open>lib/vfscore\<close> and the file systems under it depend on callbacks of the mounted file system.
  Vendored code (\<^verbatim>\<open>lib/fdt\<close>, the imported parts of newlib, lwip and the kconfig tools), the build system and the scripts of the experiments
  are outside. The manifest lists these parts one by one.
\<close>

end
